(* ===== verification/Prelude.thy ===== *)
theory Prelude
  imports Main "HOL-Library.Word"
begin

text \<open>
  Shared material of the development: the types of machine data (bytes, 32-bit words,
  addresses), byte-addressed memory with little-endian 32-bit loads and stores (the x86
  target of the Makefiles, which pass \<^verbatim>\<open>-m32\<close>), block copies and fills, and the
  C-integer conversions the sources rely on.
\<close>

unbundle bit_operations_syntax

named_theorems mem_simps \<open>loads after stores\<close>
named_theorems layout_intros \<open>how tag writes transform a block layout\<close>

section \<open>Machine types\<close>

type_synonym byte = "8 word"
type_synonym u32 = "32 word"
type_synonym addr = nat
type_synonym bytes = "addr \<Rightarrow> byte"

abbreviation (input) NULL :: addr where
  "NULL \<equiv> 0"

text \<open>Unsigned 32-bit arithmetic on naturals, with the wrap-around written out.\<close>

definition wrap32 :: "nat \<Rightarrow> nat" where
  "wrap32 n = n mod 2 ^ 32"

definition sub32 :: "nat \<Rightarrow> nat \<Rightarrow> nat" where
  "sub32 a b = (a + 2 ^ 32 - b) mod 2 ^ 32"

text \<open>The implicit conversion of an unsigned value to a C \<^verbatim>\<open>int\<close>.\<close>

definition to_int32 :: "nat \<Rightarrow> int" where
  "to_int32 n = sint (word_of_nat n :: u32)"

lemma wrap32_id [simp]: "n < 2 ^ 32 \<Longrightarrow> wrap32 n = n"
  by (simp add: wrap32_def)

lemma wrap32_less [simp]: "wrap32 n < 2 ^ 32"
  by (simp add: wrap32_def)

lemma sub32_id: "b \<le> a \<Longrightarrow> a < 2 ^ 32 \<Longrightarrow> sub32 a b = a - b"
  unfolding sub32_def by (simp add: mod_if)

lemma to_int32_small:
  assumes "n < 2 ^ 31"
  shows "to_int32 n = int n"
proof -
  have "take_bit 32 (int n) = int n" and "take_bit 31 (int n) = int n"
    using assms by (simp_all add: take_bit_int_eq_self)
  moreover have "\<not> bit (int n) 31"
    using assms by (simp add: bit_iff_odd)
  ultimately show ?thesis
    by (simp add: to_int32_def signed_of_nat signed_take_bit_eq_if_positive)
qed

lemma to_int32_big:
  assumes "2 ^ 31 \<le> n" and "n < 2 ^ 32"
  shows "to_int32 n < 0"
proof -
  have "int n div 2 ^ 31 = 1"
    using assms by (simp add: div_nat_eqI flip: zdiv_int)
  then have "bit (int n) 31"
    by (simp add: bit_iff_odd)
  then have "signed_take_bit 31 (int n) < 0"
    by (simp add: signed_take_bit_negative_iff)
  then show ?thesis
    by (simp add: to_int32_def signed_of_nat)
qed

section \<open>Byte memory\<close>

definition get32 :: "bytes \<Rightarrow> addr \<Rightarrow> u32" where
  "get32 m p = word_of_nat (unat (m p) + 256 * unat (m (p + 1)) + 65536 * unat (m (p + 2))
                            + 16777216 * unat (m (p + 3)))"

definition put32 :: "bytes \<Rightarrow> addr \<Rightarrow> u32 \<Rightarrow> bytes" where
  "put32 m p v = (\<lambda>a. if p \<le> a \<and> a < p + 4 then word_of_nat (unat v div 256 ^ (a - p)) else m a)"

definition memcpy :: "bytes \<Rightarrow> addr \<Rightarrow> addr \<Rightarrow> nat \<Rightarrow> bytes" where
  "memcpy m dst src n = (\<lambda>a. if dst \<le> a \<and> a < dst + n then m (src + (a - dst)) else m a)"

definition memset :: "bytes \<Rightarrow> addr \<Rightarrow> byte \<Rightarrow> nat \<Rightarrow> bytes" where
  "memset m p c n = (\<lambda>a. if p \<le> a \<and> a < p + n then c else m a)"

lemma base256_digits:
  fixes n :: nat
  shows "n mod 256 + 256 * (n div 256 mod 256) + 65536 * (n div 65536 mod 256)
           + 16777216 * (n div 16777216 mod 256) = n mod 4294967296"
proof -
  have "n mod 65536 = 256 * (n div 256 mod 256) + n mod 256"
    using mod_mult2_eq [of n 256 256] by simp
  moreover have "n mod 16777216 = 65536 * (n div 65536 mod 256) + n mod 65536"
    using mod_mult2_eq [of n 65536 256] by simp
  moreover have "n mod 4294967296 = 16777216 * (n div 16777216 mod 256) + n mod 16777216"
    using mod_mult2_eq [of n 16777216 256] by simp
  ultimately show ?thesis by simp
qed

lemma unat_u32_less: "unat (v :: u32) < 4294967296"
  using unsigned_less [of v] by simp

lemma unat_byte_of_nat: "unat (word_of_nat n :: byte) = n mod 256"
  by (simp add: unsigned_of_nat take_bit_eq_mod)

lemma unat_put32: "i < 4 \<Longrightarrow> unat (put32 m p v (p + i)) = unat v div 256 ^ i mod 256"
  by (simp add: put32_def unat_byte_of_nat)

lemma get32_put32_same [simp, mem_simps]: "get32 (put32 m p v) p = v"
proof -
  have "get32 (put32 m p v) p
      = word_of_nat (unat v mod 256 + 256 * (unat v div 256 mod 256)
          + 65536 * (unat v div 65536 mod 256) + 16777216 * (unat v div 16777216 mod 256))"
    using unat_put32 [of 0 m p v] unat_put32 [of 1 m p v] unat_put32 [of 2 m p v]
      unat_put32 [of 3 m p v]
    unfolding get32_def by simp
  also have "\<dots> = word_of_nat (unat v)"
    unfolding base256_digits using unat_u32_less [of v] by simp
  finally show ?thesis by simp
qed

lemma get32_put32_other [mem_simps]:
  "p + 4 \<le> q \<or> q + 4 \<le> p \<Longrightarrow> get32 (put32 m p v) q = get32 m q"
  by (auto simp: get32_def put32_def)

lemma put32_outside [mem_simps]: "a < p \<or> p + 4 \<le> a \<Longrightarrow> put32 m p v a = m a"
  by (auto simp: put32_def)

lemma unat_byte_less: "unat (b :: byte) < 256"
  using unsigned_less [of b] by simp

lemma unat_get32:
  "unat (get32 m p) = unat (m p) + 256 * unat (m (p + 1)) + 65536 * unat (m (p + 2)) + 16777216 * unat (m (p + 3))"
  (is "_ = ?n")
proof -
  have "?n < 2 ^ 32"
    using unat_byte_less [of "m p"] unat_byte_less [of "m (p + 1)"] unat_byte_less [of "m (p + 2)"]
      unat_byte_less [of "m (p + 3)"] by simp
  then have "unat (word_of_nat ?n :: u32) = ?n" by (simp only: unsigned_of_nat take_bit_eq_mod len_of_numeral_defs, simp)
  then show ?thesis by (simp only: get32_def)
qed

lemma digits256:
  fixes a b c d :: nat
  assumes "a < 256" "b < 256" "c < 256" "d < 256"
  defines "n \<equiv> a + 256 * b + 65536 * c + 16777216 * d"
  shows "n mod 256 = a" "n div 256 mod 256 = b" "n div 65536 mod 256 = c" "n div 16777216 mod 256 = d"
proof -
  have n: "n = a + 256 * (b + 256 * (c + 256 * d))" by (simp add: n_def)
  show "n mod 256 = a" unfolding n mod_mult_self2 using assms(1) by simp
  have 1: "n div 256 = b + 256 * (c + 256 * d)" using assms(1) by (simp add: n)
  then show "n div 256 mod 256 = b" unfolding 1 mod_mult_self2 using assms(2) by simp
  have 2: "n div 65536 = c + 256 * d" using div_mult2_eq [of n 256 256] 1 assms(2) by simp
  then show "n div 65536 mod 256 = c" unfolding 2 mod_mult_self2 using assms(3) by simp
  have "n div 16777216 = d" using div_mult2_eq [of n 65536 256] 2 assms(3) by simp
  then show "n div 16777216 mod 256 = d" using assms(4) by simp
qed

lemma put32_get32 [simp, mem_simps]: "put32 m p (get32 m p) = m"
proof
  fix a
  show "put32 m p (get32 m p) a = m a"
  proof (cases "p \<le> a \<and> a < p + 4")
    case False
    then show ?thesis by (intro put32_outside) auto
  next
    case True
    then obtain i where i: "a = p + i" "i < 4" by (metis le_Suc_ex nat_add_left_cancel_less)
    note D = digits256 [OF unat_byte_less unat_byte_less unat_byte_less unat_byte_less,
        of "m p" "m (p + 1)" "m (p + 2)" "m (p + 3)", folded unat_get32]
    have "i = 0 \<or> i = 1 \<or> i = 2 \<or> i = 3" using i(2) by auto
    then have "unat (get32 m p) div 256 ^ i mod 256 = unat (m (p + i))" using D by auto
    then have "unat (put32 m p (get32 m p) a) = unat (m a)" using i unat_put32 by metis
    then show ?thesis by (simp add: word_unat_eq_iff)
  qed
qed
lemma get32_cong: "(\<And>a. p \<le> a \<Longrightarrow> a < p + 4 \<Longrightarrow> m a = m' a) \<Longrightarrow> get32 m p = get32 m' p"
  by (simp add: get32_def)

section \<open>Counting threads\<close>

text \<open>How many entries of a list of program counters satisfy a predicate, and how that changes when
  one of them moves.\<close>

definition count_if :: "('a \<Rightarrow> bool) \<Rightarrow> 'a list \<Rightarrow> nat" where
  "count_if P xs = length (filter P xs)"

lemma cnt_update:
  assumes "i < length xs"
  shows "count_if P (xs[i := v]) + (if P (xs ! i) then 1 else 0) = count_if P xs + (if P v then 1 else 0)"
proof -
  have "filter P xs = filter P (take i xs) @ (if P (xs ! i) then [xs ! i] else []) @ filter P (drop (Suc i) xs)"
    using arg_cong [OF id_take_nth_drop [OF assms], of "filter P"] by simp
  then show ?thesis using assms by (simp add: count_if_def upd_conv_take_nth_drop)
qed

lemma cnt_replicate [simp]: "count_if P (replicate n x) = (if P x then n else 0)"
  by (simp add: count_if_def)

lemma cnt_pos: "i < length xs \<Longrightarrow> P (xs ! i) \<Longrightarrow> 0 < count_if P xs"
  by (auto simp: count_if_def filter_empty_conv)

lemma cnt_le_one:
  assumes "count_if P xs \<le> 1" "i < length xs" "j < length xs" "P (xs ! i)" "P (xs ! j)"
  shows "i = j"
proof (rule ccontr)
  assume "i \<noteq> j"
  then have "{i, j} \<subseteq> {k. k < length xs \<and> P (xs ! k)}" using assms by auto
  then have "card {i, j} \<le> card {k. k < length xs \<and> P (xs ! k)}" by (intro card_mono) auto
  with \<open>i \<noteq> j\<close> assms(1) show False by (simp add: count_if_def length_filter_conv_card)
qed

end
