(* ===== verification/Memlib.thy ===== *)
theory Memlib
  imports Prelude
begin

text \<open>
  The simulated memory system of \<^verbatim>\<open>mymalloc_nextfit/memlib.c\<close> (the copies in
  \<^verbatim>\<open>mymalloc_buddy\<close> and \<^verbatim>\<open>CSE4100/vm/malloc\<close> keep the same three pointers): a fixed
  arena obtained from the C library and a break pointer that only grows.  The bytes of the
  process are the field \<open>heap\<close>; \<open>(void*)-1\<close> is \<open>None\<close>.
\<close>

record memsys =
  mem_start_brk :: addr
  mem_brk :: addr
  mem_max_addr :: addr
  heap :: bytes

definition MAX_HEAP :: nat where
  "MAX_HEAP = 20 * 2 ^ 20"

text \<open>\<open>mem_init\<close>: \<open>p\<close> is what the C library's \<^verbatim>\<open>malloc(MAX_HEAP)\<close> returned; a null
  pointer makes the program exit (\<open>None\<close>).\<close>

definition mem_init :: "addr \<Rightarrow> 'a memsys_scheme \<Rightarrow> 'a memsys_scheme option" where
  "mem_init p s =
     (if p = NULL then None
      else Some (s\<lparr>mem_start_brk := p, mem_max_addr := p + MAX_HEAP, mem_brk := p\<rparr>))"

definition mem_reset_brk :: "'a memsys_scheme \<Rightarrow> 'a memsys_scheme" where
  "mem_reset_brk s = s\<lparr>mem_brk := mem_start_brk s\<rparr>"

definition mem_sbrk :: "int \<Rightarrow> 'a memsys_scheme \<Rightarrow> addr option \<times> 'a memsys_scheme" where
  "mem_sbrk incr s =
     (let old_brk = mem_brk s in
      if incr < 0 \<or> int (mem_brk s) + incr > int (mem_max_addr s) then (None, s)
      else (Some old_brk, s\<lparr>mem_brk := nat (int (mem_brk s) + incr)\<rparr>))"

definition mem_heap_lo :: "'a memsys_scheme \<Rightarrow> addr" where
  "mem_heap_lo s = mem_start_brk s"

definition mem_heap_hi :: "'a memsys_scheme \<Rightarrow> addr" where
  "mem_heap_hi s = mem_brk s - 1"

definition mem_heapsize :: "'a memsys_scheme \<Rightarrow> nat" where
  "mem_heapsize s = mem_brk s - mem_start_brk s"

text \<open>The arena is a double-word aligned area of the 32-bit address space and the break lies
  inside it.\<close>

definition mem_wf :: "'a memsys_scheme \<Rightarrow> bool" where
  "mem_wf s \<longleftrightarrow> 0 < mem_start_brk s \<and> 8 dvd mem_start_brk s \<and> mem_start_brk s \<le> mem_brk s
     \<and> mem_brk s \<le> mem_max_addr s \<and> mem_max_addr s < 2 ^ 32"

lemma mem_init_wf:
  assumes "mem_init p s = Some s'" and "8 dvd p" and "p + MAX_HEAP < 2 ^ 32"
  shows "mem_wf s' \<and> mem_heapsize s' = 0"
  using assms by (auto simp: mem_init_def mem_wf_def mem_heapsize_def split: if_splits)

lemma mem_reset_brk_wf: "mem_wf s \<Longrightarrow> mem_wf (mem_reset_brk s)"
  by (simp add: mem_wf_def mem_reset_brk_def)

lemma mem_sbrk_None: "mem_sbrk i s = (None, s') \<Longrightarrow> s' = s"
  by (auto simp: mem_sbrk_def Let_def split: if_splits)

lemma mem_sbrk_Some:
  "mem_sbrk i s = (Some p, s') \<Longrightarrow>
     0 \<le> i \<and> p = mem_brk s \<and> s' = s\<lparr>mem_brk := mem_brk s + nat i\<rparr>
     \<and> mem_brk s + nat i \<le> mem_max_addr s"
  by (auto simp: mem_sbrk_def Let_def nat_add_distrib split: if_splits)

lemma mem_sbrk_wf: "mem_sbrk i s = (r, s') \<Longrightarrow> mem_wf s \<Longrightarrow> mem_wf s'"
  by (cases r) (auto dest: mem_sbrk_None mem_sbrk_Some simp: mem_wf_def)

text \<open>A request of an unsigned size goes through the conversion to \<^verbatim>\<open>int\<close>: sizes of
  two gigabytes and more are refused because they turn negative.\<close>

lemma mem_sbrk_unsigned:
  assumes "mem_wf s" and "n < 2 ^ 32"
  shows "mem_sbrk (to_int32 n) s =
    (if mem_brk s + n \<le> mem_max_addr s \<and> n < 2 ^ 31
     then (Some (mem_brk s), s\<lparr>mem_brk := mem_brk s + n\<rparr>) else (None, s))"
proof (cases "n < 2 ^ 31")
  case True
  then show ?thesis by (auto simp: mem_sbrk_def to_int32_small nat_add_distrib)
next
  case False
  then have "to_int32 n < 0" using to_int32_big assms(2) by simp
  with False show ?thesis by (simp add: mem_sbrk_def)
qed

end
