(* ===== verification/Boundary_Tags.thy ===== *)
theory Boundary_Tags
  imports Memlib
begin

text \<open>
  Boundary tags: the macros of \<^verbatim>\<open>mymalloc_nextfit/mm.c\<close> on byte memory, and the theory of
  tagged block sequences both implicit-list allocators are built on.  A heap is a sequence of
  blocks \<open>(size, allocated)\<close>; a block at \<open>bp\<close> has its size and state in the word before \<open>bp\<close>
  and again in its last word.
\<close>

section \<open>The macros\<close>

definition WSIZE :: nat where "WSIZE = 4"
definition DSIZE :: nat where "DSIZE = 8"
definition CHUNCKSIZE :: nat where "CHUNCKSIZE = 4096"

definition PACK :: "nat \<Rightarrow> nat \<Rightarrow> u32" where
  "PACK sz alloc = word_of_nat sz OR word_of_nat alloc"

definition GET :: "bytes \<Rightarrow> addr \<Rightarrow> u32" where
  "GET m p = get32 m p"

definition PUT :: "bytes \<Rightarrow> addr \<Rightarrow> u32 \<Rightarrow> bytes" where
  "PUT m p v = put32 m p v"

definition GET_SIZE :: "bytes \<Rightarrow> addr \<Rightarrow> nat" where
  "GET_SIZE m p = unat (GET m p AND NOT 7)"

definition IS_IT_ALLOC :: "bytes \<Rightarrow> addr \<Rightarrow> bool" where
  "IS_IT_ALLOC m p \<longleftrightarrow> GET m p AND 1 \<noteq> 0"

definition HEADER_P :: "addr \<Rightarrow> addr" where
  "HEADER_P bp = bp - WSIZE"

definition FOOTER_P :: "bytes \<Rightarrow> addr \<Rightarrow> addr" where
  "FOOTER_P m bp = bp + GET_SIZE m (HEADER_P bp) - WSIZE - WSIZE"

definition NEXT_BLOCK_BP :: "bytes \<Rightarrow> addr \<Rightarrow> addr" where
  "NEXT_BLOCK_BP m bp = bp + GET_SIZE m (HEADER_P bp)"

definition PREV_BLOCK_BP :: "bytes \<Rightarrow> addr \<Rightarrow> addr" where
  "PREV_BLOCK_BP m bp = bp - GET_SIZE m (bp - DSIZE)"

lemmas size_defs = WSIZE_def DSIZE_def CHUNCKSIZE_def
lemmas macro_defs = GET_def PUT_def GET_SIZE_def IS_IT_ALLOC_def HEADER_P_def FOOTER_P_def
  NEXT_BLOCK_BP_def PREV_BLOCK_BP_def size_defs

section \<open>Packing and unpacking\<close>

lemma bit_word_of_nat: "bit (word_of_nat n :: u32) i \<longleftrightarrow> i < 32 \<and> bit n i"
  by (simp add: bit_simps)

lemma dvd8_low_bits:
  assumes "8 dvd (n :: nat)" and "i < 3"
  shows "\<not> bit n i"
proof -
  from assms(1) obtain k where "n = push_bit 3 k" by (auto elim!: dvdE simp: push_bit_eq_mult)
  then show ?thesis using assms(2) by (simp add: bit_simps)
qed

lemma PACK_size:
  assumes "8 dvd n" and "n < 2 ^ 32" and "a < 8"
  shows "unat (PACK n a AND NOT 7) = n"
proof -
  have seven: "(7 :: u32) = mask 3" by (simp add: mask_eq_exp_minus_1)
  have "take_bit 3 a = a" using assms(3) by (simp add: take_bit_nat_eq_self)
  then have hi: "3 \<le> i \<Longrightarrow> \<not> bit a i" for i
    by (metis bit_take_bit_iff leD)
  have "PACK n a AND NOT 7 = word_of_nat n"
    unfolding seven PACK_def
    by (rule bit_eqI)
      (use dvd8_low_bits [OF assms(1)] hi in
        \<open>auto simp: bit_word_of_nat bit_and_iff bit_or_iff bit_not_iff bit_mask_iff intro!: leI\<close>)
  with assms(2) show ?thesis by (simp add: unsigned_of_nat take_bit_nat_eq_self)
qed

lemma PACK_alloc:
  assumes "8 dvd n"
  shows "PACK n 1 AND 1 \<noteq> 0" and "PACK n 0 AND 1 = 0"
proof -
  have "bit (PACK n 1 AND 1) 0" by (simp add: PACK_def bit_simps)
  then show "PACK n 1 AND 1 \<noteq> 0" by (metis bit_0_eq bot_apply bot_bool_def)
  show "PACK n 0 AND 1 = 0"
    unfolding PACK_def
    by (rule bit_eqI) (use dvd8_low_bits [OF assms, of 0] in \<open>auto simp: bit_simps intro!: gr0I\<close>)
qed

text \<open>The tag word of a block.\<close>

definition tag :: "nat \<Rightarrow> bool \<Rightarrow> u32" where
  "tag sz al = PACK sz (if al then 1 else 0)"

lemma PACK_tag: "PACK sz 0 = tag sz False" "PACK sz 1 = tag sz True"
  by (simp_all add: tag_def)

lemma GET_SIZE_tag:
  assumes "get32 m p = tag sz al" and "8 dvd sz" and "sz < 2 ^ 32"
  shows "GET_SIZE m p = sz"
  unfolding GET_SIZE_def GET_def assms(1) tag_def
  by (rule PACK_size) (use assms in simp_all)

lemma IS_IT_ALLOC_tag:
  assumes "get32 m p = tag sz al" and "8 dvd sz"
  shows "IS_IT_ALLOC m p = al"
  unfolding IS_IT_ALLOC_def GET_def assms(1) tag_def
  using PACK_alloc [OF assms(2)] by simp

section \<open>Sequences of tagged blocks\<close>

type_synonym block = "nat \<times> bool"

definition span :: "block list \<Rightarrow> nat" where
  "span bs = sum_list (map fst bs)"

definition size_ok :: "nat \<Rightarrow> bool" where
  "size_ok sz \<longleftrightarrow> 8 \<le> sz \<and> 8 dvd sz \<and> sz < 2 ^ 32"

definition blk :: "bytes \<Rightarrow> addr \<Rightarrow> block \<Rightarrow> bool" where
  "blk m bp b \<longleftrightarrow> size_ok (fst b) \<and> get32 m (bp - 4) = tag (fst b) (snd b)
     \<and> get32 m (bp + fst b - 8) = tag (fst b) (snd b)"

fun seg :: "bytes \<Rightarrow> addr \<Rightarrow> block list \<Rightarrow> bool" where
  "seg m bp [] = True"
| "seg m bp (b # bs) = (blk m bp b \<and> seg m (bp + fst b) bs)"

definition set_tag :: "bytes \<Rightarrow> addr \<Rightarrow> nat \<Rightarrow> bool \<Rightarrow> bytes" where
  "set_tag m bp sz al = put32 (put32 m (bp - 4) (tag sz al)) (bp + sz - 8) (tag sz al)"

lemma span_simps [simp]:
  "span [] = 0" "span (b # bs) = fst b + span bs" "span (xs @ ys) = span xs + span ys"
  by (simp_all add: span_def)

lemma size_okD: "size_ok sz \<Longrightarrow> 8 \<le> sz" "size_ok sz \<Longrightarrow> 8 dvd sz" "size_ok sz \<Longrightarrow> sz < 2 ^ 32"
  by (simp_all add: size_ok_def)

lemma size_ok_diff: "size_ok a \<Longrightarrow> size_ok b \<Longrightarrow> 8 \<le> a - b \<Longrightarrow> size_ok (a - b)"
  by (auto simp: size_ok_def)

lemma blk_size: "blk m bp b \<Longrightarrow> 8 \<le> fst b"
  by (simp add: blk_def size_ok_def)

lemma blk_GET_SIZE:
  assumes "blk m bp b"
  shows "GET_SIZE m (HEADER_P bp) = fst b"
    and "IS_IT_ALLOC m (HEADER_P bp) = snd b"
    and "GET_SIZE m (FOOTER_P m bp) = fst b"
    and "IS_IT_ALLOC m (FOOTER_P m bp) = snd b"
    and "FOOTER_P m bp = bp + fst b - 8"
    and "NEXT_BLOCK_BP m bp = bp + fst b"
proof -
  from assms have tags: "get32 m (bp - 4) = tag (fst b) (snd b)"
      "get32 m (bp + fst b - 8) = tag (fst b) (snd b)" and ok: "8 dvd fst b" "fst b < 2 ^ 32"
    by (simp_all add: blk_def size_ok_def)
  show h: "GET_SIZE m (HEADER_P bp) = fst b" "IS_IT_ALLOC m (HEADER_P bp) = snd b"
    unfolding HEADER_P_def WSIZE_def
    using GET_SIZE_tag [OF tags(1) ok] IS_IT_ALLOC_tag [OF tags(1) ok(1)] by simp_all
  then show f: "FOOTER_P m bp = bp + fst b - 8"
    by (simp add: FOOTER_P_def WSIZE_def)
  show "NEXT_BLOCK_BP m bp = bp + fst b"
    by (simp add: NEXT_BLOCK_BP_def h)
  show "GET_SIZE m (FOOTER_P m bp) = fst b" "IS_IT_ALLOC m (FOOTER_P m bp) = snd b"
    unfolding f using GET_SIZE_tag [OF tags(2) ok] IS_IT_ALLOC_tag [OF tags(2) ok(1)] by simp_all
qed

text \<open>The word below a block pointer is the footer of the block in front.\<close>

lemma blk_PREV:
  assumes "blk m q b"
  shows "PREV_BLOCK_BP m (q + fst b) = q"
proof -
  have "GET_SIZE m (q + fst b - 8) = fst b"
    using GET_SIZE_tag assms by (auto simp: blk_def size_ok_def)
  then show ?thesis by (simp add: PREV_BLOCK_BP_def DSIZE_def)
qed

lemma seg_append [simp]: "seg m bp (xs @ ys) \<longleftrightarrow> seg m bp xs \<and> seg m (bp + span xs) ys"
  by (induction xs arbitrary: bp) (auto simp: add.assoc)

lemma seg_span_dvd: "seg m bp bs \<Longrightarrow> 8 dvd span bs"
  by (induction bs arbitrary: bp) (auto simp: blk_def size_ok_def)

subsection \<open>Frames\<close>

lemma blk_cong:
  assumes "\<And>a. bp - 4 \<le> a \<Longrightarrow> a < bp \<Longrightarrow> m a = m' a"
    and "\<And>a. bp + fst b - 8 \<le> a \<Longrightarrow> a < bp + fst b - 4 \<Longrightarrow> m a = m' a" and "4 \<le> bp"
  shows "blk m bp b = blk m' bp b"
proof (cases "size_ok (fst b)")
  case True
  have "get32 m (bp - 4) = get32 m' (bp - 4)"
    by (rule get32_cong) (use assms in auto)
  moreover have "get32 m (bp + fst b - 8) = get32 m' (bp + fst b - 8)"
    by (rule get32_cong) (use assms(2) True size_okD(1) [OF True] in auto)
  ultimately show ?thesis by (simp add: blk_def)
next
  case False
  then show ?thesis by (simp add: blk_def)
qed

lemma blk_frame:
  assumes "\<And>a. bp - 4 \<le> a \<Longrightarrow> a < bp + fst b - 4 \<Longrightarrow> m a = m' a" and "4 \<le> bp" and "8 \<le> fst b"
  shows "blk m bp b = blk m' bp b"
  by (rule blk_cong) (use assms in auto)

lemma seg_frame:
  assumes "seg m bp bs" and "\<And>a. bp - 4 \<le> a \<Longrightarrow> a < bp + span bs - 4 \<Longrightarrow> m a = m' a" and "4 \<le> bp"
  shows "seg m' bp bs"
  using assms
proof (induction bs arbitrary: bp)
  case (Cons b bs)
  have b: "blk m bp b" "8 \<le> fst b" using Cons.prems(1) blk_size [of m bp b] by simp_all
  have "blk m' bp b"
    using b Cons.prems(2,3) blk_frame [of bp b m m'] by simp
  moreover have "seg m' (bp + fst b) bs"
    by (rule Cons.IH) (use Cons.prems b in auto)
  ultimately show ?case by simp
qed simp

lemma set_tag_outside:
  "4 \<le> bp \<Longrightarrow> 8 \<le> sz \<Longrightarrow> a < bp - 4 \<or> bp + sz - 4 \<le> a \<or> bp \<le> a \<and> a < bp + sz - 8 \<Longrightarrow> set_tag m bp sz al a = m a"
  by (auto simp: set_tag_def put32_def)

lemma blk_set_tag:
  assumes "size_ok sz" and "4 \<le> bp"
  shows "blk (set_tag m bp sz al) bp (sz, al)"
proof -
  have "bp - 4 + 4 \<le> bp + sz - 8" using assms by (auto simp: size_ok_def)
  then have "get32 (set_tag m bp sz al) (bp - 4) = tag sz al"
    by (simp add: set_tag_def get32_put32_other)
  with assms(1) show ?thesis by (simp add: blk_def set_tag_def)
qed

lemma seg_set_tag_frame:
  assumes "seg m q bs" and "q + span bs \<le> bp \<or> bp + sz \<le> q" and "4 \<le> bp" and "8 \<le> sz" and "4 \<le> q"
  shows "seg (set_tag m bp sz al) q bs"
proof (rule seg_frame [OF assms(1) _ assms(5)])
  fix a assume "q - 4 \<le> a" "a < q + span bs - 4"
  then show "m a = set_tag m bp sz al a"
    using assms by (intro set_tag_outside [symmetric]) auto
qed

text \<open>Writing a tag over a run of blocks that spans its size replaces the run by one block.
  This is how allocation, release and coalescing change the heap.\<close>

lemma seg_set_tag:
  assumes "seg m bp (xs @ ys @ zs)" and "span ys = sz" and "size_ok sz" and "4 \<le> bp"
  shows "seg (set_tag m (bp + span xs) sz al) bp (xs @ (sz, al) # zs)"
proof -
  let ?q = "bp + span xs" and ?m = "set_tag m (bp + span xs) sz al"
  have sz: "8 \<le> sz" using assms(3) size_okD by simp
  have "seg ?m bp xs"
    by (rule seg_set_tag_frame) (use assms sz in auto)
  moreover have "blk ?m ?q (sz, al)"
    by (rule blk_set_tag) (use assms in auto)
  moreover have "seg ?m (?q + sz) zs"
    by (rule seg_set_tag_frame) (use assms sz in \<open>auto simp: add.assoc\<close>)
  ultimately show ?thesis by simp
qed

text \<open>Splitting a block.\<close>

lemma seg_split:
  assumes "seg m bp (xs @ (sz, al) # zs)" and "size_ok a" and "8 \<le> sz - a" and "4 \<le> bp"
  shows "seg (set_tag (set_tag m (bp + span xs) a x) (bp + span xs + a) (sz - a) y) bp
           (xs @ (a, x) # (sz - a, y) # zs)"
proof -
  let ?q = "bp + span xs"
  let ?m = "set_tag m ?q a x" let ?m' = "set_tag ?m (?q + a) (sz - a) y"
  have ok: "size_ok sz" using assms(1) by (simp add: blk_def)
  have ok': "size_ok (sz - a)" using size_ok_diff [OF ok assms(2,3)] .
  have ge: "8 \<le> a" "a + (sz - a) = sz" using assms(2,3) size_okD by auto
  have xs: "seg ?m' bp xs"
    by (rule seg_set_tag_frame, rule seg_set_tag_frame) (use assms ge in auto)
  have zs: "seg ?m' (?q + sz) zs"
    by (rule seg_set_tag_frame, rule seg_set_tag_frame) (use assms ge in \<open>auto simp: add.assoc\<close>)
  have 1: "blk ?m ?q (a, x)" by (rule blk_set_tag) (use assms in auto)
  have "seg ?m' ?q [(a, x)]"
    by (rule seg_set_tag_frame) (use 1 assms ge in auto)
  moreover have "blk ?m' (?q + a) (sz - a, y)"
    by (rule blk_set_tag) (use ok' assms in auto)
  ultimately show ?thesis using xs zs ge by (simp add: add.assoc)
qed

text \<open>Writing header and footer through the macros is \<open>set_tag\<close>.\<close>

lemma put32_commute:
  "p + 4 \<le> q \<or> q + 4 \<le> p \<Longrightarrow> put32 (put32 m p v) q w = put32 (put32 m q w) p v"
  by (rule ext) (auto simp: put32_def)

lemma PUT_header_footer:
  assumes "size_ok sz" and "4 \<le> bp"
  shows "PUT (PUT m (HEADER_P bp) (tag sz al)) (FOOTER_P (PUT m (HEADER_P bp) (tag sz al)) bp) (tag sz al)
       = set_tag m bp sz al"
proof -
  have "GET_SIZE (PUT m (HEADER_P bp) (tag sz al)) (HEADER_P bp) = sz"
    by (rule GET_SIZE_tag [of _ _ _ al]) (use assms in \<open>auto simp: PUT_def size_ok_def\<close>)
  then have "FOOTER_P (PUT m (HEADER_P bp) (tag sz al)) bp = bp + sz - 8"
    by (simp add: FOOTER_P_def WSIZE_def)
  then show ?thesis by (simp add: set_tag_def PUT_def HEADER_P_def WSIZE_def)
qed

section \<open>Whole heaps\<close>

text \<open>A block sequence closed by the epilogue header, a tag of size 0 marked allocated.\<close>

definition heap_at :: "bytes \<Rightarrow> addr \<Rightarrow> block list \<Rightarrow> bool" where
  "heap_at m b bs \<longleftrightarrow> 4 \<le> b \<and> seg m b bs \<and> get32 m (b + span bs - 4) = tag 0 True"

definition next_tag :: "block list \<Rightarrow> block" where
  "next_tag zs = (case zs of [] \<Rightarrow> (0, True) | z # _ \<Rightarrow> z)"

lemma set_tag_get32_outside:
  assumes "bp + sz - 4 \<le> q" and "4 \<le> bp" and "8 \<le> sz"
  shows "get32 (set_tag m bp sz al) q = get32 m q"
  by (rule get32_cong) (use assms in \<open>auto intro!: set_tag_outside\<close>)

lemma heap_at_set_tag [layout_intros]:
  assumes "heap_at m b (xs @ ys @ zs)" and "span ys = sz" and "size_ok sz"
  shows "heap_at (set_tag m (b + span xs) sz al) b (xs @ (sz, al) # zs)"
proof -
  have "seg (set_tag m (b + span xs) sz al) b (xs @ (sz, al) # zs)"
    by (rule seg_set_tag) (use assms in \<open>auto simp: heap_at_def\<close>)
  moreover have "get32 (set_tag m (b + span xs) sz al) (b + span xs + sz + span zs - 4) = tag 0 True"
    using assms size_okD(1) [OF assms(3)]
    by (subst set_tag_get32_outside) (auto simp: heap_at_def add.assoc)
  ultimately show ?thesis using assms by (simp add: heap_at_def add.assoc)
qed

lemma heap_at_split [layout_intros]:
  assumes "heap_at m b (xs @ (sz, al) # zs)" and "size_ok a" and "8 \<le> sz - a"
  shows "heap_at (set_tag (set_tag m (b + span xs) a x) (b + span xs + a) (sz - a) y) b
           (xs @ (a, x) # (sz - a, y) # zs)"
proof -
  let ?m = "set_tag m (b + span xs) a x"
  let ?e = "b + span xs + sz + span zs - 4"
  have ge: "8 \<le> a" "a + (sz - a) = sz" using assms(2,3) size_okD by auto
  have "seg (set_tag ?m (b + span xs + a) (sz - a) y) b (xs @ (a, x) # (sz - a, y) # zs)"
    by (rule seg_split) (use assms in \<open>auto simp: heap_at_def\<close>)
  moreover have "get32 (set_tag ?m (b + span xs + a) (sz - a) y) ?e = get32 ?m ?e"
    by (rule set_tag_get32_outside) (use assms ge in \<open>auto simp: heap_at_def\<close>)
  moreover have "get32 ?m ?e = get32 m ?e"
    by (rule set_tag_get32_outside) (use assms ge in \<open>auto simp: heap_at_def\<close>)
  ultimately show ?thesis using assms ge by (simp add: heap_at_def add.assoc)
qed

lemma heap_at_blk: "heap_at m b (xs @ z # zs) \<Longrightarrow> blk m (b + span xs) z"
  by (simp add: heap_at_def)

lemma heap_at_next:
  assumes "heap_at m b (xs @ zs)"
  shows "GET_SIZE m (HEADER_P (b + span xs)) = fst (next_tag zs)"
    and "IS_IT_ALLOC m (HEADER_P (b + span xs)) = snd (next_tag zs)"
proof (atomize (full), cases zs)
  case Nil
  with assms have e: "get32 m (b + span xs - 4) = tag 0 True" by (simp add: heap_at_def)
  show "GET_SIZE m (HEADER_P (b + span xs)) = fst (next_tag zs)
      \<and> IS_IT_ALLOC m (HEADER_P (b + span xs)) = snd (next_tag zs)"
    using GET_SIZE_tag [OF e] IS_IT_ALLOC_tag [OF e] Nil
    by (simp add: HEADER_P_def WSIZE_def next_tag_def)
next
  case (Cons z zs')
  with assms have "blk m (b + span xs) z" by (simp add: heap_at_def)
  with Cons show "GET_SIZE m (HEADER_P (b + span xs)) = fst (next_tag zs)
      \<and> IS_IT_ALLOC m (HEADER_P (b + span xs)) = snd (next_tag zs)"
    by (simp add: blk_GET_SIZE next_tag_def)
qed

text \<open>The client may write anywhere in a payload.\<close>

fun live :: "addr \<Rightarrow> block list \<Rightarrow> (addr \<times> nat) list" where
  "live bp [] = []"
| "live bp (b # bs) = (if snd b then [(bp, fst b - 8)] else []) @ live (bp + fst b) bs"

fun block_ptrs :: "addr \<Rightarrow> block list \<Rightarrow> addr list" where
  "block_ptrs bp [] = []"
| "block_ptrs bp (b # bs) = bp # block_ptrs (bp + fst b) bs"

lemma live_append [simp]: "live bp (xs @ ys) = live bp xs @ live (bp + span xs) ys"
  by (induction xs arbitrary: bp) (auto simp: add.assoc)

lemma block_ptrs_append [simp]:
  "block_ptrs bp (xs @ ys) = block_ptrs bp xs @ block_ptrs (bp + span xs) ys"
  by (induction xs arbitrary: bp) (auto simp: add.assoc)

lemma block_ptrs_split:
  "p \<in> set (block_ptrs bp bs) \<Longrightarrow> \<exists>xs b ys. bs = xs @ b # ys \<and> p = bp + span xs"
proof (induction bs arbitrary: bp)
  case (Cons b bs)
  show ?case
  proof (cases "p = bp")
    case True
    then show ?thesis by (metis append_Nil span_simps(1) add_0_right)
  next
    case False
    with Cons.prems have "p \<in> set (block_ptrs (bp + fst b) bs)" by simp
    from Cons.IH [OF this] obtain xs c ys where "bs = xs @ c # ys" "p = bp + fst b + span xs"
      by blast
    then show ?thesis by (intro exI [of _ "b # xs"]) auto
  qed
qed simp

lemma live_split:
  "(p, n) \<in> set (live bp bs) \<Longrightarrow>
     \<exists>xs sz ys. bs = xs @ (sz, True) # ys \<and> p = bp + span xs \<and> n = sz - 8"
proof (induction bs arbitrary: bp)
  case (Cons b bs)
  show ?case
  proof (cases "snd b \<and> p = bp \<and> n = fst b - 8")
    case True
    then have "b # bs = [] @ (fst b, True) # bs" by (metis append_Nil prod.collapse)
    with True show ?thesis by (intro exI [of _ "[]"] exI [of _ "fst b"] exI [of _ bs]) simp
  next
    case False
    with Cons.prems have "(p, n) \<in> set (live (bp + fst b) bs)" by (auto split: if_splits)
    from Cons.IH [OF this] obtain xs sz ys
      where "bs = xs @ (sz, True) # ys" "p = bp + fst b + span xs" "n = sz - 8" by blast
    then show ?thesis by (intro exI [of _ "b # xs"]) auto
  qed
qed simp

lemma live_bounds:
  "seg m bp bs \<Longrightarrow> (p, n) \<in> set (live bp bs) \<Longrightarrow> bp \<le> p \<and> p + n + 8 \<le> bp + span bs"
  by (induction bs arbitrary: bp) (fastforce simp: blk_def size_ok_def split: if_splits)+

lemma blocks_disjoint:
  assumes "seg m bp bs" and "(p, n) \<in> set (live bp bs)" and "(q, k) \<in> set (live bp bs)" and "p \<noteq> q"
  shows "p + n + 8 \<le> q \<or> q + k + 8 \<le> p"
  using assms
proof (induction bs arbitrary: bp)
  case (Cons b bs)
  have b: "8 \<le> fst b" using Cons.prems(1) blk_size [of m bp b] by simp
  show ?case
  proof (cases "(p, n) \<in> set (live (bp + fst b) bs) \<and> (q, k) \<in> set (live (bp + fst b) bs)")
    case True
    with Cons.prems show ?thesis by (intro Cons.IH [of "bp + fst b"]) simp_all
  next
    case False
    with Cons.prems b show ?thesis
      using live_bounds [of m "bp + fst b" bs p n] live_bounds [of m "bp + fst b" bs q k]
      by (auto split: if_splits)
  qed
qed simp

lemma seg_payload_write:
  assumes "seg m bp bs" and "4 \<le> bp" and "(p, n) \<in> set (live bp bs)"
    and "\<And>a. a < p \<or> p + n \<le> a \<Longrightarrow> m' a = m a"
  shows "seg m' bp bs"
  using assms(1-3)
proof (induction bs arbitrary: bp)
  case (Cons b bs)
  have b: "8 \<le> fst b" "blk m bp b" using Cons.prems(1) blk_size [of m bp b] by simp_all
  show ?case
  proof (cases "(p, n) \<in> set (live (bp + fst b) bs)")
    case True
    then have le: "bp + fst b \<le> p" using live_bounds Cons.prems(1) by fastforce
    have "m a = m' a" if "a < bp + fst b - 4" for a
      by (rule assms(4) [symmetric]) (use that le in arith)
    then have "blk m' bp b"
      using b Cons.prems(2) blk_frame [of bp b m m'] by blast
    with True Cons show ?thesis by simp
  next
    case False
    with Cons.prems b have p: "p = bp" "n = fst b - 8" by (auto split: if_splits)
    have "blk m bp b = blk m' bp b"
      by (rule blk_cong) (use assms(4) Cons.prems(2) p b(1) in auto)
    with b have "blk m' bp b" by simp
    moreover have "seg m' (bp + fst b) bs"
    proof (rule seg_frame [of m])
      fix a assume "bp + fst b - 4 \<le> a"
      with p b have "p + n \<le> a" by arith
      then show "m a = m' a" using assms(4) by simp
    qed (use Cons.prems in auto)
    ultimately show ?thesis by simp
  qed
qed simp

section \<open>Searching\<close>

fun fit :: "(nat \<Rightarrow> bool) \<Rightarrow> addr \<Rightarrow> block list \<Rightarrow> addr option" where
  "fit P bp [] = None"
| "fit P bp (b # bs) = (if \<not> snd b \<and> P (fst b) then Some bp else fit P (bp + fst b) bs)"

lemma fit_lowest:
  "fit P bp bs = Some q \<Longrightarrow>
     \<exists>xs sz ys. bs = xs @ (sz, False) # ys \<and> q = bp + span xs \<and> P sz \<and> (\<forall>b \<in> set xs. snd b \<or> \<not> P (fst b))"
proof (induction bs arbitrary: bp)
  case (Cons b bs)
  show ?case
  proof (cases "\<not> snd b \<and> P (fst b)")
    case True
    then have "b # bs = [] @ (fst b, False) # bs" by (metis append_Nil prod.collapse)
    with True Cons.prems show ?thesis
      by (intro exI [of _ "[]"] exI [of _ "fst b"] exI [of _ bs]) simp
  next
    case False
    with Cons.prems have "fit P (bp + fst b) bs = Some q" by auto
    from Cons.IH [OF this] obtain xs sz ys where "bs = xs @ (sz, False) # ys" "q = bp + fst b + span xs" "P sz"
      "\<forall>b \<in> set xs. snd b \<or> \<not> P (fst b)" by blast
    with False show ?thesis by (intro exI [of _ "b # xs"]) auto
  qed
qed simp

lemma fit_SomeD:
  "fit P bp bs = Some q \<Longrightarrow> \<exists>xs sz ys. bs = xs @ (sz, False) # ys \<and> q = bp + span xs \<and> P sz"
  using fit_lowest by blast

lemma fit_None_iff: "fit P bp bs = None \<longleftrightarrow> (\<forall>b \<in> set bs. snd b \<or> \<not> P (fst b))"
  by (induction bs arbitrary: bp) auto

section \<open>Placing and joining, on sequences\<close>

text \<open>What allocation does to the chosen free block: split it when the rest is a block of its
  own, else use it whole.\<close>

definition place :: "nat \<Rightarrow> nat \<Rightarrow> block list" where
  "place sz a = (if sz - a \<ge> 16 then [(a, True), (sz - a, False)] else [(sz, True)])"

definition place_mem :: "bytes \<Rightarrow> addr \<Rightarrow> nat \<Rightarrow> nat \<Rightarrow> bytes" where
  "place_mem m bp sz a =
     (if sz - a \<ge> 16 then set_tag (set_tag m bp a True) (bp + a) (sz - a) False
      else set_tag m bp sz True)"

lemma span_place [simp]: "a \<le> sz \<Longrightarrow> span (place sz a) = sz"
  by (simp add: place_def)

lemma place_ge: "16 \<le> a \<Longrightarrow> a \<le> sz \<Longrightarrow> b \<in> set (place sz a) \<Longrightarrow> 16 \<le> fst b"
  by (auto simp: place_def split: if_splits)

lemma live_place:
  "live bp (place sz a) = [(bp, (if sz - a \<ge> 16 then a else sz) - 8)]"
  by (simp add: place_def)

lemma heap_at_place [layout_intros]:
  assumes "heap_at m b (xs @ (sz, al) # zs)" and "size_ok a" and "a \<le> sz"
  shows "heap_at (place_mem m (b + span xs) sz a) b (xs @ place sz a @ zs)"
proof (cases "sz - a \<ge> 16")
  case True
  then show ?thesis
    using heap_at_split [OF assms(1,2), of True False] by (simp add: place_def place_mem_def)
next
  case False
  have "size_ok sz" using heap_at_blk [OF assms(1)] by (simp add: blk_def)
  then show ?thesis
    using False heap_at_set_tag [of m b xs "[(sz, al)]" zs sz True] assms(1)
    by (simp add: place_def place_mem_def)
qed

lemma place_mem_outside:
  assumes "a < bp - 4 \<or> bp + sz - 4 \<le> a" and "4 \<le> bp" and "8 \<le> adj" and "adj \<le> sz"
  shows "place_mem m bp sz adj a = m a"
proof (cases "sz - adj \<ge> 16")
  case True
  then have "place_mem m bp sz adj a = set_tag m bp adj True a"
    unfolding place_mem_def using assms by (simp, intro set_tag_outside) auto
  also have "\<dots> = m a" using assms True by (intro set_tag_outside) auto
  finally show ?thesis .
next
  case False
  then show ?thesis unfolding place_mem_def using assms by (simp, intro set_tag_outside) auto
qed

text \<open>What releasing the block \<open>(sz, _)\<close> between \<open>xs\<close> and \<open>zs\<close> leaves: it takes in a free
  neighbour on either side.\<close>

definition join :: "block list \<Rightarrow> nat \<Rightarrow> block list \<Rightarrow> block list \<times> nat \<times> block list" where
  "join xs sz zs =
     (let (xs', p) = (if xs \<noteq> [] \<and> \<not> snd (last xs) then (butlast xs, fst (last xs)) else (xs, 0));
          (zs', n) = (case zs of [] \<Rightarrow> (zs, 0) | z # r \<Rightarrow> if snd z then (zs, 0) else (r, fst z))
      in (xs', p + sz + n, zs'))"

definition coalesced :: "block list \<Rightarrow> bool" where
  "coalesced bs = successively (\<lambda>a b. snd a \<or> snd b) bs"

lemma join_snoc:
  "join (ys @ [p]) sz zs =
     (let (xs', k) = (if snd p then (ys @ [p], 0) else (ys, fst p));
          (zs', n) = (if snd (next_tag zs) then (zs, 0) else (tl zs, fst (hd zs)))
      in (xs', k + sz + n, zs'))"
  by (auto simp: join_def next_tag_def split: list.splits)

lemma join_span:
  assumes "join xs sz zs = (xs', sz', zs')"
  shows "span xs' + sz' + span zs' = span xs + sz + span zs" and "sz \<le> sz'"
    and "span xs' \<le> span xs"
    and "set xs' \<subseteq> set xs" and "set zs' \<subseteq> set zs"
proof -
  have "span xs = span (butlast xs) + fst (last xs)" if "xs \<noteq> []"
    using that append_butlast_last_id [of xs] span_simps(3) [of "butlast xs" "[last xs]"] by simp
  then show "span xs' + sz' + span zs' = span xs + sz + span zs" "sz \<le> sz'" "span xs' \<le> span xs"
    using assms by (auto simp: join_def Let_def split: list.splits if_splits)
  show "set xs' \<subseteq> set xs" "set zs' \<subseteq> set zs"
    using assms in_set_butlastD by (fastforce simp: join_def Let_def split: list.splits if_splits)+
qed

lemma join_coalesced:
  assumes "join xs sz zs = (xs', sz', zs')" and "coalesced xs" and "coalesced zs"
  shows "coalesced (xs' @ (sz', False) # zs')"
proof (cases xs rule: rev_cases)
  case Nil
  with assms show ?thesis
    by (cases zs)
      (auto simp: join_def Let_def coalesced_def successively_Cons split: if_splits)
next
  case (snoc ys p)
  have "coalesced ys" "ys = [] \<or> snd (last ys) \<or> snd p"
    using assms(2) by (auto simp: snoc coalesced_def successively_append_iff)
  moreover have "coalesced zs'" "zs' = [] \<or> snd (hd zs')"
    using assms(1,3) unfolding snoc
    by (cases zs; auto simp: join_snoc next_tag_def Let_def coalesced_def successively_Cons split: if_splits)+
  ultimately show ?thesis
    using assms(1,2) unfolding snoc
    by (auto simp: join_snoc Let_def coalesced_def successively_append_iff successively_Cons
        split: if_splits prod.splits)
qed

lemma join_live:
  assumes "join xs sz zs = (xs', sz', zs')" and "seg m bp (xs @ (sz, al) # zs)"
  shows "live bp (xs' @ (sz', False) # zs') = live bp (xs @ (sz, False) # zs)"
proof (cases xs rule: rev_cases)
  case Nil
  with assms show ?thesis
    by (cases zs) (auto simp: join_def Let_def add.assoc split: if_splits)
next
  case (snoc ys p)
  with assms show ?thesis
    by (cases zs) (auto simp: join_snoc next_tag_def Let_def add.assoc add.left_commute split: if_splits)
qed

section \<open>Neighbours of a block\<close>

lemma heap_at_neighbours:
  assumes "heap_at m b (ys @ (ps, pa) # (sz, al) # zs)"
  defines "q \<equiv> b + span ys"
  shows "PREV_BLOCK_BP m (q + ps) = q" and "IS_IT_ALLOC m (FOOTER_P m q) = pa"
    and "GET_SIZE m (HEADER_P q) = ps"
    and "NEXT_BLOCK_BP m (q + ps) = q + ps + sz" and "FOOTER_P m (q + ps) = q + ps + sz - 8"
    and "GET_SIZE m (HEADER_P (q + ps)) = sz"
    and "IS_IT_ALLOC m (HEADER_P (q + ps + sz)) = snd (next_tag zs)"
    and "GET_SIZE m (HEADER_P (q + ps + sz)) = fst (next_tag zs)"
    and "8 \<le> ps" and "8 \<le> sz" and "4 \<le> q" and "8 dvd ps" and "8 dvd sz"
proof -
  have q: "blk m q (ps, pa)" using assms(1) by (simp add: heap_at_def q_def)
  have c: "blk m (q + ps) (sz, al)" using assms(1) by (simp add: heap_at_def q_def)
  show "PREV_BLOCK_BP m (q + ps) = q" "IS_IT_ALLOC m (FOOTER_P m q) = pa" "GET_SIZE m (HEADER_P q) = ps"
    using blk_PREV [OF q] blk_GET_SIZE [OF q] by simp_all
  show "NEXT_BLOCK_BP m (q + ps) = q + ps + sz" "FOOTER_P m (q + ps) = q + ps + sz - 8"
      "GET_SIZE m (HEADER_P (q + ps)) = sz"
    using blk_GET_SIZE [OF c] by simp_all
  have "heap_at m b ((ys @ [(ps, pa), (sz, al)]) @ zs)" using assms(1) by simp
  from heap_at_next [OF this]
  show "IS_IT_ALLOC m (HEADER_P (q + ps + sz)) = snd (next_tag zs)"
      "GET_SIZE m (HEADER_P (q + ps + sz)) = fst (next_tag zs)"
    by (simp_all add: q_def add.assoc)
  show "8 \<le> ps" "8 \<le> sz" "4 \<le> q" "8 dvd ps" "8 dvd sz"
    using q c assms(1) by (simp_all add: blk_def size_ok_def heap_at_def q_def)
qed

lemma PREV_cong: "get32 m (bp - 8) = get32 m' (bp - 8) \<Longrightarrow> PREV_BLOCK_BP m bp = PREV_BLOCK_BP m' bp"
  by (simp add: PREV_BLOCK_BP_def GET_SIZE_def GET_def DSIZE_def)

lemma NEXT_cong: "get32 m (bp - 4) = get32 m' (bp - 4) \<Longrightarrow> NEXT_BLOCK_BP m bp = NEXT_BLOCK_BP m' bp"
  by (simp add: NEXT_BLOCK_BP_def GET_SIZE_def GET_def HEADER_P_def WSIZE_def)

lemma FOOTER_cong: "get32 m (bp - 4) = get32 m' (bp - 4) \<Longrightarrow> FOOTER_P m bp = FOOTER_P m' bp"
  by (simp add: FOOTER_P_def GET_SIZE_def GET_def HEADER_P_def WSIZE_def)

text \<open>Writing the footer of the block first and then the header of the block in front, as
  coalescing with the previous block does, and header first and footer last, as coalescing with
  both neighbours does.\<close>

lemma PUT_prev:
  assumes "heap_at m b (ys @ (ps, pa) # (sz, al) # zs)"
  defines "q \<equiv> b + span ys" and "T \<equiv> tag (ps + sz) False"
  shows "PREV_BLOCK_BP (PUT m (FOOTER_P m (q + ps)) T) (q + ps) = q"
    and "PUT (PUT m (FOOTER_P m (q + ps)) T) (HEADER_P q) T = set_tag m q (ps + sz) False"
    and "PREV_BLOCK_BP (set_tag m q (ps + sz) False) (q + ps) = q"
proof -
  note N = heap_at_neighbours [OF assms(1), folded q_def]
  have 1: "get32 (PUT m (q + ps + sz - 8) T) (q + ps - 8) = get32 m (q + ps - 8)"
    unfolding PUT_def by (rule get32_put32_other) (use N(9-11) in arith)
  then show "PREV_BLOCK_BP (PUT m (FOOTER_P m (q + ps)) T) (q + ps) = q"
    using PREV_cong [OF 1] N(1,5) by simp
  show 2: "PUT (PUT m (FOOTER_P m (q + ps)) T) (HEADER_P q) T = set_tag m q (ps + sz) False"
    unfolding N(5) PUT_def HEADER_P_def WSIZE_def set_tag_def T_def
    by (subst put32_commute) (use N(9-11) in \<open>auto simp: add.assoc\<close>)
  have "get32 (set_tag m q (ps + sz) False) (q + ps - 8) = get32 m (q + ps - 8)"
    by (rule get32_cong, rule set_tag_outside) (use N(9-11) in auto)
  then show "PREV_BLOCK_BP (set_tag m q (ps + sz) False) (q + ps) = q"
    using PREV_cong N(1) by metis
qed

lemma PUT_both:
  assumes "heap_at m b (ys @ (ps, pa) # (sz, al) # (ns, na) # zs)"
  defines "q \<equiv> b + span ys" and "T \<equiv> tag (ps + sz + ns) False"
  defines "m1 \<equiv> PUT m (HEADER_P q) T"
  shows "NEXT_BLOCK_BP m1 (q + ps) = q + ps + sz"
    and "FOOTER_P m1 (q + ps + sz) = q + ps + sz + ns - 8"
    and "PUT m1 (q + ps + sz + ns - 8) T = set_tag m q (ps + sz + ns) False"
    and "PREV_BLOCK_BP (set_tag m q (ps + sz + ns) False) (q + ps) = q"
proof -
  note N = heap_at_neighbours [OF assms(1), folded q_def]
  have n: "blk m (q + ps + sz) (ns, na)" using assms(1) by (simp add: heap_at_def q_def)
  have ns: "8 \<le> ns" using blk_size [OF n] by simp
  have away: "get32 m1 p = get32 m p" if "q \<le> p" for p
    unfolding m1_def PUT_def HEADER_P_def WSIZE_def
    by (rule get32_put32_other) (use that N(11) in arith)
  have "get32 m1 (q + ps - 4) = get32 m (q + ps - 4)" by (rule away) (use N(9) in arith)
  then show "NEXT_BLOCK_BP m1 (q + ps) = q + ps + sz" using NEXT_cong N(4) by metis
  have "get32 m1 (q + ps + sz - 4) = get32 m (q + ps + sz - 4)" by (rule away) (use N(10) in arith)
  then show "FOOTER_P m1 (q + ps + sz) = q + ps + sz + ns - 8"
    using FOOTER_cong blk_GET_SIZE(5) [OF n] by (metis fst_conv)
  show "PUT m1 (q + ps + sz + ns - 8) T = set_tag m q (ps + sz + ns) False"
    unfolding m1_def PUT_def HEADER_P_def WSIZE_def set_tag_def T_def by (simp add: add.assoc)
  have "get32 (set_tag m q (ps + sz + ns) False) (q + ps - 8) = get32 m (q + ps - 8)"
    by (rule get32_cong, rule set_tag_outside) (use N(9-11) ns in auto)
  then show "PREV_BLOCK_BP (set_tag m q (ps + sz + ns) False) (q + ps) = q"
    using PREV_cong N(1) by metis
qed

section \<open>Payloads\<close>

definition keeps :: "bytes \<Rightarrow> bytes \<Rightarrow> (addr \<times> nat) list \<Rightarrow> bool" where
  "keeps m m' ps \<longleftrightarrow> (\<forall>(p, n) \<in> set ps. \<forall>i < n. m' (p + i) = m (p + i))"

lemma keeps_refl [simp]: "keeps m m ps"
  by (auto simp: keeps_def)

lemma keeps_sym: "keeps m m' ps \<Longrightarrow> keeps m' m ps"
  by (auto simp: keeps_def)

lemma keeps_trans: "keeps m m' ps \<Longrightarrow> keeps m' m'' ps \<Longrightarrow> keeps m m'' ps"
  by (fastforce simp: keeps_def)

lemma keeps_subset: "keeps m m' ps \<Longrightarrow> set qs \<subseteq> set ps \<Longrightarrow> keeps m m' qs"
  by (fastforce simp: keeps_def)

text \<open>A write confined to one block keeps the payloads of all others.\<close>

lemma keeps_others:
  assumes "seg m b (xs @ (sz, al) # zs)"
    and "\<forall>a. a < b + span xs - 4 \<or> b + span xs + sz - 4 \<le> a \<longrightarrow> m' a = m a"
  shows "keeps m m' (live b xs @ live (b + span xs + sz) zs)"
  unfolding keeps_def
proof (clarify)
  fix p n i assume mem: "(p, n) \<in> set (live b xs @ live (b + span xs + sz) zs)" and i: "i < n"
  then have "p + n + 8 \<le> b + span xs \<or> b + span xs + sz \<le> p"
    using assms(1) live_bounds [of m b xs p n] live_bounds [of m "b + span xs + sz" zs p n] by auto
  with i assms(2) show "m' (p + i) = m (p + i)" by auto
qed

lemma coalesced_place:
  assumes "coalesced (xs @ (sz, False) # zs)"
  shows "coalesced (xs @ place sz a @ zs)"
  using assms
  by (auto simp: coalesced_def place_def successively_append_iff successively_Cons)

lemma live_fresh:
  assumes "seg m b (xs @ (sz, al) # zs)" and "(p, n) \<in> set (live b xs @ live (b + span xs + sz) zs)"
  shows "p \<noteq> b + span xs"
proof -
  have "8 \<le> sz" using assms(1) blk_size [of m "b + span xs" "(sz, al)"] by simp
  moreover have "p + n + 8 \<le> b + span xs \<or> b + span xs + sz \<le> p"
    using assms live_bounds [of m b xs p n] live_bounds [of m "b + span xs + sz" zs p n] by auto
  ultimately show ?thesis by auto
qed

text \<open>Growing a heap: the old epilogue becomes the header of a new last block.\<close>

definition grow_mem :: "bytes \<Rightarrow> addr \<Rightarrow> nat \<Rightarrow> bytes" where
  "grow_mem m e n = put32 (set_tag m e n False) (e + n - 4) (tag 0 True)"

lemma heap_at_grow [layout_intros]:
  assumes "heap_at m b bs" and "size_ok n"
  shows "heap_at (grow_mem m (b + span bs) n) b (bs @ [(n, False)])"
proof -
  let ?e = "b + span bs" let ?m = "set_tag m ?e n False"
  have n: "8 \<le> n" and b: "4 \<le> b" using assms by (simp_all add: size_ok_def heap_at_def)
  have "seg ?m b bs" by (rule seg_set_tag_frame) (use assms n in \<open>auto simp: heap_at_def\<close>)
  moreover have "blk ?m ?e (n, False)" by (rule blk_set_tag) (use assms b in auto)
  ultimately have s: "seg ?m b (bs @ [(n, False)])" by simp
  have "seg (grow_mem m ?e n) b (bs @ [(n, False)])"
    by (rule seg_frame [OF s]) (use b n in \<open>auto simp: grow_mem_def put32_def\<close>)
  then show ?thesis using b by (simp add: heap_at_def grow_mem_def add.assoc)
qed

lemma grow_mem_outside:
  assumes "a < e - 4" and "4 \<le> e" and "8 \<le> n"
  shows "grow_mem m e n a = m a"
proof -
  have "grow_mem m e n a = set_tag m e n False a" using assms by (auto simp: grow_mem_def put32_def)
  then show ?thesis using assms set_tag_outside [of e n a] by simp
qed

lemma PUT_grow:
  fixes m :: bytes
  assumes "size_ok n" and "4 \<le> e"
  defines "m1 \<equiv> PUT m (HEADER_P e) (tag n False)"
  defines "m2 \<equiv> PUT m1 (FOOTER_P m1 e) (tag n False)"
  shows "PUT m2 (HEADER_P (NEXT_BLOCK_BP m2 e)) (tag 0 True) = grow_mem m e n"
proof -
  have m2: "m2 = set_tag m e n False" unfolding m2_def m1_def by (rule PUT_header_footer) fact+
  have "blk m2 e (n, False)" unfolding m2 by (rule blk_set_tag) fact+
  from blk_GET_SIZE(6) [OF this] have "NEXT_BLOCK_BP m2 e = e + n" by simp
  then show ?thesis by (simp add: m2 grow_mem_def PUT_def HEADER_P_def WSIZE_def)
qed

lemma keeps_before:
  assumes "seg m b bs" and "\<And>a. a < b + span bs - 4 \<Longrightarrow> m' a = m a"
  shows "keeps m m' (live b bs)"
  unfolding keeps_def
proof (clarify)
  fix p n i assume "(p, n) \<in> set (live b bs)" "i < n"
  with live_bounds [OF assms(1)] have "p + n + 8 \<le> b + span bs" by blast
  with \<open>i < n\<close> show "m' (p + i) = m (p + i)" by (intro assms(2)) arith
qed

section \<open>Reading the blocks back\<close>

text \<open>The block sequence is a function of the memory: follow the headers up to the epilogue.\<close>

fun walk :: "nat \<Rightarrow> bytes \<Rightarrow> addr \<Rightarrow> block list" where
  "walk 0 m bp = []"
| "walk (Suc k) m bp =
     (let sz = GET_SIZE m (HEADER_P bp)
      in if sz = 0 then [] else (sz, IS_IT_ALLOC m (HEADER_P bp)) # walk k m (bp + sz))"

lemma walk_heap_at:
  assumes "heap_at m b bs" and "length bs < k"
  shows "walk k m b = bs"
  using assms
proof (induction bs arbitrary: b k)
  case Nil
  then show ?case using heap_at_next(1) [of m b "[]" "[]"] by (cases k) (auto simp: next_tag_def)
next
  case (Cons x xs)
  then obtain k' where k: "k = Suc k'" by (cases k) auto
  have x: "GET_SIZE m (HEADER_P b) = fst x" "IS_IT_ALLOC m (HEADER_P b) = snd x"
    using heap_at_next [of m b "[]" "x # xs"] Cons.prems(1) by (simp_all add: next_tag_def)
  have "8 \<le> fst x" using heap_at_blk [of m b "[]" x xs] Cons.prems(1) blk_size by fastforce
  moreover have "heap_at m (b + fst x) xs" using Cons.prems(1) by (simp add: heap_at_def add.assoc)
  ultimately show ?case using Cons.IH [of "b + fst x" k'] Cons.prems(2) x k by (simp add: Let_def)
qed

lemma seg_length: "seg m b bs \<Longrightarrow> length bs \<le> span bs"
proof (induction bs arbitrary: b)
  case (Cons x xs)
  then show ?case using Cons.IH [of "b + fst x"] blk_size [of m b x] by simp
qed simp

lemma blocks_functional:
  assumes "seg m b bs" and "(p, n) \<in> set (live b bs)" and "(p, k) \<in> set (live b bs)"
  shows "n = k"
  using assms
proof (induction bs arbitrary: b)
  case (Cons x xs)
  have x: "8 \<le> fst x" using Cons.prems(1) blk_size [of m b x] by simp
  show ?case
  proof (cases "p = b")
    case True
    with Cons.prems x show ?thesis using live_bounds [of m "b + fst x" xs] by (fastforce split: if_splits)
  next
    case False
    with Cons show ?thesis by (auto split: if_splits)
  qed
qed simp

lemma heap_at_unique:
  assumes "heap_at m b xs" and "heap_at m b ys"
  shows "xs = ys"
  using walk_heap_at [OF assms(1), of "Suc (length xs + length ys)"]
    walk_heap_at [OF assms(2), of "Suc (length xs + length ys)"] by simp

lemma block_ptrs_bounds: "q \<in> set (block_ptrs b xs) \<Longrightarrow> b \<le> q \<and> q \<le> b + span xs"
  by (induction xs arbitrary: b) fastforce+

lemma block_ptrs_gap:
  "q \<in> set (block_ptrs b (xs @ c # zs)) \<Longrightarrow> q \<le> b + span xs \<or> b + span xs + fst c \<le> q"
  using block_ptrs_bounds [of q b xs] block_ptrs_bounds [of q "b + span xs + fst c" zs]
  by (auto simp: add.assoc)

end
