(* ===== verification/Alloc_Spec.thy ===== *)
theory Alloc_Spec
  imports Prelude
begin

text \<open>
  What a client of \<^verbatim>\<open>mm.h\<close> relies on: the contract of \<open>mm_malloc\<close>, \<open>mm_free\<close> and
  \<open>mm_realloc\<close>, with the set of live payloads \<open>(address, bytes)\<close> as the abstract state.  The
  malloc driver is verified against this interface; the allocators interpret it.
\<close>

text \<open>Largest request whose rounded-up block size still fits a 32-bit \<^verbatim>\<open>size_t\<close>.\<close>

definition max_request :: nat where
  "max_request = 2 ^ 32 - 16"

definition same_payload :: "bytes \<Rightarrow> bytes \<Rightarrow> (addr \<times> nat) set \<Rightarrow> bool" where
  "same_payload m m' A \<longleftrightarrow> (\<forall>(p, n) \<in> A. \<forall>i < n. m' (p + i) = m (p + i))"

lemma same_payloadD: "same_payload m m' A \<Longrightarrow> (p, n) \<in> A \<Longrightarrow> i < n \<Longrightarrow> m' (p + i) = m (p + i)"
  by (auto simp: same_payload_def)

lemma same_payload_refl [simp]: "same_payload m m A"
  by (auto simp: same_payload_def)

lemma same_payload_trans: "same_payload m m' A \<Longrightarrow> same_payload m' m'' A \<Longrightarrow> same_payload m m'' A"
  by (fastforce simp: same_payload_def)

lemma same_payload_mono: "same_payload m m' A \<Longrightarrow> B \<subseteq> A \<Longrightarrow> same_payload m m' B"
  by (auto simp: same_payload_def)

locale allocator =
  fixes ok :: "'s \<Rightarrow> bool"
    and live :: "'s \<Rightarrow> (addr \<times> nat) set"
    and mem :: "'s \<Rightarrow> bytes"
    and set_mem :: "bytes \<Rightarrow> 's \<Rightarrow> 's"
    and lo :: "'s \<Rightarrow> addr"
    and hi :: "'s \<Rightarrow> addr"
    and malloc :: "'s \<Rightarrow> nat \<Rightarrow> (addr \<times> 's) option"
    and free :: "'s \<Rightarrow> addr \<Rightarrow> 's"
  assumes live_disjoint:
      "\<lbrakk>ok s; (p, n) \<in> live s; (q, k) \<in> live s; p \<noteq> q\<rbrakk> \<Longrightarrow> p + n \<le> q \<or> q + k \<le> p"
    and live_functional: "\<lbrakk>ok s; (p, n) \<in> live s; (p, k) \<in> live s\<rbrakk> \<Longrightarrow> n = k"
    and live_range: "\<lbrakk>ok s; (p, n) \<in> live s\<rbrakk> \<Longrightarrow> lo s \<le> p \<and> 0 < p \<and> p + n \<le> hi s"
    and live_aligned: "\<lbrakk>ok s; (p, n) \<in> live s\<rbrakk> \<Longrightarrow> 8 dvd p"
    and malloc_returns: "\<lbrakk>ok s; 0 < sz; sz \<le> max_request\<rbrakk> \<Longrightarrow> \<exists>p s'. malloc s sz = Some (p, s')"
    and malloc_null: "\<lbrakk>ok s; malloc s sz = Some (NULL, s'); sz \<le> max_request\<rbrakk> \<Longrightarrow> s' = s"
    and malloc_ok:
      "\<lbrakk>ok s; 0 < sz; sz \<le> max_request; malloc s sz = Some (p, s'); p \<noteq> NULL\<rbrakk> \<Longrightarrow>
         ok s' \<and> (\<exists>n \<ge> sz. live s' = insert (p, n) (live s)) \<and> p \<notin> fst ` live s
         \<and> same_payload (mem s) (mem s') (live s)"
    and free_ok:
      "\<lbrakk>ok s; (p, n) \<in> live s\<rbrakk> \<Longrightarrow>
         ok (free s p) \<and> live (free s p) = live s - {(p, n)}
         \<and> same_payload (mem s) (mem (free s p)) (live s - {(p, n)})"
    and write_ok:
      "\<lbrakk>ok s; (p, n) \<in> live s; \<And>a. a < p \<or> p + n \<le> a \<Longrightarrow> m' a = mem s a\<rbrakk> \<Longrightarrow>
         ok (set_mem m' s) \<and> live (set_mem m' s) = live s \<and> mem (set_mem m' s) = m'"
begin

lemma malloc_disjoint:
  assumes "ok s" "0 < sz" "sz \<le> max_request" "malloc s sz = Some (p, s')" "p \<noteq> NULL"
    and "(q, k) \<in> live s"
  shows "p + sz \<le> q \<or> q + k \<le> p"
proof -
  from malloc_ok [OF assms(1-5)] obtain n where n: "sz \<le> n" "live s' = insert (p, n) (live s)"
    "ok s'" "p \<notin> fst ` live s" by auto
  then have "p \<noteq> q" using assms(6) by (metis fst_conv image_eqI)
  with live_disjoint [of s' p n q k] n assms(6) show ?thesis by auto
qed

lemma write_same_payload:
  assumes "ok s" "(p, n) \<in> live s" "\<And>a. a < p \<or> p + n \<le> a \<Longrightarrow> m' a = mem s a"
  shows "same_payload (mem s) (mem (set_mem m' s)) (live s - {(p, n)})"
proof -
  have "mem (set_mem m' s) (q + i) = mem s (q + i)"
    if q: "(q, k) \<in> live s" "(q, k) \<noteq> (p, n)" "i < k" for q k i
  proof -
    have "q \<noteq> p" using q live_functional assms(1,2) by blast
    with live_disjoint [OF assms(1) q(1) assms(2)] have "q + k \<le> p \<or> p + n \<le> q" .
    with q(3) have "q + i < p \<or> p + n \<le> q + i" by arith
    with assms(3) write_ok [OF assms] show ?thesis by simp
  qed
  then show ?thesis by (auto simp: same_payload_def)
qed

text \<open>Reallocation by allocating, copying and releasing.\<close>

lemma copy_realloc:
  assumes s: "ok s" "(p, n) \<in> live s" and sz: "0 < sz" "sz \<le> max_request"
    and new: "malloc s sz = Some (q, s1)" "q \<noteq> NULL" and cnt: "cnt \<le> sz" "min n sz \<le> cnt"
  defines "s2 \<equiv> set_mem (memcpy (mem s1) q p cnt) s1"
  defines "s3 \<equiv> free s2 p"
  shows "ok s3 \<and> (\<exists>k \<ge> sz. live s3 = insert (q, k) (live s - {(p, n)})) \<and> q \<notin> fst ` (live s - {(p, n)})
     \<and> same_payload (mem s) (mem s3) (live s - {(p, n)})
     \<and> (\<forall>i < min n sz. mem s3 (q + i) = mem s (p + i))"
proof -
  from malloc_ok [OF s(1) sz new] obtain k where
    k: "sz \<le> k" "live s1 = insert (q, k) (live s)" and s1: "ok s1" "q \<notin> fst ` live s"
      "same_payload (mem s) (mem s1) (live s)" by auto
  have q: "(q, k) \<in> live s1" and p: "(p, n) \<in> live s1" and pq: "p \<noteq> q"
    using k s1(2) s(2) by (auto simp: image_iff)
  let ?m = "memcpy (mem s1) q p cnt"
  have out: "\<And>a. a < q \<or> q + k \<le> a \<Longrightarrow> ?m a = mem s1 a"
    using cnt k(1) by (auto simp: memcpy_def)
  note W = write_ok [OF s1(1) q out, folded s2_def]
  have w: "ok s2" "live s2 = live s1" "mem s2 = ?m" using W by simp_all
  note P = write_same_payload [OF s1(1) q out, folded s2_def]
  from free_ok [OF w(1), of p n] p w(2) have f: "ok s3" "live s3 = live s1 - {(p, n)}"
    "same_payload (mem s2) (mem s3) (live s1 - {(p, n)})" by (simp_all add: s3_def)
  have sub: "live s - {(p, n)} \<subseteq> live s1 - {(q, k)}" "live s - {(p, n)} \<subseteq> live s1 - {(p, n)}"
    using k(2) s1(2) by (auto simp: image_iff)
  have "same_payload (mem s) (mem s3) (live s - {(p, n)})"
    using same_payload_trans [OF same_payload_trans [OF same_payload_mono [OF s1(3)]
        same_payload_mono [OF P sub(1)]] same_payload_mono [OF f(3) sub(2)]] by simp
  moreover have "mem s3 (q + i) = mem s (p + i)" if "i < min n sz" for i
  proof -
    have "mem s3 (q + i) = ?m (q + i)"
      using same_payloadD [OF f(3), of q k i] q pq that k(1) w(3) by simp
    also have "\<dots> = mem s1 (p + i)" using that cnt(2) by (auto simp: memcpy_def min_def split: if_splits)
    also have "\<dots> = mem s (p + i)" using same_payloadD [OF s1(3) s(2)] that by simp
    finally show ?thesis .
  qed
  moreover have "live s3 = insert (q, k) (live s - {(p, n)})" using f(2) k(2) pq by auto
  moreover have "q \<notin> fst ` (live s - {(p, n)})" using s1(2) by auto
  ultimately show ?thesis using f(1) k(1) by blast
qed

end

locale reallocator = allocator +
  fixes realloc :: "'a \<Rightarrow> addr \<Rightarrow> nat \<Rightarrow> (addr \<times> 'a) option"
  assumes realloc_returns:
      "\<lbrakk>ok s; (p, n) \<in> live s; 0 < sz; sz \<le> max_request\<rbrakk> \<Longrightarrow> \<exists>q s'. realloc s p sz = Some (q, s')"
    and realloc_ok:
      "\<lbrakk>ok s; (p, n) \<in> live s; 0 < sz; sz \<le> max_request; realloc s p sz = Some (q, s'); q \<noteq> NULL\<rbrakk> \<Longrightarrow>
         ok s' \<and> (\<exists>k \<ge> sz. live s' = insert (q, k) (live s - {(p, n)})) \<and> q \<notin> fst ` (live s - {(p, n)})
         \<and> same_payload (mem s) (mem s') (live s - {(p, n)})
         \<and> (\<forall>i < min n sz. mem s' (q + i) = mem s (p + i))"

end
