(* ===== verification/NextFit.thy ===== *)
theory NextFit
  imports Boundary_Tags Alloc_Spec
begin

text \<open>
  The allocator of \<^verbatim>\<open>mymalloc_nextfit/mm.c\<close>: an implicit list of tagged blocks, next-fit
  search and immediate coalescing.  Pointers and sizes are those of the 32-bit build; size
  arithmetic wraps.  A loop that might not end is a \<^theory_text>\<open>partial_function\<close> (not returning is
  \<open>None\<close>); that the searches return is part of the theorems.
\<close>

record nextfit = memsys +
  start_bp :: addr
  last_bp :: addr

section \<open>The program\<close>

definition nf_mark :: "nextfit \<Rightarrow> addr \<Rightarrow> nat \<Rightarrow> nextfit" where
  "nf_mark s bp adj_size =
     (let m = heap s;
          cur_size = GET_SIZE m (HEADER_P bp);
          divded_size = sub32 cur_size adj_size
      in if divded_size \<ge> 2 * DSIZE then
           let m1 = PUT m (HEADER_P bp) (PACK adj_size 1);
               m2 = PUT m1 (FOOTER_P m1 bp) (PACK adj_size 1);
               bp' = NEXT_BLOCK_BP m2 bp;
               m3 = PUT m2 (HEADER_P bp') (PACK divded_size 0);
               m4 = PUT m3 (FOOTER_P m3 bp') (PACK divded_size 0)
           in s\<lparr>heap := m4\<rparr>
         else
           let m1 = PUT m (HEADER_P bp) (PACK cur_size 1);
               m2 = PUT m1 (FOOTER_P m1 bp) (PACK cur_size 1)
           in s\<lparr>heap := m2\<rparr>)"

definition nf_coalesce :: "nextfit \<Rightarrow> addr \<Rightarrow> addr \<times> nextfit" where
  "nf_coalesce s bp =
     (let m = heap s;
          is_prev_alloc = IS_IT_ALLOC m (FOOTER_P m (PREV_BLOCK_BP m bp));
          is_next_alloc = IS_IT_ALLOC m (HEADER_P (NEXT_BLOCK_BP m bp));
          sz = GET_SIZE m (HEADER_P bp)
      in if is_prev_alloc \<and> is_next_alloc then (bp, s\<lparr>last_bp := bp\<rparr>)
         else if is_prev_alloc \<and> \<not> is_next_alloc then
           let sz' = wrap32 (sz + GET_SIZE m (HEADER_P (NEXT_BLOCK_BP m bp)));
               m1 = PUT m (HEADER_P bp) (PACK sz' 0);
               m2 = PUT m1 (FOOTER_P m1 bp) (PACK sz' 0)
           in (bp, s\<lparr>heap := m2, last_bp := bp\<rparr>)
         else if \<not> is_prev_alloc \<and> is_next_alloc then
           let sz' = wrap32 (sz + GET_SIZE m (HEADER_P (PREV_BLOCK_BP m bp)));
               m1 = PUT m (FOOTER_P m bp) (PACK sz' 0);
               m2 = PUT m1 (HEADER_P (PREV_BLOCK_BP m1 bp)) (PACK sz' 0);
               bp' = PREV_BLOCK_BP m2 bp
           in (bp', s\<lparr>heap := m2, last_bp := bp'\<rparr>)
         else
           let sz' = wrap32 (sz + wrap32 (GET_SIZE m (HEADER_P (NEXT_BLOCK_BP m bp))
                                          + GET_SIZE m (HEADER_P (PREV_BLOCK_BP m bp))));
               m1 = PUT m (HEADER_P (PREV_BLOCK_BP m bp)) (PACK sz' 0);
               m2 = PUT m1 (FOOTER_P m1 (NEXT_BLOCK_BP m1 bp)) (PACK sz' 0);
               bp' = PREV_BLOCK_BP m2 bp
           in (bp', s\<lparr>heap := m2, last_bp := bp'\<rparr>))"

definition nf_extend_heap :: "nextfit \<Rightarrow> nat \<Rightarrow> addr \<times> nextfit" where
  "nf_extend_heap s words =
     (let sz = (if words mod 2 \<noteq> 0 then wrap32 (wrap32 (words + 1) * 4) else wrap32 (words * 4))
      in case mem_sbrk (to_int32 sz) s of
           (None, s1) \<Rightarrow> (NULL, s1)
         | (Some bp, s1) \<Rightarrow>
             let m = heap s1;
                 m1 = PUT m (HEADER_P bp) (PACK sz 0);
                 m2 = PUT m1 (FOOTER_P m1 bp) (PACK sz 0);
                 m3 = PUT m2 (HEADER_P (NEXT_BLOCK_BP m2 bp)) (PACK 0 1)
             in nf_coalesce (s1\<lparr>heap := m3\<rparr>) bp)"

text \<open>The two loops of \<open>next_fit\<close>: \<open>Some (Some bp)\<close> is a hit, \<open>Some None\<close> the end of the loop.\<close>

partial_function (option) nf_scan :: "bytes \<Rightarrow> nat \<Rightarrow> addr \<Rightarrow> addr option option" where
  "nf_scan m adj_size bp =
     (let bp' = NEXT_BLOCK_BP m bp; header_p = HEADER_P bp'
      in if \<not> IS_IT_ALLOC m header_p \<and> GET_SIZE m header_p > adj_size then Some (Some bp')
         else if GET_SIZE m header_p \<noteq> 0 then nf_scan m adj_size bp'
         else Some None)"

partial_function (option) nf_rescan :: "bytes \<Rightarrow> nat \<Rightarrow> addr \<Rightarrow> addr \<Rightarrow> addr option option" where
  "nf_rescan m adj_size lastbp bp =
     (if bp < lastbp then
        let bp' = NEXT_BLOCK_BP m bp; hp = HEADER_P bp'
        in if \<not> IS_IT_ALLOC m hp \<and> GET_SIZE m hp \<ge> adj_size then Some (Some bp')
           else nf_rescan m adj_size lastbp bp'
      else Some None)"

definition nf_next_fit :: "nextfit \<Rightarrow> nat \<Rightarrow> (addr \<times> nextfit) option" where
  "nf_next_fit s adj_size =
     (case nf_scan (heap s) adj_size (last_bp s) of
        None \<Rightarrow> None
      | Some (Some bp) \<Rightarrow> Some (bp, s\<lparr>last_bp := bp\<rparr>)
      | Some None \<Rightarrow>
          (case nf_rescan (heap s) adj_size (last_bp s) (start_bp s) of
             None \<Rightarrow> None
           | Some (Some bp) \<Rightarrow> Some (bp, s\<lparr>last_bp := bp\<rparr>)
           | Some None \<Rightarrow> Some (NULL, s)))"

definition nf_adjust :: "nat \<Rightarrow> nat" where
  "nf_adjust sz =
     (if sz \<le> DSIZE then 2 * DSIZE
      else wrap32 (DSIZE * (wrap32 (sz + (DSIZE + DSIZE - 1)) div DSIZE)))"

text \<open>\<open>mm_init\<close> returns 0 or -1.\<close>

definition nf_mm_init :: "nextfit \<Rightarrow> int \<times> nextfit" where
  "nf_mm_init s =
     (case mem_sbrk (int (WSIZE * 4)) s of
        (None, s1) \<Rightarrow> (-1, s1)
      | (Some p, s1) \<Rightarrow>
          let m = heap s1;
              m1 = PUT m p 0;
              m2 = PUT m1 (p + 1 * WSIZE) (PACK DSIZE 1);
              m3 = PUT m2 (p + 2 * WSIZE) (PACK DSIZE 1);
              m4 = PUT m3 (p + 3 * WSIZE) (PACK 0 1);
              s2 = s1\<lparr>heap := m4, start_bp := p + WSIZE * 2\<rparr>;
              (bp, s3) = nf_extend_heap s2 (CHUNCKSIZE div WSIZE)
          in if bp = NULL then (-1, s3) else (0, s3\<lparr>last_bp := start_bp s3\<rparr>))"

definition nf_mm_malloc :: "nextfit \<Rightarrow> nat \<Rightarrow> (addr \<times> nextfit) option" where
  "nf_mm_malloc s sz =
     (if sz = 0 then Some (NULL, s)
      else let adjusted_size = nf_adjust sz in
        case nf_next_fit s adjusted_size of
          None \<Rightarrow> None
        | Some (bp, s1) \<Rightarrow>
            if bp \<noteq> NULL then Some (bp, (nf_mark s1 bp adjusted_size)\<lparr>last_bp := bp\<rparr>)
            else
              let extended_size = max adjusted_size CHUNCKSIZE;
                  (bp, s2) = nf_extend_heap s1 (extended_size div WSIZE)
              in if bp = NULL then Some (NULL, s2)
                 else Some (bp, (nf_mark s2 bp adjusted_size)\<lparr>last_bp := bp\<rparr>))"

definition nf_mm_free :: "nextfit \<Rightarrow> addr \<Rightarrow> nextfit" where
  "nf_mm_free s ptr =
     (let m = heap s;
          sz = GET_SIZE m (HEADER_P ptr);
          m1 = PUT m (HEADER_P ptr) (PACK sz 0);
          m2 = PUT m1 (FOOTER_P m1 ptr) (PACK sz 0)
      in snd (nf_coalesce (s\<lparr>heap := m2\<rparr>) ptr))"

text \<open>\<open>mm_realloc\<close> passes whatever \<open>mm_malloc\<close> returned to \<open>mark\<close>: a null pointer there makes
  the program read below address 0, which is the fault value \<open>Inl NullDeref\<close>.\<close>

datatype fault = NullDeref

definition nf_mm_realloc :: "nextfit \<Rightarrow> addr \<Rightarrow> nat \<Rightarrow> (fault + addr \<times> nextfit) option" where
  "nf_mm_realloc s ptr sz =
     (let m = heap s;
          cur_size = GET_SIZE m (HEADER_P ptr);
          new_size = wrap32 (sz + WSIZE * 2)
      in if new_size \<le> cur_size then Some (Inr (ptr, s))
         else
           let is_next_free = \<not> IS_IT_ALLOC m (HEADER_P (NEXT_BLOCK_BP m ptr));
               merged_size = wrap32 (cur_size + GET_SIZE m (HEADER_P (NEXT_BLOCK_BP m ptr)))
           in if is_next_free \<and> merged_size \<ge> new_size then
                let m1 = PUT m (HEADER_P ptr) (PACK merged_size 1);
                    m2 = PUT m1 (FOOTER_P m1 ptr) (PACK merged_size 1)
                in Some (Inr (ptr, s\<lparr>heap := m2\<rparr>))
              else
                case nf_mm_malloc s new_size of
                  None \<Rightarrow> None
                | Some (new_bp, s1) \<Rightarrow>
                    if new_bp = NULL then Some (Inl NullDeref)
                    else
                      let s2 = nf_mark s1 new_bp new_size;
                          s3 = s2\<lparr>heap := memcpy (heap s2) new_bp ptr cur_size\<rparr>
                      in Some (Inr (new_bp, nf_mm_free s3 ptr)))"

section \<open>The helpers on block sequences\<close>

lemma nf_mark_place:
  assumes "blk (heap s) bp (sz, al)" and "size_ok a" and "a \<le> sz" and "4 \<le> bp"
  shows "nf_mark s bp a = s\<lparr>heap := place_mem (heap s) bp sz a\<rparr>"
proof -
  have sz: "size_ok sz" "GET_SIZE (heap s) (HEADER_P bp) = sz"
    using assms(1) blk_GET_SIZE(1) [OF assms(1)] by (simp_all add: blk_def)
  have sub: "sub32 sz a = sz - a" using assms(3) sz(1) by (simp add: sub32_id size_ok_def)
  show ?thesis
  proof (cases "sz - a \<ge> 16")
    case True
    let ?m2 = "set_tag (heap s) bp a True"
    have "blk ?m2 bp (a, True)" by (rule blk_set_tag) (use assms in auto)
    then have next_bp: "NEXT_BLOCK_BP ?m2 bp = bp + a" using blk_GET_SIZE(6) by fastforce
    have rest: "size_ok (sz - a)" using size_ok_diff sz(1) assms(2) True by simp
    show ?thesis
      using True rest assms(4)
      by (simp add: nf_mark_def Let_def sz(2) sub DSIZE_def PACK_tag place_mem_def next_bp
          PUT_header_footer [OF assms(2,4)] PUT_header_footer [OF rest] del: One_nat_def)
  next
    case False
    then show ?thesis
      by (simp add: nf_mark_def Let_def sz(2) sub DSIZE_def PACK_tag place_mem_def
          PUT_header_footer [OF sz(1) assms(4)] del: One_nat_def)
  qed
qed

text \<open>The three cases in which \<open>coalesce\<close> joins blocks: with the next block, with the previous one, with both.\<close>

lemma nf_join_next:
  assumes h: "heap_at (heap s) b (ys @ (ps, True) # (sz, False) # (ns, False) # zs)" and lt: "span (ys @ (ps, True) # (sz, False) # (ns, False) # zs) < 2 ^ 32"
  shows "nf_coalesce s (b + span ys + ps) = (b + span (ys @ [(ps, True)]), s\<lparr>heap := set_tag (heap s) (b + span (ys @ [(ps, True)])) (sz + ns) False, last_bp := b + span (ys @ [(ps, True)])\<rparr>)
      \<and> heap_at (set_tag (heap s) (b + span (ys @ [(ps, True)])) (sz + ns) False) b ((ys @ [(ps, True)]) @ ((sz + ns), False) # zs)"
proof -
  let ?m = "heap s"
  note N = heap_at_neighbours [OF h]
  have "blk ?m (b + span ys + ps + sz) (ns, False)" using h by (simp add: heap_at_def)
  then have ok: "size_ok (sz + ns)" using lt N by (auto simp: size_ok_def blk_def)
  then have w: "wrap32 (sz + ns) = sz + ns" by (simp add: size_ok_def)
  have "heap_at (set_tag ?m (b + span (ys @ [(ps, True)])) (sz + ns) False) b ((ys @ [(ps, True)]) @ (sz + ns, False) # zs)"
    by (rule heap_at_set_tag [of _ _ _ "[(sz, False), (ns, False)]"]) (use h ok in auto)
  then show ?thesis using N PUT_header_footer [OF ok, of "b + span ys + ps" ?m False]
    by (simp add: nf_coalesce_def Let_def w PACK_tag next_tag_def add.assoc)
qed

lemma nf_join_prev:
  assumes h: "heap_at (heap s) b (ys @ (ps, False) # (sz, False) # zs)" and lt: "span (ys @ (ps, False) # (sz, False) # zs) < 2 ^ 32" and n: "snd (next_tag zs)"
  shows "nf_coalesce s (b + span ys + ps) = (b + span ys, s\<lparr>heap := set_tag (heap s) (b + span ys) (ps + sz) False, last_bp := b + span ys\<rparr>)
      \<and> heap_at (set_tag (heap s) (b + span ys) (ps + sz) False) b (ys @ ((ps + sz), False) # zs)"
proof -
  note N = heap_at_neighbours [OF h]
  have ok: "size_ok (ps + sz)" using lt N by (auto simp: size_ok_def)
  then have w: "wrap32 (sz + ps) = ps + sz" by (simp add: size_ok_def)
  have "heap_at (set_tag (heap s) (b + span ys) (ps + sz) False) b (ys @ (ps + sz, False) # zs)"
    by (rule heap_at_set_tag [of _ _ _ "[(ps, False), (sz, False)]"]) (use h ok in auto)
  then show ?thesis using N n PUT_prev [OF h] by (simp add: nf_coalesce_def Let_def w PACK_tag)
qed

lemma nf_join_both:
  assumes h: "heap_at (heap s) b (ys @ (ps, False) # (sz, False) # (ns, False) # zs)" and lt: "span (ys @ (ps, False) # (sz, False) # (ns, False) # zs) < 2 ^ 32"
  shows "nf_coalesce s (b + span ys + ps) = (b + span ys, s\<lparr>heap := set_tag (heap s) (b + span ys) (ps + sz + ns) False, last_bp := b + span ys\<rparr>)
      \<and> heap_at (set_tag (heap s) (b + span ys) (ps + sz + ns) False) b (ys @ ((ps + sz + ns), False) # zs)"
proof -
  note N = heap_at_neighbours [OF h]
  have "blk (heap s) (b + span ys + ps + sz) (ns, False)" using h by (simp add: heap_at_def)
  then have ok: "size_ok (ps + sz + ns)" and ns: "ns + ps < 2 ^ 32" using lt N by (auto simp: size_ok_def blk_def)
  have w: "wrap32 (sz + wrap32 (ns + ps)) = ps + sz + ns" using ok ns by (simp add: size_ok_def ac_simps)
  have "heap_at (set_tag (heap s) (b + span ys) (ps + sz + ns) False) b (ys @ (ps + sz + ns, False) # zs)"
    by (rule heap_at_set_tag [of _ _ _ "[(ps, False), (sz, False), (ns, False)]"]) (use h ok in auto)
  then show ?thesis using N PUT_both [OF h] by (simp add: nf_coalesce_def Let_def w PACK_tag next_tag_def)
qed

lemma nf_coalesce_join:
  assumes h: "heap_at (heap s) b (ys @ p # (sz, False) # zs)"
    and lt: "span (ys @ p # (sz, False) # zs) < 2 ^ 32"
    and j: "join (ys @ [p]) sz zs = (xs', sz', zs')"
  shows "\<exists>m'. nf_coalesce s (b + span ys + fst p)
             = (b + span xs', s\<lparr>heap := m', last_bp := b + span xs'\<rparr>)
           \<and> heap_at m' b (xs' @ (sz', False) # zs')
           \<and> (\<forall>a. a < b + span xs' - 4 \<or> b + span xs' + sz' - 4 \<le> a \<longrightarrow> m' a = heap s a)"
proof -
  obtain ps pa where p: "p = (ps, pa)" by (cases p)
  note N = heap_at_neighbours [OF h [unfolded p]]
  have tagged: ?thesis
    if "nf_coalesce s (b + span ys + ps) = (b + span xs', s\<lparr>heap := set_tag (heap s) (b + span xs') sz' False, last_bp := b + span xs'\<rparr>)
        \<and> heap_at (set_tag (heap s) (b + span xs') sz' False) b (xs' @ (sz', False) # zs')" "4 \<le> b + span xs'" "8 \<le> sz'"
    using that p set_tag_outside [of "b + span xs'" sz' _ "heap s" False]
    by (intro exI [of _ "set_tag (heap s) (b + span xs') sz' False"]) auto
  consider (none) "pa" "snd (next_tag zs)" | (nxt) ns zs2 where "pa" "zs = (ns, False) # zs2"
    | (prev) "\<not> pa" "snd (next_tag zs)" | (both) ns zs2 where "\<not> pa" "zs = (ns, False) # zs2"
    by (cases zs; cases pa; cases "snd (next_tag zs)") (auto simp: next_tag_def)
  then show ?thesis
  proof cases
    case none
    have "xs' = ys @ [p]" "sz' = sz" "zs' = zs" using j none p by (auto simp: join_snoc)
    then show ?thesis
      using none N h p
      by (intro exI [of _ "heap s"]) (simp add: nf_coalesce_def Let_def add.assoc)
  next
    case nxt
    have "xs' = ys @ [(ps, True)]" "sz' = sz + ns" "zs' = zs2" using j nxt p by (auto simp: join_snoc next_tag_def)
    then show ?thesis using nf_join_next [of s b ys ps sz ns zs2] h lt p nxt N(9-11) by (intro tagged) auto
  next
    case prev
    have "xs' = ys" "sz' = ps + sz" "zs' = zs" using j prev p by (auto simp: join_snoc)
    then show ?thesis using nf_join_prev [of s b ys ps sz zs] h lt p prev N(9-11) by (intro tagged) auto
  next
    case both
    have "xs' = ys" "sz' = ps + sz + ns" "zs' = zs2" using j both p by (auto simp: join_snoc next_tag_def)
    then show ?thesis using nf_join_both [of s b ys ps sz ns zs2] h lt p both N(9-11) by (intro tagged) auto
  qed
qed

text \<open>The searches return, and find what the search on sequences finds.\<close>

lemma nf_scan_fit:
  assumes "heap_at m b (x # xs)"
  shows "nf_scan m a b = Some (fit (\<lambda>sz. a < sz) (b + fst x) xs)"
  using assms
proof (induction xs arbitrary: b x)
  case Nil
  then have "blk m b x" by (simp add: heap_at_def)
  moreover have "GET_SIZE m (HEADER_P (b + fst x)) = 0" "IS_IT_ALLOC m (HEADER_P (b + fst x))"
    using heap_at_next [of m b "[x]" "[]"] Nil by (simp_all add: next_tag_def)
  ultimately show ?case
    by (subst nf_scan.simps) (simp add: Let_def blk_GET_SIZE)
next
  case (Cons y ys)
  have x: "blk m b x" using Cons.prems by (auto simp: heap_at_def)
  have y: "GET_SIZE m (HEADER_P (b + fst x)) = fst y" "IS_IT_ALLOC m (HEADER_P (b + fst x)) = snd y"
    using heap_at_next [of m b "[x]" "y # ys"] Cons.prems by (simp_all add: next_tag_def)
  have "heap_at m (b + fst x) (y # ys)" using Cons.prems by (simp add: heap_at_def add.assoc)
  from Cons.IH [OF this] have IH: "nf_scan m a (b + fst x) = Some (fit ((<) a) (b + fst x + fst y) ys)" .
  have "fst y \<noteq> 0" using Cons.prems blk_size [of m "b + fst x" y] by (simp add: heap_at_def)
  with x y IH show ?case
    by (subst nf_scan.simps) (simp add: Let_def blk_GET_SIZE)
qed

lemma nf_rescan_fit:
  assumes "seg m b (x # xs)" and "lastbp = b + span (butlast (x # xs))"
  shows "nf_rescan m a lastbp b = Some (fit (\<lambda>sz. a \<le> sz) (b + fst x) xs)"
  using assms
proof (induction xs arbitrary: b x)
  case Nil
  then show ?case by (subst nf_rescan.simps) simp
next
  case (Cons y ys)
  have x: "NEXT_BLOCK_BP m b = b + fst x" "8 \<le> fst x"
    using Cons.prems(1) blk_GET_SIZE(6) [of m b x] blk_size [of m b x] by simp_all
  have y: "GET_SIZE m (HEADER_P (b + fst x)) = fst y" "IS_IT_ALLOC m (HEADER_P (b + fst x)) = snd y"
    using Cons.prems(1) blk_GET_SIZE(1,2) [of m "b + fst x" y] by simp_all
  have "nf_rescan m a lastbp (b + fst x) = Some (fit ((\<le>) a) (b + fst x + fst y) ys)"
    by (rule Cons.IH) (use Cons.prems in \<open>auto simp: add.assoc\<close>)
  moreover have "b < lastbp" using Cons.prems(2) x(2) by simp
  ultimately show ?case
    using x y by (subst nf_rescan.simps) (simp add: Let_def)
qed

section \<open>The invariant\<close>

text \<open>\<open>nf_heap s bs\<close>: the heap of \<open>s\<close> is the prologue, the blocks \<open>bs\<close> and the epilogue, right up
  to the break; every block has at least the minimum size and no two neighbours are both free.
  \<open>nf_inv\<close> adds that \<open>last_bp\<close> is the address of a block (or of the prologue).\<close>

definition nf_heap :: "nextfit \<Rightarrow> block list \<Rightarrow> bool" where
  "nf_heap s bs \<longleftrightarrow>
     mem_wf s \<and> start_bp s = mem_start_brk s + 8
     \<and> heap_at (heap s) (start_bp s) ((8, True) # bs)
     \<and> mem_brk s = start_bp s + 8 + span bs
     \<and> (\<forall>b \<in> set bs. 16 \<le> fst b) \<and> coalesced bs"

definition nf_inv :: "nextfit \<Rightarrow> block list \<Rightarrow> bool" where
  "nf_inv s bs \<longleftrightarrow> nf_heap s bs \<and> last_bp s \<in> set (block_ptrs (start_bp s) ((8, True) # bs))"

lemma nf_heapD:
  assumes "nf_heap s bs"
  shows "mem_wf s" and "start_bp s = mem_start_brk s + 8"
    and "heap_at (heap s) (start_bp s) ((8, True) # bs)"
    and "heap_at (heap s) (start_bp s + 8) bs"
    and "mem_brk s = start_bp s + 8 + span bs" and "\<forall>b \<in> set bs. 16 \<le> fst b" and "coalesced bs"
    and "start_bp s + 8 + span bs < 2 ^ 32"
    and "8 dvd start_bp s" and "0 < start_bp s"
proof -
  show g: "mem_wf s" "start_bp s = mem_start_brk s + 8" "heap_at (heap s) (start_bp s) ((8, True) # bs)"
    "mem_brk s = start_bp s + 8 + span bs" "\<forall>b \<in> set bs. 16 \<le> fst b" "coalesced bs"
    using assms unfolding nf_heap_def by blast+
  then show "heap_at (heap s) (start_bp s + 8) bs" by (simp add: heap_at_def add.assoc)
  show "start_bp s + 8 + span bs < 2 ^ 32" "8 dvd start_bp s" "0 < start_bp s"
    using g by (auto simp: mem_wf_def)
qed

lemma nf_inv_heap: "nf_inv s bs \<Longrightarrow> nf_heap s bs"
  by (simp add: nf_inv_def)

lemmas nf_invD = nf_heapD [OF nf_inv_heap]

lemma nf_next_fit_spec:
  assumes "nf_inv s bs"
  obtains (found) xs sz zs where "bs = xs @ (sz, False) # zs" and "a \<le> sz"
      and "nf_next_fit s a = Some (start_bp s + 8 + span xs, s\<lparr>last_bp := start_bp s + 8 + span xs\<rparr>)"
  | (full) "nf_next_fit s a = Some (NULL, s)"
proof -
  let ?all = "(8, True) # bs" and ?b = "start_bp s"
  have h: "heap_at (heap s) ?b ?all" and l: "last_bp s \<in> set (block_ptrs ?b ?all)"
    using assms unfolding nf_inv_def nf_heap_def by blast+
  from block_ptrs_split [OF l] obtain xs c ys
    where all: "?all = xs @ c # ys" and last: "last_bp s = ?b + span xs" by blast
  have "heap_at (heap s) (?b + span xs) (c # ys)"
    using h unfolding all by (simp add: heap_at_def add.assoc)
  from nf_scan_fit [OF this] have scan:
    "nf_scan (heap s) a (last_bp s) = Some (fit ((<) a) (?b + span (xs @ [c])) ys)"
    by (simp add: last add.assoc)
  have before: "ys = us @ v # ws \<Longrightarrow> \<exists>us'. bs = us' @ v # ws \<and> span (xs @ [c]) + span us = 8 + span us'"
    for us v ws using all by (cases xs) auto
  show thesis
  proof (cases "fit ((<) a) (?b + span (xs @ [c])) ys")
    case (Some q)
    from fit_SomeD [OF Some] obtain us sz ws
      where "ys = us @ (sz, False) # ws" "q = ?b + span (xs @ [c]) + span us" "a < sz" by blast
    with before obtain us' where "bs = us' @ (sz, False) # ws" "q = ?b + 8 + span us'"
      by (metis add.assoc)
    with Some scan \<open>a < sz\<close> show thesis
      by (intro found) (auto simp: nf_next_fit_def)
  next
    case None
    obtain zs where zs: "xs @ [c] = (8, True) # zs" using all by (cases xs) auto
    have "seg (heap s) ?b ((8, True) # zs)" "last_bp s = ?b + span (butlast ((8, True) # zs))"
      using h last unfolding zs [symmetric] heap_at_def all by auto
    from nf_rescan_fit [OF this] have rescan:
      "nf_rescan (heap s) a (last_bp s) ?b = Some (fit ((\<le>) a) (?b + 8) zs)" by simp
    have bs: "bs = zs @ ys" using all zs by (metis Cons_eq_appendI append.assoc append_Cons append_Nil list.inject)
    show thesis
    proof (cases "fit ((\<le>) a) (?b + 8) zs")
      case (Some q)
      from fit_SomeD [OF Some] obtain us sz ws
        where "zs = us @ (sz, False) # ws" "q = ?b + 8 + span us" "a \<le> sz" by blast
      with Some None scan rescan bs show thesis
        by (intro found [of us sz "ws @ ys"]) (auto simp: nf_next_fit_def)
    next
      case None2: None
      with None scan rescan show thesis by (intro full) (auto simp: nf_next_fit_def)
    qed
  qed
qed

lemma nf_adjust_ok:
  assumes "0 < sz" and "sz \<le> 2 ^ 32 - 16"
  shows "size_ok (nf_adjust sz)" and "16 \<le> nf_adjust sz" and "sz + 8 \<le> nf_adjust sz"
proof -
  have "8 * ((sz + 15) div 8) \<le> sz + 15" by simp
  then have eq: "nf_adjust sz = (if sz \<le> 8 then 16 else 8 * ((sz + 15) div 8))"
    using assms by (auto simp: nf_adjust_def DSIZE_def)
  then show "size_ok (nf_adjust sz)" "16 \<le> nf_adjust sz" "sz + 8 \<le> nf_adjust sz"
    using assms by (auto simp: size_ok_def)
qed

text \<open>Allocating out of a free block.\<close>

lemma nf_mark_inv:
  assumes "nf_inv s (xs @ (sz, False) # zs)" and "size_ok a" and "16 \<le> a" and "a \<le> sz"
  defines "q \<equiv> start_bp s + 8 + span xs"
  shows "nf_mark (s\<lparr>last_bp := l\<rparr>) q a = s\<lparr>heap := place_mem (heap s) q sz a, last_bp := l\<rparr>"
    and "nf_inv (s\<lparr>heap := place_mem (heap s) q sz a, last_bp := q\<rparr>) (xs @ place sz a @ zs)"
    and "keeps (heap s) (place_mem (heap s) q sz a) (live (start_bp s + 8) (xs @ (sz, False) # zs))"
proof -
  note I = nf_invD [OF assms(1)]
  have blk: "blk (heap s) q (sz, False)" using heap_at_blk [OF I(4)] by (simp add: q_def)
  have q4: "4 \<le> q" using I(9,10) by (auto simp: q_def elim!: dvdE)
  show "nf_mark (s\<lparr>last_bp := l\<rparr>) q a = s\<lparr>heap := place_mem (heap s) q sz a, last_bp := l\<rparr>"
    using nf_mark_place [of "s\<lparr>last_bp := l\<rparr>" q sz False a] blk assms(2,4) q4 by simp
  have "heap_at (place_mem (heap s) q sz a) (start_bp s) (((8, True) # xs) @ place sz a @ zs)"
    using heap_at_place [of "heap s" "start_bp s" "(8, True) # xs" sz False zs a] I(3) assms(2,4)
    by (simp add: q_def add.assoc)
  moreover have "coalesced (xs @ place sz a @ zs)" by (rule coalesced_place) (rule I(7))
  moreover have "q \<in> set (block_ptrs (start_bp s + 8) (xs @ place sz a @ zs))"
    by (simp add: q_def place_def)
  ultimately show "nf_inv (s\<lparr>heap := place_mem (heap s) q sz a, last_bp := q\<rparr>) (xs @ place sz a @ zs)"
    using I place_ge [OF assms(3,4)] assms(4) by (auto simp: nf_inv_def nf_heap_def mem_wf_def)
  have "\<forall>x. x < q - 4 \<or> q + sz - 4 \<le> x \<longrightarrow> place_mem (heap s) q sz a x = heap s x"
    using q4 assms(3,4) by (auto intro!: place_mem_outside)
  with keeps_others [of "heap s" "start_bp s + 8" xs sz False zs "place_mem (heap s) q sz a"] I(4)
  show "keeps (heap s) (place_mem (heap s) q sz a) (live (start_bp s + 8) (xs @ (sz, False) # zs))"
    by (simp add: q_def heap_at_def)
qed

text \<open>Releasing: the block becomes free and takes in its free neighbours.\<close>

lemma nf_coalesce_inv:
  assumes I: "mem_wf s" "start_bp s = mem_start_brk s + 8"
      "heap_at (heap s) (start_bp s) ((8, True) # xs @ (sz, False) # zs)"
      "mem_brk s = start_bp s + 8 + span (xs @ (sz, False) # zs)"
      "\<forall>b \<in> set (xs @ (sz, False) # zs). 16 \<le> fst b" "coalesced xs" "coalesced zs"
    and j: "join xs sz zs = (xs', sz', zs')"
  shows "\<exists>s'. nf_coalesce s (start_bp s + 8 + span xs) = (start_bp s + 8 + span xs', s')
       \<and> nf_inv s' (xs' @ (sz', False) # zs')
       \<and> keeps (heap s) (heap s') (live (start_bp s + 8) (xs @ (sz, False) # zs))
       \<and> start_bp s' = start_bp s \<and> mem_brk s' = mem_brk s \<and> mem_max_addr s' = mem_max_addr s
       \<and> last_bp s' = start_bp s + 8 + span xs'"
proof -
  let ?b = "start_bp s"
  obtain ys p where ys: "(8, True) # xs = ys @ [p]" by (metis append_butlast_last_id list.distinct(1))
  have at: "?b + 8 + span xs = ?b + span ys + fst p"
    using arg_cong [OF ys, of span] by simp
  have h: "heap_at (heap s) ?b (ys @ p # (sz, False) # zs)"
    using I(3) ys by (metis append.assoc append_Cons append_Nil)
  have jj: "join (ys @ [p]) sz zs = ((8, True) # xs', sz', zs')"
    using j unfolding ys [symmetric]
    by (cases xs rule: rev_cases) (auto simp: join_def Let_def split: list.splits if_splits)
  have lt: "span (ys @ p # (sz, False) # zs) < 2 ^ 32"
    using I(1,2,4) at by (auto simp: mem_wf_def)
  from nf_coalesce_join [OF h lt jj] obtain m' where
    eq: "nf_coalesce s (?b + 8 + span xs)
       = (?b + 8 + span xs', s\<lparr>heap := m', last_bp := ?b + 8 + span xs'\<rparr>)"
    and h': "heap_at m' ?b ((8, True) # xs' @ (sz', False) # zs')"
    and frame: "\<forall>a. a < ?b + 8 + span xs' - 4 \<or> ?b + 8 + span xs' + sz' - 4 \<le> a \<longrightarrow> m' a = heap s a"
    unfolding at by (auto simp: add.assoc)
  have sg: "seg (heap s) (?b + 8) (xs @ (sz, False) # zs)" using I(3) by (simp add: heap_at_def)
  have lv: "live (?b + 8) (xs' @ (sz', False) # zs') = live (?b + 8) (xs @ (sz, False) # zs)"
    by (rule join_live [OF j sg])
  have "nf_inv (s\<lparr>heap := m', last_bp := ?b + 8 + span xs'\<rparr>) (xs' @ (sz', False) # zs')"
    using I h' join_span [OF j] join_coalesced [OF j I(6,7)]
    by (auto simp: nf_inv_def nf_heap_def mem_wf_def)
  moreover have "keeps (heap s) m' (live (?b + 8) (xs @ (sz, False) # zs))"
  proof -
    have "seg m' (?b + 8) (xs' @ (sz', False) # zs')" using h' by (simp add: heap_at_def)
    from keeps_others [OF this, of "heap s"] frame
    have "keeps m' (heap s) (live (?b + 8) (xs' @ (sz', False) # zs'))" by simp
    then show ?thesis unfolding lv by (rule keeps_sym)
  qed
  ultimately show ?thesis using eq by (intro exI [of _ "s\<lparr>heap := m', last_bp := ?b + 8 + span xs'\<rparr>"]) simp
qed

lemma nf_mm_free_inv:
  assumes "nf_inv s (xs @ (sz, True) # zs)" and j: "join xs sz zs = (xs', sz', zs')"
  defines "s' \<equiv> nf_mm_free s (start_bp s + 8 + span xs)"
  shows "nf_inv s' (xs' @ (sz', False) # zs')
       \<and> keeps (heap s) (heap s') (live (start_bp s + 8) (xs @ (sz, False) # zs))
       \<and> start_bp s' = start_bp s \<and> mem_brk s' = mem_brk s \<and> mem_max_addr s' = mem_max_addr s
       \<and> last_bp s' = start_bp s + 8 + span xs'"
proof -
  note I = nf_invD [OF assms(1)]
  let ?p = "start_bp s + 8 + span xs" let ?m = "set_tag (heap s) ?p sz False"
  have "blk (heap s) ?p (sz, True)" using heap_at_blk [OF I(4)] by simp
  then have ok: "size_ok sz" "GET_SIZE (heap s) (HEADER_P ?p) = sz"
    using blk_GET_SIZE(1) by (fastforce simp: blk_def)+
  have b4: "4 \<le> start_bp s" using I(3) by (simp add: heap_at_def)
  let ?s = "s\<lparr>heap := ?m\<rparr>"
  have free: "s' = snd (nf_coalesce ?s ?p)"
    using ok(1) b4 by (simp add: s'_def nf_mm_free_def Let_def ok(2) PACK_tag PUT_header_footer)
  have h: "heap_at ?m (start_bp s) (((8, True) # xs) @ (sz, False) # zs)"
    using heap_at_set_tag [of "heap s" "start_bp s" "(8, True) # xs" "[(sz, True)]" zs sz False] I(3) ok(1)
    by (simp add: add.assoc)
  have c: "coalesced xs" "coalesced zs"
    using I(7) by (auto simp: coalesced_def successively_append_iff successively_Cons)
  obtain s'' where s'': "nf_coalesce ?s ?p = (start_bp s + 8 + span xs', s'')"
      "nf_inv s'' (xs' @ (sz', False) # zs')"
      "keeps ?m (heap s'') (live (start_bp s + 8) (xs @ (sz, False) # zs))"
      "start_bp s'' = start_bp s" "mem_brk s'' = mem_brk s" "mem_max_addr s'' = mem_max_addr s"
      "last_bp s'' = start_bp s + 8 + span xs'"
    using nf_coalesce_inv [of ?s xs sz zs, OF _ _ _ _ _ c j] I h by (auto simp: mem_wf_def)
  have "\<forall>a. a < ?p - 4 \<or> ?p + sz - 4 \<le> a \<longrightarrow> ?m a = heap s a"
    using ok(1) by (auto simp: size_ok_def intro: set_tag_outside)
  with keeps_others [of "heap s" "start_bp s + 8" xs sz True zs ?m] I(4)
  have "keeps (heap s) ?m (live (start_bp s + 8) (xs @ (sz, False) # zs))" by (simp add: heap_at_def)
  from keeps_trans [OF this s''(3)] have "keeps (heap s) (heap s'') (live (start_bp s + 8) (xs @ (sz, False) # zs))" .
  moreover have "s' = s''" using free s''(1) by simp
  ultimately show ?thesis using s''(2,4-7) by blast
qed

text \<open>Growing the heap.\<close>

lemma nf_extend_heap_inv:
  assumes "nf_heap s bs" and "size_ok (words * 4)" and "16 \<le> words * 4"
  obtains (fail) "nf_extend_heap s words = (NULL, s)"
      "mem_max_addr s < mem_brk s + words * 4 \<or> 2 ^ 31 \<le> words * 4"
  | (ok) xs sz s' where "nf_extend_heap s words = (start_bp s + 8 + span xs, s')"
      "nf_inv s' (xs @ [(sz, False)])" "words * 4 \<le> sz"
      "live (start_bp s + 8) (xs @ [(sz, False)]) = live (start_bp s + 8) bs"
      "keeps (heap s) (heap s') (live (start_bp s + 8) bs)"
      "start_bp s' = start_bp s" "mem_brk s' = mem_brk s + words * 4" "mem_max_addr s' = mem_max_addr s"
proof -
  note I = nf_heapD [OF assms(1)]
  let ?n = "words * 4" let ?e = "mem_brk s" let ?m = "grow_mem (heap s) ?e ?n"
  have even: "words mod 2 = 0" using assms(2) unfolding size_ok_def by presburger
  have lt: "?n < 2 ^ 32" using assms(2) by (simp add: size_ok_def)
  have b4: "4 \<le> start_bp s" using I(3) by (simp add: heap_at_def)
  have e4: "4 \<le> ?e" using b4 I(5) by simp
  note sbrk = mem_sbrk_unsigned [OF I(1) lt]
  show thesis
  proof (cases "?e + ?n \<le> mem_max_addr s \<and> ?n < 2 ^ 31")
    case False
    then show thesis using fail even lt sbrk by (auto simp: nf_extend_heap_def Let_def)
  next
    case True
    let ?s = "s\<lparr>mem_brk := ?e + ?n, heap := ?m\<rparr>"
    obtain xs' sz' zs' where j: "join bs ?n [] = (xs', sz', zs')" by (metis prod_cases3)
    have z: "zs' = []" using j by (auto simp: join_def Let_def split: if_splits)
    have call: "nf_extend_heap s words = nf_coalesce ?s (start_bp s + 8 + span bs)"
      using even lt sbrk True PUT_grow [OF assms(2) e4, of "heap s"] I(5)
      by (simp add: nf_extend_heap_def Let_def PACK_tag del: One_nat_def)
    have h: "heap_at ?m (start_bp s) (((8, True) # bs) @ [(?n, False)])"
      using heap_at_grow [OF I(3) assms(2)] I(5) by (simp add: add.assoc)
    obtain s' where s': "nf_coalesce ?s (start_bp s + 8 + span bs) = (start_bp s + 8 + span xs', s')"
        "nf_inv s' (xs' @ [(sz', False)])"
        "keeps ?m (heap s') (live (start_bp s + 8) (bs @ [(?n, False)]))"
        "start_bp s' = start_bp s" "mem_brk s' = mem_brk s + ?n" "mem_max_addr s' = mem_max_addr s"
      using nf_coalesce_inv [of ?s bs ?n "[]", OF _ _ _ _ _ _ _ j] I h True assms(3) z
      by (auto simp: mem_wf_def coalesced_def)
    have sg: "seg ?m (start_bp s + 8) (bs @ [(?n, False)])" using h by (simp add: heap_at_def)
    have "?e = start_bp s + 8 + span bs" using I(5) .
    then have "keeps (heap s) ?m (live (start_bp s + 8) bs)"
      using I(4) e4 assms(3)
      by (intro keeps_before) (auto simp: heap_at_def intro!: grow_mem_outside)
    moreover have "keeps ?m (heap s') (live (start_bp s + 8) bs)" using s'(3) by simp
    ultimately have k: "keeps (heap s) (heap s') (live (start_bp s + 8) bs)" by (rule keeps_trans)
    show thesis
      using ok [of xs' s' sz'] call s' k join_span(2) [OF j] join_live [OF j sg] z by simp
  qed
qed

section \<open>The operations\<close>

lemma nf_mm_init_ok:
  assumes "mem_wf s" and "mem_brk s = mem_start_brk s" and "mem_start_brk s + 4112 \<le> mem_max_addr s"
  shows "\<exists>s'. nf_mm_init s = (0, s') \<and> nf_inv s' [(4096, False)] \<and> start_bp s' = mem_start_brk s + 8
           \<and> mem_max_addr s' = mem_max_addr s \<and> last_bp s' = start_bp s'"
proof -
  let ?p = "mem_start_brk s"
  let ?m = "PUT (PUT (PUT (PUT (heap s) ?p 0) (?p + 4) (tag 8 True)) (?p + 8) (tag 8 True)) (?p + 12) (tag 0 True)"
  let ?s = "s\<lparr>mem_brk := ?p + 16, heap := ?m, start_bp := ?p + 8\<rparr>"
  have "blk ?m (?p + 8) (8, True)" "get32 ?m (?p + 12) = tag 0 True"
    by (simp_all add: blk_def size_ok_def PUT_def get32_put32_other add.commute)
  then have "nf_heap ?s []"
    using assms by (auto simp: nf_heap_def heap_at_def mem_wf_def coalesced_def add.commute)
  moreover have "size_ok (1024 * 4)" by (simp add: size_ok_def)
  moreover have "(16 :: nat) \<le> 1024 * 4" by simp
  ultimately show ?thesis
  proof (cases rule: nf_extend_heap_inv [consumes 3])
    case fail
    with assms show ?thesis by simp
  next
    case (ok xs sz s')
    have init: "nf_mm_init s = (0, s'\<lparr>last_bp := start_bp s'\<rparr>)"
      using ok assms
      by (simp add: nf_mm_init_def Let_def mem_sbrk_def size_defs nat_add_distrib PACK_tag del: One_nat_def)
    have "xs = []" using nf_heapD(6) [OF nf_inv_heap [OF ok(2)]] ok(3,7) nf_heapD(5) [OF nf_inv_heap [OF ok(2)]]
      ok(6) by (cases xs) auto
    moreover have "sz = 4096"
      using nf_heapD(5) [OF nf_inv_heap [OF ok(2)]] ok(6,7) \<open>xs = []\<close> by simp
    ultimately show ?thesis
      using ok init by (auto simp: nf_inv_def nf_heap_def mem_wf_def)
  qed
qed

text \<open>Taking a block out of a free one, seen from the client: a fresh aligned payload that is
  large enough joins the live ones, which keep their contents.\<close>

lemma nf_take:
  assumes I: "nf_inv s (xs @ (k, False) # zs)" and sz: "0 < sz" "sz \<le> 2 ^ 32 - 16" "nf_adjust sz \<le> k"
  defines "q \<equiv> start_bp s + 8 + span xs" and "bs' \<equiv> xs @ place k (nf_adjust sz) @ zs"
    and "bs \<equiv> xs @ (k, False) # zs"
  obtains n m' where
    "\<And>l. (nf_mark (s\<lparr>last_bp := l\<rparr>) q (nf_adjust sz))\<lparr>last_bp := q\<rparr> = s\<lparr>heap := m', last_bp := q\<rparr>"
    and "nf_inv (s\<lparr>heap := m', last_bp := q\<rparr>) bs'" and "sz \<le> n" and "q \<noteq> NULL" and "8 dvd q"
    and "set (live (start_bp s + 8) bs') = insert (q, n) (set (live (start_bp s + 8) bs))"
    and "q \<notin> fst ` set (live (start_bp s + 8) bs)"
    and "keeps (heap s) m' (live (start_bp s + 8) bs)"
proof -
  let ?a = "nf_adjust sz"
  let ?n = "(if k - ?a \<ge> 16 then ?a else k) - 8"
  note A = nf_adjust_ok [OF sz(1,2)] and D = nf_invD [OF I]
  note M = nf_mark_inv [OF I A(1,2) sz(3), folded q_def]
  have sg: "seg (heap s) (start_bp s + 8) (xs @ (k, False) # zs)" using D(4) by (simp add: heap_at_def)
  have "8 dvd span xs" using sg seg_span_dvd by auto
  then have q: "8 dvd q" "q \<noteq> NULL" using D(9) by (auto simp: q_def)
  have lv: "set (live (start_bp s + 8) bs') = insert (q, ?n) (set (live (start_bp s + 8) bs))"
    using sz(3) by (simp add: bs'_def bs_def live_place q_def)
  have fresh: "q \<notin> fst ` set (live (start_bp s + 8) bs)"
    using live_fresh [OF sg] by (fastforce simp: bs_def q_def)
  have "sz \<le> ?n" using A(3) sz(3) by auto
  then show thesis
    using that [of "place_mem (heap s) q k ?a" ?n] M q lv fresh by (simp add: bs_def bs'_def)
qed

lemma nf_mm_malloc_inv:
  assumes I: "nf_inv s bs" and sz: "0 < sz" "sz \<le> 2 ^ 32 - 16"
  obtains (null) "nf_mm_malloc s sz = Some (NULL, s)"
      "mem_max_addr s < mem_brk s + max (nf_adjust sz) 4096 \<or> 2 ^ 31 \<le> nf_adjust sz"
  | (ok) p n s' bs' where "nf_mm_malloc s sz = Some (p, s')" "nf_inv s' bs'" "sz \<le> n"
      "p \<noteq> NULL" "8 dvd p"
      "set (live (start_bp s + 8) bs') = insert (p, n) (set (live (start_bp s + 8) bs))"
      "p \<notin> fst ` set (live (start_bp s + 8) bs)"
      "keeps (heap s) (heap s') (live (start_bp s + 8) bs)"
      "start_bp s' = start_bp s" "mem_max_addr s' = mem_max_addr s"
proof -
  let ?a = "nf_adjust sz" let ?b = "start_bp s + 8"
  note A = nf_adjust_ok [OF sz]
  from I show thesis
  proof (cases rule: nf_next_fit_spec [where a = ?a, consumes 1])
    case (found xs k zs)
    from nf_take [OF I [unfolded found(1)] sz found(2)] obtain n m' where
      T: "(nf_mark (s\<lparr>last_bp := ?b + span xs\<rparr>) (?b + span xs) ?a)\<lparr>last_bp := ?b + span xs\<rparr>
            = s\<lparr>heap := m', last_bp := ?b + span xs\<rparr>"
        "nf_inv (s\<lparr>heap := m', last_bp := ?b + span xs\<rparr>) (xs @ place k ?a @ zs)" "sz \<le> n"
        "?b + span xs \<noteq> NULL" "8 dvd ?b + span xs"
        "set (live ?b (xs @ place k ?a @ zs)) = insert (?b + span xs, n) (set (live ?b bs))"
        "?b + span xs \<notin> fst ` set (live ?b bs)" "keeps (heap s) m' (live ?b bs)"
      unfolding found(1) by metis
    have "nf_mm_malloc s sz = Some (?b + span xs, s\<lparr>heap := m', last_bp := ?b + span xs\<rparr>)"
      using sz found(3) T(1,4) by (simp add: nf_mm_malloc_def Let_def)
    from ok [OF this T(2,3,4,5,6,7)] T(8) show thesis by simp
  next
    case full
    let ?w = "max ?a 4096 div 4"
    have w4: "?w * 4 = max ?a 4096" using A(1) by (auto simp: size_ok_def max_def)
    have w: "size_ok (?w * 4)" "16 \<le> ?w * 4" using A unfolding w4 by (auto simp: size_ok_def max_def)
    from nf_inv_heap [OF I] w show thesis
    proof (cases rule: nf_extend_heap_inv [consumes 3])
      case fail
      then have "nf_mm_malloc s sz = Some (NULL, s)"
        using sz full by (simp add: nf_mm_malloc_def Let_def size_defs)
      then show thesis using null fail(2) unfolding w4 by (auto simp: max_def split: if_splits)
    next
      case E: (ok xs k s1)
      have k: "?a \<le> k" using E(3) unfolding w4 by simp
      from nf_take [OF E(2) sz k, unfolded E(4,6)] obtain n m' where
        T: "(nf_mark (s1\<lparr>last_bp := last_bp s1\<rparr>) (?b + span xs) ?a)\<lparr>last_bp := ?b + span xs\<rparr>
              = s1\<lparr>heap := m', last_bp := ?b + span xs\<rparr>"
          "nf_inv (s1\<lparr>heap := m', last_bp := ?b + span xs\<rparr>) (xs @ place k ?a @ [])" "sz \<le> n"
          "?b + span xs \<noteq> NULL" "8 dvd ?b + span xs"
          "set (live ?b (xs @ place k ?a @ [])) = insert (?b + span xs, n) (set (live ?b bs))"
          "?b + span xs \<notin> fst ` set (live ?b bs)" "keeps (heap s1) m' (live ?b bs)"
        by metis
      have "nf_mm_malloc s sz = Some (?b + span xs, s1\<lparr>heap := m', last_bp := ?b + span xs\<rparr>)"
        using sz full E(1) T(1,4) by (simp add: nf_mm_malloc_def Let_def size_defs)
      from ok [OF this T(2,3,4,5,6,7)] T(8) E(5,6,8) keeps_trans show thesis by simp
    qed
  qed
qed

section \<open>The allocator contract\<close>

definition nf_blocks :: "nextfit \<Rightarrow> block list" where
  "nf_blocks s = walk (mem_brk s) (heap s) (start_bp s + 8)"

definition nf_ok :: "nextfit \<Rightarrow> bool" where
  "nf_ok s \<longleftrightarrow> nf_inv s (nf_blocks s)"

definition nf_live :: "nextfit \<Rightarrow> (addr \<times> nat) set" where
  "nf_live s = set (live (start_bp s + 8) (nf_blocks s))"

lemma nf_inv_blocks:
  assumes "nf_inv s bs"
  shows "nf_blocks s = bs"
proof -
  note D = nf_invD [OF assms]
  have "length bs \<le> span bs" using D(4) seg_length by (auto simp: heap_at_def)
  then have "length bs < mem_brk s" using D(5,10) by simp
  then show ?thesis using walk_heap_at [OF D(4)] by (simp add: nf_blocks_def)
qed

lemma nf_ok_iff: "nf_ok s \<longleftrightarrow> (\<exists>bs. nf_inv s bs)"
  unfolding nf_ok_def using nf_inv_blocks by blast

lemma nf_inv_live: "nf_inv s bs \<Longrightarrow> nf_live s = set (live (start_bp s + 8) bs)"
  by (simp add: nf_live_def nf_inv_blocks)

lemma nf_inv_write:
  assumes "nf_inv s bs" and "(p, n) \<in> set (live (start_bp s + 8) bs)"
    and "\<And>a. a < p \<or> p + n \<le> a \<Longrightarrow> m' a = heap s a"
  shows "nf_inv (s\<lparr>heap := m'\<rparr>) bs"
proof -
  note D = nf_invD [OF assms(1)]
  let ?b = "start_bp s"
  have sg: "seg (heap s) ?b ((8, True) # bs)" "4 \<le> ?b" using D(3) by (simp_all add: heap_at_def)
  have "seg m' ?b ((8, True) # bs)"
    by (rule seg_payload_write [OF sg _ assms(3)]) (use assms(2) in auto)
  moreover have "get32 m' (?b + span ((8, True) # bs) - 4) = tag 0 True"
  proof -
    have "seg (heap s) (?b + 8) bs" using D(4) by (simp add: heap_at_def)
    from live_bounds [OF this assms(2)] have "p + n + 8 \<le> ?b + 8 + span bs" by simp
    then have "get32 m' (?b + 8 + span bs - 4) = get32 (heap s) (?b + 8 + span bs - 4)"
      by (intro get32_cong assms(3)) arith
    then show ?thesis using D(3) by (simp add: heap_at_def add.assoc)
  qed
  ultimately show ?thesis using assms(1) sg(2) by (auto simp: nf_inv_def nf_heap_def heap_at_def mem_wf_def)
qed

lemma nf_live_contract:
  assumes "nf_inv s bs" and "(p, n) \<in> set (live (start_bp s + 8) bs)"
  shows "mem_heap_lo s \<le> p \<and> 0 < p \<and> p + n \<le> mem_brk s" and "8 dvd p"
proof -
  note D = nf_invD [OF assms(1)]
  have sg: "seg (heap s) (start_bp s + 8) bs" using D(4) by (simp add: heap_at_def)
  show "mem_heap_lo s \<le> p \<and> 0 < p \<and> p + n \<le> mem_brk s"
    using live_bounds [OF sg assms(2)] D(2,5) by (simp add: mem_heap_lo_def)
  from live_split [OF assms(2)] obtain xs sz ys
    where "bs = xs @ (sz, True) # ys" "p = start_bp s + 8 + span xs" by blast
  then show "8 dvd p" using seg_span_dvd [of "heap s" "start_bp s + 8" xs] sg D(9) by simp
qed

lemma keeps_same_payload: "keeps m m' ps = same_payload m m' (set ps)"
  by (simp add: keeps_def same_payload_def)

lemma nf_mm_free_contract:
  assumes "nf_inv s bs" and "(p, n) \<in> set (live (start_bp s + 8) bs)"
  shows "\<exists>bs'. nf_inv (nf_mm_free s p) bs' \<and> start_bp (nf_mm_free s p) = start_bp s
     \<and> set (live (start_bp s + 8) bs') = set (live (start_bp s + 8) bs) - {(p, n)}
     \<and> same_payload (heap s) (heap (nf_mm_free s p)) (set (live (start_bp s + 8) bs) - {(p, n)})"
proof -
  note D = nf_invD [OF assms(1)]
  let ?b = "start_bp s + 8"
  from live_split [OF assms(2)] obtain xs sz zs
    where bs: "bs = xs @ (sz, True) # zs" and p: "p = ?b + span xs" "n = sz - 8" by blast
  obtain xs' sz' zs' where j: "join xs sz zs = (xs', sz', zs')" by (metis prod_cases3)
  have sg: "seg (heap s) ?b (xs @ (sz, True) # zs)" using D(4) bs by (simp add: heap_at_def)
  note F = nf_mm_free_inv [OF assms(1) [unfolded bs] j, folded p(1)]
  have "(p, n) \<notin> set (live ?b xs @ live (?b + span xs + sz) zs)"
    using live_fresh [OF sg] p by blast
  then have "set (live ?b (xs @ (sz, False) # zs)) = set (live ?b bs) - {(p, n)}"
    using p by (auto simp: bs)
  then show ?thesis using F join_live [OF j sg] by (metis keeps_same_payload)
qed

interpretation nf: allocator nf_ok nf_live heap "\<lambda>m s. s\<lparr>heap := m\<rparr>" mem_heap_lo mem_brk
  nf_mm_malloc nf_mm_free
proof
  fix s p n q k
  assume "nf_ok s"
  then obtain bs where I: "nf_inv s bs" by (auto simp: nf_ok_iff)
  then have sg: "seg (heap s) (start_bp s + 8) bs" using nf_invD(4) by (simp add: heap_at_def)
  assume m: "(p, n) \<in> nf_live s"
  show "mem_heap_lo s \<le> p \<and> 0 < p \<and> p + n \<le> mem_brk s" "8 dvd p"
    using nf_live_contract [OF I] m nf_inv_live [OF I] by simp_all
  show "p + n \<le> q \<or> q + k \<le> p" if "(q, k) \<in> nf_live s" "p \<noteq> q"
    using blocks_disjoint [OF sg] m that nf_inv_live [OF I] by fastforce
  show "n = k" if "(p, k) \<in> nf_live s"
    using blocks_functional [OF sg] m that nf_inv_live [OF I] by simp
  show "nf_ok (nf_mm_free s p) \<and> nf_live (nf_mm_free s p) = nf_live s - {(p, n)}
        \<and> same_payload (heap s) (heap (nf_mm_free s p)) (nf_live s - {(p, n)})"
    using nf_mm_free_contract [OF I] m nf_inv_live I nf_ok_iff by metis
  show "nf_ok (s\<lparr>heap := m'\<rparr>) \<and> nf_live (s\<lparr>heap := m'\<rparr>) = nf_live s \<and> heap (s\<lparr>heap := m'\<rparr>) = m'"
    if "\<And>a. a < p \<or> p + n \<le> a \<Longrightarrow> m' a = heap s a" for m'
    using nf_inv_write [OF I _ that] m nf_inv_live [OF I] nf_inv_live nf_ok_iff by fastforce
next
  fix s sz p s'
  assume "nf_ok s" and le: "sz \<le> max_request"
  then obtain bs where I: "nf_inv s bs" by (auto simp: nf_ok_iff)
  show "\<exists>p s'. nf_mm_malloc s sz = Some (p, s')" if "0 < sz"
    using nf_mm_malloc_inv [OF I that] le by (metis max_request_def)
  show "s' = s" if "nf_mm_malloc s sz = Some (NULL, s')"
  proof (cases "sz = 0")
    case True
    with that show ?thesis by (simp add: nf_mm_malloc_def)
  next
    case False
    then show ?thesis using nf_mm_malloc_inv [OF I, of sz] le that
      by (metis Pair_inject gr0I max_request_def option.inject)
  qed
  assume "0 < sz" and call: "nf_mm_malloc s sz = Some (p, s')" "p \<noteq> NULL"
  then show "nf_ok s' \<and> (\<exists>n\<ge>sz. nf_live s' = insert (p, n) (nf_live s)) \<and> p \<notin> fst ` nf_live s
        \<and> same_payload (heap s) (heap s') (nf_live s)"
    using nf_mm_malloc_inv [OF I, of sz] le nf_inv_live [OF I] nf_inv_live nf_ok_iff
    unfolding max_request_def keeps_same_payload [symmetric]
    by (metis (no_types, lifting) Pair_inject keeps_same_payload option.inject)
qed

section \<open>Reallocation\<close>

lemma nf_live_block:
  assumes "nf_inv s bs" and "(p, n) \<in> set (live (start_bp s + 8) bs)"
  obtains xs sz zs where "bs = xs @ (sz, True) # zs" and "p = start_bp s + 8 + span xs" and "n + 8 = sz"
    and "blk (heap s) p (sz, True)" and "4 \<le> p"
    and "NEXT_BLOCK_BP (heap s) p = p + sz"
    and "IS_IT_ALLOC (heap s) (HEADER_P (p + sz)) = snd (next_tag zs)"
    and "GET_SIZE (heap s) (HEADER_P (p + sz)) = fst (next_tag zs)"
    and "GET_SIZE (heap s) (HEADER_P p) = sz"
proof -
  note D = nf_invD [OF assms(1)]
  from live_split [OF assms(2)] obtain xs sz zs
    where bs: "bs = xs @ (sz, True) # zs" and p: "p = start_bp s + 8 + span xs" "n = sz - 8" by blast
  have b: "blk (heap s) p (sz, True)" using heap_at_blk [OF D(4) [unfolded bs]] p by simp
  have "heap_at (heap s) (start_bp s + 8) ((xs @ [(sz, True)]) @ zs)" using D(4) bs by simp
  from heap_at_next [OF this] have
    "IS_IT_ALLOC (heap s) (HEADER_P (p + sz)) = snd (next_tag zs)"
    "GET_SIZE (heap s) (HEADER_P (p + sz)) = fst (next_tag zs)" by (simp_all add: p add.assoc)
  moreover have "4 \<le> p" using D(9,10) p by (auto elim!: dvdE)
  ultimately show thesis using that [OF bs p(1)] b blk_GET_SIZE [OF b] blk_size [OF b] p(2) by simp
qed

text \<open>In place, when the block is large enough already: nothing changes.\<close>

lemma nf_realloc_shrink:
  assumes "nf_inv s bs" and "(p, n) \<in> set (live (start_bp s + 8) bs)" and "sz \<le> n"
  shows "nf_mm_realloc s p sz = Some (Inr (p, s))"
proof -
  from nf_live_block [OF assms(1,2)] obtain k where k: "GET_SIZE (heap s) (HEADER_P p) = k" "n + 8 = k"
      "blk (heap s) p (k, True)" by metis
  then have "k < 2 ^ 32" by (simp add: blk_def size_ok_def)
  then have "wrap32 (sz + 8) = sz + 8" using assms(3) k(2) by simp
  then show ?thesis using k assms(3) by (simp add: nf_mm_realloc_def Let_def WSIZE_def)
qed

text \<open>In place, by taking in the free block behind.\<close>

lemma nf_realloc_grow:
  assumes I: "nf_inv s (xs @ (k, True) # (f, False) # zs)"
    and sz: "k < sz + 8" "sz + 8 \<le> k + f"
  defines "p \<equiv> start_bp s + 8 + span xs"
  shows "\<exists>m'. nf_mm_realloc s p sz = Some (Inr (p, s\<lparr>heap := m'\<rparr>))
     \<and> nf_heap (s\<lparr>heap := m'\<rparr>) (xs @ (k + f, True) # zs)
     \<and> keeps (heap s) m' (live (start_bp s + 8) (xs @ (k, True) # (f, False) # zs))"
proof -
  note D = nf_invD [OF I]
  let ?m = "set_tag (heap s) p (k + f) True"
  have mem: "(p, k - 8) \<in> set (live (start_bp s + 8) (xs @ (k, True) # (f, False) # zs))"
    by (simp add: p_def)
  have b: "blk (heap s) p (k, True)" "blk (heap s) (p + k) (f, False)"
    using D(4) by (simp_all add: heap_at_def p_def)
  then have ok: "size_ok (k + f)" "8 \<le> k" "8 \<le> f" using D(8) by (auto simp: blk_def size_ok_def)
  have w: "wrap32 (sz + 8) = sz + 8" "wrap32 (k + f) = k + f" using ok(1) sz by (auto simp: size_ok_def)
  have p4: "4 \<le> p" using D(9,10) by (auto simp: p_def elim!: dvdE)
  have "nf_mm_realloc s p sz = Some (Inr (p, s\<lparr>heap := ?m\<rparr>))"
    using PUT_header_footer [OF ok(1) p4, of "heap s" True] blk_GET_SIZE [OF b(1)] blk_GET_SIZE [OF b(2)] sz w
    by (simp add: nf_mm_realloc_def Let_def WSIZE_def PACK_tag del: One_nat_def)
  moreover have "heap_at ?m (start_bp s) (((8, True) # xs) @ (k + f, True) # zs)"
    using heap_at_set_tag [of "heap s" "start_bp s" "(8, True) # xs" "[(k, True), (f, False)]" zs "k + f" True]
      D(3) ok(1) by (simp add: p_def add.assoc)
  then have "nf_heap (s\<lparr>heap := ?m\<rparr>) (xs @ (k + f, True) # zs)"
    using D by (auto simp: nf_heap_def mem_wf_def coalesced_def successively_append_iff successively_Cons)
  moreover have "keeps (heap s) ?m (live (start_bp s + 8) (xs @ (k, True) # (f, False) # zs))"
  proof -
    have sg: "seg (heap s) (start_bp s + 8) (xs @ (k, True) # (f, False) # zs)"
      using D(4) by (simp add: heap_at_def)
    have "?m a = heap s a" if "a < p - 4 \<or> p + k + f - 4 \<le> a \<or> p \<le> a \<and> a < p + k - 8" for a
      by (rule set_tag_outside [OF p4]) (use that ok in auto)
    moreover have "q + i < p - 4 \<or> p + k + f - 4 \<le> q + i \<or> p \<le> q + i \<and> q + i < p + k - 8"
      if q: "(q, j) \<in> set (live (start_bp s + 8) (xs @ (k, True) # (f, False) # zs))" "i < j" for q i j
      using q sg live_bounds [of "heap s" "start_bp s + 8" xs q j] ok
        live_bounds [of "heap s" "start_bp s + 8 + span xs + k + f" zs q j]
      by (auto simp: p_def add.assoc)
    ultimately show ?thesis by (auto simp: keeps_def)
  qed
  ultimately show ?thesis by blast
qed

text \<open>A failed allocation inside \<open>mm_realloc\<close> is not caught: the null pointer goes to \<open>mark\<close>.\<close>

lemma nf_realloc_null:
  assumes I: "nf_inv s bs" and p: "(p, n) \<in> set (live (start_bp s + 8) bs)"
    and sz: "n < sz" "sz + 8 \<le> 2 ^ 32 - 16" and full: "IS_IT_ALLOC (heap s) (HEADER_P (p + n + 8))"
    and null: "nf_mm_malloc s (sz + 8) = Some (NULL, s)"
  shows "nf_mm_realloc s p sz = Some (Inl NullDeref)"
proof -
  from nf_live_block [OF I p] have k: "GET_SIZE (heap s) (HEADER_P p) = n + 8"
      "NEXT_BLOCK_BP (heap s) p = p + n + 8" by (metis, metis add.assoc)
  have "wrap32 (sz + 8) = sz + 8" using sz by simp
  then show ?thesis using sz full null
    by (simp add: nf_mm_realloc_def Let_def WSIZE_def k)
qed

end
