(* ===== verification/NextFit_Correct.thy ===== *)
theory NextFit_Correct
  imports NextFit
begin

text \<open>
  The properties of the next-fit allocator, and the states they are witnessed on: the arena after
  \<open>mem_init\<close>, the heap after \<open>mm_init\<close>, and the heap after two small allocations.
\<close>

section \<open>Concrete states\<close>

definition nf_arena :: nextfit where
  "nf_arena = \<lparr>mem_start_brk = 8, mem_brk = 8, mem_max_addr = 8 + MAX_HEAP, heap = \<lambda>_. 0,
               start_bp = 0, last_bp = 0\<rparr>"

definition nf_booted :: nextfit where
  "nf_booted = snd (nf_mm_init nf_arena)"

lemma nf_arena_wf:
  "mem_wf nf_arena" "mem_brk nf_arena = mem_start_brk nf_arena"
  "mem_start_brk nf_arena + 4112 \<le> mem_max_addr nf_arena"
  by (simp_all add: nf_arena_def mem_wf_def MAX_HEAP_def)

lemma nf_booted_init: "nf_mm_init nf_arena = (0, nf_booted)"
  and nf_booted_inv: "nf_inv nf_booted [(4096, False)]"
  and nf_booted_fields: "start_bp nf_booted = 16" "last_bp nf_booted = 16" "mem_max_addr nf_booted = 8 + MAX_HEAP"
  using nf_mm_init_ok [OF nf_arena_wf] by (auto simp: nf_booted_def) (simp_all add: nf_arena_def)

lemma nf_booted_ok: "nf_ok nf_booted" "nf_live nf_booted = {}" "nf_blocks nf_booted = [(4096, False)]"
  using nf_booted_inv nf_inv_live [OF nf_booted_inv] nf_inv_blocks [OF nf_booted_inv]
  by (auto simp: nf_ok_iff)

text \<open>The search behind \<open>last_bp\<close>, on the block sequence.\<close>

lemma nf_scan_behind:
  assumes "nf_inv s bs" and "(8, True) # bs = xs @ c # ys" and "last_bp s = start_bp s + span xs"
  shows "nf_scan (heap s) a (last_bp s) = Some (fit ((<) a) (start_bp s + span (xs @ [c])) ys)"
proof -
  have "heap_at (heap s) (start_bp s + span xs) (c # ys)"
    using nf_invD(3) [OF assms(1)] unfolding assms(2) by (simp add: heap_at_def add.assoc)
  from nf_scan_fit [OF this] show ?thesis by (simp add: assms(3) add.assoc)
qed

lemma nf_malloc_behind:
  assumes I: "nf_inv s (us @ (k, False) # zs)" and sz: "0 < sz" "sz \<le> 2 ^ 32 - 16" "nf_adjust sz < k"
    and last: "(8, True) # us = xs @ [c]" "last_bp s = start_bp s + span xs"
  defines "q \<equiv> start_bp s + 8 + span us"
  shows "\<exists>m'. nf_mm_malloc s sz = Some (q, s\<lparr>heap := m', last_bp := q\<rparr>)
    \<and> nf_inv (s\<lparr>heap := m', last_bp := q\<rparr>) (us @ place k (nf_adjust sz) @ zs)"
proof -
  have sp: "span xs + fst c = 8 + span us" using arg_cong [OF last(1), of span] by simp
  have q: "q = start_bp s + (span xs + fst c)" unfolding sp q_def by simp
  have "nf_scan (heap s) (nf_adjust sz) (last_bp s) = Some (Some q)"
    using nf_scan_behind [OF I, of xs c "(k, False) # zs" "nf_adjust sz"] last sz(3)
    by (simp add: q)
  then have "nf_next_fit s (nf_adjust sz) = Some (q, s\<lparr>last_bp := q\<rparr>)" by (simp add: nf_next_fit_def)
  moreover have "q \<noteq> NULL" by (simp add: q_def)
  moreover have "nf_adjust sz \<le> k" using sz(3) by simp
  ultimately show ?thesis
    using nf_take [OF I sz(1,2)] sz(1) unfolding nf_mm_malloc_def q_def
    by (simp add: Let_def) metis
qed

text \<open>Two allocations of 16 bytes after boot: the blocks at 24 and 48.\<close>

lemma nf_two_blocks:
  obtains s1 s2 where "nf_mm_malloc nf_booted 16 = Some (24, s1)" "nf_mm_malloc s1 16 = Some (48, s2)"
    "nf_inv s2 [(24, True), (24, True), (4048, False)]" "start_bp s2 = 16" "mem_max_addr s2 = 8 + MAX_HEAP"
    "last_bp s2 = 48"
proof -
  have a: "nf_adjust 16 = 24" by (simp add: nf_adjust_def DSIZE_def wrap32_def)
  have p: "place 4096 24 = [(24, True), (4072, False)]" "place 4072 24 = [(24, True), (4048, False)]"
    by (simp_all add: place_def)
  obtain m1 where 1: "nf_mm_malloc nf_booted 16 = Some (24, nf_booted\<lparr>heap := m1, last_bp := 24\<rparr>)"
      "nf_inv (nf_booted\<lparr>heap := m1, last_bp := 24\<rparr>) ([(24, True)] @ (4072, False) # [])"
    using nf_malloc_behind [of nf_booted "[]" 4096 "[]" 16 "[]" "(8, True)"] nf_booted_inv
    by (auto simp: a nf_booted_fields p)
  let ?s1 = "nf_booted\<lparr>heap := m1, last_bp := 24\<rparr>"
  obtain m2 where 2: "nf_mm_malloc ?s1 16 = Some (48, ?s1\<lparr>heap := m2, last_bp := 48\<rparr>)"
      "nf_inv (?s1\<lparr>heap := m2, last_bp := 48\<rparr>) [(24, True), (24, True), (4048, False)]"
    using nf_malloc_behind [OF 1(2), of 16 "[(8, True)]" "(24, True)"] by (auto simp: a nf_booted_fields p)
  show thesis by (rule that [OF 1(1) 2]) (simp_all add: nf_booted_fields)
qed

section \<open>Allocation\<close>

text \<open>(C1) On a well-formed heap \<open>mm_malloc\<close> returns for every request from one byte to the largest
  one whose block size fits \<^verbatim>\<open>size_t\<close>.  It returns null, with the state unchanged, only when the
  heap would have to grow by the block (or by a chunk, when that is larger) and the arena has no
  room for it.  Otherwise it returns a double-word aligned payload inside the heap, of at least the
  requested size and disjoint from every live payload; the live payloads keep their contents and
  the heap is well-formed again.\<close>

theorem nf_mm_malloc_correct:
  assumes "nf_ok s" and "0 < sz" and "sz \<le> max_request"
  shows "\<exists>p s'. nf_mm_malloc s sz = Some (p, s')
    \<and> (if p = NULL
       then s' = s \<and> (mem_max_addr s < mem_brk s + max (nf_adjust sz) CHUNCKSIZE \<or> 2 ^ 31 \<le> nf_adjust sz)
       else nf_ok s' \<and> 8 dvd p \<and> mem_heap_lo s' \<le> p \<and> p + sz \<le> mem_brk s'
         \<and> (\<exists>n \<ge> sz. nf_live s' = insert (p, n) (nf_live s))
         \<and> (\<forall>(q, k) \<in> nf_live s. p + sz \<le> q \<or> q + k \<le> p)
         \<and> same_payload (heap s) (heap s') (nf_live s))"
proof -
  obtain p s' where call: "nf_mm_malloc s sz = Some (p, s')" using nf.malloc_returns [OF assms] by blast
  obtain bs where I: "nf_inv s bs" using assms(1) by (auto simp: nf_ok_iff)
  show ?thesis
  proof (cases "p = NULL")
    case True
    then show ?thesis
      using call assms(2,3) nf_mm_malloc_inv [OF I assms(2)]
      by (intro exI [of _ p] exI [of _ s']) (simp add: max_request_def CHUNCKSIZE_def, metis Pair_inject option.inject)
  next
    case False
    note ok = nf.malloc_ok [OF assms call False]
    then obtain n where n: "sz \<le> n" "nf_ok s'" "(p, n) \<in> nf_live s'" by blast
    have "\<forall>(q, k) \<in> nf_live s. p + sz \<le> q \<or> q + k \<le> p"
      using nf.malloc_disjoint [OF assms call False] by auto
    moreover have "8 dvd p" using nf.live_aligned [OF n(2,3)] .
    moreover have "mem_heap_lo s' \<le> p \<and> p + sz \<le> mem_brk s'" using nf.live_range [OF n(2,3)] n(1) by simp
    ultimately show ?thesis using ok call False by (intro exI [of _ p] exI [of _ s']) simp
  qed
qed

theorem nf_mm_malloc_correct_witness:
  "nf_ok nf_booted \<and> (\<exists>p s'. nf_mm_malloc nf_booted 100 = Some (p, s') \<and> p \<noteq> NULL \<and> nf_ok s' \<and> 8 dvd p
     \<and> (\<exists>n \<ge> 100. nf_live s' = {(p, n)}))"
proof -
  have "mem_brk nf_booted + 4096 \<le> mem_max_addr nf_booted"
    using nf_invD(5) [OF nf_booted_inv] by (simp add: nf_booted_fields MAX_HEAP_def)
  then have "\<not> (mem_max_addr nf_booted < mem_brk nf_booted + max (nf_adjust 100) CHUNCKSIZE \<or> 2 ^ 31 \<le> nf_adjust 100)"
    by (simp add: nf_adjust_def DSIZE_def CHUNCKSIZE_def wrap32_def)
  with nf_mm_malloc_correct [OF nf_booted_ok(1), of 100] nf_booted_ok show ?thesis
    by (auto simp: max_request_def split: if_splits)
qed

text \<open>(C18) \<open>mm_free\<close> of a live payload removes exactly that payload: the other live payloads stay
  live with the contents they had, and the heap, coalesced with both neighbours, is well-formed.
  The break does not move.\<close>

theorem nf_mm_free_correct:
  assumes "nf_ok s" and "(p, n) \<in> nf_live s"
  shows "nf_ok (nf_mm_free s p) \<and> nf_live (nf_mm_free s p) = nf_live s - {(p, n)}
     \<and> same_payload (heap s) (heap (nf_mm_free s p)) (nf_live s - {(p, n)})
     \<and> coalesced (nf_blocks (nf_mm_free s p)) \<and> mem_brk (nf_mm_free s p) = mem_brk s"
proof -
  note F = nf.free_ok [OF assms]
  have "coalesced (nf_blocks (nf_mm_free s p))" using F by (auto simp: nf_ok_def nf_inv_def nf_heap_def)
  moreover have "mem_brk (nf_mm_free s p) = mem_brk s" by (simp add: nf_mm_free_def nf_coalesce_def Let_def)
  ultimately show ?thesis using F by blast
qed

theorem nf_mm_free_correct_witness:
  "\<exists>s. (24, 16) \<in> nf_live s \<and> (48, 16) \<in> nf_live s \<and> nf_live (nf_mm_free s 24) = {(48, 16)}"
proof (cases rule: nf_two_blocks)
  case (1 s1 s2)
  have "nf_ok s2" "nf_live s2 = {(24, 16), (48, 16)}"
    using 1 nf_inv_live [OF 1(3)] by (auto simp: nf_ok_iff)
  with nf_mm_free_correct [of s2 24 16] show ?thesis by (intro exI [of _ s2]) auto
qed

text \<open>\<open>mm_init\<close> on an arena with room for the prologue, the epilogue and one chunk returns 0
  and leaves a well-formed heap of one free chunk, with no live payload and the search pointer on
  the prologue.\<close>

theorem nf_mm_init_correct:
  assumes "mem_wf s" and "mem_brk s = mem_start_brk s" and "mem_start_brk s + 4 * WSIZE + CHUNCKSIZE \<le> mem_max_addr s"
  shows "\<exists>s'. nf_mm_init s = (0, s') \<and> nf_ok s' \<and> nf_live s' = {}
     \<and> nf_blocks s' = [(CHUNCKSIZE, False)] \<and> last_bp s' = start_bp s'"
proof -
  have "mem_start_brk s + 4112 \<le> mem_max_addr s" using assms(3) by (simp add: WSIZE_def CHUNCKSIZE_def)
  from nf_mm_init_ok [OF assms(1,2) this] obtain s' where
    "nf_mm_init s = (0, s')" "nf_inv s' [(4096, False)]" "last_bp s' = start_bp s'" by blast
  then show ?thesis using nf_inv_live nf_inv_blocks by (auto simp: nf_ok_iff CHUNCKSIZE_def)
qed

theorem nf_mm_init_correct_witness:
  "mem_wf nf_arena \<and> (\<exists>s'. nf_mm_init nf_arena = (0, s') \<and> nf_ok s' \<and> nf_live s' = {})"
  using nf_mm_init_correct [of nf_arena] nf_arena_wf
  by (auto simp: nf_arena_def WSIZE_def CHUNCKSIZE_def MAX_HEAP_def)

text \<open>The first loop of \<open>next_fit\<close> asks for a block that is strictly larger than the request, so
  a free block behind the search pointer that fits exactly is passed over: right after \<open>mm_init\<close> a
  request of 4088 bytes needs exactly the free chunk of 4096, yet the heap grows by another chunk.\<close>

theorem nf_exact_fit_missed:
  "nf_blocks nf_booted = [(4096, False)] \<and> nf_adjust 4088 = 4096
   \<and> (\<exists>p s'. nf_mm_malloc nf_booted 4088 = Some (p, s') \<and> p \<noteq> NULL \<and> mem_brk s' = mem_brk nf_booted + 4096)"
proof -
  let ?s = nf_booted
  have a: "nf_adjust 4088 = 4096" by (simp add: nf_adjust_def DSIZE_def wrap32_def)
  have "nf_scan (heap ?s) 4096 (last_bp ?s) = Some None"
    using nf_scan_behind [OF nf_booted_inv, of "[]" "(8, True)"] nf_booted_fields by simp
  moreover have "nf_rescan (heap ?s) 4096 (last_bp ?s) (start_bp ?s) = Some None"
    by (subst nf_rescan.simps) (simp add: nf_booted_fields)
  ultimately have full: "nf_next_fit ?s 4096 = Some (NULL, ?s)" by (simp add: nf_next_fit_def)
  have brk: "mem_brk ?s = 4120" using nf_invD(5) [OF nf_booted_inv] by (simp add: nf_booted_fields)
  have "nf_heap ?s [(4096, False)]" "size_ok (1024 * 4)" "(16 :: nat) \<le> 1024 * 4"
    using nf_booted_inv by (simp_all add: nf_inv_heap size_ok_def)
  then obtain xs sz s' where E: "nf_extend_heap ?s 1024 = (start_bp ?s + 8 + span xs, s')"
      "mem_brk s' = mem_brk ?s + 1024 * 4"
    by (cases rule: nf_extend_heap_inv [consumes 3]) (auto simp: brk nf_booted_fields MAX_HEAP_def)
  let ?p = "start_bp ?s + 8 + span xs"
  have "nf_mm_malloc ?s 4088 = Some (?p, (nf_mark s' ?p 4096)\<lparr>last_bp := ?p\<rparr>)"
    using full E(1) by (simp add: nf_mm_malloc_def a size_defs)
  moreover have "mem_brk ((nf_mark s' ?p 4096)\<lparr>last_bp := ?p\<rparr>) = mem_brk ?s + 4096"
    using E(2) by (simp add: nf_mark_def Let_def)
  ultimately show ?thesis using nf_booted_ok(3) a by auto
qed

text \<open>The rounding of the request wraps around for sizes within 15 bytes of the largest
  \<^verbatim>\<open>size_t\<close>: a request of \<open>2\<^sup>3\<^sup>2 - 1\<close> bytes is not refused but answered with a block of 8 bytes,
  which has no payload at all.\<close>

theorem nf_malloc_wraps:
  "\<exists>s'. nf_mm_malloc nf_booted (2 ^ 32 - 1) = Some (24, s') \<and> GET_SIZE (heap s') (HEADER_P 24) = 8"
proof -
  let ?s = nf_booted
  note D = nf_invD [OF nf_booted_inv, unfolded nf_booted_fields]
  have a: "nf_adjust (2 ^ 32 - 1) = 8" by (simp add: nf_adjust_def DSIZE_def wrap32_def)
  have "nf_scan (heap ?s) 8 (last_bp ?s) = Some (Some 24)"
    using nf_scan_behind [OF nf_booted_inv, of "[]" "(8, True)"] nf_booted_fields by simp
  then have "nf_next_fit ?s 8 = Some (24, ?s\<lparr>last_bp := 24\<rparr>)" by (simp add: nf_next_fit_def)
  moreover have b: "blk (heap ?s) 24 (4096, False)" using D(4) by (simp add: heap_at_def)
  moreover have "nf_mark (?s\<lparr>last_bp := 24\<rparr>) 24 8 = ?s\<lparr>last_bp := 24, heap := place_mem (heap ?s) 24 4096 8\<rparr>"
    using nf_mark_place [of "?s\<lparr>last_bp := 24\<rparr>" 24 4096 False 8] b by (simp add: size_ok_def)
  ultimately have "nf_mm_malloc ?s (2 ^ 32 - 1)
      = Some (24, ?s\<lparr>last_bp := 24, heap := place_mem (heap ?s) 24 4096 8, last_bp := 24\<rparr>)"
    unfolding nf_mm_malloc_def a by (simp add: Let_def)
  moreover have "heap_at (place_mem (heap ?s) 24 4096 8) 24 (place 4096 8)"
    using heap_at_place [of "heap ?s" 24 "[]" 4096 False "[]" 8] D(4) by (simp add: size_ok_def)
  then have "blk (place_mem (heap ?s) 24 4096 8) 24 (8, True)" by (simp add: heap_at_def place_def)
  from blk_GET_SIZE(1) [OF this] have "GET_SIZE (place_mem (heap ?s) 24 4096 8) (HEADER_P 24) = 8" by simp
  ultimately show ?thesis by simp
qed

section \<open>Reallocation\<close>

text \<open>Marking an allocated block again changes nothing when less than a minimum block would be
  split off.\<close>

lemma nf_mark_same:
  assumes "blk (heap s) bp (k, True)" and "a \<le> k" and "k < a + 16" and "4 \<le> bp"
  shows "nf_mark s bp a = s"
proof -
  have k: "size_ok k" "GET_SIZE (heap s) (HEADER_P bp) = k"
    using assms(1) blk_GET_SIZE(1) [OF assms(1)] by (simp_all add: blk_def)
  have "sub32 k a = k - a" using assms(2) k(1) by (simp add: sub32_id size_ok_def)
  then have "\<not> sub32 k a \<ge> 2 * DSIZE" using assms(3) by (simp add: DSIZE_def)
  moreover have "set_tag (heap s) bp k True = heap s"
    using assms(1) put32_get32 [of "heap s" "bp - 4"] put32_get32 [of "heap s" "bp + k - 8"]
    by (simp add: set_tag_def blk_def del: put32_get32)
  ultimately show ?thesis
    using PUT_header_footer [OF k(1) assms(4), of "heap s" True]
    by (simp add: nf_mark_def Let_def k(2) PACK_tag del: One_nat_def)
qed

text \<open>\<open>mm_realloc\<close> to a larger size takes in the free block behind when both together are large
  enough: the pointer stays, the payload now covers both blocks, and every live payload (this one
  included) keeps its contents.\<close>

theorem nf_mm_realloc_grow:
  assumes "nf_ok s" and "nf_blocks s = xs @ (k, True) # (f, False) # zs"
    and "k < sz + 8" and "sz + 8 \<le> k + f" and "p = start_bp s + 8 + span xs"
  shows "\<exists>m'. nf_mm_realloc s p sz = Some (Inr (p, s\<lparr>heap := m'\<rparr>))
     \<and> nf_heap (s\<lparr>heap := m'\<rparr>) (xs @ (k + f, True) # zs)
     \<and> same_payload (heap s) m' (nf_live s)"
proof -
  have I: "nf_inv s (xs @ (k, True) # (f, False) # zs)" using assms(1,2) by (simp add: nf_ok_def)
  show ?thesis using nf_realloc_grow [OF I assms(3,4)] nf_inv_live [OF I]
    unfolding assms(5) keeps_same_payload by auto
qed

text \<open>The block at 48 freed again: the heap has a live block of 24 bytes in front of a free one, and
  the search pointer is on the free one.\<close>

lemma nf_block_and_gap:
  obtains s where "nf_inv s [(24, True), (4072, False)]" "start_bp s = 16" "last_bp s = 48"
proof (cases rule: nf_two_blocks)
  case (1 s1 s2)
  have "join [(24, True)] 24 [(4048, False)] = ([(24, True)], 4072, [])" by (simp add: join_def)
  from nf_mm_free_inv [of s2 "[(24, True)]" 24 "[(4048, False)]", OF _ this] 1(3,4)
  show thesis by (intro that [of "nf_mm_free s2 48"]) simp_all
qed

theorem nf_mm_realloc_grow_witness:
  "\<exists>s m'. nf_blocks s = [(24, True), (4072, False)]
     \<and> nf_mm_realloc s 24 100 = Some (Inr (24, s\<lparr>heap := m'\<rparr>)) \<and> nf_heap (s\<lparr>heap := m'\<rparr>) [(4096, True)]"
proof (cases rule: nf_block_and_gap)
  case (1 s)
  have "nf_ok s" "nf_blocks s = [] @ (24, True) # (4072, False) # []"
    using 1(1) nf_inv_blocks by (auto simp: nf_ok_iff)
  moreover have "24 < 100 + (8 :: nat)" "100 + 8 \<le> 24 + (4072 :: nat)" "24 = start_bp s + 8 + span []"
    by (simp_all add: 1(2))
  ultimately have "\<exists>m'. nf_mm_realloc s 24 100 = Some (Inr (24, s\<lparr>heap := m'\<rparr>))
      \<and> nf_heap (s\<lparr>heap := m'\<rparr>) ([] @ (24 + 4072, True) # []) \<and> same_payload (heap s) m' (nf_live s)"
    by (rule nf_mm_realloc_grow)
  with \<open>nf_blocks s = _\<close> show ?thesis by (intro exI [of _ s]) (simp, blast)
qed

text \<open>Growing in place does not move the search pointer.  When \<open>last_bp\<close> was the free block that
  is taken in, it is left pointing strictly inside the grown payload, at bytes the client will
  overwrite and the next search will read as a block header.\<close>

theorem nf_realloc_dangling_last_bp:
  assumes "nf_ok s" and "nf_blocks s = xs @ (k, True) # (f, False) # zs"
    and "k < sz + 8" and "sz + 8 \<le> k + f" and "p = start_bp s + 8 + span xs" and "last_bp s = p + k"
  shows "\<exists>s'. nf_mm_realloc s p sz = Some (Inr (p, s')) \<and> \<not> nf_ok s'
     \<and> p < last_bp s' \<and> last_bp s' + 8 \<le> p + (k + f - 8)"
proof -
  have I: "nf_inv s (xs @ (k, True) # (f, False) # zs)" using assms(1,2) by (simp add: nf_ok_def)
  note D = nf_invD [OF I]
  from nf_realloc_grow [OF I assms(3,4)] obtain m' where
    call: "nf_mm_realloc s p sz = Some (Inr (p, s\<lparr>heap := m'\<rparr>))"
    and h: "nf_heap (s\<lparr>heap := m'\<rparr>) (xs @ (k + f, True) # zs)" by (auto simp: assms(5))
  have kf: "16 \<le> k" "16 \<le> f" using D(6) by auto
  have "\<not> nf_ok (s\<lparr>heap := m'\<rparr>)"
  proof
    assume "nf_ok (s\<lparr>heap := m'\<rparr>)"
    then obtain bs where bs: "nf_inv (s\<lparr>heap := m'\<rparr>) bs" by (auto simp: nf_ok_iff)
    have "bs = xs @ (k + f, True) # zs"
      using heap_at_unique [OF nf_invD(4) [OF bs] nf_heapD(4) [OF h]] .
    then have l: "p + k \<in> set (block_ptrs (start_bp s) ((8, True) # xs @ (k + f, True) # zs))"
      using bs assms(6) by (simp add: nf_inv_def)
    from block_ptrs_gap [of "p + k" "start_bp s" "(8, True) # xs" "(k + f, True)" zs] l kf assms(5) show False by simp
  qed
  then show ?thesis using call kf assms(6) by auto
qed

theorem nf_realloc_dangling_last_bp_witness:
  "\<exists>s s'. nf_ok s \<and> last_bp s = 48 \<and> nf_mm_realloc s 24 100 = Some (Inr (24, s')) \<and> \<not> nf_ok s' \<and> last_bp s' > 24"
proof (cases rule: nf_block_and_gap)
  case (1 s)
  have "nf_ok s" "nf_blocks s = [] @ (24, True) # (4072, False) # []"
    using 1(1) nf_inv_blocks by (auto simp: nf_ok_iff)
  moreover have "24 < 100 + (8 :: nat)" "100 + 8 \<le> 24 + (4072 :: nat)" "24 = start_bp s + 8 + span []"
    "last_bp s = 24 + 24" by (simp_all add: 1(2,3))
  ultimately have "\<exists>s'. nf_mm_realloc s 24 100 = Some (Inr (24, s')) \<and> \<not> nf_ok s'
      \<and> 24 < last_bp s' \<and> last_bp s' + 8 \<le> 24 + (24 + 4072 - 8)"
    by (rule nf_realloc_dangling_last_bp)
  with \<open>nf_ok s\<close> 1(3) show ?thesis by blast
qed

text \<open>(C19) When neither case applies, \<open>mm_realloc\<close> allocates, marks the new block again, copies and
  frees.  If the new block has less than a minimum block to spare over the request and its two
  tags, the result is a fresh payload with the old contents, the old payload is gone, and all other
  payloads keep their contents.\<close>

theorem nf_mm_realloc_move:
  assumes "nf_ok s" and "(p, n) \<in> nf_live s" and "n < sz" and "sz + 8 \<le> max_request"
    and "IS_IT_ALLOC (heap s) (HEADER_P (p + n + 8))
         \<or> wrap32 (n + 8 + GET_SIZE (heap s) (HEADER_P (p + n + 8))) < sz + 8"
    and "nf_mm_malloc s (sz + 8) = Some (q, s1)" and "q \<noteq> NULL"
    and "GET_SIZE (heap s1) (HEADER_P q) < sz + 24"
  shows "\<exists>s'. nf_mm_realloc s p sz = Some (Inr (q, s')) \<and> nf_ok s'
     \<and> (\<exists>k \<ge> sz. nf_live s' = insert (q, k) (nf_live s - {(p, n)}))
     \<and> same_payload (heap s) (heap s') (nf_live s - {(p, n)})
     \<and> (\<forall>i < n. heap s' (q + i) = heap s (p + i))"
proof -
  obtain bs where I: "nf_inv s bs" "nf_live s = set (live (start_bp s + 8) bs)"
    using assms(1) nf_inv_live by (auto simp: nf_ok_iff)
  from nf_live_block [OF I(1), of p n] assms(2) I(2) have k: "GET_SIZE (heap s) (HEADER_P p) = n + 8"
      "NEXT_BLOCK_BP (heap s) p = p + n + 8" by (metis, metis add.assoc)
  note M = nf.malloc_ok [OF assms(1) _ assms(4,6,7)]
  then obtain h where h: "nf_ok s1" "(q, h) \<in> nf_live s1" "sz + 8 \<le> h" by auto
  obtain bs1 where I1: "nf_inv s1 bs1" "nf_live s1 = set (live (start_bp s1 + 8) bs1)"
    using h(1) nf_inv_live by (auto simp: nf_ok_iff)
  from nf_live_block [OF I1(1), of q h] h(2) I1(2) have q: "blk (heap s1) q (h + 8, True)" "4 \<le> q" by metis+
  have mark: "nf_mark s1 q (sz + 8) = s1"
    by (rule nf_mark_same [OF q(1) _ _ q(2)]) (use h(3) assms(8) blk_GET_SIZE(1) [OF q(1)] in auto)
  have w: "wrap32 (sz + 8) = sz + 8" using assms(4) by (simp add: max_request_def)
  have call: "nf_mm_realloc s p sz = Some (Inr (q, nf_mm_free (s1\<lparr>heap := memcpy (heap s1) q p (n + 8)\<rparr>) p))"
    using assms(3,5,6,7) w mark by (auto simp: nf_mm_realloc_def Let_def WSIZE_def k)
  define s' where "s' = nf_mm_free (s1\<lparr>heap := memcpy (heap s1) q p (n + 8)\<rparr>) p"
  have m: "min n (sz + 8) = n" and sz: "0 < sz + 8" "n + 8 \<le> sz + 8" "min n (sz + 8) \<le> n + 8" using assms(3) by auto
  note C = nf.copy_realloc [OF assms(1,2) sz(1) assms(4,6,7) sz(2,3), folded s'_def, unfolded m]
  then obtain k where "sz + 8 \<le> k" "nf_live s' = insert (q, k) (nf_live s - {(p, n)})" by blast
  then have "\<exists>k \<ge> sz. nf_live s' = insert (q, k) (nf_live s - {(p, n)})" by (intro exI [of _ k]) simp
  with C show ?thesis unfolding call s'_def [symmetric] by blast
qed

text \<open>Of the two blocks at 24 and 48, the first moves when it grows to 100 bytes.\<close>

theorem nf_mm_realloc_move_witness:
  "\<exists>s s'. nf_ok s \<and> (24, 16) \<in> nf_live s \<and> nf_mm_realloc s 24 100 = Some (Inr (72, s')) \<and> nf_ok s'
     \<and> (\<exists>k \<ge> 100. nf_live s' = {(48, 16), (72, k)}) \<and> (\<forall>i < 16. heap s' (72 + i) = heap s (24 + i))"
proof (cases rule: nf_two_blocks)
  case (1 s1 s)
  have ok: "nf_ok s" "nf_live s = {(24, 16), (48, 16)}" using nf_inv_live [OF 1(3)] 1(3,4) by (auto simp: nf_ok_iff)
  then have p: "(24, 16) \<in> nf_live s" by simp
  note D = nf_invD [OF 1(3)]
  have "blk (heap s) 48 (24, True)" using D(4) 1(4) by (simp add: heap_at_def)
  from blk_GET_SIZE(2) [OF this] have alloc: "IS_IT_ALLOC (heap s) (HEADER_P (24 + 16 + 8))" by simp
  have a: "nf_adjust 108 = 120" by (simp add: nf_adjust_def DSIZE_def wrap32_def)
  note last = 1(6)
  obtain m' where m: "nf_mm_malloc s (100 + 8) = Some (72, s\<lparr>heap := m', last_bp := 72\<rparr>)"
      "nf_inv (s\<lparr>heap := m', last_bp := 72\<rparr>) ([(24, True), (24, True)] @ [(120, True), (3928, False)])"
    using nf_malloc_behind [of s "[(24, True), (24, True)]" 4048 "[]" 108 "[(8, True), (24, True)]" "(24, True)"]
      1(3,4) last by (auto simp: a place_def)
  have "blk m' 72 (120, True)" using nf_invD(4) [OF m(2)] 1(4) by (simp add: heap_at_def)
  from blk_GET_SIZE(1) [OF this] have sz: "GET_SIZE (heap (s\<lparr>heap := m', last_bp := 72\<rparr>)) (HEADER_P 72) < 100 + 24" by simp
  have "16 < (100 :: nat)" "100 + 8 \<le> max_request" "(72 :: nat) \<noteq> NULL" by (simp_all add: max_request_def)
  from nf_mm_realloc_move [OF ok(1) p this(1,2) disjI1 [OF alloc] m(1) this(3) sz] obtain s' k where
    "nf_mm_realloc s 24 100 = Some (Inr (72, s'))" "nf_ok s'" "100 \<le> k"
    "nf_live s' = insert (72, k) (nf_live s - {(24, 16)})" "\<forall>i < 16. heap s' (72 + i) = heap s (24 + i)" by blast
  moreover from this(4) have "nf_live s' = {(48, 16), (72, k)}" using ok(2) by auto
  ultimately show ?thesis using ok(1) p by blast
qed

text \<open>A failed allocation is not handled in \<open>mm_realloc\<close>: when the block cannot grow in place and
  \<open>mm_malloc\<close> returns null, the null pointer is passed on to \<open>mark\<close>, which reads the word below
  address 0, instead of null being returned.\<close>

theorem nf_mm_realloc_null_fault:
  assumes "nf_ok s" and "(p, n) \<in> nf_live s" and "n < sz" and "sz + 8 \<le> max_request"
    and "IS_IT_ALLOC (heap s) (HEADER_P (p + n + 8))" and "nf_mm_malloc s (sz + 8) = Some (NULL, s)"
  shows "nf_mm_realloc s p sz = Some (Inl NullDeref)"
  using nf_realloc_null [OF _ _ assms(3)] assms nf_inv_live unfolding max_request_def nf_ok_iff by metis

theorem nf_mm_realloc_null_fault_witness:
  "\<exists>s. nf_ok s \<and> (24, 16) \<in> nf_live s \<and> nf_mm_realloc s 24 (2 ^ 25) = Some (Inl NullDeref)"
proof (cases rule: nf_two_blocks)
  case (1 s1 s)
  have ok: "nf_ok s" "nf_live s = {(24, 16), (48, 16)}" using nf_inv_live [OF 1(3)] 1(3,4) by (auto simp: nf_ok_iff)
  then have p: "(24, 16) \<in> nf_live s" by simp
  note D = nf_invD [OF 1(3)]
  have "blk (heap s) 48 (24, True)" using D(4) 1(4) by (simp add: heap_at_def)
  from blk_GET_SIZE(2) [OF this] have alloc: "IS_IT_ALLOC (heap s) (HEADER_P (24 + 16 + 8))" by simp
  have "nf_mm_malloc s (2 ^ 25 + 8) = Some (NULL, s)"
  proof (cases rule: nf_mm_malloc_inv [OF 1(3), of "2 ^ 25 + 8"])
    case (4 q n s' bs')
    have "(q, n) \<in> set (live (start_bp s' + 8) bs')" using 4 by simp
    from nf_live_contract [OF 4(2) this] nf_invD(1) [OF 4(2)] 4(3,10) 1(5)
    show ?thesis by (simp add: mem_wf_def MAX_HEAP_def)
  qed simp_all
  with nf_mm_realloc_null_fault [OF ok(1) p _ _ alloc, of "2 ^ 25"] ok p show ?thesis
    by (auto simp: max_request_def)
qed

end
