(* ===== verification/FirstFit.thy ===== *)
theory FirstFit
  imports NextFit
begin

text \<open>
  The textbook allocator of \<^verbatim>\<open>CSE4100/vm/malloc/mm.c\<close> (with \<^verbatim>\<open>NEXT_FIT\<close> undefined, as the
  file has it: \<^verbatim>\<open>#define NEXT_FITx\<close>): implicit list, first fit, boundary-tag coalescing, and
  its heap checker.  It shares the block layout with the next-fit allocator; the theorems transfer
  along \<open>nf_of\<close>, which reads a first-fit state as a next-fit one.
\<close>

record firstfit = memsys +
  heap_listp :: addr

section \<open>The program\<close>

definition GET_ALLOC :: "bytes \<Rightarrow> addr \<Rightarrow> bool" where
  "GET_ALLOC m p \<longleftrightarrow> GET m p AND 1 \<noteq> 0"

definition HDRP :: "addr \<Rightarrow> addr" where
  "HDRP bp = bp - WSIZE"

definition FTRP :: "bytes \<Rightarrow> addr \<Rightarrow> addr" where
  "FTRP m bp = bp + GET_SIZE m (HDRP bp) - DSIZE"

definition NEXT_BLKP :: "bytes \<Rightarrow> addr \<Rightarrow> addr" where
  "NEXT_BLKP m bp = bp + GET_SIZE m (bp - WSIZE)"

definition PREV_BLKP :: "bytes \<Rightarrow> addr \<Rightarrow> addr" where
  "PREV_BLKP m bp = bp - GET_SIZE m (bp - DSIZE)"

definition CHUNKSIZE :: nat where "CHUNKSIZE = 4096"

definition ff_coalesce :: "firstfit \<Rightarrow> addr \<Rightarrow> addr \<times> firstfit" where
  "ff_coalesce s bp =
     (let m = heap s;
          prev_alloc = GET_ALLOC m (FTRP m (PREV_BLKP m bp));
          next_alloc = GET_ALLOC m (HDRP (NEXT_BLKP m bp));
          sz = GET_SIZE m (HDRP bp)
      in if prev_alloc \<and> next_alloc then (bp, s)
         else if prev_alloc \<and> \<not> next_alloc then
           let sz' = wrap32 (sz + GET_SIZE m (HDRP (NEXT_BLKP m bp)));
               m1 = PUT m (HDRP bp) (PACK sz' 0);
               m2 = PUT m1 (FTRP m1 bp) (PACK sz' 0)
           in (bp, s\<lparr>heap := m2\<rparr>)
         else if \<not> prev_alloc \<and> next_alloc then
           let sz' = wrap32 (sz + GET_SIZE m (HDRP (PREV_BLKP m bp)));
               m1 = PUT m (FTRP m bp) (PACK sz' 0);
               m2 = PUT m1 (HDRP (PREV_BLKP m1 bp)) (PACK sz' 0)
           in (PREV_BLKP m2 bp, s\<lparr>heap := m2\<rparr>)
         else
           let sz' = wrap32 (sz + wrap32 (GET_SIZE m (HDRP (PREV_BLKP m bp))
                                          + GET_SIZE m (FTRP m (NEXT_BLKP m bp))));
               m1 = PUT m (HDRP (PREV_BLKP m bp)) (PACK sz' 0);
               m2 = PUT m1 (FTRP m1 (NEXT_BLKP m1 bp)) (PACK sz' 0)
           in (PREV_BLKP m2 bp, s\<lparr>heap := m2\<rparr>))"

definition ff_extend_heap :: "firstfit \<Rightarrow> nat \<Rightarrow> addr \<times> firstfit" where
  "ff_extend_heap s words =
     (let sz = (if words mod 2 \<noteq> 0 then wrap32 (wrap32 (words + 1) * WSIZE) else wrap32 (words * WSIZE))
      in case mem_sbrk (to_int32 sz) s of
           (None, s1) \<Rightarrow> (NULL, s1)
         | (Some bp, s1) \<Rightarrow>
             let m = heap s1;
                 m1 = PUT m (HDRP bp) (PACK sz 0);
                 m2 = PUT m1 (FTRP m1 bp) (PACK sz 0);
                 m3 = PUT m2 (HDRP (NEXT_BLKP m2 bp)) (PACK 0 1)
             in ff_coalesce (s1\<lparr>heap := m3\<rparr>) bp)"

definition ff_place :: "firstfit \<Rightarrow> addr \<Rightarrow> nat \<Rightarrow> firstfit" where
  "ff_place s bp asize =
     (let m = heap s; csize = GET_SIZE m (HDRP bp)
      in if sub32 csize asize \<ge> 2 * DSIZE then
           let m1 = PUT m (HDRP bp) (PACK asize 1);
               m2 = PUT m1 (FTRP m1 bp) (PACK asize 1);
               bp' = NEXT_BLKP m2 bp;
               m3 = PUT m2 (HDRP bp') (PACK (sub32 csize asize) 0);
               m4 = PUT m3 (FTRP m3 bp') (PACK (sub32 csize asize) 0)
           in s\<lparr>heap := m4\<rparr>
         else
           let m1 = PUT m (HDRP bp) (PACK csize 1);
               m2 = PUT m1 (FTRP m1 bp) (PACK csize 1)
           in s\<lparr>heap := m2\<rparr>)"

partial_function (option) ff_find :: "bytes \<Rightarrow> nat \<Rightarrow> addr \<Rightarrow> addr option" where
  "ff_find m asize bp =
     (if GET_SIZE m (HDRP bp) > 0 then
        if \<not> GET_ALLOC m (HDRP bp) \<and> asize \<le> GET_SIZE m (HDRP bp) then Some bp
        else ff_find m asize (NEXT_BLKP m bp)
      else Some NULL)"

definition ff_find_fit :: "firstfit \<Rightarrow> nat \<Rightarrow> addr option" where
  "ff_find_fit s asize = ff_find (heap s) asize (heap_listp s)"

definition ff_mm_init :: "firstfit \<Rightarrow> int \<times> firstfit" where
  "ff_mm_init s =
     (case mem_sbrk (int (4 * WSIZE)) s of
        (None, s1) \<Rightarrow> (-1, s1\<lparr>heap_listp := 2 ^ 32 - 1\<rparr>)
      | (Some p, s1) \<Rightarrow>
          let m = heap s1;
              m1 = PUT m p 0;
              m2 = PUT m1 (p + 1 * WSIZE) (PACK DSIZE 1);
              m3 = PUT m2 (p + 2 * WSIZE) (PACK DSIZE 1);
              m4 = PUT m3 (p + 3 * WSIZE) (PACK 0 1);
              s2 = s1\<lparr>heap := m4, heap_listp := p + 2 * WSIZE\<rparr>;
              (bp, s3) = ff_extend_heap s2 (CHUNKSIZE div WSIZE)
          in if bp = NULL then (-1, s3) else (0, s3))"

definition ff_asize :: "nat \<Rightarrow> nat" where
  "ff_asize sz =
     (if sz \<le> DSIZE then 2 * DSIZE
      else wrap32 (DSIZE * (wrap32 (wrap32 (sz + DSIZE) + (DSIZE - 1)) div DSIZE)))"

definition ff_mm_malloc :: "firstfit \<Rightarrow> nat \<Rightarrow> (addr \<times> firstfit) option" where
  "ff_mm_malloc s0 sz =
     (let s = (if heap_listp s0 = 0 then snd (ff_mm_init s0) else s0) in
      if sz = 0 then Some (NULL, s)
      else let asize = ff_asize sz in
        case ff_find_fit s asize of
          None \<Rightarrow> None
        | Some bp \<Rightarrow>
            if bp \<noteq> NULL then Some (bp, ff_place s bp asize)
            else
              let extendsize = max asize CHUNKSIZE;
                  (bp, s2) = ff_extend_heap s (extendsize div WSIZE)
              in if bp = NULL then Some (NULL, s2) else Some (bp, ff_place s2 bp asize))"

definition ff_mm_free :: "firstfit \<Rightarrow> addr \<Rightarrow> firstfit" where
  "ff_mm_free s0 bp =
     (if bp = 0 then s0
      else let sz = GET_SIZE (heap s0) (HDRP bp);
               s = (if heap_listp s0 = 0 then snd (ff_mm_init s0) else s0);
               m1 = PUT (heap s) (HDRP bp) (PACK sz 0);
               m2 = PUT m1 (FTRP m1 bp) (PACK sz 0)
           in snd (ff_coalesce (s\<lparr>heap := m2\<rparr>) bp))"

definition ff_mm_realloc :: "firstfit \<Rightarrow> addr \<Rightarrow> nat \<Rightarrow> (addr \<times> firstfit) option" where
  "ff_mm_realloc s ptr sz =
     (if sz = 0 then Some (0, ff_mm_free s ptr)
      else if ptr = NULL then ff_mm_malloc s sz
      else case ff_mm_malloc s sz of
          None \<Rightarrow> None
        | Some (newptr, s1) \<Rightarrow>
            if newptr = NULL then Some (0, s1)
            else
              let oldsize = GET_SIZE (heap s1) (HDRP ptr);
                  n = (if sz < oldsize then sz else oldsize);
                  s2 = s1\<lparr>heap := memcpy (heap s1) newptr ptr n\<rparr>
              in Some (newptr, ff_mm_free s2 ptr))"

text \<open>The heap checker: the messages it prints.\<close>

definition ff_checkblock :: "firstfit \<Rightarrow> addr \<Rightarrow> string list" where
  "ff_checkblock s bp =
     (if bp mod 8 \<noteq> 0 then [''Error: not doubleword aligned''] else []) @
     (if GET (heap s) (HDRP bp) \<noteq> GET (heap s) (FTRP (heap s) bp)
      then [''Error: header does not match footer''] else [])"

partial_function (option) ff_check_loop :: "firstfit \<Rightarrow> addr \<Rightarrow> string list \<Rightarrow> (addr \<times> string list) option" where
  "ff_check_loop s bp out =
     (if GET_SIZE (heap s) (HDRP bp) > 0
      then ff_check_loop s (NEXT_BLKP (heap s) bp) (out @ ff_checkblock s bp)
      else Some (bp, out))"

definition ff_checkheap :: "firstfit \<Rightarrow> string list option" where
  "ff_checkheap s =
     (let p = heap_listp s; m = heap s;
          out = (if GET_SIZE m (HDRP p) \<noteq> DSIZE \<or> \<not> GET_ALLOC m (HDRP p)
                 then [''Bad prologue header''] else []) @ ff_checkblock s p
      in case ff_check_loop s p out of
           None \<Rightarrow> None
         | Some (bp, out') \<Rightarrow>
             Some (out' @ (if GET_SIZE m (HDRP bp) \<noteq> 0 \<or> \<not> GET_ALLOC m (HDRP bp)
                           then [''Bad epilogue header''] else [])))"

section \<open>Both allocators keep the same heap\<close>

lemma ff_macros:
  "GET_ALLOC = IS_IT_ALLOC" "HDRP = HEADER_P" "FTRP = FOOTER_P" "NEXT_BLKP = NEXT_BLOCK_BP"
  "PREV_BLKP = PREV_BLOCK_BP"
  by (auto simp: fun_eq_iff GET_ALLOC_def IS_IT_ALLOC_def HDRP_def HEADER_P_def FTRP_def FOOTER_P_def
      NEXT_BLKP_def NEXT_BLOCK_BP_def PREV_BLKP_def PREV_BLOCK_BP_def size_defs)

definition nf_of :: "firstfit \<Rightarrow> addr \<Rightarrow> nextfit" where
  "nf_of s l = \<lparr>mem_start_brk = mem_start_brk s, mem_brk = mem_brk s, mem_max_addr = mem_max_addr s,
                heap = heap s, start_bp = heap_listp s, last_bp = l\<rparr>"

lemma nf_of_simps [simp]:
  "mem_start_brk (nf_of s l) = mem_start_brk s" "mem_brk (nf_of s l) = mem_brk s"
  "mem_max_addr (nf_of s l) = mem_max_addr s" "heap (nf_of s l) = heap s"
  "start_bp (nf_of s l) = heap_listp s" "last_bp (nf_of s l) = l"
  "(nf_of s l)\<lparr>heap := m\<rparr> = nf_of (s\<lparr>heap := m\<rparr>) l" "(nf_of s l)\<lparr>mem_brk := b\<rparr> = nf_of (s\<lparr>mem_brk := b\<rparr>) l"
  "(nf_of s l)\<lparr>last_bp := l'\<rparr> = nf_of s l'"
  "mem_wf (nf_of s l) = mem_wf s"
  by (simp_all add: nf_of_def mem_wf_def)

lemma nf_of_eqD:
  assumes "nf_of s l = t"
  shows "heap s = heap t" "mem_start_brk s = mem_start_brk t" "mem_brk s = mem_brk t"
    "mem_max_addr s = mem_max_addr t" "heap_listp s = start_bp t"
  using assms by auto

lemma ff_place_sim: "nf_mark (nf_of s l) bp a = nf_of (ff_place s bp a) l"
  by (simp add: nf_mark_def ff_place_def ff_macros Let_def)

lemma ff_coalesce_sim:
  assumes "heap_at (heap s) b (ys @ p # (sz, al) # zs)"
  defines "bp \<equiv> b + span ys + fst p"
  shows "nf_coalesce (nf_of s l) bp = (case ff_coalesce s bp of (q, s') \<Rightarrow> (q, nf_of s' q))"
proof -
  obtain ps pa where p: "p = (ps, pa)" by (cases p)
  let ?m = "heap s"
  note N = heap_at_neighbours [OF assms(1) [unfolded p]]
  have foot: "GET_SIZE ?m (FOOTER_P ?m (bp + sz)) = fst (next_tag zs)" if nz: "\<not> snd (next_tag zs)"
  proof -
    obtain z zs' where z: "zs = z # zs'" using nz by (cases zs) (auto simp: next_tag_def)
    then have "blk ?m (bp + sz) z" using assms(1) by (simp add: heap_at_def bp_def add.assoc)
    then show ?thesis using z by (simp add: blk_GET_SIZE(3) next_tag_def)
  qed
  show ?thesis
    using N foot
    by (simp add: bp_def p nf_coalesce_def ff_coalesce_def ff_macros Let_def add.commute)
qed

text \<open>The invariant, read through \<open>nf_of\<close>.\<close>

definition ff_inv :: "firstfit \<Rightarrow> block list \<Rightarrow> bool" where
  "ff_inv s bs \<longleftrightarrow> nf_heap (nf_of s (heap_listp s)) bs"

lemma ff_inv_nf: "ff_inv s bs \<Longrightarrow> nf_inv (nf_of s (heap_listp s)) bs"
  by (simp add: ff_inv_def nf_inv_def)

lemma nf_ff_inv: "nf_inv (nf_of s l) bs \<Longrightarrow> ff_inv s bs"
  by (auto simp: ff_inv_def nf_inv_def nf_heap_def mem_wf_def)

lemma nf_heap_last: "nf_heap (nf_of s l) bs = nf_heap (nf_of s l') bs"
  by (simp add: nf_heap_def)

lemma ff_find_fit_spec:
  assumes "heap_at m b bs" and "0 < b"
  shows "ff_find m a b = Some (case fit (\<lambda>sz. a \<le> sz) b bs of None \<Rightarrow> NULL | Some q \<Rightarrow> q)"
  using assms
proof (induction bs arbitrary: b)
  case Nil
  then have "GET_SIZE m (HEADER_P b) = 0" using heap_at_next [of m b "[]" "[]"] by (simp add: next_tag_def)
  then show ?case by (subst ff_find.simps) (simp add: ff_macros)
next
  case (Cons x xs)
  have x: "blk m b x" using Cons.prems by (simp add: heap_at_def)
  have "heap_at m (b + fst x) xs" using Cons.prems by (simp add: heap_at_def add.assoc)
  from Cons.IH [OF this] Cons.prems x show ?case
    using blk_size [OF x] by (subst ff_find.simps) (simp add: ff_macros blk_GET_SIZE)
qed

lemma ff_extend_heap_sim:
  assumes "nf_heap (nf_of s l) bs" and "size_ok (words * 4)"
  shows "nf_extend_heap (nf_of s l) words
       = (case ff_extend_heap s words of (q, s') \<Rightarrow> (q, nf_of s' (if q = NULL then l else q)))"
proof -
  note I = nf_heapD [OF assms(1), simplified]
  let ?n = "words * 4" let ?e = "mem_brk s" let ?m = "grow_mem (heap s) ?e ?n"
  have even: "words mod 2 = 0" using assms(2) unfolding size_ok_def by presburger
  have lt: "?n < 2 ^ 32" using assms(2) by (simp add: size_ok_def)
  have e4: "4 \<le> ?e" using I(3) I(5) by (simp add: heap_at_def)
  have sbrk: "mem_sbrk (to_int32 ?n) s = (if ?e + ?n \<le> mem_max_addr s \<and> ?n < 2 ^ 31
        then (Some ?e, s\<lparr>mem_brk := ?e + ?n\<rparr>) else (None, s))"
      "mem_sbrk (to_int32 ?n) (nf_of s l) = (if ?e + ?n \<le> mem_max_addr s \<and> ?n < 2 ^ 31
        then (Some ?e, nf_of (s\<lparr>mem_brk := ?e + ?n\<rparr>) l) else (None, nf_of s l))"
    using mem_sbrk_unsigned [OF I(1) lt] mem_sbrk_unsigned [of "nf_of s l" ?n] I(1) lt by auto
  show ?thesis
  proof (cases "?e + ?n \<le> mem_max_addr s \<and> ?n < 2 ^ 31")
    case False
    then show ?thesis using even lt sbrk
      by (auto simp: nf_extend_heap_def ff_extend_heap_def Let_def WSIZE_def)
  next
    case True
    let ?s = "s\<lparr>mem_brk := ?e + ?n, heap := ?m\<rparr>"
    obtain ys p where ys: "(8, True) # bs = ys @ [p]" by (metis append_butlast_last_id list.distinct(1))
    have at: "?e = heap_listp s + span ys + fst p" using I(5) arg_cong [OF ys, of span] by simp
    have "heap_at ?m (heap_listp s) (((8, True) # bs) @ [(?n, False)])"
      using heap_at_grow [OF I(3) assms(2)] I(5) by (simp add: add.assoc)
    then have h: "heap_at (heap ?s) (heap_listp s) (ys @ p # (?n, False) # [])"
      unfolding ys by simp
    have "0 < fst (ff_coalesce ?s ?e)"
    proof -
      obtain xs' k zs' where j: "join (ys @ [p]) ?n [] = (xs', k, zs')" by (metis prod_cases3)
      have lt': "span (ys @ p # (?n, False) # []) < 2 ^ 32"
        using True I(1) at by (auto simp: mem_wf_def)
      have h': "heap_at (heap (nf_of ?s l)) (heap_listp s) (ys @ p # (?n, False) # [])"
        using h by simp
      from nf_coalesce_join [OF h' lt' j]
      have "fst (nf_coalesce (nf_of ?s l) ?e) = heap_listp s + span xs'" unfolding at by auto
      then show ?thesis using ff_coalesce_sim [OF h, of l] I(10) at by (simp split: prod.splits)
    qed
    then show ?thesis
      using even lt sbrk True PUT_grow [OF assms(2) e4, of "heap s"] ff_coalesce_sim [OF h, of l] at
      by (simp add: nf_extend_heap_def ff_extend_heap_def Let_def PACK_tag ff_macros WSIZE_def
          del: One_nat_def split: prod.splits)
  qed
qed

section \<open>The operations\<close>

lemma nf_of_inject: "nf_of s l = nf_of s' l' \<Longrightarrow> s = s'"
  by (simp add: nf_of_def)

lemma ff_asize_adjust: "ff_asize sz = nf_adjust sz"
  by (simp add: ff_asize_def nf_adjust_def wrap32_def DSIZE_def mod_simps add.commute)

lemma ff_invD:
  assumes "ff_inv s bs"
  shows "mem_wf s" "heap_listp s = mem_start_brk s + 8" "heap_at (heap s) (heap_listp s) ((8, True) # bs)"
    "heap_at (heap s) (heap_listp s + 8) bs" "0 < heap_listp s" "8 dvd heap_listp s"
    "mem_brk s = heap_listp s + 8 + span bs"
  using nf_heapD [OF assms [unfolded ff_inv_def]] by simp_all

lemma ff_mm_init_ok:
  assumes "mem_wf s" and "mem_brk s = mem_start_brk s" and "mem_start_brk s + 4112 \<le> mem_max_addr s"
  shows "\<exists>s'. ff_mm_init s = (0, s') \<and> ff_inv s' [(4096, False)] \<and> heap_listp s' = mem_start_brk s + 8
           \<and> mem_max_addr s' = mem_max_addr s"
proof -
  let ?p = "mem_start_brk s"
  let ?m = "PUT (PUT (PUT (PUT (heap s) ?p 0) (?p + 4) (tag 8 True)) (?p + 8) (tag 8 True)) (?p + 12) (tag 0 True)"
  let ?s = "s\<lparr>mem_brk := ?p + 16, heap := ?m, heap_listp := ?p + 8\<rparr>"
  have "blk ?m (?p + 8) (8, True)" "get32 ?m (?p + 12) = tag 0 True"
    by (simp_all add: blk_def size_ok_def PUT_def get32_put32_other add.commute)
  then have H: "nf_heap (nf_of ?s l) []" for l
    using assms by (auto simp: nf_heap_def heap_at_def mem_wf_def coalesced_def add.commute)
  have ok: "size_ok (1024 * 4)" by (simp add: size_ok_def)
  obtain q s' where E: "ff_extend_heap ?s 1024 = (q, s')" by fastforce
  have sbrk: "ff_mm_init s = (if q = NULL then (-1, s') else (0, s'))"
    using assms E by (simp add: ff_mm_init_def Let_def mem_sbrk_def size_defs CHUNKSIZE_def
        nat_add_distrib PACK_tag del: One_nat_def)
  have "(16 :: nat) \<le> 1024 * 4" by simp
  with H [of 0] ok show ?thesis
  proof (cases rule: nf_extend_heap_inv [consumes 3])
    case fail
    then show ?thesis using assms by simp
  next
    case (ok xs k t)
    have t: "q = ?p + 16 + span xs" "t = nf_of s' q"
      using ok(1) ff_extend_heap_sim [OF H [of 0], of 1024] E \<open>size_ok (1024 * 4)\<close>
      by (auto split: if_splits)
    have inv: "ff_inv s' (xs @ [(k, False)])" using ok(2) t nf_ff_inv by simp
    have "xs = []" "k = 4096"
      using ok(3,6,7) nf_heapD(5,6) [OF nf_inv_heap [OF ok(2)]] by (cases xs; auto)+
    then show ?thesis using inv t ok(6,8) sbrk by auto
  qed
qed

text \<open>Taking a free block that is large enough, wherever it came from.\<close>

lemma ff_take:
  assumes N: "nf_inv (nf_of s l) (xs @ (k, False) # zs)" and q: "q = heap_listp s + 8 + span xs"
    and sz: "0 < sz" "sz \<le> 2 ^ 32 - 16" and k: "nf_adjust sz \<le> k"
  obtains n m' where "ff_place s q (nf_adjust sz) = s\<lparr>heap := m'\<rparr>" "ff_inv (s\<lparr>heap := m'\<rparr>) (xs @ place k (nf_adjust sz) @ zs)"
    "sz \<le> n" "q \<noteq> NULL" "8 dvd q"
    "set (live (heap_listp s + 8) (xs @ place k (nf_adjust sz) @ zs)) = insert (q, n) (set (live (heap_listp s + 8) (xs @ (k, False) # zs)))"
    "q \<notin> fst ` set (live (heap_listp s + 8) (xs @ (k, False) # zs))"
    "keeps (heap s) m' (live (heap_listp s + 8) (xs @ (k, False) # zs))"
proof -
  from nf_take [OF N sz k] obtain n m' where
    T: "\<And>l. (nf_mark (nf_of s l) q (nf_adjust sz))\<lparr>last_bp := q\<rparr> = nf_of (s\<lparr>heap := m'\<rparr>) q"
      "nf_inv (nf_of (s\<lparr>heap := m'\<rparr>) q) (xs @ place k (nf_adjust sz) @ zs)" "sz \<le> n" "q \<noteq> NULL" "8 dvd q"
      "set (live (heap_listp s + 8) (xs @ place k (nf_adjust sz) @ zs)) = insert (q, n) (set (live (heap_listp s + 8) (xs @ (k, False) # zs)))"
      "q \<notin> fst ` set (live (heap_listp s + 8) (xs @ (k, False) # zs))"
      "keeps (heap s) m' (live (heap_listp s + 8) (xs @ (k, False) # zs))"
    unfolding q by simp metis
  have "ff_place s q (nf_adjust sz) = s\<lparr>heap := m'\<rparr>" using T(1) by (intro nf_of_inject) (simp add: ff_place_sim)
  from that [OF this nf_ff_inv [OF T(2)] T(3-)] show thesis .
qed

lemma ff_mm_malloc_inv:
  assumes I: "ff_inv s bs" and sz: "0 < sz" "sz \<le> 2 ^ 32 - 16"
  obtains (null) "ff_mm_malloc s sz = Some (NULL, s)"
      "fit (\<lambda>k. nf_adjust sz \<le> k) (heap_listp s + 8) bs = None"
      "mem_max_addr s < mem_brk s + max (nf_adjust sz) 4096 \<or> 2 ^ 31 \<le> nf_adjust sz"
  | (ok) p n s' bs' where "ff_mm_malloc s sz = Some (p, s')" "ff_inv s' bs'" "sz \<le> n"
      "p \<noteq> NULL" "8 dvd p"
      "set (live (heap_listp s + 8) bs') = insert (p, n) (set (live (heap_listp s + 8) bs))"
      "p \<notin> fst ` set (live (heap_listp s + 8) bs)"
      "keeps (heap s) (heap s') (live (heap_listp s + 8) bs)"
      "heap_listp s' = heap_listp s" "mem_max_addr s' = mem_max_addr s"
      "fit (\<lambda>k. nf_adjust sz \<le> k) (heap_listp s + 8) bs = Some p
       \<or> fit (\<lambda>k. nf_adjust sz \<le> k) (heap_listp s + 8) bs = None"
proof -
  let ?a = "nf_adjust sz" let ?b = "heap_listp s + 8"
  note A = nf_adjust_ok [OF sz] and D = ff_invD [OF I] and N = ff_inv_nf [OF I]
  have listp: "heap_listp s \<noteq> 0" using D(5) by simp
  have ff: "ff_find_fit s ?a = Some (case fit ((\<le>) ?a) ?b bs of None \<Rightarrow> NULL | Some q \<Rightarrow> q)"
    using ff_find_fit_spec [OF D(3,5), of ?a] by (simp add: ff_find_fit_def)
  show thesis
  proof (cases "fit ((\<le>) ?a) ?b bs")
    case (Some q)
    from fit_SomeD [OF Some] obtain xs k zs
      where bs: "bs = xs @ (k, False) # zs" and q: "q = ?b + span xs" and k: "?a \<le> k" by blast
    from ff_take [OF N [unfolded bs] q sz k] obtain n m' where
      T: "ff_place s q ?a = s\<lparr>heap := m'\<rparr>" "ff_inv (s\<lparr>heap := m'\<rparr>) (xs @ place k ?a @ zs)" "sz \<le> n" "q \<noteq> NULL" "8 dvd q"
        "set (live ?b (xs @ place k ?a @ zs)) = insert (q, n) (set (live ?b bs))"
        "q \<notin> fst ` set (live ?b bs)" "keeps (heap s) m' (live ?b bs)"
      unfolding bs by metis
    have "ff_mm_malloc s sz = Some (q, s\<lparr>heap := m'\<rparr>)"
      using sz ff Some T(1,4) listp by (simp add: ff_mm_malloc_def Let_def ff_asize_adjust)
    from ok [OF this T(2-7)] T(8) Some show thesis by simp
  next
    case None
    let ?w = "max ?a 4096 div 4"
    have w4: "?w * 4 = max ?a 4096" using A(1) by (auto simp: size_ok_def max_def)
    have w: "size_ok (?w * 4)" "16 \<le> ?w * 4" using A unfolding w4 by (auto simp: size_ok_def max_def)
    obtain q s1 where E: "ff_extend_heap s ?w = (q, s1)" by fastforce
    note sim = ff_extend_heap_sim [OF nf_inv_heap [OF N] w(1), unfolded E, simplified]
    from nf_inv_heap [OF N] w show thesis
    proof (cases rule: nf_extend_heap_inv [consumes 3])
      case fail
      then have "q = NULL" "s1 = s" using sim nf_of_inject by (auto split: if_splits)
      then have "ff_mm_malloc s sz = Some (NULL, s)"
        using sz ff None listp E by (simp add: ff_mm_malloc_def Let_def ff_asize_adjust WSIZE_def CHUNKSIZE_def)
      then show thesis using null None fail(2) unfolding w4 by (auto simp: max_def split: if_splits)
    next
      case X: (ok xs k t)
      have q: "q = ?b + span xs" and t: "t = nf_of s1 q" and q0: "q \<noteq> NULL"
        using X(1) sim D(5) by (auto split: if_splits)
      have k: "?a \<le> k" using X(3) unfolding w4 by simp
      have lp: "heap_listp s1 = heap_listp s" "mem_max_addr s1 = mem_max_addr s"
        using X(6,8) t by simp_all
      have L: "live ?b (xs @ [(k, False)]) = live ?b bs" using X(4) by simp
      obtain n m' where
        T: "ff_place s1 q ?a = s1\<lparr>heap := m'\<rparr>" "ff_inv (s1\<lparr>heap := m'\<rparr>) (xs @ place k ?a @ [])" "sz \<le> n" "q \<noteq> NULL" "8 dvd q"
          "set (live ?b (xs @ place k ?a @ [])) = insert (q, n) (set (live ?b bs))"
          "q \<notin> fst ` set (live ?b bs)" "keeps (heap s1) m' (live ?b bs)"
        by (rule ff_take [OF X(2) [unfolded t], unfolded lp L, OF q sz k])
      have "ff_mm_malloc s sz = Some (q, s1\<lparr>heap := m'\<rparr>)"
        using sz ff None T(1,4) listp E
        by (simp add: ff_mm_malloc_def Let_def ff_asize_adjust WSIZE_def CHUNKSIZE_def)
      from ok [OF this T(2-7)] T(8) X(5) lp keeps_trans t None
      show thesis by simp
    qed
  qed
qed

lemma ff_mm_free_sim:
  assumes I: "ff_inv s bs" and p: "(p, n) \<in> set (live (heap_listp s + 8) bs)"
  shows "\<exists>l'. nf_mm_free (nf_of s l) p = nf_of (ff_mm_free s p) l'"
proof -
  note D = ff_invD [OF I]
  let ?b = "heap_listp s"
  from live_split [OF p] obtain xs sz zs
    where bs: "bs = xs @ (sz, True) # zs" and at: "p = ?b + 8 + span xs" by blast
  let ?m = "set_tag (heap s) p sz False" let ?s = "s\<lparr>heap := ?m\<rparr>"
  have b: "blk (heap s) p (sz, True)" using heap_at_blk [OF D(4) [unfolded bs]] at by simp
  then have ok: "size_ok sz" "GET_SIZE (heap s) (HEADER_P p) = sz" using blk_GET_SIZE(1) [OF b] by (simp_all add: blk_def)
  have b4: "4 \<le> ?b" using D(3) by (simp add: heap_at_def)
  have p4: "4 \<le> p" using b4 at by simp
  obtain ys c where ys: "(8, True) # xs = ys @ [c]" by (metis append_butlast_last_id list.distinct(1))
  have "heap_at ?m ?b (((8, True) # xs) @ (sz, False) # zs)"
    using heap_at_set_tag [of "heap s" ?b "(8, True) # xs" "[(sz, True)]" zs sz False] D(3) ok(1) at bs
    by (simp add: add.assoc)
  then have h: "heap_at (heap ?s) ?b (ys @ c # (sz, False) # zs)" unfolding ys by simp
  have pc: "p = ?b + span ys + fst c" using at arg_cong [OF ys, of span] by simp
  have "nf_mm_free (nf_of s l) p = snd (nf_coalesce (nf_of ?s l) p)"
    using PUT_header_footer [OF ok(1) p4, of "heap s" False] by (simp add: nf_mm_free_def Let_def ok(2) PACK_tag)
  moreover have "ff_mm_free s p = snd (ff_coalesce ?s p)"
    using PUT_header_footer [OF ok(1) p4, of "heap s" False] D(5) p4
    by (simp add: ff_mm_free_def Let_def ff_macros ok(2) PACK_tag)
  ultimately show ?thesis using ff_coalesce_sim [OF h, of l, folded pc] by (auto split: prod.splits)
qed

section \<open>The allocator contract\<close>

definition ff_blocks :: "firstfit \<Rightarrow> block list" where
  "ff_blocks s = walk (mem_brk s) (heap s) (heap_listp s + 8)"

definition ff_ok :: "firstfit \<Rightarrow> bool" where
  "ff_ok s \<longleftrightarrow> ff_inv s (ff_blocks s)"

definition ff_live :: "firstfit \<Rightarrow> (addr \<times> nat) set" where
  "ff_live s = set (live (heap_listp s + 8) (ff_blocks s))"

lemma ff_via_nf:
  "ff_ok s \<longleftrightarrow> nf_ok (nf_of s (heap_listp s))" "ff_live s = nf_live (nf_of s l)"
  by (auto simp: ff_ok_def ff_live_def ff_blocks_def nf_ok_def nf_live_def nf_blocks_def ff_inv_def nf_inv_def)

lemma ff_ok_iff: "ff_ok s \<longleftrightarrow> (\<exists>bs. ff_inv s bs)"
  using nf_ff_inv ff_inv_nf unfolding ff_via_nf nf_ok_iff by blast

lemma ff_ok_of_nf: "nf_ok (nf_of s l) \<Longrightarrow> ff_ok s"
  using nf_ff_inv by (auto simp: ff_ok_iff nf_ok_iff)

lemma ff_inv_live: "ff_inv s bs \<Longrightarrow> ff_live s = set (live (heap_listp s + 8) bs)"
  using nf_inv_live [OF ff_inv_nf] by (simp add: ff_via_nf(2) [of s "heap_listp s"])

interpretation ff: allocator ff_ok ff_live heap "\<lambda>m s. s\<lparr>heap := m\<rparr>" mem_heap_lo mem_brk
  ff_mm_malloc ff_mm_free
proof
  fix s p n q k
  assume ok: "ff_ok s"
  let ?t = "nf_of s (heap_listp s)"
  have t: "nf_ok ?t" and lv: "ff_live s = nf_live ?t" using ok ff_via_nf by auto
  obtain bs where I: "ff_inv s bs" using ok ff_ok_iff by blast
  assume m: "(p, n) \<in> ff_live s"
  show "mem_heap_lo s \<le> p \<and> 0 < p \<and> p + n \<le> mem_brk s" "8 dvd p"
    using nf.live_range [OF t] nf.live_aligned [OF t] m lv by (simp_all add: mem_heap_lo_def)
  show "p + n \<le> q \<or> q + k \<le> p" if "(q, k) \<in> ff_live s" "p \<noteq> q"
    using nf.live_disjoint [OF t] m that lv by simp
  show "n = k" if "(p, k) \<in> ff_live s"
    using nf.live_functional [OF t] m that lv by simp
  obtain l' where free: "nf_mm_free ?t p = nf_of (ff_mm_free s p) l'"
    using ff_mm_free_sim [OF I] m ff_inv_live [OF I] by blast
  show "ff_ok (ff_mm_free s p) \<and> ff_live (ff_mm_free s p) = ff_live s - {(p, n)}
        \<and> same_payload (heap s) (heap (ff_mm_free s p)) (ff_live s - {(p, n)})"
    using nf.free_ok [OF t, of p n] m lv free ff_ok_of_nf [of "ff_mm_free s p" l'] ff_via_nf(2) [of "ff_mm_free s p" l']
    by simp
  show "ff_ok (s\<lparr>heap := m'\<rparr>) \<and> ff_live (s\<lparr>heap := m'\<rparr>) = ff_live s \<and> heap (s\<lparr>heap := m'\<rparr>) = m'"
    if "\<And>a. a < p \<or> p + n \<le> a \<Longrightarrow> m' a = heap s a" for m'
    using nf.write_ok [OF t, of p n m'] m lv that
      ff_ok_of_nf [of "s\<lparr>heap := m'\<rparr>" "heap_listp s"] ff_via_nf(2) [of "s\<lparr>heap := m'\<rparr>" "heap_listp s"] by simp
next
  fix s sz p s'
  assume "ff_ok s" and le: "sz \<le> max_request"
  then obtain bs where I: "ff_inv s bs" by (auto simp: ff_ok_iff)
  show "\<exists>p s'. ff_mm_malloc s sz = Some (p, s')" if "0 < sz"
    using ff_mm_malloc_inv [OF I that] le by (metis max_request_def)
  show "s' = s" if "ff_mm_malloc s sz = Some (NULL, s')"
  proof (cases "sz = 0")
    case True
    with that ff_invD(5) [OF I] show ?thesis by (simp add: ff_mm_malloc_def)
  next
    case False
    then show ?thesis using ff_mm_malloc_inv [OF I, of sz] le that
      by (metis Pair_inject gr0I max_request_def option.inject)
  qed
  assume "0 < sz" and call: "ff_mm_malloc s sz = Some (p, s')" "p \<noteq> NULL"
  then show "ff_ok s' \<and> (\<exists>n\<ge>sz. ff_live s' = insert (p, n) (ff_live s)) \<and> p \<notin> fst ` ff_live s
        \<and> same_payload (heap s) (heap s') (ff_live s)"
    using ff_mm_malloc_inv [OF I, of sz] le ff_inv_live [OF I] ff_inv_live ff_ok_iff
    unfolding max_request_def keeps_same_payload [symmetric]
    by (metis (no_types, lifting) Pair_inject keeps_same_payload option.inject)
qed

text \<open>\<open>mm_realloc\<close> keeps the contract too.  The copied length is the requested size or the old
  block size with its overhead, whichever is smaller.\<close>

lemma ff_header_size:
  assumes "ff_inv s bs" and "(p, n) \<in> set (live (heap_listp s + 8) bs)"
  shows "GET_SIZE (heap s) (HDRP p) = n + 8"
proof -
  note D = ff_invD [OF assms(1)]
  from live_split [OF assms(2)] obtain xs sz zs
    where bs: "bs = xs @ (sz, True) # zs" and at: "p = heap_listp s + 8 + span xs" "n = sz - 8" by blast
  have "blk (heap s) p (sz, True)" using heap_at_blk [OF D(4) [unfolded bs]] at by simp
  from blk_GET_SIZE(1) [OF this] blk_size [OF this] at show ?thesis by (simp add: ff_macros)
qed

interpretation ffr: reallocator ff_ok ff_live heap "\<lambda>m s. s\<lparr>heap := m\<rparr>" mem_heap_lo mem_brk
  ff_mm_malloc ff_mm_free ff_mm_realloc
proof
  fix s p n sz
  assume ok: "ff_ok s" and p: "(p, n) \<in> ff_live s" and sz: "0 < sz" "sz \<le> max_request"
  have p0: "p \<noteq> NULL" using ff.live_range [OF ok p] by simp
  obtain q s1 where new: "ff_mm_malloc s sz = Some (q, s1)" using ff.malloc_returns [OF ok sz] by blast
  show "\<exists>q s'. ff_mm_realloc s p sz = Some (q, s')"
    using new sz p0 by (simp add: ff_mm_realloc_def Let_def)
  fix q' s'
  assume call: "ff_mm_realloc s p sz = Some (q', s')" and q': "q' \<noteq> NULL"
  then have q: "q' = q" "q \<noteq> NULL" using new sz p0 by (auto simp: ff_mm_realloc_def Let_def split: if_splits)
  have s1: "ff_ok s1" and p1: "(p, n) \<in> ff_live s1" using ff.malloc_ok [OF ok sz new q(2)] p by auto
  obtain bs where "ff_inv s1 bs" using s1 ff_ok_iff by blast
  then have hdr: "GET_SIZE (heap s1) (HDRP p) = n + 8" using ff_header_size p1 ff_inv_live by blast
  define cnt where "cnt = (if sz < n + 8 then sz else n + 8)"
  have s': "s' = ff_mm_free (s1\<lparr>heap := memcpy (heap s1) q p cnt\<rparr>) p"
    using call new q sz p0 hdr by (auto simp: ff_mm_realloc_def Let_def cnt_def)
  show "ff_ok s' \<and> (\<exists>k\<ge>sz. ff_live s' = insert (q', k) (ff_live s - {(p, n)}))
      \<and> q' \<notin> fst ` (ff_live s - {(p, n)})
      \<and> same_payload (heap s) (heap s') (ff_live s - {(p, n)})
      \<and> (\<forall>i<min n sz. heap s' (q' + i) = heap s (p + i))"
    unfolding s' q(1)
    by (rule ff.copy_realloc [OF ok p sz new q(2)]) (auto simp: cnt_def)
qed

section \<open>The heap checker\<close>

lemma ff_checkblock_blk: "blk (heap s) bp b \<Longrightarrow> 8 dvd bp \<Longrightarrow> ff_checkblock s bp = []"
  by (auto simp: ff_checkblock_def ff_macros blk_GET_SIZE(5))
    (simp add: GET_def HEADER_P_def WSIZE_def blk_def)

lemma ff_check_loop_heap:
  assumes "heap_at (heap s) b bs" and "8 dvd b"
  shows "ff_check_loop s b out = Some (b + span bs, out)"
  using assms
proof (induction bs arbitrary: b)
  case Nil
  then have "GET_SIZE (heap s) (HEADER_P b) = 0"
    using heap_at_next [of "heap s" b "[]" "[]"] by (simp add: next_tag_def)
  then show ?case by (subst ff_check_loop.simps) (simp add: ff_macros)
next
  case (Cons x xs)
  have x: "blk (heap s) b x" using Cons.prems by (simp add: heap_at_def)
  have "8 dvd fst x" "8 \<le> fst x" using x by (simp_all add: blk_def size_ok_def)
  moreover have "heap_at (heap s) (b + fst x) xs" using Cons.prems by (simp add: heap_at_def add.assoc)
  ultimately show ?case
    using Cons.IH [of "b + fst x"] Cons.prems x ff_checkblock_blk [OF x]
    by (subst ff_check_loop.simps) (simp add: ff_macros blk_GET_SIZE add.assoc)
qed

lemma ff_checkheap_silent:
  assumes "ff_inv s bs"
  shows "ff_checkheap s = Some []"
proof -
  note D = ff_invD [OF assms]
  have b: "blk (heap s) (heap_listp s) (8, True)" using D(3) by (simp add: heap_at_def)
  have "heap_at (heap s) (heap_listp s) (((8, True) # bs) @ [])" using D(3) by simp
  from heap_at_next [OF this]
  have e: "GET_SIZE (heap s) (HEADER_P (heap_listp s + span ((8, True) # bs))) = 0"
    "IS_IT_ALLOC (heap s) (HEADER_P (heap_listp s + span ((8, True) # bs)))"
    by (simp_all add: next_tag_def)
  show ?thesis
    using e b ff_checkblock_blk [OF b D(6)] ff_check_loop_heap [OF D(3,6)]
    by (simp add: ff_checkheap_def Let_def ff_macros blk_GET_SIZE DSIZE_def)
qed

end
