(* ===== verification/FirstFit_Correct.thy ===== *)
theory FirstFit_Correct
  imports FirstFit
begin

text \<open>
  The properties of the first-fit allocator of \<^verbatim>\<open>CSE4100/vm/malloc/mm.c\<close>, witnessed on the heap
  after \<open>mm_init\<close> and after one allocation.
\<close>

section \<open>Concrete states\<close>

definition ff_arena :: firstfit where
  "ff_arena = \<lparr>mem_start_brk = 8, mem_brk = 8, mem_max_addr = 8 + MAX_HEAP, heap = \<lambda>_. 0, heap_listp = 0\<rparr>"

definition ff_booted :: firstfit where
  "ff_booted = snd (ff_mm_init ff_arena)"

lemma ff_arena_wf:
  "mem_wf ff_arena" "mem_brk ff_arena = mem_start_brk ff_arena"
  "mem_start_brk ff_arena + 4112 \<le> mem_max_addr ff_arena"
  by (simp_all add: ff_arena_def mem_wf_def MAX_HEAP_def)

lemma ff_booted_init: "ff_mm_init ff_arena = (0, ff_booted)"
  and ff_booted_inv: "ff_inv ff_booted [(4096, False)]"
  and ff_booted_fields: "heap_listp ff_booted = 16" "mem_max_addr ff_booted = 8 + MAX_HEAP"
  using ff_mm_init_ok [OF ff_arena_wf] by (auto simp: ff_booted_def) (simp_all add: ff_arena_def)

lemma ff_inv_blocks: "ff_inv s bs \<Longrightarrow> ff_blocks s = bs"
  using nf_inv_blocks [OF ff_inv_nf] by (simp add: ff_blocks_def nf_blocks_def)

lemma ff_booted_ok: "ff_ok ff_booted" "ff_live ff_booted = {}" "ff_blocks ff_booted = [(4096, False)]"
  using ff_booted_inv ff_inv_live [OF ff_booted_inv] ff_inv_blocks [OF ff_booted_inv]
  by (auto simp: ff_ok_iff)

text \<open>The heap after \<open>mm_malloc(100)\<close>.\<close>

lemma ff_one_block:
  obtains s n where "ff_mm_malloc ff_booted 100 = Some (24, s)" "ff_ok s" "ff_live s = {(24, n)}" "100 \<le> n"
    "mem_max_addr s = 8 + MAX_HEAP"
proof -
  have a: "nf_adjust 100 = 112" by (simp add: nf_adjust_def DSIZE_def wrap32_def)
  have "(0 :: nat) < 100" "(100 :: nat) \<le> 2 ^ 32 - 16" by simp_all
  with ff_booted_inv show thesis
  proof (cases rule: ff_mm_malloc_inv [consumes 3])
    case null
    then show thesis by (simp add: a)
  next
    case (ok p n s' bs')
    have "p = 24" using ok(11) by (simp add: a ff_booted_fields)
    moreover have "ff_live s' = {(p, n)}"
      using ok(6,9) ff_inv_live [OF ok(2)] by simp
    ultimately show thesis using that [of s' n] ok ff_booted_fields ff_ok_iff by auto
  qed
qed

section \<open>The operations\<close>

text \<open>\<open>find_fit\<close> returns, and what it returns is the free block of lowest address that is large
  enough; it returns null exactly when every free block is too small.\<close>

theorem ff_find_fit_lowest:
  assumes "ff_ok s"
  shows "\<exists>q. ff_find_fit s a = Some q
    \<and> (if q = NULL then \<forall>b \<in> set (ff_blocks s). snd b \<or> fst b < a
       else \<exists>xs k zs. ff_blocks s = xs @ (k, False) # zs \<and> q = heap_listp s + 8 + span xs \<and> a \<le> k
              \<and> (\<forall>b \<in> set xs. snd b \<or> fst b < a))"
proof -
  have I: "ff_inv s (ff_blocks s)" using assms by (simp add: ff_ok_def)
  note D = ff_invD [OF I]
  let ?f = "fit ((\<le>) a) (heap_listp s + 8) (ff_blocks s)"
  have ff: "ff_find_fit s a = Some (case ?f of None \<Rightarrow> NULL | Some q \<Rightarrow> q)"
    using ff_find_fit_spec [OF D(3,5), of a] by (simp add: ff_find_fit_def)
  show ?thesis
  proof (cases ?f)
    case None
    have "ff_find_fit s a = Some NULL" using ff by (simp add: None)
    moreover have "\<forall>b \<in> set (ff_blocks s). snd b \<or> fst b < a" using None by (simp add: fit_None_iff not_le)
    ultimately show ?thesis by simp
  next
    case (Some q)
    from fit_lowest [OF Some] obtain xs k zs where
      "ff_blocks s = xs @ (k, False) # zs" "q = heap_listp s + 8 + span xs" "a \<le> k"
      "\<forall>b \<in> set xs. snd b \<or> \<not> a \<le> fst b" by blast
    with Some ff show ?thesis by (auto simp: not_le)
  qed
qed

theorem ff_find_fit_lowest_witness: "ff_ok ff_booted \<and> (\<exists>q. ff_find_fit ff_booted 112 = Some q \<and> q \<noteq> NULL)"
  using ff_find_fit_lowest [OF ff_booted_ok(1), of 112] ff_booted_ok
  by (auto split: if_splits simp del: neq0_conv)

text \<open>(C13) On a well-formed heap \<open>mm_malloc\<close> returns for every request up to the largest whose block
  size fits \<^verbatim>\<open>size_t\<close>.  Null means that no free block is large enough and that the arena has no
  room to grow, and the state is unchanged; otherwise the result is an aligned payload of at least
  the requested size, disjoint from the live ones, whose contents are kept.\<close>

theorem ff_mm_malloc_correct:
  assumes "ff_ok s" and "0 < sz" and "sz \<le> max_request"
  shows "\<exists>p s'. ff_mm_malloc s sz = Some (p, s')
    \<and> (if p = NULL
       then s' = s \<and> (\<forall>b \<in> set (ff_blocks s). snd b \<or> fst b < ff_asize sz)
         \<and> (mem_max_addr s < mem_brk s + max (ff_asize sz) CHUNKSIZE \<or> 2 ^ 31 \<le> ff_asize sz)
       else ff_ok s' \<and> 8 dvd p \<and> mem_heap_lo s' \<le> p \<and> p + sz \<le> mem_brk s'
         \<and> (\<exists>n \<ge> sz. ff_live s' = insert (p, n) (ff_live s))
         \<and> (\<forall>(q, k) \<in> ff_live s. p + sz \<le> q \<or> q + k \<le> p)
         \<and> same_payload (heap s) (heap s') (ff_live s))"
proof -
  obtain p s' where call: "ff_mm_malloc s sz = Some (p, s')" using ff.malloc_returns [OF assms] by blast
  have I: "ff_inv s (ff_blocks s)" using assms(1) by (simp add: ff_ok_def)
  show ?thesis
  proof (cases "p = NULL")
    case True
    have "sz \<le> 2 ^ 32 - 16" using assms(3) by (simp add: max_request_def)
    with I assms(2) show ?thesis
    proof (cases rule: ff_mm_malloc_inv [consumes 3])
      case null
      then show ?thesis using True call
        by (auto simp: ff_asize_adjust CHUNKSIZE_def fit_None_iff not_le)
    qed (use True call in simp)
  next
    case False
    note ok = ff.malloc_ok [OF assms call False]
    then obtain n where n: "sz \<le> n" "ff_ok s'" "(p, n) \<in> ff_live s'" by blast
    have "\<forall>(q, k) \<in> ff_live s. p + sz \<le> q \<or> q + k \<le> p"
      using ff.malloc_disjoint [OF assms call False] by auto
    moreover have "8 dvd p" using ff.live_aligned [OF n(2,3)] .
    moreover have "mem_heap_lo s' \<le> p \<and> p + sz \<le> mem_brk s'" using ff.live_range [OF n(2,3)] n(1) by simp
    ultimately show ?thesis using ok call False by (intro exI [of _ p] exI [of _ s']) simp
  qed
qed

theorem ff_mm_malloc_correct_witness:
  "ff_ok ff_booted \<and> (\<exists>p s'. ff_mm_malloc ff_booted 100 = Some (p, s') \<and> p \<noteq> NULL \<and> ff_ok s' \<and> 8 dvd p)"
proof -
  have "ff_asize 100 = 112" by (simp add: ff_asize_def DSIZE_def wrap32_def)
  then show ?thesis using ff_mm_malloc_correct [OF ff_booted_ok(1), of 100] ff_booted_ok
    by (auto simp: max_request_def split: if_splits)
qed

text \<open>(C20) \<open>mm_realloc\<close> of a live payload to a non-zero size either fails with null, leaving the state
  as it was, or returns a payload of at least that size which starts with the old contents (as far
  as both reach); the old payload is gone and every other one keeps its contents.\<close>

theorem ff_mm_realloc_correct:
  assumes "ff_ok s" and "(p, n) \<in> ff_live s" and "0 < sz" and "sz \<le> max_request"
  shows "\<exists>q s'. ff_mm_realloc s p sz = Some (q, s')
    \<and> (if q = NULL then s' = s
       else ff_ok s' \<and> (\<exists>k \<ge> sz. ff_live s' = insert (q, k) (ff_live s - {(p, n)}))
         \<and> same_payload (heap s) (heap s') (ff_live s - {(p, n)})
         \<and> (\<forall>i < min n sz. heap s' (q + i) = heap s (p + i)))"
proof -
  obtain q s' where call: "ff_mm_realloc s p sz = Some (q, s')" using ffr.realloc_returns [OF assms] by blast
  have p0: "p \<noteq> NULL" using ff.live_range [OF assms(1,2)] by simp
  show ?thesis
  proof (cases "q = NULL")
    case True
    then have "ff_mm_malloc s sz = Some (NULL, s')" using call assms(3) p0
      by (auto simp: ff_mm_realloc_def Let_def split: option.splits prod.splits if_splits)
    from ff.malloc_null [OF assms(1) this assms(4)] True call show ?thesis by auto
  next
    case False
    from ffr.realloc_ok [OF assms call False] call False show ?thesis by auto
  qed
qed

theorem ff_mm_realloc_correct_witness:
  "\<exists>s n. ff_ok s \<and> ff_live s = {(24, n)} \<and> (\<exists>q s'. ff_mm_realloc s 24 300 = Some (q, s') \<and> (q = NULL \<or> ff_ok s'))"
proof (cases rule: ff_one_block)
  case (1 s n)
  have "(24, n) \<in> ff_live s" "(0 :: nat) < 300" "300 \<le> max_request" using 1(3) by (simp_all add: max_request_def)
  from ff_mm_realloc_correct [OF 1(2) this] obtain q s' where
    "ff_mm_realloc s 24 300 = Some (q, s')" "q = NULL \<or> ff_ok s'" by metis
  with 1(2,3) show ?thesis by blast
qed

text \<open>\<open>mm_free\<close> of a live payload removes exactly that payload and keeps the others; of a null
  pointer it does nothing.  It does to the heap what the next-fit allocator's \<open>mm_free\<close> does.\<close>

theorem ff_mm_free_correct:
  assumes "ff_ok s" and "(p, n) \<in> ff_live s"
  shows "ff_ok (ff_mm_free s p) \<and> ff_live (ff_mm_free s p) = ff_live s - {(p, n)}
     \<and> same_payload (heap s) (heap (ff_mm_free s p)) (ff_live s - {(p, n)})
     \<and> heap (ff_mm_free s p) = heap (nf_mm_free (nf_of s l) p) \<and> ff_mm_free s NULL = s"
proof -
  obtain bs where I: "ff_inv s bs" using assms(1) by (auto simp: ff_ok_iff)
  have "(p, n) \<in> set (live (heap_listp s + 8) bs)" using assms(2) ff_inv_live [OF I] by simp
  from ff_mm_free_sim [OF I this, of l] have "heap (ff_mm_free s p) = heap (nf_mm_free (nf_of s l) p)"
    by (metis nf_of_simps(4))
  moreover have "ff_mm_free s NULL = s" by (simp add: ff_mm_free_def)
  ultimately show ?thesis using ff.free_ok [OF assms] by blast
qed

theorem ff_mm_free_correct_witness:
  "\<exists>s n. ff_ok s \<and> ff_live s = {(24, n)} \<and> ff_live (ff_mm_free s 24) = {}"
proof (cases rule: ff_one_block)
  case (1 s n)
  from ff_mm_free_correct [OF 1(2), of 24 n] 1 show ?thesis by (intro exI [of _ s] exI [of _ n]) simp
qed

text \<open>The heap checker returns and prints nothing on every well-formed heap.\<close>

theorem ff_mm_checkheap_silent:
  assumes "ff_ok s"
  shows "ff_checkheap s = Some []"
  using assms ff_checkheap_silent by (auto simp: ff_ok_iff)

theorem ff_mm_checkheap_silent_witness: "ff_ok ff_booted \<and> ff_checkheap ff_booted = Some []"
  using ff_mm_checkheap_silent [OF ff_booted_ok(1)] ff_booted_ok(1) by simp

end
