(* ===== verification/MDriver.thy ===== *)
theory MDriver
  imports NextFit_Correct FirstFit_Correct
begin

text \<open>
  The malloc driver (\<^verbatim>\<open>mymalloc_buddy/mdriver.c\<close>, the same in \<^verbatim>\<open>mymalloc_nextfit\<close>): the
  range list that records every allocated payload, the correctness run over a trace, and the
  utilisation run.  The driver is linked against an \<^verbatim>\<open>mm.c\<close> and a \<^verbatim>\<open>memlib.c\<close>, so its
  definitions take the operations of those as the record \<open>mm_ops\<close>.
\<close>

section \<open>The program\<close>

datatype optype = ALLOC | FREE | REALLOC

record traceop =
  op_type :: optype
  op_index :: nat
  op_size :: int

record trace =
  num_ids :: nat
  ops :: "traceop list"

text \<open>What the driver calls of the allocator and of the memory system; a call that does not return
  (divergence or a crash) is \<open>None\<close>.\<close>

record 's mm_ops =
  do_reset :: "'s \<Rightarrow> 's"
  do_init :: "'s \<Rightarrow> int \<times> 's"
  do_malloc :: "'s \<Rightarrow> nat \<Rightarrow> (addr \<times> 's) option"
  do_free :: "'s \<Rightarrow> addr \<Rightarrow> 's"
  do_realloc :: "'s \<Rightarrow> addr \<Rightarrow> nat \<Rightarrow> (addr \<times> 's) option"
  do_heap_lo :: "'s \<Rightarrow> addr"
  do_heap_hi :: "'s \<Rightarrow> addr"
  do_heapsize :: "'s \<Rightarrow> nat"
  bytes_of :: "'s \<Rightarrow> bytes"
  store :: "bytes \<Rightarrow> 's \<Rightarrow> 's"

text \<open>The messages of \<open>malloc_error\<close> and the other ways a run ends early.\<close>

datatype merr = InitFailed | MallocFailed | ReallocFailed | Misaligned | OutsideHeap | Overlap
  | NotPreserved | AssertFailed | NoReturn

type_synonym range_t = "addr \<times> addr"

definition IS_ALIGNED :: "addr \<Rightarrow> bool" where
  "IS_ALIGNED p \<longleftrightarrow> p mod 8 = 0"

definition add_range :: "'s mm_ops \<Rightarrow> 's \<Rightarrow> range_t list \<Rightarrow> addr \<Rightarrow> int \<Rightarrow> merr + range_t list" where
  "add_range M s ranges lo sz =
     (let hi = nat (int lo + sz - 1) in
      if \<not> sz > 0 then Inl AssertFailed
      else if \<not> IS_ALIGNED lo then Inl Misaligned
      else if lo < do_heap_lo M s \<or> lo > do_heap_hi M s \<or> hi < do_heap_lo M s \<or> hi > do_heap_hi M s
      then Inl OutsideHeap
      else if list_ex (\<lambda>(plo, phi). (lo \<ge> plo \<and> lo \<le> phi) \<or> (hi \<ge> plo \<and> hi \<le> phi)) ranges
      then Inl Overlap
      else Inr ((lo, hi) # ranges))"

fun remove_range :: "range_t list \<Rightarrow> addr \<Rightarrow> range_t list" where
  "remove_range [] lo = []"
| "remove_range (p # ps) lo = (if fst p = lo then ps else p # remove_range ps lo)"

definition clear_ranges :: "range_t list \<Rightarrow> range_t list" where
  "clear_ranges ranges = []"

text \<open>The state of a run: the memory, the range list, and the arrays \<open>blocks\<close> and \<open>block_sizes\<close> of
  the trace.\<close>

record 's drv =
  msys :: 's
  ranges :: "range_t list"
  blocks :: "addr list"
  block_sizes :: "nat list"

definition to_size_t :: "int \<Rightarrow> nat" where
  "to_size_t i = nat (i mod 2 ^ 32)"

text \<open>\<open>newp[j] != (index & 0xFF)\<close> compares a \<^verbatim>\<open>char\<close>, which is signed on this target, with an
  \<^verbatim>\<open>int\<close> between 0 and 255.\<close>

definition byte_matches :: "byte \<Rightarrow> nat \<Rightarrow> bool" where
  "byte_matches b index \<longleftrightarrow> sint b = int (index mod 256)"

definition eval_op :: "'s mm_ops \<Rightarrow> traceop \<Rightarrow> 's drv \<Rightarrow> merr + 's drv" where
  "eval_op M op st =
     (let index = op_index op; sz = op_size op; s = msys st in
      case op_type op of
        ALLOC \<Rightarrow>
          (case do_malloc M s (to_size_t sz) of
             None \<Rightarrow> Inl NoReturn
           | Some (p, s1) \<Rightarrow>
               if p = NULL then Inl MallocFailed
               else case add_range M s1 (ranges st) p sz of
                   Inl e \<Rightarrow> Inl e
                 | Inr rs \<Rightarrow>
                     Inr (st\<lparr>msys := store M (memset (bytes_of M s1) p (word_of_nat index) (nat sz)) s1,
                             ranges := rs, blocks := (blocks st)[index := p],
                             block_sizes := (block_sizes st)[index := nat sz]\<rparr>))
      | REALLOC \<Rightarrow>
          (let oldp = blocks st ! index in
           case do_realloc M s oldp (to_size_t sz) of
             None \<Rightarrow> Inl NoReturn
           | Some (newp, s1) \<Rightarrow>
               if newp = NULL then Inl ReallocFailed
               else case add_range M s1 (remove_range (ranges st) oldp) newp sz of
                   Inl e \<Rightarrow> Inl e
                 | Inr rs \<Rightarrow>
                     let oldsize = block_sizes st ! index;
                         n = (if sz < int oldsize then nat sz else oldsize)
                     in if list_ex (\<lambda>j. \<not> byte_matches (bytes_of M s1 (newp + j)) index) [0..<n]
                        then Inl NotPreserved
                        else Inr (st\<lparr>msys := store M (memset (bytes_of M s1) newp (word_of_nat index) (nat sz)) s1,
                                     ranges := rs, blocks := (blocks st)[index := newp],
                                     block_sizes := (block_sizes st)[index := nat sz]\<rparr>))
      | FREE \<Rightarrow>
          (let p = blocks st ! index in
           Inr (st\<lparr>msys := do_free M s p, ranges := remove_range (ranges st) p\<rparr>)))"

fun eval_ops :: "'s mm_ops \<Rightarrow> traceop list \<Rightarrow> 's drv \<Rightarrow> merr + 's drv" where
  "eval_ops M [] st = Inr st"
| "eval_ops M (x # xs) st = (case eval_op M x st of Inl e \<Rightarrow> Inl e | Inr st' \<Rightarrow> eval_ops M xs st')"

definition eval_mm_valid :: "'s mm_ops \<Rightarrow> trace \<Rightarrow> 's drv \<Rightarrow> merr + 's drv" where
  "eval_mm_valid M tr st =
     (let st1 = st\<lparr>msys := do_reset M (msys st), ranges := clear_ranges (ranges st)\<rparr> in
      case do_init M (msys st1) of
        (r, s1) \<Rightarrow> if r < 0 then Inl InitFailed else eval_ops M (ops tr) (st1\<lparr>msys := s1\<rparr>))"

text \<open>\<open>eval_mm_util\<close>: the high-water mark of the payload total, over the heap size; the sums are
  kept as C \<^verbatim>\<open>int\<close>s that do not overflow for the traces at hand.\<close>

record 's util =
  u_drv :: "'s drv"
  total_size :: int
  max_total_size :: int

definition util_op :: "'s mm_ops \<Rightarrow> traceop \<Rightarrow> 's util \<Rightarrow> merr + 's util" where
  "util_op M op u =
     (let index = op_index op; sz = op_size op; st = u_drv u; s = msys st in
      case op_type op of
        ALLOC \<Rightarrow>
          (case do_malloc M s (to_size_t sz) of
             None \<Rightarrow> Inl NoReturn
           | Some (p, s1) \<Rightarrow>
               if p = NULL then Inl MallocFailed
               else let t = total_size u + sz in
                 Inr \<lparr>u_drv = st\<lparr>msys := s1, blocks := (blocks st)[index := p],
                                 block_sizes := (block_sizes st)[index := to_size_t sz]\<rparr>,
                      total_size = t, max_total_size = max t (max_total_size u)\<rparr>)
      | REALLOC \<Rightarrow>
          (let oldsize = int (block_sizes st ! index) in
           case do_realloc M s (blocks st ! index) (to_size_t sz) of
             None \<Rightarrow> Inl NoReturn
           | Some (newp, s1) \<Rightarrow>
               if newp = NULL then Inl ReallocFailed
               else let t = total_size u + (sz - oldsize) in
                 Inr \<lparr>u_drv = st\<lparr>msys := s1, blocks := (blocks st)[index := newp],
                                 block_sizes := (block_sizes st)[index := to_size_t sz]\<rparr>,
                      total_size = t, max_total_size = max t (max_total_size u)\<rparr>)
      | FREE \<Rightarrow>
          Inr (u\<lparr>u_drv := st\<lparr>msys := do_free M s (blocks st ! index)\<rparr>,
                 total_size := total_size u - int (block_sizes st ! index)\<rparr>))"

fun util_ops :: "'s mm_ops \<Rightarrow> traceop list \<Rightarrow> 's util \<Rightarrow> merr + 's util" where
  "util_ops M [] u = Inr u"
| "util_ops M (x # xs) u = (case util_op M x u of Inl e \<Rightarrow> Inl e | Inr u' \<Rightarrow> util_ops M xs u')"

text \<open>The result is the fraction \<open>max_total_size / mem_heapsize()\<close>, as its two parts.\<close>

definition eval_mm_util :: "'s mm_ops \<Rightarrow> trace \<Rightarrow> 's drv \<Rightarrow> merr + (int \<times> nat)" where
  "eval_mm_util M tr st =
     (case do_init M (do_reset M (msys st)) of
        (r, s1) \<Rightarrow> if r < 0 then Inl InitFailed
          else case util_ops M (ops tr) \<lparr>u_drv = st\<lparr>msys := s1\<rparr>, total_size = 0, max_total_size = 0\<rparr> of
              Inl e \<Rightarrow> Inl e
            | Inr u \<Rightarrow> Inr (max_total_size u, do_heapsize M (msys (u_drv u))))"

definition speed_op :: "'s mm_ops \<Rightarrow> traceop \<Rightarrow> 's drv \<Rightarrow> merr + 's drv" where
  "speed_op M op st =
     (let index = op_index op; sz = to_size_t (op_size op); s = msys st in
      case op_type op of
        ALLOC \<Rightarrow> (case do_malloc M s sz of None \<Rightarrow> Inl NoReturn
                  | Some (p, s1) \<Rightarrow> if p = NULL then Inl MallocFailed
                      else Inr (st\<lparr>msys := s1, blocks := (blocks st)[index := p]\<rparr>))
      | REALLOC \<Rightarrow> (case do_realloc M s (blocks st ! index) sz of None \<Rightarrow> Inl NoReturn
                  | Some (p, s1) \<Rightarrow> if p = NULL then Inl ReallocFailed
                      else Inr (st\<lparr>msys := s1, blocks := (blocks st)[index := p]\<rparr>))
      | FREE \<Rightarrow> Inr (st\<lparr>msys := do_free M s (blocks st ! index)\<rparr>))"

fun speed_ops :: "'s mm_ops \<Rightarrow> traceop list \<Rightarrow> 's drv \<Rightarrow> merr + 's drv" where
  "speed_ops M [] st = Inr st"
| "speed_ops M (x # xs) st = (case speed_op M x st of Inl e \<Rightarrow> Inl e | Inr st' \<Rightarrow> speed_ops M xs st')"

definition eval_mm_speed :: "'s mm_ops \<Rightarrow> trace \<Rightarrow> 's drv \<Rightarrow> merr + 's drv" where
  "eval_mm_speed M tr st =
     (case do_init M (do_reset M (msys st)) of
        (r, s1) \<Rightarrow> if r < 0 then Inl InitFailed else speed_ops M (ops tr) (st\<lparr>msys := s1\<rparr>))"

section \<open>Traces and the state of a run\<close>

text \<open>A well-formed trace allocates an identifier that is not live, frees and reallocates live
  ones, and requests between one byte and two gigabytes.  A reallocated identifier stays below
  128 modulo 256, where \<open>byte_matches\<close> means what it says.  \<open>D\<close> is the set of live identifiers.\<close>

fun op_ok :: "nat \<Rightarrow> nat set \<Rightarrow> traceop \<Rightarrow> bool" where
  "op_ok n D x = (op_index x < n \<and>
     (case op_type x of
        ALLOC \<Rightarrow> op_index x \<notin> D \<and> 0 < op_size x \<and> op_size x < 2 ^ 31
      | REALLOC \<Rightarrow> op_index x \<in> D \<and> 0 < op_size x \<and> op_size x < 2 ^ 31 \<and> op_index x mod 256 < 128
      | FREE \<Rightarrow> op_index x \<in> D))"

fun op_live :: "nat set \<Rightarrow> traceop \<Rightarrow> nat set" where
  "op_live D x = (if op_type x = FREE then D - {op_index x} else insert (op_index x) D)"

fun ops_ok :: "nat \<Rightarrow> nat set \<Rightarrow> traceop list \<Rightarrow> bool" where
  "ops_ok n D [] = True"
| "ops_ok n D (x # xs) = (op_ok n D x \<and> ops_ok n (op_live D x) xs)"

fun ops_live :: "nat set \<Rightarrow> traceop list \<Rightarrow> nat set" where
  "ops_live D [] = D"
| "ops_live D (x # xs) = ops_live (op_live D x) xs"

definition no_realloc :: "traceop list \<Rightarrow> bool" where
  "no_realloc xs \<longleftrightarrow> list_all (\<lambda>x. op_type x \<noteq> REALLOC) xs"

text \<open>The range a block is recorded with, and its pattern in memory.\<close>

definition block_range :: "'s drv \<Rightarrow> nat \<Rightarrow> range_t" where
  "block_range st i = (blocks st ! i, blocks st ! i + block_sizes st ! i - 1)"

definition tracks :: "('s \<Rightarrow> bool) \<Rightarrow> ('s \<Rightarrow> (addr \<times> nat) set) \<Rightarrow> ('s \<Rightarrow> bytes) \<Rightarrow> nat \<Rightarrow> nat set \<Rightarrow> 's drv \<Rightarrow> bool" where
  "tracks ok lv mem n D st \<longleftrightarrow>
     ok (msys st) \<and> D \<subseteq> {..<n} \<and> length (blocks st) = n \<and> length (block_sizes st) = n
     \<and> (\<forall>i \<in> D. 0 < block_sizes st ! i \<and> (\<exists>k \<ge> block_sizes st ! i. (blocks st ! i, k) \<in> lv (msys st))
          \<and> (\<forall>j < block_sizes st ! i. mem (msys st) (blocks st ! i + j) = word_of_nat i))
     \<and> inj_on (\<lambda>i. blocks st ! i) D
     \<and> distinct (map fst (ranges st)) \<and> set (ranges st) = block_range st ` D"

lemma tracks_block:
  assumes "tracks ok lv mem n D st" and "i \<in> D"
  obtains k where "block_sizes st ! i \<le> k" "(blocks st ! i, k) \<in> lv (msys st)"
    "0 < block_sizes st ! i" "\<forall>j < block_sizes st ! i. mem (msys st) (blocks st ! i + j) = word_of_nat i"
  using assms unfolding tracks_def by blast

lemma set_remove_range:
  "distinct (map fst rs) \<Longrightarrow> set (remove_range rs lo) = {r \<in> set rs. fst r \<noteq> lo}"
  by (induction rs) (auto simp: image_iff rev_image_eqI)

lemma distinct_remove_range:
  "distinct (map fst rs) \<Longrightarrow> distinct (map fst (remove_range rs lo))"
  by (induction rs) (auto simp: set_remove_range)

lemma remove_range_blocks:
  assumes "inj_on (\<lambda>i. blocks st ! i) D" "distinct (map fst (ranges st))"
    and "set (ranges st) = block_range st ` D" "i \<in> D"
  shows "set (remove_range (ranges st) (blocks st ! i)) = block_range st ` (D - {i})"
  using assms by (auto simp: set_remove_range block_range_def inj_on_def image_iff)

lemma byte_matches_small: "i mod 256 < 128 \<Longrightarrow> byte_matches (word_of_nat i) i"
proof -
  assume lt: "i mod 256 < 128"
  have "(word_of_nat i :: byte) = word_of_nat (i mod 256)"
    by (simp add: word_of_nat_eq_iff take_bit_eq_mod)
  then show ?thesis using lt
    by (simp add: byte_matches_def signed_of_nat signed_take_bit_int_eq_self_iff)
qed

section \<open>A correct allocator passes the correctness run\<close>

locale driven = allocator ok live mem set_mem lo hi malloc free
  for ok :: "'s \<Rightarrow> bool" and live :: "'s \<Rightarrow> (addr \<times> nat) set" and mem :: "'s \<Rightarrow> bytes"
    and set_mem :: "bytes \<Rightarrow> 's \<Rightarrow> 's" and lo :: "'s \<Rightarrow> addr" and hi :: "'s \<Rightarrow> addr"
    and malloc :: "'s \<Rightarrow> nat \<Rightarrow> (addr \<times> 's) option" and free :: "'s \<Rightarrow> addr \<Rightarrow> 's" +
  fixes M :: "'s mm_ops" and boot :: "'s \<Rightarrow> bool"
  assumes calls: "do_malloc M = malloc" "do_free M = free" "bytes_of M = mem" "store M = set_mem"
      "do_heap_lo M = lo" "do_heap_hi M = (\<lambda>s. hi s - 1)"
    and init: "boot s \<Longrightarrow> \<exists>s'. do_init M (do_reset M s) = (0, s') \<and> ok s' \<and> live s' = {}"
begin

lemma tracks_step:
  assumes T: "tracks ok live mem n D st" and D': "D' \<subseteq> D" and s1: "ok s1"
    and lv: "\<And>i k. i \<in> D' \<Longrightarrow> (blocks st ! i, k) \<in> live (msys st) \<Longrightarrow>
        (blocks st ! i, k) \<in> live s1 \<and> (blocks st ! i, k) \<in> A"
    and keep: "same_payload (mem (msys st)) (mem s1) A"
    and rs: "distinct (map fst rs)" "set rs = block_range st ` D'"
  shows "tracks ok live mem n D' (st\<lparr>msys := s1, ranges := rs\<rparr>)"
proof -
  have blk: "0 < block_sizes st ! i \<and> (\<exists>k\<ge>block_sizes st ! i. (blocks st ! i, k) \<in> live s1)
      \<and> (\<forall>j < block_sizes st ! i. mem s1 (blocks st ! i + j) = word_of_nat i)" if i: "i \<in> D'" for i
  proof -
    obtain k where k: "block_sizes st ! i \<le> k" "(blocks st ! i, k) \<in> live (msys st)"
      "0 < block_sizes st ! i" "\<forall>j < block_sizes st ! i. mem (msys st) (blocks st ! i + j) = word_of_nat i"
      using tracks_block [OF T] i D' by blast
    then show ?thesis using lv [OF i k(2)] same_payloadD [OF keep] by auto
  qed
  have "block_range (st\<lparr>msys := s1, ranges := rs\<rparr>) = block_range st" by (simp add: block_range_def fun_eq_iff)
  moreover have "inj_on (\<lambda>i. blocks st ! i) D'" using T D' by (auto simp: tracks_def intro: inj_on_subset)
  ultimately show ?thesis using T D' s1 rs blk by (auto simp: tracks_def)
qed

lemma range_added:
  assumes T: "tracks ok live mem n D (st\<lparr>msys := s1, ranges := rs\<rparr>)"
    and p: "(p, k) \<in> live s1" "0 < sz" "nat sz \<le> k" "\<And>d. d \<in> D \<Longrightarrow> blocks st ! d \<noteq> p"
  shows "add_range M s1 rs p sz = Inr ((p, p + nat sz - 1) # rs)"
proof -
  have s1: "ok s1" and rs: "set rs = block_range st ` D"
    and blk: "\<And>d. d \<in> D \<Longrightarrow> 0 < block_sizes st ! d \<and> (\<exists>k\<ge>block_sizes st ! d. (blocks st ! d, k) \<in> live s1)"
    using T by (auto simp: tracks_def block_range_def)
  have hi: "nat (int p + sz - 1) = p + nat sz - 1" using p(2) by simp
  have 1: "lo s1 \<le> p" "0 < p" "p + k \<le> hi s1" using live_range [OF s1 p(1)] by auto
  have 2: "p mod 8 = 0" using live_aligned [OF s1 p(1)] by simp
  have "\<not> ((p \<ge> plo \<and> p \<le> phi) \<or> (p + nat sz - 1 \<ge> plo \<and> p + nat sz - 1 \<le> phi))"
    if r: "(plo, phi) \<in> set rs" for plo phi
  proof -
    obtain d where d: "d \<in> D" "plo = blocks st ! d" "phi = blocks st ! d + block_sizes st ! d - 1"
      using r rs by (auto simp: block_range_def)
    obtain j where j: "block_sizes st ! d \<le> j" "(blocks st ! d, j) \<in> live s1" "0 < block_sizes st ! d"
      using blk [OF d(1)] by auto
    have "p + k \<le> plo \<or> plo + j \<le> p"
      using live_disjoint [OF s1 p(1) j(2)] p(4) [OF d(1)] d(2) by auto
    then show ?thesis using j p(2,3) d by (auto simp: not_le)
  qed
  then have "\<not> list_ex (\<lambda>(plo, phi). (p \<ge> plo \<and> p \<le> phi)
      \<or> (p + nat sz - 1 \<ge> plo \<and> p + nat sz - 1 \<le> phi)) rs" by (auto simp: list_ex_iff)
  then show ?thesis using 1 2 p(2,3) by (auto simp: add_range_def Let_def hi calls IS_ALIGNED_def)
qed

lemma install:
  assumes T: "tracks ok live mem n D (st\<lparr>msys := s1, ranges := rs\<rparr>)" and i: "i < n" "i \<notin> D"
    and p: "(p, k) \<in> live s1" "0 < sz" "nat sz \<le> k" "\<And>d. d \<in> D \<Longrightarrow> blocks st ! d \<noteq> p"
  shows "tracks ok live mem n (insert i D)
     (st\<lparr>msys := store M (memset (bytes_of M s1) p (word_of_nat i) (nat sz)) s1,
         ranges := (p, p + nat sz - 1) # rs, blocks := (blocks st)[i := p],
         block_sizes := (block_sizes st)[i := nat sz]\<rparr>)" (is "tracks _ _ _ _ _ ?st")
proof -
  let ?m = "memset (mem s1) p (word_of_nat i) (nat sz)"
  have s1: "ok s1" and len: "length (blocks st) = n" "length (block_sizes st) = n" and D: "D \<subseteq> {..<n}"
    using T by (auto simp: tracks_def)
  have out: "\<And>a. a < p \<or> p + k \<le> a \<Longrightarrow> ?m a = mem s1 a" using p(3) by (auto simp: memset_def)
  note W = write_ok [OF s1 p(1) out] and K = write_same_payload [OF s1 p(1) out]
  have ms: "msys ?st = set_mem ?m s1" by (simp add: calls)
  have old: "0 < block_sizes ?st ! d \<and> (\<exists>k \<ge> block_sizes ?st ! d. (blocks ?st ! d, k) \<in> live (msys ?st))
      \<and> (\<forall>j < block_sizes ?st ! d. mem (msys ?st) (blocks ?st ! d + j) = word_of_nat d)" if d: "d \<in> D" for d
  proof -
    have e: "blocks ?st ! d = blocks st ! d" "block_sizes ?st ! d = block_sizes st ! d"
      using d i(2) by (cases "d = i"; simp)+
    obtain j where j: "block_sizes st ! d \<le> j" "(blocks st ! d, j) \<in> live s1" "0 < block_sizes st ! d"
      "\<forall>b < block_sizes st ! d. mem s1 (blocks st ! d + b) = word_of_nat d"
      using tracks_block [OF T d] by auto
    have A: "(blocks st ! d, j) \<in> live s1 - {(p, k)}" using j(2) p(4) [OF d] by auto
    have "mem (set_mem ?m s1) (blocks st ! d + b) = word_of_nat d" if "b < block_sizes st ! d" for b
      using same_payloadD [OF K A] j(1,4) that by simp
    then show ?thesis using W j(1-3) unfolding e ms by auto
  qed
  have new: "0 < block_sizes ?st ! i \<and> (\<exists>k \<ge> block_sizes ?st ! i. (blocks ?st ! i, k) \<in> live (msys ?st))
      \<and> (\<forall>j < block_sizes ?st ! i. mem (msys ?st) (blocks ?st ! i + j) = word_of_nat i)"
  proof -
    have "\<forall>j < nat sz. ?m (p + j) = word_of_nat i" by (simp add: memset_def)
    then show ?thesis using W p i len unfolding ms by auto
  qed
  have inj: "inj_on (\<lambda>d. blocks ?st ! d) (insert i D)"
    using T i p(4) len by (auto simp: tracks_def inj_on_def nth_list_update)
  have br: "block_range ?st d = block_range st d" if "d \<in> D" for d
    using that i(2) by (cases "d = i") (simp_all add: block_range_def)
  have bi: "block_range ?st i = (p, p + nat sz - 1)" using i len by (simp add: block_range_def)
  have rs: "set rs = block_range st ` D" "distinct (map fst rs)"
    using T by (auto simp: tracks_def block_range_def)
  have "p \<notin> fst ` set rs" unfolding rs(1) by (auto simp: block_range_def dest!: p(4))
  moreover have "block_range ?st ` insert i D = insert (p, p + nat sz - 1) (block_range st ` D)"
    unfolding image_insert bi by (simp only: br cong: image_cong)
  ultimately have "distinct (map fst (ranges ?st)) \<and> set (ranges ?st) = block_range ?st ` insert i D"
    using rs by simp
  then show ?thesis using W old new inj len i D unfolding tracks_def ms by simp
qed

lemma step_alloc:
  assumes T: "tracks ok live mem n D st" and x: "op_ok n D x" "op_type x = ALLOC"
  shows "eval_op M x st = Inl MallocFailed
    \<or> (\<exists>st'. eval_op M x st = Inr st' \<and> tracks ok live mem n (op_live D x) st')"
proof -
  let ?sz = "nat (op_size x)" let ?s = "msys st"
  have s: "ok ?s" using T by (simp add: tracks_def)
  have i: "op_index x < n" "op_index x \<notin> D" and pos: "0 < op_size x" "op_size x < 2 ^ 31" using x by auto
  then have sz: "to_size_t (op_size x) = ?sz" "0 < ?sz" "?sz \<le> max_request"
    by (auto simp: to_size_t_def max_request_def)
  obtain p s1 where call: "malloc ?s ?sz = Some (p, s1)" using malloc_returns [OF s sz(2,3)] by blast
  show ?thesis
  proof (cases "p = NULL")
    case True
    then show ?thesis using call sz x(2) by (simp add: eval_op_def Let_def calls)
  next
    case False
    from malloc_ok [OF s sz(2,3) call False] obtain k where
      m: "ok s1" "?sz \<le> k" "live s1 = insert (p, k) (live ?s)" "p \<notin> fst ` live ?s"
        "same_payload (mem ?s) (mem s1) (live ?s)" by blast
    have T1: "tracks ok live mem n D (st\<lparr>msys := s1, ranges := ranges st\<rparr>)"
      by (rule tracks_step [OF T _ m(1) _ m(5)]) (use T m(3) in \<open>auto simp: tracks_def\<close>)
    have fresh: "blocks st ! d \<noteq> p" if "d \<in> D" for d
      using tracks_block [OF T that] m(4) by (metis fst_conv image_eqI)
    have pk: "(p, k) \<in> live s1" using m(3) by simp
    show ?thesis
      using install [OF T1 i pk pos(1) m(2) fresh] range_added [OF T1 pk pos(1) m(2) fresh] call sz x(2) False
      by (simp add: eval_op_def Let_def calls)
  qed
qed

lemma step_free:
  assumes T: "tracks ok live mem n D st" and x: "op_ok n D x" "op_type x = FREE"
  shows "\<exists>st'. eval_op M x st = Inr st' \<and> tracks ok live mem n (op_live D x) st'"
proof -
  let ?i = "op_index x" let ?p = "blocks st ! ?i" let ?s = "msys st"
  have i: "?i \<in> D" using x by simp
  have s: "ok ?s" and rs: "inj_on (\<lambda>i. blocks st ! i) D" "distinct (map fst (ranges st))"
    "set (ranges st) = block_range st ` D" using T by (simp_all add: tracks_def)
  obtain k where k: "(?p, k) \<in> live ?s" using tracks_block [OF T i] by blast
  note F = free_ok [OF s k]
  have ne: "blocks st ! d \<noteq> ?p" if "d \<in> D - {?i}" for d using that rs(1) i by (auto simp: inj_on_def)
  have "tracks ok live mem n (D - {?i}) (st\<lparr>msys := free ?s ?p, ranges := remove_range (ranges st) ?p\<rparr>)"
    by (rule tracks_step [OF T _ _ _ conjunct2 [OF conjunct2 [OF F]]])
      (use F ne remove_range_blocks [OF rs i] distinct_remove_range [OF rs(2)] in auto)
  then show ?thesis using x by (simp add: eval_op_def Let_def calls)
qed

lemma run_no_realloc:
  "\<lbrakk>tracks ok live mem n D st; ops_ok n D xs; no_realloc xs\<rbrakk> \<Longrightarrow>
     eval_ops M xs st = Inl MallocFailed
     \<or> (\<exists>st'. eval_ops M xs st = Inr st' \<and> tracks ok live mem n (ops_live D xs) st')"
proof (induction xs arbitrary: D st)
  case Nil
  then show ?case by simp
next
  case (Cons x xs)
  have "op_type x = ALLOC \<or> op_type x = FREE" using Cons.prems(3) by (cases "op_type x") (auto simp: no_realloc_def)
  then have "eval_op M x st = Inl MallocFailed
    \<or> (\<exists>st'. eval_op M x st = Inr st' \<and> tracks ok live mem n (op_live D x) st')"
    using step_alloc [of n D st x] step_free [of n D st x] Cons.prems by auto
  then show ?case using Cons.IH Cons.prems by (fastforce simp: no_realloc_def simp del: op_live.simps op_ok.simps)
qed

lemma tracks_init:
  assumes "boot (msys st)" and "length (blocks st) = n" and "length (block_sizes st) = n"
  obtains st1 where "tracks ok live mem n {} st1"
    and "\<And>tr. eval_mm_valid M tr st = eval_ops M (ops tr) st1"
proof -
  from init [OF assms(1)] obtain s' where s': "do_init M (do_reset M (msys st)) = (0, s')" "ok s'" "live s' = {}"
    by blast
  let ?st = "st\<lparr>ranges := [], msys := s'\<rparr>"
  have "tracks ok live mem n {} ?st" using assms s' by (simp add: tracks_def)
  moreover have "eval_mm_valid M tr st = eval_ops M (ops tr) ?st" for tr
    using s' by (simp add: eval_mm_valid_def Let_def clear_ranges_def)
  ultimately show thesis using that by blast
qed

lemma valid_no_realloc:
  assumes "boot (msys st)" and "length (blocks st) = n" and "length (block_sizes st) = n"
    and "ops_ok n {} (ops tr)" and "no_realloc (ops tr)"
  shows "eval_mm_valid M tr st = Inl MallocFailed
     \<or> (\<exists>st'. eval_mm_valid M tr st = Inr st' \<and> tracks ok live mem n (ops_live {} (ops tr)) st')"
  using tracks_init [OF assms(1-3)] run_no_realloc [OF _ assms(4,5)] by metis

end

locale driven_realloc = driven ok live mem set_mem lo hi malloc free M boot
    + reallocator ok live mem set_mem lo hi malloc free realloc
  for ok :: "'s \<Rightarrow> bool" and live :: "'s \<Rightarrow> (addr \<times> nat) set" and mem :: "'s \<Rightarrow> bytes"
    and set_mem :: "bytes \<Rightarrow> 's \<Rightarrow> 's" and lo :: "'s \<Rightarrow> addr" and hi :: "'s \<Rightarrow> addr"
    and malloc :: "'s \<Rightarrow> nat \<Rightarrow> (addr \<times> 's) option" and free :: "'s \<Rightarrow> addr \<Rightarrow> 's"
    and M :: "'s mm_ops" and boot :: "'s \<Rightarrow> bool"
    and realloc :: "'s \<Rightarrow> addr \<Rightarrow> nat \<Rightarrow> (addr \<times> 's) option" +
  assumes call_realloc: "do_realloc M = realloc"
begin

lemma step_realloc:
  assumes T: "tracks ok live mem n D st" and x: "op_ok n D x" "op_type x = REALLOC"
  shows "eval_op M x st = Inl ReallocFailed
    \<or> (\<exists>st'. eval_op M x st = Inr st' \<and> tracks ok live mem n (op_live D x) st')"
proof -
  let ?i = "op_index x" let ?sz = "nat (op_size x)" let ?s = "msys st" let ?p = "blocks st ! ?i"
  let ?rs = "remove_range (ranges st) ?p"
  have s: "ok ?s" and rs: "inj_on (\<lambda>i. blocks st ! i) D" "distinct (map fst (ranges st))"
    "set (ranges st) = block_range st ` D" using T by (simp_all add: tracks_def)
  have i: "?i \<in> D" "?i < n" and pos: "0 < op_size x" "op_size x < 2 ^ 31" and b: "?i mod 256 < 128" using x by auto
  then have sz: "to_size_t (op_size x) = ?sz" "0 < ?sz" "?sz \<le> max_request"
    by (auto simp: to_size_t_def max_request_def)
  obtain k where k: "(?p, k) \<in> live ?s" "block_sizes st ! ?i \<le> k"
    "\<forall>j < block_sizes st ! ?i. mem ?s (?p + j) = word_of_nat ?i" using tracks_block [OF T i(1)] by blast
  obtain q s1 where call: "realloc ?s ?p ?sz = Some (q, s1)" using realloc_returns [OF s k(1) sz(2,3)] by blast
  show ?thesis
  proof (cases "q = NULL")
    case True
    then show ?thesis using call sz x(2) by (simp add: eval_op_def Let_def call_realloc)
  next
    case False
    from realloc_ok [OF s k(1) sz(2,3) call False] obtain h where
      m: "ok s1" "?sz \<le> h" "live s1 = insert (q, h) (live ?s - {(?p, k)})" "q \<notin> fst ` (live ?s - {(?p, k)})"
        "same_payload (mem ?s) (mem s1) (live ?s - {(?p, k)})"
        "\<forall>i < min k ?sz. mem s1 (q + i) = mem ?s (?p + i)" by blast
    have ne: "blocks st ! d \<noteq> ?p" if "d \<in> D - {?i}" for d using that rs(1) i by (auto simp: inj_on_def)
    have T1: "tracks ok live mem n (D - {?i}) (st\<lparr>msys := s1, ranges := ?rs\<rparr>)"
      by (rule tracks_step [OF T _ m(1) _ m(5)])
        (use m(3) ne remove_range_blocks [OF rs i(1)] distinct_remove_range [OF rs(2)] in auto)
    have fresh: "blocks st ! d \<noteq> q" if d: "d \<in> D - {?i}" for d
    proof -
      have "d \<in> D" using d by simp
      from tracks_block [OF T this] obtain j where "(blocks st ! d, j) \<in> live ?s - {(?p, k)}"
        using ne [OF d] by blast
      then show ?thesis using m(4) by force
    qed
    have qh: "(q, h) \<in> live s1" using m(3) by simp
    have n: "(if op_size x < int (block_sizes st ! ?i) then ?sz else block_sizes st ! ?i)
        = min (block_sizes st ! ?i) ?sz" using pos by (auto simp: min_def)
    have "\<not> list_ex (\<lambda>j. \<not> byte_matches (mem s1 (q + j)) ?i) [0..<min (block_sizes st ! ?i) ?sz]"
      using m(6) k(2,3) byte_matches_small [OF b] by (auto simp: list_ex_iff)
    moreover have "insert ?i (D - {?i}) = insert ?i D" by auto
    ultimately show ?thesis
      using install [OF T1 i(2) _ qh pos(1) m(2) fresh] range_added [OF T1 qh pos(1) m(2) fresh]
        call sz x(2) False n
      by (simp add: eval_op_def Let_def calls call_realloc)
  qed
qed

lemma run:
  "\<lbrakk>tracks ok live mem n D st; ops_ok n D xs\<rbrakk> \<Longrightarrow>
     eval_ops M xs st \<in> {Inl MallocFailed, Inl ReallocFailed}
     \<or> (\<exists>st'. eval_ops M xs st = Inr st' \<and> tracks ok live mem n (ops_live D xs) st')"
proof (induction xs arbitrary: D st)
  case Nil
  then show ?case by simp
next
  case (Cons x xs)
  have "eval_op M x st \<in> {Inl MallocFailed, Inl ReallocFailed}
    \<or> (\<exists>st'. eval_op M x st = Inr st' \<and> tracks ok live mem n (op_live D x) st')"
    using step_alloc [of n D st x] step_free [of n D st x] step_realloc [of n D st x] Cons.prems
    by (cases "op_type x") (auto simp del: op_live.simps)
  then show ?case using Cons.IH Cons.prems by (fastforce simp del: op_live.simps op_ok.simps)
qed

lemma valid:
  assumes "boot (msys st)" and "length (blocks st) = n" and "length (block_sizes st) = n"
    and "ops_ok n {} (ops tr)"
  shows "eval_mm_valid M tr st \<in> {Inl MallocFailed, Inl ReallocFailed}
     \<or> (\<exists>st'. eval_mm_valid M tr st = Inr st' \<and> tracks ok live mem n (ops_live {} (ops tr)) st')"
  using tracks_init [OF assms(1-3)] run [OF _ assms(4)] by metis

end

section \<open>The driver on the two allocators\<close>

text \<open>The driver linked with each allocator.  A call that faults does not return.\<close>

definition nf_ops :: "nextfit mm_ops" where
  "nf_ops = \<lparr>do_reset = mem_reset_brk, do_init = nf_mm_init, do_malloc = nf_mm_malloc, do_free = nf_mm_free,
     do_realloc = (\<lambda>s p sz. case nf_mm_realloc s p sz of Some (Inr r) \<Rightarrow> Some r | _ \<Rightarrow> None),
     do_heap_lo = mem_heap_lo, do_heap_hi = mem_heap_hi, do_heapsize = mem_heapsize,
     bytes_of = heap, store = (\<lambda>m s. s\<lparr>heap := m\<rparr>)\<rparr>"

definition ff_ops :: "firstfit mm_ops" where
  "ff_ops = \<lparr>do_reset = mem_reset_brk, do_init = ff_mm_init, do_malloc = ff_mm_malloc, do_free = ff_mm_free,
     do_realloc = ff_mm_realloc,
     do_heap_lo = mem_heap_lo, do_heap_hi = mem_heap_hi, do_heapsize = mem_heapsize,
     bytes_of = heap, store = (\<lambda>m s. s\<lparr>heap := m\<rparr>)\<rparr>"

definition arena_ok :: "'a memsys_scheme \<Rightarrow> bool" where
  "arena_ok s \<longleftrightarrow> mem_wf s \<and> mem_start_brk s + 4112 \<le> mem_max_addr s"

lemma arena_reset:
  "arena_ok s \<Longrightarrow> mem_wf (mem_reset_brk s) \<and> mem_brk (mem_reset_brk s) = mem_start_brk (mem_reset_brk s)
     \<and> mem_start_brk (mem_reset_brk s) + 4112 \<le> mem_max_addr (mem_reset_brk s)"
  by (simp add: arena_ok_def mem_reset_brk_wf) (simp add: mem_reset_brk_def)

interpretation nfd: driven nf_ok nf_live heap "\<lambda>m s. s\<lparr>heap := m\<rparr>" mem_heap_lo mem_brk
  nf_mm_malloc nf_mm_free nf_ops arena_ok
proof
  fix s :: nextfit
  assume "arena_ok s"
  note A = arena_reset [OF this]
  from nf_mm_init_ok [of "mem_reset_brk s"] A obtain s' where
    "nf_mm_init (mem_reset_brk s) = (0, s')" "nf_inv s' [(4096, False)]" by blast
  then show "\<exists>s'. do_init nf_ops (do_reset nf_ops s) = (0, s') \<and> nf_ok s' \<and> nf_live s' = {}"
    using nf_inv_live by (auto simp: nf_ops_def nf_ok_iff)
qed (simp_all add: nf_ops_def mem_heap_hi_def fun_eq_iff)

interpretation ffd: driven_realloc ff_ok ff_live heap "\<lambda>m s. s\<lparr>heap := m\<rparr>" mem_heap_lo mem_brk
  ff_mm_malloc ff_mm_free ff_ops arena_ok ff_mm_realloc
proof
  fix s :: firstfit
  assume "arena_ok s"
  note A = arena_reset [OF this]
  from ff_mm_init_ok [of "mem_reset_brk s"] A obtain s' where
    "ff_mm_init (mem_reset_brk s) = (0, s')" "ff_inv s' [(4096, False)]" by blast
  then show "\<exists>s'. do_init ff_ops (do_reset ff_ops s) = (0, s') \<and> ff_ok s' \<and> ff_live s' = {}"
    using ff_inv_live by (auto simp: ff_ops_def ff_ok_iff)
qed (simp_all add: ff_ops_def mem_heap_hi_def fun_eq_iff)

section \<open>Properties\<close>

text \<open>(C3) The correctness run of the driver over any well-formed trace without reallocations accepts
  the next-fit allocator: the only failure it can report is a null pointer from \<open>mm_malloc\<close>.  At
  the end every live identifier has a live block of its recorded size, filled with its pattern, and
  the range list is exactly the list of these blocks.\<close>

theorem nextfit_passes_driver:
  assumes "arena_ok (msys st)" and "length (blocks st) = n" and "length (block_sizes st) = n"
    and "ops_ok n {} (ops tr)" and "no_realloc (ops tr)"
  shows "eval_mm_valid nf_ops tr st = Inl MallocFailed
     \<or> (\<exists>st'. eval_mm_valid nf_ops tr st = Inr st' \<and> tracks nf_ok nf_live heap n (ops_live {} (ops tr)) st')"
  by (rule nfd.valid_no_realloc [OF assms])

theorem nextfit_passes_driver_witness:
  "\<exists>r. eval_mm_valid nf_ops
       \<lparr>num_ids = 1, ops = [\<lparr>op_type = ALLOC, op_index = 0, op_size = 100\<rparr>, \<lparr>op_type = FREE, op_index = 0, op_size = 0\<rparr>]\<rparr>
       \<lparr>msys = nf_arena, ranges = [], blocks = [0], block_sizes = [0]\<rparr> = r
     \<and> (r = Inl MallocFailed \<or> (\<exists>st'. r = Inr st' \<and> ranges st' = []))"
  using nextfit_passes_driver
    [of "\<lparr>msys = nf_arena, ranges = [], blocks = [0], block_sizes = [0]\<rparr>" 1
        "\<lparr>num_ids = 1, ops = [\<lparr>op_type = ALLOC, op_index = 0, op_size = 100\<rparr>, \<lparr>op_type = FREE, op_index = 0, op_size = 0\<rparr>]\<rparr>"]
    nf_arena_wf
  by (auto simp: arena_ok_def no_realloc_def tracks_def)



text \<open>\<open>add_range\<close> compares only the two end points of the new payload with the recorded ranges, so
  it accepts a new payload that strictly contains one that is already allocated, although its
  comment says that it checks for overlaps.\<close>

theorem add_range_misses_containment:
  assumes "do_heap_lo M s \<le> lo" and "lo + nat sz - 1 \<le> do_heap_hi M s" and "8 dvd lo" and "0 < sz"
    and "lo < plo" and "plo \<le> phi" and "int phi < int lo + sz - 1"
  shows "add_range M s [(plo, phi)] lo sz = Inr [(lo, lo + nat sz - 1), (plo, phi)]"
proof -
  have "nat (int lo + sz - 1) = lo + nat sz - 1" using assms(4) by simp
  then show ?thesis using assms by (auto simp: add_range_def Let_def IS_ALIGNED_def)
qed

theorem add_range_misses_containment_witness:
  "\<exists>s. add_range nf_ops s [(32, 39)] 24 32 = Inr [(24, 55), (32, 39)]"
  using add_range_misses_containment [of nf_ops "nf_arena\<lparr>mem_brk := 100\<rparr>" 24 32 32 39]
  by (intro exI [of _ "nf_arena\<lparr>mem_brk := 100\<rparr>"])
    (simp add: nf_ops_def mem_heap_lo_def mem_heap_hi_def nf_arena_def)

text \<open>The check that \<open>mm_realloc\<close> preserved the data compares a signed \<^verbatim>\<open>char\<close> with a value from 0
  to 255, so for an identifier whose low byte is 128 or more it reports a correct copy as damaged:
  whatever the allocator does, the pattern byte that the driver wrote never matches.\<close>

theorem byte_check_false_alarm:
  assumes "128 \<le> index mod 256"
  shows "\<not> byte_matches (memset m p (word_of_nat index) sz a) index \<or> a < p \<or> p + sz \<le> a"
proof -
  have "\<not> byte_matches b index" for b
    using sint_lt [of b] assms by (auto simp: byte_matches_def)
  then show ?thesis by blast
qed

theorem byte_check_false_alarm_witness:
  "\<not> byte_matches (memset (\<lambda>_. 0) 24 (word_of_nat 200) 8 24) 200"
  using byte_check_false_alarm [of 200 "\<lambda>_. 0" 24 8 24] by simp

end
