(* ===== verification/C_Strings.thy ===== *)
theory C_Strings
  imports Prelude
begin

text \<open>
  What the sources use of the C library on text: character classes, \<^verbatim>\<open>strncmp\<close>, the \<^verbatim>\<open>%d\<close>
  conversion of \<^verbatim>\<open>printf\<close>, \<^verbatim>\<open>atoi\<close>, and the reading of a blank-separated word by
  \<^verbatim>\<open>scanf\<close>.  A \<^verbatim>\<open>char\<close> array is a list of characters, a C string the part before its first
  null character.
\<close>

abbreviation NUL :: char where "NUL \<equiv> CHR 0x00"
abbreviation NEWLINE :: char where "NEWLINE \<equiv> CHR 0x0A"

section \<open>Signed 32-bit integers\<close>

text \<open>The value of an \<^verbatim>\<open>int\<close> expression: the targets wrap around.\<close>

definition int32 :: "int \<Rightarrow> int" where
  "int32 i = (i + 2 ^ 31) mod 2 ^ 32 - 2 ^ 31"

definition in_int32 :: "int \<Rightarrow> bool" where
  "in_int32 i \<longleftrightarrow> - (2 ^ 31) \<le> i \<and> i < 2 ^ 31"

lemma int32_id [simp]: "in_int32 i \<Longrightarrow> int32 i = i"
  by (simp add: in_int32_def int32_def)

lemma int32_in [simp]: "in_int32 (int32 i)"
  by (simp add: in_int32_def int32_def)

text \<open>C division truncates towards zero.\<close>

definition c_div :: "int \<Rightarrow> int \<Rightarrow> int" where
  "c_div a b = sgn a * (\<bar>a\<bar> div b)"

definition c_mod :: "int \<Rightarrow> int \<Rightarrow> int" where
  "c_mod a b = a - b * c_div a b"

lemma c_mod_nonneg: "0 \<le> a \<Longrightarrow> c_mod a b = a mod b"
  by (cases "a = 0") (simp_all add: c_mod_def c_div_def minus_mult_div_eq_mod)

section \<open>Characters and words\<close>

definition isspace :: "char \<Rightarrow> bool" where
  "isspace c \<longleftrightarrow> c = CHR '' '' \<or> (9 \<le> (of_char c :: nat) \<and> of_char c \<le> (13 :: nat))"

definition isdigit :: "char \<Rightarrow> bool" where
  "isdigit c \<longleftrightarrow> 48 \<le> (of_char c :: nat) \<and> of_char c \<le> (57 :: nat)"

definition c_str :: "string \<Rightarrow> string" where
  "c_str = takeWhile (\<lambda>c. c \<noteq> NUL)"

definition at :: "string \<Rightarrow> char" where
  "at s = (case s of [] \<Rightarrow> NUL | c # _ \<Rightarrow> c)"

text \<open>\<^verbatim>\<open>strncmp(a, b, n) == 0\<close>.\<close>

fun strncmp_eq :: "string \<Rightarrow> string \<Rightarrow> nat \<Rightarrow> bool" where
  "strncmp_eq a b 0 = True"
| "strncmp_eq a b (Suc n) = (at a = at b \<and> (at a = NUL \<or> strncmp_eq (tl a) (tl b) n))"

lemma strncmp_eq_take:
  "NUL \<notin> set a \<Longrightarrow> NUL \<notin> set b \<Longrightarrow> strncmp_eq a b n \<longleftrightarrow> take n a = take n b"
  by (induction a b n rule: strncmp_eq.induct) (auto simp: at_def split: list.splits)

text \<open>One \<^verbatim>\<open>%s\<close> conversion: skip blanks, then take the word; \<open>None\<close> when the input ends first.\<close>

definition scan_word :: "string \<Rightarrow> (string \<times> string) option" where
  "scan_word s = (let s' = dropWhile isspace s in
     if s' = [] then None else Some (takeWhile (\<lambda>c. \<not> isspace c) s', dropWhile (\<lambda>c. \<not> isspace c) s'))"

lemma scan_word_length: "scan_word s = Some (w, r) \<Longrightarrow> length r < length s"
proof -
  assume a: "scan_word s = Some (w, r)"
  let ?s = "dropWhile isspace s"
  have ne: "?s \<noteq> []" and r: "r = dropWhile (\<lambda>c. \<not> isspace c) ?s"
    using a by (auto simp: scan_word_def Let_def split: if_splits)
  from ne have "\<not> isspace (hd ?s)" by (rule hd_dropWhile)
  with ne have "r = dropWhile (\<lambda>c. \<not> isspace c) (tl ?s)" unfolding r by (cases ?s) auto
  then have "length r \<le> length (tl ?s)" using length_dropWhile_le by metis
  also have "\<dots> < length ?s" using ne by (cases ?s) auto
  also have "\<dots> \<le> length s" by (rule length_dropWhile_le)
  finally show ?thesis .
qed

lemma scan_word_append:
  assumes "w \<noteq> []" and "\<forall>c \<in> set w. \<not> isspace c" and "isspace c"
  shows "scan_word (w @ c # s) = Some (w, c # s)"
proof -
  have "dropWhile isspace (w @ c # s) = w @ c # s" using assms(1,2) by (cases w) auto
  then show ?thesis using assms by (simp add: scan_word_def takeWhile_append2 dropWhile_append2)
qed

lemma scan_word_blank [simp]: "isspace c \<Longrightarrow> scan_word (c # s) = scan_word s"
  by (simp add: scan_word_def)

section \<open>Decimal numbers\<close>

definition digit :: "nat \<Rightarrow> char" where
  "digit d = char_of (48 + d)"

definition digit_val :: "char \<Rightarrow> nat" where
  "digit_val c = of_char c - 48"

fun show_nat :: "nat \<Rightarrow> string" where
  "show_nat n = (if n < 10 then [digit n] else show_nat (n div 10) @ [digit (n mod 10)])"

declare show_nat.simps [simp del]

definition show_int :: "int \<Rightarrow> string" where
  "show_int i = (if i < 0 then CHR ''-'' # show_nat (nat (- i)) else show_nat (nat i))"

definition digits_val :: "string \<Rightarrow> nat" where
  "digits_val = foldl (\<lambda>v c. 10 * v + digit_val c) 0"

text \<open>\<^verbatim>\<open>atoi\<close> is \<^verbatim>\<open>(int) strtol(s, NULL, 10)\<close>; \<^verbatim>\<open>strtol\<close> saturates at 64 bits.\<close>

definition strtol :: "string \<Rightarrow> int" where
  "strtol s =
     (let s1 = dropWhile isspace s;
          s2 = (if at s1 \<in> {CHR ''-'', CHR ''+''} then tl s1 else s1);
          v = int (digits_val (takeWhile isdigit s2));
          w = (if at s1 = CHR ''-'' then - v else v)
      in max (- (2 ^ 63)) (min (2 ^ 63 - 1) w))"

definition atoi :: "string \<Rightarrow> int" where
  "atoi s = int32 (strtol s)"

lemma of_char_digit: "d < 10 \<Longrightarrow> (of_char (digit d) :: nat) = 48 + d"
  by (simp add: digit_def of_char_of)

lemma isdigit_digit: "d < 10 \<Longrightarrow> isdigit (digit d)"
  by (simp add: isdigit_def of_char_digit)

lemma digit_val_digit: "d < 10 \<Longrightarrow> digit_val (digit d) = d"
  by (simp add: digit_val_def of_char_digit)

lemma isdigit_not_space: "isdigit c \<Longrightarrow> \<not> isspace c"
  by (auto simp: isdigit_def isspace_def)

lemma show_nat_digits: "\<forall>c \<in> set (show_nat n). isdigit c"
  by (induction n rule: show_nat.induct) (subst show_nat.simps, auto simp: isdigit_digit)

lemma show_nat_not_Nil [simp]: "show_nat n \<noteq> []"
  by (subst show_nat.simps) simp

lemma digits_val_snoc: "digits_val (xs @ [c]) = 10 * digits_val xs + digit_val c"
  by (simp add: digits_val_def)

lemma digits_val_show [simp]: "digits_val (show_nat n) = n"
proof (induction n rule: show_nat.induct)
  case (1 n)
  then show ?case
    by (subst show_nat.simps) (auto simp: digits_val_snoc digit_val_digit, simp add: digits_val_def digit_val_digit)
qed

lemma isdigit_sign: "isdigit c \<Longrightarrow> c \<noteq> CHR ''-'' \<and> c \<noteq> CHR ''+'' \<and> c \<noteq> NUL"
  by (auto simp: isdigit_def)

lemma show_int_not_Nil [simp]: "show_int i \<noteq> []"
  by (simp add: show_int_def)

lemma show_int_no_space: "c \<in> set (show_int i) \<Longrightarrow> \<not> isspace c \<and> c \<noteq> NUL"
  using show_nat_digits isdigit_not_space isdigit_sign
  by (fastforce simp: show_int_def isspace_def split: if_splits)

lemma strtol_show_nat:
  assumes "rest = [] \<or> \<not> isdigit (hd rest)" and "int n < 2 ^ 63"
  shows "strtol (show_nat n @ rest) = int n" and "strtol (CHR ''-'' # show_nat n @ rest) = - int n"
proof -
  obtain c cs where c: "show_nat n = c # cs" by (cases "show_nat n") auto
  have d: "isdigit c" "\<forall>x \<in> set (show_nat n). isdigit x" using show_nat_digits [of n] c by auto
  have tw: "takeWhile isdigit (show_nat n @ rest) = show_nat n"
    using d(2) assms(1) by (cases rest) (auto simp: takeWhile_append2)
  have "dropWhile isspace (show_nat n @ rest) = show_nat n @ rest"
    using c d(1) isdigit_not_space by simp
  moreover have "at (show_nat n @ rest) = c" using c by (simp add: at_def)
  ultimately show "strtol (show_nat n @ rest) = int n"
    using isdigit_sign [OF d(1)] tw assms(2) by (simp add: strtol_def Let_def)
  have "dropWhile isspace (CHR ''-'' # show_nat n @ rest) = CHR ''-'' # show_nat n @ rest"
    by (simp add: isspace_def)
  then show "strtol (CHR ''-'' # show_nat n @ rest) = - int n"
    using tw assms(2) by (simp add: strtol_def Let_def at_def)
qed

lemma atoi_show:
  assumes "in_int32 i" and "rest = [] \<or> \<not> isdigit (hd rest)"
  shows "atoi (show_int i @ rest) = i"
  using assms strtol_show_nat [OF assms(2), of "nat i"] strtol_show_nat [OF assms(2), of "nat (- i)"]
  by (auto simp: atoi_def show_int_def in_int32_def)

corollary atoi_show_int [simp]: "in_int32 i \<Longrightarrow> atoi (show_int i) = i"
  using atoi_show [of i "[]"] by simp

lemma length_show_nat: "n < 10 ^ Suc k \<Longrightarrow> length (show_nat n) \<le> Suc k"
proof (induction k arbitrary: n)
  case 0
  then show ?case by (subst show_nat.simps) simp
next
  case (Suc k)
  then have "n div 10 < 10 ^ Suc k" by (simp add: less_mult_imp_div_less mult.commute)
  from Suc.IH [OF this] show ?case by (subst show_nat.simps) simp
qed

lemma length_show_int: "in_int32 i \<Longrightarrow> length (show_int i) \<le> 11"
proof -
  assume "in_int32 i"
  then have "nat i < 10 ^ Suc 9" "nat (- i) < 10 ^ Suc 9" by (auto simp: in_int32_def nat_less_iff)
  then have "length (show_nat (nat i)) \<le> 10" "length (show_nat (nat (- i))) \<le> 10"
    using length_show_nat [of _ 9] by auto
  then show ?thesis by (simp add: show_int_def)
qed

section \<open>Scanning\<close>

text \<open>How far a loop \<^verbatim>\<open>while (P(buf[pos])) pos++\<close> gets; \<open>None\<close> when it leaves the array.\<close>

fun skip :: "(char \<Rightarrow> bool) \<Rightarrow> string \<Rightarrow> nat option" where
  "skip P [] = None"
| "skip P (c # s) = (if P c then map_option Suc (skip P s) else Some 0)"

lemma skip_append: "list_all P xs \<Longrightarrow> \<not> P c \<Longrightarrow> skip P (xs @ c # ys) = Some (length xs)"
  by (induction xs) auto

lemma skip_None: "skip P s = None \<longleftrightarrow> list_all P s"
  by (induction s) auto

lemma strncmp_prefix:
  "NUL \<notin> set w \<Longrightarrow> NUL \<notin> set nm \<Longrightarrow> strncmp_eq nm (w @ rest) (length w) \<longleftrightarrow> take (length w) nm = w"
proof (induction w arbitrary: nm)
  case (Cons c w)
  then show ?case by (cases nm) (auto simp: at_def)
qed simp

end
