(* ===== verification/Trace_File.thy ===== *)
theory Trace_File
  imports MDriver C_Strings
begin

text \<open>
  Reading a trace file (\<open>read_trace\<close> and \<open>free_trace\<close> of \<^verbatim>\<open>mymalloc_buddy/mdriver.c\<close>): four numbers, then one line
  per request.  A conversion of \<^verbatim>\<open>fscanf\<close> that fails leaves its variable as it was, which the code does not
  check.  \<open>long\<close> has 32 bits on the target of the driver, so the conversions saturate there.  Whether \<^verbatim>\<open>malloc\<close>
  of the C library grants a request of \<open>n\<close> bytes is the argument \<open>grants n\<close>; \<open>fill k\<close> is what the fresh array
  holds in the size field of its \<open>k\<close>-th entry.
\<close>

section \<open>The program\<close>

datatype trace_fault = NoTraceFile | AllocFailed | BogusType char | TraceOverflow | IdsMismatch | OpsMismatch

text \<open>The text of a number: whether it has a minus sign, its digits, and the rest.\<close>

definition scan_digits :: "string \<Rightarrow> bool \<times> string \<times> string" where
  "scan_digits s =
     (let s1 = dropWhile isspace s; neg = (at s1 = CHR ''-'');
          s2 = (if at s1 = CHR ''-'' \<or> at s1 = CHR ''+'' then tl s1 else s1)
      in (neg, takeWhile isdigit s2, dropWhile isdigit s2))"

definition scan_d :: "string \<Rightarrow> int \<Rightarrow> int \<times> string" where
  "scan_d s old =
     (case scan_digits s of
        (neg, ds, r) \<Rightarrow>
          let v = (if neg then - int (digits_val ds) else int (digits_val ds))
          in (if ds = [] then old else max (- (2 ^ 31)) (min (2 ^ 31 - 1) v), r))"

definition scan_u :: "string \<Rightarrow> nat \<Rightarrow> nat \<times> string" where
  "scan_u s old =
     (case scan_digits s of
        (neg, ds, r) \<Rightarrow>
          let v = min (2 ^ 32 - 1) (digits_val ds)
          in (if ds = [] then old else if neg then (2 ^ 32 - v) mod 2 ^ 32 else v, r))"

text \<open>The loop over the requests: position, index and size as last read, the largest index so far, and the
  requests stored so far.\<close>

lemma scan_digits_le: "length (snd (snd (scan_digits s))) \<le> length s"
proof -
  let ?s1 = "dropWhile isspace s"
  let ?s2 = "if at ?s1 = CHR ''-'' \<or> at ?s1 = CHR ''+'' then tl ?s1 else ?s1"
  have "length (dropWhile isdigit ?s2) \<le> length ?s2" by (rule length_dropWhile_le)
  also have "\<dots> \<le> length ?s1" by simp
  also have "\<dots> \<le> length s" by (rule length_dropWhile_le)
  finally show ?thesis by (simp add: scan_digits_def Let_def)
qed

lemma scan_digits_space: "isspace c \<Longrightarrow> scan_digits (c # s) = scan_digits s"
  by (simp add: scan_digits_def)

lemma scan_u_le: "scan_u s v = (v', r) \<Longrightarrow> length r \<le> length s"
  using scan_digits_le [of s] by (auto simp: scan_u_def Let_def split: prod.splits)

definition size_op :: "optype \<Rightarrow> nat \<Rightarrow> nat \<Rightarrow> traceop" where
  "size_op ty index sz = \<lparr>op_type = ty, op_index = index, op_size = to_int32 sz\<rparr>"

function read_ops :: "(nat \<Rightarrow> int) \<Rightarrow> nat \<Rightarrow> string \<Rightarrow> nat \<Rightarrow> nat \<Rightarrow> nat \<Rightarrow> traceop list \<Rightarrow> trace_fault + nat \<times> traceop list" where
  "read_ops fill nops s index sz mx acc =
     (case scan_word s of
        None \<Rightarrow> Inr (mx, acc)
      | Some (ty, s1) \<Rightarrow>
          if at ty = CHR ''a'' \<or> at ty = CHR ''r'' then
            if nops \<le> length acc then Inl TraceOverflow
            else (case scan_u s1 index of
                    (index', s2) \<Rightarrow>
                      (case scan_u s2 sz of
                         (sz', s3) \<Rightarrow> read_ops fill nops s3 index' sz' (if index' > mx then index' else mx)
                            (acc @ [size_op (if at ty = CHR ''a'' then ALLOC else REALLOC) index' sz'])))
          else if at ty = CHR ''f'' then
            if nops \<le> length acc then Inl TraceOverflow
            else (case scan_u s1 index of
                    (index', s2) \<Rightarrow> read_ops fill nops (if at s2 = CHR ''d'' then tl s2 else s2) index' sz mx
                       (acc @ [\<lparr>op_type = FREE, op_index = index', op_size = fill (length acc)\<rparr>]))
          else Inl (BogusType (at ty)))"
  by pat_completeness auto
termination
  by (relation "measure (\<lambda>(fill, nops, s, _). length s)") (auto dest!: scan_word_length sym [THEN scan_u_le])

declare read_ops.simps [simp del]

definition to_bytes :: "int \<Rightarrow> nat \<Rightarrow> nat" where
  "to_bytes n elem = nat ((n * int elem) mod 2 ^ 32)"

text \<open>\<open>hdr\<close> holds the values of the uninitialised fields of the record, \<open>junk\<close> that of the variable \<^verbatim>\<open>size\<close>.\<close>

definition read_trace :: "(nat \<Rightarrow> bool) \<Rightarrow> (nat \<Rightarrow> int) \<Rightarrow> int \<times> int \<times> int \<times> int \<Rightarrow> nat \<Rightarrow> string option \<Rightarrow> trace_fault + trace" where
  "read_trace grants fill hdr junk file =
     (case file of
        None \<Rightarrow> Inl NoTraceFile
      | Some s0 \<Rightarrow>
          (case hdr of
             (h0, i0, n0, w0) \<Rightarrow>
               let (h, s1) = scan_d s0 h0; (ids, s2) = scan_d s1 i0; (nops, s3) = scan_d s2 n0; (w, s4) = scan_d s3 w0 in
               if \<not> (grants (to_bytes nops 12) \<and> grants (to_bytes ids 4)) then Inl AllocFailed
               else (case read_ops fill (nat nops) s4 0 junk 0 [] of
                       Inl e \<Rightarrow> Inl e
                     | Inr (mx, os) \<Rightarrow>
                         if int mx \<noteq> (ids - 1) mod 2 ^ 32 then Inl IdsMismatch
                         else if nops mod 2 ^ 32 \<noteq> int (length os) then Inl OpsMismatch
                         else Inr \<lparr>num_ids = nat ids, ops = os\<rparr>)))"

section \<open>Printed traces\<close>

definition print_op :: "traceop \<Rightarrow> string" where
  "print_op x =
     (case op_type x of
        ALLOC \<Rightarrow> ''a '' @ show_nat (op_index x) @ '' '' @ show_nat (nat (op_size x)) @ [NEWLINE]
      | REALLOC \<Rightarrow> ''r '' @ show_nat (op_index x) @ '' '' @ show_nat (nat (op_size x)) @ [NEWLINE]
      | FREE \<Rightarrow> ''f '' @ show_nat (op_index x) @ [NEWLINE])"

definition print_trace :: "int \<Rightarrow> int \<Rightarrow> trace \<Rightarrow> string" where
  "print_trace h w tr = concat (map (\<lambda>i. show_int i @ [NEWLINE]) [h, int (num_ids tr), int (length (ops tr)), w]) @ concat (map print_op (ops tr))"

definition op_ok :: "(nat \<Rightarrow> int) \<Rightarrow> nat \<Rightarrow> traceop \<Rightarrow> bool" where
  "op_ok fill k x \<longleftrightarrow> op_index x < 2 ^ 31 \<and> (if op_type x = FREE then op_size x = fill k else 0 \<le> op_size x \<and> op_size x < 2 ^ 31)"

definition sized_ids :: "traceop list \<Rightarrow> nat list" where
  "sized_ids os = map op_index (filter (\<lambda>x. op_type x \<noteq> FREE) os)"

definition trace_ok :: "(nat \<Rightarrow> int) \<Rightarrow> trace \<Rightarrow> bool" where
  "trace_ok fill tr \<longleftrightarrow> num_ids tr < 2 ^ 31 \<and> length (ops tr) < 2 ^ 31 \<and> (\<forall>k < length (ops tr). op_ok fill k (ops tr ! k))
     \<and> (\<forall>i \<in> set (sized_ids (ops tr)). i < num_ids tr) \<and> num_ids tr - 1 \<in> set (sized_ids (ops tr)) \<and> 0 < num_ids tr"

lemma scan_digits_show:
  assumes "\<not> isdigit (at r)"
  shows "scan_digits (CHR '' '' # show_nat n @ r) = (False, show_nat n, r)" "scan_digits (show_nat n @ r) = (False, show_nat n, r)"
proof -
  obtain d ds where d: "show_nat n = d # ds" by (cases "show_nat n") auto
  have dd: "isdigit d" "\<forall>c \<in> set (show_nat n). isdigit c" using show_nat_digits [of n] d by auto
  have sg: "d \<noteq> CHR ''-''" "d \<noteq> CHR ''+''" "\<not> isspace d" using isdigit_sign [OF dd(1)] isdigit_not_space [OF dd(1)] by auto
  have r: "takeWhile isdigit r = []" "dropWhile isdigit r = r" using assms by (cases r; simp add: at_def)+
  have tk: "takeWhile isdigit (show_nat n @ r) = show_nat n" "dropWhile isdigit (show_nat n @ r) = r"
    using dd(2) r by (simp_all add: takeWhile_append dropWhile_append)
  have ds: "dropWhile isspace (show_nat n @ r) = show_nat n @ r" "at (show_nat n @ r) = d" using sg d by (simp_all add: at_def)
  then show "scan_digits (show_nat n @ r) = (False, show_nat n, r)" using sg tk by (simp add: scan_digits_def Let_def)
  then show "scan_digits (CHR '' '' # show_nat n @ r) = (False, show_nat n, r)" using scan_digits_space [of "CHR '' ''"] by (simp add: isspace_def)
qed

lemma scan_u_show:
  assumes "\<not> isdigit (at r)" and "n < 2 ^ 32"
  shows "scan_u (CHR '' '' # show_nat n @ r) old = (n, r)"
proof -
  have "min (2 ^ 32 - 1) n = n" using assms(2) by linarith
  then show ?thesis using scan_digits_show(1) [OF assms(1), of n] by (simp add: scan_u_def)
qed

lemma scan_d_show:
  assumes "in_int32 i" and "\<not> isdigit (at r)"
  shows "scan_d (show_int i @ r) old = (i, r)"
proof (cases "i < 0")
  case True
  obtain d ds where d: "show_nat (nat (- i)) = d # ds" by (cases "show_nat (nat (- i))") auto
  have "isdigit d" using show_nat_digits [of "nat (- i)"] d by auto
  then have sp: "\<not> isspace d" "d \<noteq> CHR ''-''" "d \<noteq> CHR ''+''" using isdigit_not_space isdigit_sign by auto
  have nsp: "\<not> isspace (CHR ''-'')" by (simp add: isspace_def)
  have "scan_digits (show_nat (nat (- i)) @ r) = (False, show_nat (nat (- i)), r)" by (rule scan_digits_show(2) [OF assms(2)])
  then have "scan_digits (CHR ''-'' # show_nat (nat (- i)) @ r) = (True, show_nat (nat (- i)), r)"
    using sp nsp by (simp add: scan_digits_def Let_def d at_def)
  then show ?thesis using True assms(1) by (simp add: scan_d_def show_int_def in_int32_def)
next
  case False
  then show ?thesis using assms scan_digits_show(2) [OF assms(2), of "nat i"] by (simp add: scan_d_def show_int_def in_int32_def)
qed

lemma scan_d_space: "isspace c \<Longrightarrow> scan_d (c # s) old = scan_d s old"
  by (simp add: scan_d_def scan_digits_space)

lemma no_digit [simp]: "\<not> isdigit (at (NEWLINE # s))" "\<not> isdigit (at (CHR '' '' # s))"
  by (simp_all add: at_def isdigit_def)

lemma scan_type: "\<not> isspace c \<Longrightarrow> scan_word (NEWLINE # c # CHR '' '' # s) = Some ([c], CHR '' '' # s)"
  using scan_word_append [of "[c]" "CHR '' ''" s] by (simp add: isspace_def)

definition next_max :: "nat \<Rightarrow> traceop \<Rightarrow> nat" where
  "next_max mx x = (if op_type x \<noteq> FREE \<and> op_index x > mx then op_index x else mx)"

lemma read_one_op:
  assumes ok: "op_ok fill (length acc) x" and room: "length acc < nops"
  shows "\<exists>index' sz'. read_ops fill nops (NEWLINE # print_op x @ s) index sz mx acc
     = read_ops fill nops (NEWLINE # s) index' sz' (next_max mx x) (acc @ [x])"
proof (cases "op_type x")
  case FREE
  have "scan_u (CHR '' '' # show_nat (op_index x) @ NEWLINE # s) index = (op_index x, NEWLINE # s)"
    by (rule scan_u_show) (use ok in \<open>auto simp: op_ok_def\<close>)
  moreover have "\<lparr>op_type = FREE, op_index = op_index x, op_size = fill (length acc)\<rparr> = x" using ok FREE by (simp add: op_ok_def)
  moreover have "scan_word (NEWLINE # CHR ''f'' # CHR '' '' # show_nat (op_index x) @ NEWLINE # s) = Some (''f'', CHR '' '' # show_nat (op_index x) @ NEWLINE # s)"
    by (rule scan_type) (simp add: isspace_def)
  ultimately show ?thesis using FREE room
    by (intro exI [of _ "op_index x"] exI [of _ sz]) (subst read_ops.simps, simp add: print_op_def at_def next_max_def)
next
  case ALLOC
  let ?tail = "show_nat (op_index x) @ CHR '' '' # show_nat (nat (op_size x)) @ NEWLINE # s"
  have b: "op_index x < 2 ^ 32" "nat (op_size x) < 2 ^ 31" "0 \<le> op_size x" using ok ALLOC by (auto simp: op_ok_def nat_less_iff)
  have "scan_u (CHR '' '' # ?tail) index = (op_index x, CHR '' '' # show_nat (nat (op_size x)) @ NEWLINE # s)"
    "scan_u (CHR '' '' # show_nat (nat (op_size x)) @ NEWLINE # s) sz = (nat (op_size x), NEWLINE # s)"
    using b by (intro scan_u_show; simp)+
  moreover have "size_op ALLOC (op_index x) (nat (op_size x)) = x" using b ALLOC by (simp add: size_op_def to_int32_small)
  moreover have "scan_word (NEWLINE # CHR ''a'' # CHR '' '' # ?tail) = Some (''a'', CHR '' '' # ?tail)"
    by (rule scan_type) (simp add: isspace_def)
  ultimately show ?thesis using ALLOC room
    by (intro exI [of _ "op_index x"] exI [of _ "nat (op_size x)"]) (subst read_ops.simps, simp add: print_op_def at_def next_max_def)
next
  case REALLOC
  let ?tail = "show_nat (op_index x) @ CHR '' '' # show_nat (nat (op_size x)) @ NEWLINE # s"
  have b: "op_index x < 2 ^ 32" "nat (op_size x) < 2 ^ 31" "0 \<le> op_size x" using ok REALLOC by (auto simp: op_ok_def nat_less_iff)
  have "scan_u (CHR '' '' # ?tail) index = (op_index x, CHR '' '' # show_nat (nat (op_size x)) @ NEWLINE # s)"
    "scan_u (CHR '' '' # show_nat (nat (op_size x)) @ NEWLINE # s) sz = (nat (op_size x), NEWLINE # s)"
    using b by (intro scan_u_show; simp)+
  moreover have "size_op REALLOC (op_index x) (nat (op_size x)) = x" using b REALLOC by (simp add: size_op_def to_int32_small)
  moreover have "scan_word (NEWLINE # CHR ''r'' # CHR '' '' # ?tail) = Some (''r'', CHR '' '' # ?tail)"
    by (rule scan_type) (simp add: isspace_def)
  ultimately show ?thesis using REALLOC room
    by (intro exI [of _ "op_index x"] exI [of _ "nat (op_size x)"]) (subst read_ops.simps, simp add: print_op_def at_def next_max_def)
qed

lemma read_printed_ops:
  assumes "\<forall>k < length os. op_ok fill (length acc + k) (os ! k)" and "length acc + length os \<le> nops"
  shows "read_ops fill nops (NEWLINE # concat (map print_op os)) index sz mx acc = Inr (foldl next_max mx os, acc @ os)"
  using assms
proof (induction os arbitrary: index sz mx acc)
  case Nil
  then show ?case by (simp add: read_ops.simps scan_word_def isspace_def)
next
  case (Cons x os)
  have "op_ok fill (length acc) x" "length acc < nops" using Cons.prems by force+
  then obtain index' sz' where step: "read_ops fill nops (NEWLINE # print_op x @ concat (map print_op os)) index sz mx acc
     = read_ops fill nops (NEWLINE # concat (map print_op os)) index' sz' (next_max mx x) (acc @ [x])" using read_one_op by blast
  have "\<forall>k < length os. op_ok fill (length (acc @ [x]) + k) (os ! k)" using Cons.prems(1) by force
  then show ?case using Cons.IH [of "acc @ [x]" index' sz' "next_max mx x"] Cons.prems(2) step by simp
qed

lemma next_max_below: "mx < n \<Longrightarrow> \<forall>i \<in> set (sized_ids os). i < n \<Longrightarrow> foldl next_max mx os < n"
  by (induction os arbitrary: mx) (auto simp: next_max_def sized_ids_def)

lemma next_max_above: "mx \<le> foldl next_max mx os"
proof (induction os arbitrary: mx)
  case (Cons x os)
  have "mx \<le> next_max mx x" by (simp add: next_max_def)
  then show ?case using Cons [of "next_max mx x"] by simp
qed simp

lemma next_max_reaches: "i \<in> set (sized_ids os) \<Longrightarrow> i \<le> foldl next_max mx os"
proof (induction os arbitrary: mx)
  case (Cons x os)
  then consider "i \<in> set (sized_ids os)" | "i \<le> next_max mx x" by (auto simp: sized_ids_def next_max_def split: if_splits)
  then show ?case using Cons.IH next_max_above [of "next_max mx x" os] by cases auto
qed (simp add: sized_ids_def)

lemma read_print_trace:
  assumes "trace_ok fill tr" and "in_int32 h" and "in_int32 w" and "\<And>n. grants n"
  shows "read_trace grants fill hdr junk (Some (print_trace h w tr)) = Inr tr"
proof -
  let ?N = "num_ids tr" let ?os = "ops tr" let ?body = "concat (map print_op ?os)"
  have ok: "?N < 2 ^ 31" "length ?os < 2 ^ 31" "\<forall>k < length ?os. op_ok fill k (?os ! k)" "\<forall>i \<in> set (sized_ids ?os). i < ?N"
    "?N - 1 \<in> set (sized_ids ?os)" "0 < ?N" using assms(1) unfolding trace_ok_def by blast+
  obtain h0 i0 n0 w0 where hdr: "hdr = (h0, i0, n0, w0)" by (metis prod_cases4)
  have i32: "in_int32 (int ?N)" "in_int32 (int (length ?os))" using ok(1,2) by (simp_all add: in_int32_def)
  have shown: "print_trace h w tr = show_int h @ NEWLINE # show_int (int ?N) @ NEWLINE # show_int (int (length ?os)) @ NEWLINE # show_int w @ NEWLINE # ?body"
    by (simp add: print_trace_def)
  have sc: "scan_d (NEWLINE # show_int i @ NEWLINE # r) old = (i, NEWLINE # r)" "scan_d (show_int i @ NEWLINE # r) old = (i, NEWLINE # r)"
    if "in_int32 i" for i r old using scan_d_show [OF that, of "NEWLINE # r" old] scan_d_space [of NEWLINE] by (simp_all add: isspace_def)
  have ro: "read_ops fill (length ?os) (NEWLINE # ?body) 0 junk 0 [] = Inr (foldl next_max 0 ?os, ?os)"
    using read_printed_ops [of ?os fill "[]" "length ?os"] ok(3) by simp
  have "foldl next_max 0 ?os < ?N" by (rule next_max_below) (use ok in auto)
  moreover have "?N - 1 \<le> foldl next_max 0 ?os" by (rule next_max_reaches [OF ok(5)])
  ultimately have "int (foldl next_max 0 ?os) = int ?N - 1" using ok(6) by linarith
  moreover have "(int ?N - 1) mod 2 ^ 32 = int ?N - 1" "int (length ?os) mod 2 ^ 32 = int (length ?os)" using ok(1,2,6) by simp_all
  ultimately show ?thesis using assms(4) ro
    by (simp add: read_trace_def hdr shown sc [OF assms(2)] sc [OF assms(3)] sc [OF i32(1)] sc [OF i32(2)])
qed

text \<open>(C26) Reading back a printed trace: for every well-formed trace (indices and sizes within range, the last
  identifier used by some request) and whatever the uninitialised variables hold, \<open>read_trace\<close> of its
  text gives the trace back; no assertion fails and no request is stored behind the array.\<close>

theorem trace_roundtrip:
  assumes "trace_ok fill tr" and "in_int32 h" and "in_int32 w" and "\<And>n. grants n"
  shows "read_trace grants fill hdr junk (Some (print_trace h w tr)) = Inr tr"
  by (rule read_print_trace [OF assms])

theorem trace_roundtrip_witness:
  "read_trace (\<lambda>_. True) (\<lambda>_. 7) (0, 0, 0, 0) 9
     (Some (print_trace 100 1 \<lparr>num_ids = 1, ops = [size_op ALLOC 0 64, \<lparr>op_type = FREE, op_index = 0, op_size = 7\<rparr>]\<rparr>))
   = Inr \<lparr>num_ids = 1, ops = [size_op ALLOC 0 64, \<lparr>op_type = FREE, op_index = 0, op_size = 7\<rparr>]\<rparr>"
  by (rule trace_roundtrip) (auto simp: trace_ok_def op_ok_def size_op_def to_int32_small sized_ids_def in_int32_def less_Suc_eq)

end
