(* ===== verification/Fcyc.thy ===== *)
theory Fcyc
  imports Complex_Main C_Strings "HOL-Library.Multiset"
begin

text \<open>
  The measuring loop of the malloc driver (\<^verbatim>\<open>mymalloc_buddy/fcyc.c\<close>, with the wrapper \<^verbatim>\<open>fsecs.c\<close>): the K-best
  scheme runs a function until its K fastest runs agree within a tolerance, or until a maximal number of
  runs, and reports the fastest.  What the counters of \<^verbatim>\<open>clock.c\<close> read is an argument: \<open>cyc c k\<close> is the
  measurement of the \<open>k\<close>-th run, with compensation for clock ticks or without.  Doubles are read as real
  numbers; rounding is not modelled.
\<close>

section \<open>The program\<close>

record sampler =
  kbest :: nat
  maxsamples :: nat
  epsilon :: real
  compensate :: bool
  clear_cache :: bool
  cache_bytes :: nat
  cache_block :: nat
  cache_buf :: bool
  cache_mem :: "nat \<Rightarrow> int"
  sink :: int
  vals :: "real list"
  samplecount :: nat

definition fcyc_default :: sampler where
  "fcyc_default = \<lparr>kbest = 3, maxsamples = 20, epsilon = 1 / 100, compensate = False, clear_cache = False,
     cache_bytes = 2 ^ 19, cache_block = 32, cache_buf = False, cache_mem = (\<lambda>_. 0), sink = 0, vals = [], samplecount = 0\<rparr>"

definition init_sampler :: "sampler \<Rightarrow> sampler" where
  "init_sampler s = s\<lparr>vals := replicate (kbest s) 0, samplecount := 0\<rparr>"

fun sink_loop :: "nat \<Rightarrow> real list \<Rightarrow> real list" where
  "sink_loop 0 v = v"
| "sink_loop (Suc p) v = (if v ! p > v ! Suc p then sink_loop p (v[p := v ! Suc p, Suc p := v ! p]) else v)"

definition add_sample :: "real \<Rightarrow> sampler \<Rightarrow> sampler" where
  "add_sample val s =
     (let (pos, v) = (if samplecount s < kbest s then (samplecount s, (vals s)[samplecount s := val])
                      else if val < vals s ! (kbest s - 1) then (kbest s - 1, (vals s)[kbest s - 1 := val])
                      else (0, vals s))
      in s\<lparr>vals := sink_loop pos v, samplecount := samplecount s + 1\<rparr>)"

definition has_converged :: "sampler \<Rightarrow> bool" where
  "has_converged s \<longleftrightarrow> kbest s \<le> samplecount s \<and> (1 + epsilon s) * vals s ! 0 \<ge> vals s ! (kbest s - 1)"

text \<open>Clearing the cache: the words of the buffer are added up in steps of \<^verbatim>\<open>incr\<close> words.  The loop does not
  end when the step is zero.\<close>

partial_function (option) clear_loop :: "(nat \<Rightarrow> int) \<Rightarrow> nat \<Rightarrow> nat \<Rightarrow> nat \<Rightarrow> int \<Rightarrow> int option" where
  "clear_loop m incr cptr cend x = (if cptr < cend then clear_loop m incr (cptr + incr) cend (int32 (x + m cptr)) else Some x)"

definition clear :: "sampler \<Rightarrow> sampler option" where
  "clear s =
     (let s1 = s\<lparr>cache_buf := True\<rparr>
      in map_option (\<lambda>x. s1\<lparr>sink := x\<rparr>) (clear_loop (cache_mem s1) (cache_block s1 div 4) 0 (cache_bytes s1 div 4) (sink s1)))"

text \<open>The measuring loop; \<open>None\<close> when it does not return.  The fuel \<open>k\<close> counts the runs that may still be
  made.\<close>

definition one_run :: "(bool \<Rightarrow> nat \<Rightarrow> real) \<Rightarrow> sampler \<Rightarrow> sampler option" where
  "one_run cyc s =
     (case (if clear_cache s then clear s else Some s) of
        None \<Rightarrow> None
      | Some s1 \<Rightarrow> Some (add_sample (cyc (compensate s1) (samplecount s1)) s1))"

fun fcyc_loop :: "nat \<Rightarrow> (bool \<Rightarrow> nat \<Rightarrow> real) \<Rightarrow> sampler \<Rightarrow> sampler option" where
  "fcyc_loop k cyc s =
     (case one_run cyc s of
        None \<Rightarrow> None
      | Some s1 \<Rightarrow>
          if \<not> has_converged s1 \<and> samplecount s1 < maxsamples s1
          then (case k of 0 \<Rightarrow> None | Suc k' \<Rightarrow> fcyc_loop k' cyc s1)
          else Some s1)"

definition fcyc :: "(bool \<Rightarrow> nat \<Rightarrow> real) \<Rightarrow> sampler \<Rightarrow> (real \<times> sampler) option" where
  "fcyc cyc s =
     (let s0 = init_sampler s
      in map_option (\<lambda>s1. (vals s1 ! 0, s1\<lparr>vals := []\<rparr>)) (fcyc_loop (maxsamples s0) cyc s0))"

definition set_fcyc_clear_cache :: "bool \<Rightarrow> sampler \<Rightarrow> sampler" where "set_fcyc_clear_cache b s = s\<lparr>clear_cache := b\<rparr>"
definition set_fcyc_cache_block :: "nat \<Rightarrow> sampler \<Rightarrow> sampler" where "set_fcyc_cache_block n s = s\<lparr>cache_block := n\<rparr>"
definition set_fcyc_compensate :: "bool \<Rightarrow> sampler \<Rightarrow> sampler" where "set_fcyc_compensate b s = s\<lparr>compensate := b\<rparr>"
definition set_fcyc_k :: "nat \<Rightarrow> sampler \<Rightarrow> sampler" where "set_fcyc_k k s = s\<lparr>kbest := k\<rparr>"
definition set_fcyc_maxsamples :: "nat \<Rightarrow> sampler \<Rightarrow> sampler" where "set_fcyc_maxsamples n s = s\<lparr>maxsamples := n\<rparr>"
definition set_fcyc_epsilon :: "real \<Rightarrow> sampler \<Rightarrow> sampler" where "set_fcyc_epsilon e s = s\<lparr>epsilon := e\<rparr>"

definition set_fcyc_cache_size :: "nat \<Rightarrow> sampler \<Rightarrow> sampler" where
  "set_fcyc_cache_size n s = (if n \<noteq> cache_bytes s then s\<lparr>cache_bytes := n, cache_buf := False\<rparr> else s)"

definition init_fsecs :: "sampler \<Rightarrow> sampler" where
  "init_fsecs s = set_fcyc_k 3 (set_fcyc_epsilon (1 / 100) (set_fcyc_compensate True (set_fcyc_clear_cache True (set_fcyc_maxsamples 20 s))))"

definition fsecs :: "real \<Rightarrow> (bool \<Rightarrow> nat \<Rightarrow> real) \<Rightarrow> sampler \<Rightarrow> (real \<times> sampler) option" where
  "fsecs Mhz cyc s = map_option (\<lambda>(cycles, s1). (cycles / (Mhz * 1000000), s1)) (fcyc cyc s)"

section \<open>The K best\<close>

lemma sink_loop_length [simp]: "length (sink_loop p v) = length v"
  by (induction p arbitrary: v) simp_all

text \<open>Sinking the last element of a prefix whose other elements are sorted inserts it.\<close>

lemma sink_loop_insort:
  assumes "sorted xs"
  shows "sink_loop (length xs) (xs @ x # ys) = insort x xs @ ys"
  using assms
proof (induction xs arbitrary: ys rule: rev_induct)
  case (snoc y xs)
  let ?v = "(xs @ [y]) @ x # ys"
  have at: "?v ! length xs = y" "?v ! Suc (length xs) = x" by (simp_all add: nth_append)
  have s: "sorted xs" "\<forall>z \<in> set xs. z \<le> y" using snoc.prems by (auto simp: sorted_append)
  show ?case
  proof (cases "x < y")
    case True
    have swap: "?v[length xs := x, Suc (length xs) := y] = xs @ x # y # ys"
      by (simp add: list_update_append)
    have "insort x (xs @ [y]) = insort x xs @ [y]" using s True
      by (induction xs) auto
    then show ?thesis using True snoc.IH [OF s(1), of "y # ys"] at swap by simp
  next
    case False
    then have "sorted (xs @ [y, x])" using s by (auto simp: sorted_append)
    then have "sort (x # xs @ [y]) = xs @ [y, x]" by (intro properties_for_sort) simp_all
    then have "insort x (xs @ [y]) = xs @ [y, x]" using snoc.prems by (simp add: sorted_sort_id)
    then show ?thesis using False at by simp
  qed
qed simp

lemma take_insort:
  fixes xs :: "real list"
  assumes "sorted xs"
  shows "take k (insort x xs) = take k (insort x (take k xs))"
  using assms by (induction xs arbitrary: k) (auto simp: take_Cons' split: if_splits)

lemma take_insort_last:
  assumes "sorted xs" and "length xs = Suc k" and "x < last xs"
  shows "take (Suc k) (insort x xs) = insort x (butlast xs)"
  using assms
proof (induction xs arbitrary: k)
  case (Cons a xs)
  show ?case
  proof (cases "xs = []")
    case False
    then obtain k' where "k = Suc k'" using Cons.prems by (cases k) auto
    then show ?thesis using Cons False by (auto simp: take_Cons' butlast_conv_take split: if_splits)
  qed (use Cons in auto)
qed simp

text \<open>The invariant of the sampler: its first entries are the smallest samples so far, in order.\<close>

definition kbest_of :: "nat \<Rightarrow> real list \<Rightarrow> real list" where
  "kbest_of k xs = take k (sort xs) @ replicate (k - length xs) 0"

definition samples_ok :: "real list \<Rightarrow> sampler \<Rightarrow> bool" where
  "samples_ok xs s \<longleftrightarrow> 0 < kbest s \<and> samplecount s = length xs \<and> vals s = kbest_of (kbest s) xs"

lemma sort_snoc: "sort (xs @ [x]) = insort x (sort (xs :: real list))"
proof -
  have "sort (xs @ [x]) = sort (x # xs)" by (rule properties_for_sort) (simp_all add: sorted_insort)
  then show ?thesis by simp
qed

lemma add_sample_ok:
  assumes "samples_ok xs s"
  shows "samples_ok (xs @ [x]) (add_sample x s)"
proof -
  let ?k = "kbest s" let ?n = "length xs" let ?S = "sort xs"
  have k: "0 < ?k" "samplecount s = ?n" and v: "vals s = take ?k ?S @ replicate (?k - ?n) 0" using assms by (auto simp: samples_ok_def kbest_of_def)
  have "vals (add_sample x s) = kbest_of ?k (xs @ [x])"
  proof (cases "?n < ?k")
    case True
    then obtain m where m: "?k - ?n = Suc m" by (cases "?k - ?n") auto
    have "(vals s)[?n := x] = ?S @ x # replicate m 0" using True by (simp add: v m list_update_append)
    then have "vals (add_sample x s) = insort x ?S @ replicate m 0"
      using True k sink_loop_insort [of ?S x "replicate m 0"] by (simp add: add_sample_def)
    moreover have "take ?k (insort x ?S) = insort x ?S" using True by simp
    moreover have "?k - length (xs @ [x]) = m" using m by simp
    ultimately show ?thesis by (simp add: kbest_of_def sort_snoc)
  next
    case False
    let ?T = "take ?k ?S"
    have v': "vals s = ?T" using False v by simp
    have T: "length ?T = ?k" "sorted ?T" using False by (auto simp: sorted_wrt_take)
    obtain j where j: "?k = Suc j" using k(1) by (cases ?k) auto
    have ne: "?T \<noteq> []" by (metis T(1) k(1) length_greater_0_conv)
    have last: "?T ! (?k - 1) = last ?T" using last_conv_nth [OF ne] T(1) by simp
    have goal: "kbest_of ?k (xs @ [x]) = take ?k (insort x ?T)"
      using False take_insort [of ?S ?k x] by (simp add: kbest_of_def sort_snoc)
    show ?thesis
    proof (cases "x < last ?T")
      case True
      have "?T[?k - 1 := x] = butlast ?T @ [x]" using T(1) j by (metis diff_Suc_1 length_butlast list_update_length append_butlast_last_id ne)
      then have "vals (add_sample x s) = insort x (butlast ?T)"
        using False True k last sink_loop_insort [of "butlast ?T" x "[]"] T by (simp add: add_sample_def v' sorted_butlast)
      then show ?thesis using goal take_insort_last [OF T(2) _ True, of j] T(1) j by simp
    next
      case gt: False
      have le: "\<forall>y \<in> set ?T. y \<le> x"
      proof
        fix y assume "y \<in> set ?T"
        then obtain i where "i < length ?T" "y = ?T ! i" by (metis in_set_conv_nth)
        then have "y \<le> last ?T" using T sorted_nth_mono [OF T(2), of i "?k - 1"] last by auto
        then show "y \<le> x" using gt by simp
      qed
      have "sort (x # ?T) = ?T @ [x]" by (rule properties_for_sort) (use T(2) le in \<open>auto simp: sorted_append\<close>)
      then have "insort x ?T = ?T @ [x]" using T(2) by (simp add: sorted_sort_id)
      then have "kbest_of ?k (xs @ [x]) = ?T" using goal T(1) by simp
      moreover have "vals (add_sample x s) = ?T" using False gt k last by (simp add: add_sample_def v')
      ultimately show ?thesis by simp
    qed
  qed
  then show ?thesis using k by (auto simp: samples_ok_def add_sample_def Let_def split: prod.splits)
qed

section \<open>The measuring loop\<close>

lemma clear_loop_returns:
  assumes "0 < incr"
  shows "\<exists>y. clear_loop m incr cptr cend x = Some y"
proof (induction "cend - cptr" arbitrary: cptr x rule: less_induct)
  case less
  show ?case
  proof (cases "cptr < cend")
    case True
    then have "cend - (cptr + incr) < cend - cptr" using assms by simp
    from less [OF this] True show ?thesis by (subst clear_loop.simps) auto
  qed (simp add: clear_loop.simps)
qed

definition clears :: "sampler \<Rightarrow> bool" where
  "clears s \<longleftrightarrow> \<not> clear_cache s \<or> 4 \<le> cache_block s"

definition same_config :: "sampler \<Rightarrow> sampler \<Rightarrow> bool" where
  "same_config s s' \<longleftrightarrow> kbest s' = kbest s \<and> maxsamples s' = maxsamples s \<and> epsilon s' = epsilon s \<and> compensate s' = compensate s
     \<and> clear_cache s' = clear_cache s \<and> cache_block s' = cache_block s"

lemma add_sample_config: "same_config s (add_sample x s)"
  by (simp add: same_config_def add_sample_def Let_def split: prod.split)

lemma one_run_ok:
  assumes "samples_ok xs s" and "clears s"
  obtains s1 where "one_run cyc s = Some s1" "samples_ok (xs @ [cyc (compensate s) (length xs)]) s1" "same_config s s1"
proof -
  obtain s0 where s0: "(if clear_cache s then clear s else Some s) = Some s0" "same_config s s0" "samples_ok xs s0"
  proof (cases "clear_cache s")
    case True
    then have "0 < cache_block s div 4" using assms(2) by (simp add: clears_def div_greater_zero_iff)
    from clear_loop_returns [OF this, of "cache_mem s" 0 "cache_bytes s div 4" "sink s"]
    obtain y where "clear s = Some (s\<lparr>cache_buf := True, sink := y\<rparr>)" by (auto simp: clear_def)
    with True that show ?thesis using assms(1) by (simp add: same_config_def samples_ok_def)
  qed (use assms(1) that in \<open>simp add: same_config_def\<close>)
  have "samplecount s0 = length xs" "compensate s0 = compensate s" using s0(2,3) by (auto simp: samples_ok_def same_config_def)
  then have "one_run cyc s = Some (add_sample (cyc (compensate s) (length xs)) s0)" using s0(1) by (simp add: one_run_def)
  moreover have "same_config s (add_sample (cyc (compensate s) (length xs)) s0)"
    using s0(2) add_sample_config [of s0 "cyc (compensate s) (length xs)"] by (simp add: same_config_def)
  ultimately show thesis using that add_sample_ok [OF s0(3)] by blast
qed

lemma kbest_of_nth: "i < k \<Longrightarrow> i < length xs \<Longrightarrow> kbest_of k xs ! i = sort xs ! i"
  by (simp add: kbest_of_def nth_append)

definition settled :: "sampler \<Rightarrow> real list \<Rightarrow> bool" where
  "settled s xs \<longleftrightarrow> kbest s \<le> length xs \<and> (1 + epsilon s) * sort xs ! 0 \<ge> sort xs ! (kbest s - 1)"

lemma has_converged_settled: "samples_ok xs s \<Longrightarrow> same_config s0 s \<Longrightarrow> has_converged s \<longleftrightarrow> settled s0 xs"
proof -
  assume a: "samples_ok xs s" "same_config s0 s"
  then have k: "0 < kbest s" by (simp add: samples_ok_def)
  have "kbest_of (kbest s) xs ! 0 = sort xs ! 0 \<and> kbest_of (kbest s) xs ! (kbest s - 1) = sort xs ! (kbest s - 1)" if "kbest s \<le> length xs"
    using k that by (intro conjI kbest_of_nth) linarith+
  then show ?thesis using a by (auto simp: has_converged_def settled_def samples_ok_def same_config_def)
qed

abbreviation runs :: "(bool \<Rightarrow> nat \<Rightarrow> real) \<Rightarrow> sampler \<Rightarrow> nat \<Rightarrow> real list" where
  "runs cyc s n \<equiv> map (cyc (compensate s)) [0..<n]"

lemma fcyc_loop_ok:
  assumes "samples_ok (runs cyc s0 n) s" and "same_config s0 s" and "clears s0" and "maxsamples s0 \<le> k + n + 1"
  shows "\<exists>s' n'. fcyc_loop k cyc s = Some s' \<and> n < n' \<and> n' \<le> max (n + 1) (maxsamples s0) \<and> samples_ok (runs cyc s0 n') s' \<and> same_config s0 s'
     \<and> (settled s0 (runs cyc s0 n') \<or> maxsamples s0 \<le> n')"
  using assms
proof (induction k arbitrary: s n)
  case (0 s n)
  have "clears s" using 0(2,3) by (simp add: clears_def same_config_def)
  then obtain s1 where s1: "one_run cyc s = Some s1" "samples_ok (runs cyc s0 n @ [cyc (compensate s) (length (runs cyc s0 n))]) s1" "same_config s s1"
    by (rule one_run_ok [OF 0(1)])
  have ok: "samples_ok (runs cyc s0 (Suc n)) s1" "same_config s0 s1" using s1(2,3) 0(2) by (simp_all add: same_config_def)
  have "\<not> samplecount s1 < maxsamples s1" using ok 0(4) by (simp add: samples_ok_def same_config_def)
  then show ?case using s1(1) ok 0(4) by (intro exI [of _ s1] exI [of _ "Suc n"]) simp
next
  case (Suc k s n)
  have "clears s" using Suc.prems(2,3) by (simp add: clears_def same_config_def)
  then obtain s1 where s1: "one_run cyc s = Some s1" "samples_ok (runs cyc s0 n @ [cyc (compensate s) (length (runs cyc s0 n))]) s1" "same_config s s1"
    by (rule one_run_ok [OF Suc.prems(1)])
  have ok: "samples_ok (runs cyc s0 (Suc n)) s1" "same_config s0 s1" using s1(2,3) Suc.prems(2) by (simp_all add: same_config_def)
  have c: "samplecount s1 = Suc n" "maxsamples s1 = maxsamples s0" using ok by (auto simp: samples_ok_def same_config_def)
  show ?case
  proof (cases "\<not> has_converged s1 \<and> samplecount s1 < maxsamples s1")
    case True
    then have step: "fcyc_loop (Suc k) cyc s = fcyc_loop k cyc s1" using s1(1) by simp
    have m: "Suc n < maxsamples s0" using True c by simp
    have "maxsamples s0 \<le> k + Suc n + 1" using Suc.prems(4) by simp
    from Suc.IH [OF ok Suc.prems(3) this] obtain s' n' where "fcyc_loop k cyc s1 = Some s'" "Suc n < n'" "n' \<le> max (Suc n + 1) (maxsamples s0)"
      "samples_ok (runs cyc s0 n') s'" "same_config s0 s'" "settled s0 (runs cyc s0 n') \<or> maxsamples s0 \<le> n'" by blast
    then show ?thesis unfolding step using m by (intro exI [of _ s'] exI [of _ n']) auto
  next
    case False
    then have "settled s0 (runs cyc s0 (Suc n)) \<or> maxsamples s0 \<le> Suc n" using has_converged_settled [OF ok] c by auto
    moreover have "fcyc_loop (Suc k) cyc s = Some s1" using False s1(1) by auto
    ultimately show ?thesis using ok by (intro exI [of _ s1] exI [of _ "Suc n"]) simp
  qed
qed



end
