(* ===== verification/Driver_Score.thy ===== *)
theory Driver_Score
  imports Trace_File Fcyc
begin

text \<open>
  The evaluation in the malloc driver's \<open>main\<close> (\<^verbatim>\<open>mymalloc_buddy/mdriver.c\<close>): the statistics of one trace, the table of
  results, the aggregate and the performance index, and the two runs over the C library's allocator, whose
  operations are the argument \<open>L\<close>.  Doubles are read as real numbers.
\<close>

section \<open>The program\<close>

record stats =
  st_ops :: real
  st_valid :: bool
  st_secs :: real
  st_util :: real

text \<open>The run over one trace: what is measured depends on the verdict of the correctness run.  A failure that
  the driver reports makes the trace invalid; anything else ends the process.\<close>

definition reported :: "merr \<Rightarrow> bool" where
  "reported e \<longleftrightarrow> e \<noteq> AssertFailed \<and> e \<noteq> NoReturn"

definition eval_trace :: "'s mm_ops \<Rightarrow> trace \<Rightarrow> 's drv \<Rightarrow> real \<Rightarrow> merr + stats" where
  "eval_trace M tr st secs =
     (case eval_mm_valid M tr st of
        Inl e \<Rightarrow> if reported e then Inr \<lparr>st_ops = real (length (ops tr)), st_valid = False, st_secs = 0, st_util = 0\<rparr> else Inl e
      | Inr st1 \<Rightarrow>
          (case eval_mm_util M tr st1 of
             Inl e \<Rightarrow> Inl e
           | Inr (m, h) \<Rightarrow>
               (case eval_mm_speed M tr st1 of
                  Inl e \<Rightarrow> Inl e
                | Inr _ \<Rightarrow> Inr \<lparr>st_ops = real (length (ops tr)), st_valid = True, st_secs = secs, st_util = real_of_int m / real h\<rparr>)))"

text \<open>The rows and the last row of the table: for a valid trace utilisation, requests, seconds and thousands of
  requests per second.\<close>

definition result_row :: "stats \<Rightarrow> (real \<times> real \<times> real \<times> real) option" where
  "result_row s = (if st_valid s then Some (st_util s * 100, st_ops s, st_secs s, st_ops s / 1000 / st_secs s) else None)"

fun result_sums :: "stats list \<Rightarrow> real \<times> real \<times> real \<Rightarrow> real \<times> real \<times> real" where
  "result_sums [] acc = acc"
| "result_sums (s # ss) (secs, os, ut) =
     result_sums ss (if st_valid s then (secs + st_secs s, os + st_ops s, ut + st_util s) else (secs, os, ut))"

definition printresults :: "nat \<Rightarrow> stats list \<Rightarrow> (real \<times> real \<times> real \<times> real) option list \<times> (real \<times> real \<times> real \<times> real) option" where
  "printresults errors ss =
     (case result_sums ss (0, 0, 0) of
        (secs, os, ut) \<Rightarrow>
          (map result_row ss, if errors = 0 then Some (ut / real (length ss) * 100, os, secs, os / 1000 / secs) else None))"

text \<open>The aggregate over all traces, valid or not.\<close>

fun aggregate :: "stats list \<Rightarrow> real \<times> real \<times> real \<times> nat \<Rightarrow> real \<times> real \<times> real \<times> nat" where
  "aggregate [] acc = acc"
| "aggregate (s # ss) (secs, os, ut, n) =
     aggregate ss (secs + st_secs s, os + st_ops s, ut + st_util s, if st_valid s then n + 1 else n)"

definition UTIL_WEIGHT :: real where "UTIL_WEIGHT = 60 / 100"
definition AVG_LIBC_THRUPUT :: real where "AVG_LIBC_THRUPUT = 600000"

definition perfindex :: "nat \<Rightarrow> stats list \<Rightarrow> real" where
  "perfindex errors ss =
     (case aggregate ss (0, 0, 0, 0) of
        (secs, os, ut, n) \<Rightarrow>
          let avg_mm_util = ut / real (length ss)
          in if errors = 0 then
               let avg_mm_throughput = os / secs;
                   p1 = UTIL_WEIGHT * avg_mm_util;
                   p2 = (if avg_mm_throughput > AVG_LIBC_THRUPUT then 1 - UTIL_WEIGHT
                         else (1 - UTIL_WEIGHT) * (avg_mm_throughput / AVG_LIBC_THRUPUT))
               in (p1 + p2) * 100
             else 0)"

definition numcorrect :: "stats list \<Rightarrow> nat" where
  "numcorrect ss = snd (snd (snd (aggregate ss (0, 0, 0, 0))))"

text \<open>The C library's allocator: state, \<^verbatim>\<open>malloc\<close>, \<^verbatim>\<open>realloc\<close> and \<^verbatim>\<open>free\<close>.  \<open>None\<close> is the exit of the process after an
  error message.\<close>

record 's libc =
  l_malloc :: "nat \<Rightarrow> 's \<Rightarrow> addr \<times> 's"
  l_realloc :: "addr \<Rightarrow> nat \<Rightarrow> 's \<Rightarrow> addr \<times> 's"
  l_free :: "addr \<Rightarrow> 's \<Rightarrow> 's"

fun eval_libc_valid :: "'s libc \<Rightarrow> traceop list \<Rightarrow> addr list \<Rightarrow> 's \<Rightarrow> (addr list \<times> 's) option" where
  "eval_libc_valid L [] bs s = Some (bs, s)"
| "eval_libc_valid L (x # xs) bs s =
     (case op_type x of
        ALLOC \<Rightarrow>
          (case l_malloc L (to_size_t (op_size x)) s of
             (p, s1) \<Rightarrow> if p = NULL then None else eval_libc_valid L xs (bs[op_index x := p]) s1)
      | REALLOC \<Rightarrow>
          (let newsize = op_size x; oldp = bs ! op_index x in
           case l_realloc L oldp (to_size_t newsize) s of
             (newp, s1) \<Rightarrow> if newp = NULL then None else eval_libc_valid L xs (bs[op_index x := newp]) s1)
      | FREE \<Rightarrow> eval_libc_valid L xs bs (l_free L (bs ! op_index x) s))"

fun eval_libc_speed :: "'s libc \<Rightarrow> traceop list \<Rightarrow> addr list \<Rightarrow> 's \<Rightarrow> (addr list \<times> 's) option" where
  "eval_libc_speed L [] bs s = Some (bs, s)"
| "eval_libc_speed L (x # xs) bs s =
     (let index = op_index x in
      case op_type x of
        ALLOC \<Rightarrow>
          (let sz = op_size x in
           case l_malloc L (to_size_t sz) s of
             (p, s1) \<Rightarrow> if p = NULL then None else eval_libc_speed L xs (bs[index := p]) s1)
      | REALLOC \<Rightarrow>
          (let newsize = op_size x; oldp = bs ! index in
           case l_realloc L oldp (to_size_t newsize) s of
             (newp, s1) \<Rightarrow> if newp = NULL then None else eval_libc_speed L xs (bs[index := newp]) s1)
      | FREE \<Rightarrow> (let block = bs ! index in eval_libc_speed L xs bs (l_free L block s)))"

section \<open>The index\<close>

text \<open>The timed run over the C library makes the same calls as the run that was checked before.\<close>

lemma libc_runs_agree: "eval_libc_speed L xs bs s = eval_libc_valid L xs bs s"
  by (induction L xs bs s rule: eval_libc_valid.induct) (auto simp: Let_def split: optype.splits prod.splits)

lemma aggregate_sums:
  "aggregate ss (secs, os, ut, n) =
     (secs + sum_list (map st_secs ss), os + sum_list (map st_ops ss), ut + sum_list (map st_util ss), n + length (filter st_valid ss))"
  by (induction ss arbitrary: secs os ut n) auto

lemma result_sums_valid:
  "result_sums ss (secs, os, ut) =
     (secs + sum_list (map st_secs (filter st_valid ss)), os + sum_list (map st_ops (filter st_valid ss)), ut + sum_list (map st_util (filter st_valid ss)))"
  by (induction ss arbitrary: secs os ut) auto

definition stats_ok :: "stats \<Rightarrow> bool" where
  "stats_ok s \<longleftrightarrow> 0 \<le> st_ops s \<and> 0 \<le> st_secs s \<and> 0 \<le> st_util s \<and> st_util s \<le> 1"

lemma sum_list_in:
  assumes "\<forall>s \<in> set ss. 0 \<le> f s \<and> f s \<le> (1 :: real)"
  shows "0 \<le> sum_list (map f ss)" "sum_list (map f ss) \<le> real (length ss)"
proof -
  show "0 \<le> sum_list (map f ss)" by (rule sum_list_nonneg) (use assms in auto)
  have "sum_list (map f ss) \<le> sum_list (map (\<lambda>_. 1) ss)" by (rule sum_list_mono) (use assms in auto)
  then show "sum_list (map f ss) \<le> real (length ss)" by (simp add: sum_list_triv)
qed

lemma perfindex_range:
  assumes "ss \<noteq> []" and "\<forall>s \<in> set ss. stats_ok s" and "0 < sum_list (map st_secs ss)"
  shows "0 \<le> perfindex errors ss \<and> perfindex errors ss \<le> 100
     \<and> (perfindex errors ss = 100 \<longleftrightarrow> errors = 0 \<and> (\<forall>s \<in> set ss. st_util s = 1)
          \<and> sum_list (map st_ops ss) / sum_list (map st_secs ss) \<ge> AVG_LIBC_THRUPUT)"
proof -
  let ?u = "sum_list (map st_util ss) / real (length ss)" let ?t = "sum_list (map st_ops ss) / sum_list (map st_secs ss)"
  have n: "0 < real (length ss)" using assms(1) by simp
  have "\<forall>s \<in> set ss. 0 \<le> st_util s \<and> st_util s \<le> 1" using assms(2) by (simp add: stats_ok_def)
  note U = sum_list_in [OF this]
  have u: "0 \<le> ?u" "?u \<le> 1" using U n by (simp_all add: divide_le_eq)
  have u1: "?u = 1 \<longleftrightarrow> (\<forall>s \<in> set ss. st_util s = 1)"
  proof
    assume "?u = 1"
    then have "sum_list (map (\<lambda>s. 1 - st_util s) ss) = 0" using n by (simp add: sum_list_subtractf sum_list_triv)
    moreover have "0 \<le> x" if "x \<in> set (map (\<lambda>s. 1 - st_util s) ss)" for x using that assms(2) by (auto simp: stats_ok_def)
    ultimately have "\<forall>x \<in> set (map (\<lambda>s. 1 - st_util s) ss). x = 0" by (simp only: sum_list_nonneg_eq_0_iff)
    then show "\<forall>s \<in> set ss. st_util s = 1" by simp
  next
    assume "\<forall>s \<in> set ss. st_util s = 1"
    then have "map st_util ss = map (\<lambda>_. 1) ss" by simp
    then have "sum_list (map st_util ss) = real (length ss)" by (simp only: sum_list_triv mult_1_right)
    then show "?u = 1" using n by simp
  qed
  have "0 \<le> sum_list (map st_ops ss)" by (rule sum_list_nonneg) (use assms(2) in \<open>auto simp: stats_ok_def\<close>)
  then have t: "0 \<le> ?t" using assms(3) by simp
  define p2 where "p2 = (if ?t > AVG_LIBC_THRUPUT then 1 else ?t / AVG_LIBC_THRUPUT)"
  have capped: "0 \<le> (if r > AVG_LIBC_THRUPUT then 1 else r / AVG_LIBC_THRUPUT) \<and> (if r > AVG_LIBC_THRUPUT then 1 else r / AVG_LIBC_THRUPUT) \<le> 1
     \<and> ((if r > AVG_LIBC_THRUPUT then 1 else r / AVG_LIBC_THRUPUT) = 1 \<longleftrightarrow> r \<ge> AVG_LIBC_THRUPUT)" if "0 \<le> r" for r
    using that by (auto simp: AVG_LIBC_THRUPUT_def)
  have p2: "0 \<le> p2" "p2 \<le> 1" "p2 = 1 \<longleftrightarrow> ?t \<ge> AVG_LIBC_THRUPUT" using capped [OF t] unfolding p2_def by blast+
  have pi: "perfindex errors ss = (if errors = 0 then 60 * ?u + 40 * p2 else 0)"
    by (auto simp: perfindex_def aggregate_sums UTIL_WEIGHT_def p2_def Let_def algebra_simps)
  have "60 * ?u + 40 * p2 = 100 \<longleftrightarrow> ?u = 1 \<and> p2 = 1" using u(2) p2(2) by linarith
  then show ?thesis using pi u p2 u1 by auto
qed

text \<open>(C35) The performance index lies between 0 and 100, whatever the measurements are, as long as they are
  non-negative and no utilisation exceeds one; and it is 100 exactly when every trace was packed
  without waste and the throughput reaches the reference of the C library.\<close>

theorem perfindex_bounds:
  assumes "ss \<noteq> []" and "\<forall>s \<in> set ss. stats_ok s" and "0 < sum_list (map st_secs ss)"
  shows "0 \<le> perfindex errors ss \<and> perfindex errors ss \<le> 100
     \<and> (perfindex errors ss = 100 \<longleftrightarrow> errors = 0 \<and> (\<forall>s \<in> set ss. st_util s = 1)
          \<and> sum_list (map st_ops ss) / sum_list (map st_secs ss) \<ge> AVG_LIBC_THRUPUT)"
  by (rule perfindex_range [OF assms])

theorem perfindex_bounds_witness:
  "perfindex 0 [\<lparr>st_ops = 6000, st_valid = True, st_secs = 1 / 100, st_util = 1\<rparr>] = 100"
proof -
  let ?ss = "[\<lparr>st_ops = 6000, st_valid = True, st_secs = 1 / 100, st_util = 1\<rparr>]"
  have "?ss \<noteq> []" "\<forall>s \<in> set ?ss. stats_ok s" "0 < sum_list (map st_secs ?ss)" by (simp_all add: stats_ok_def)
  from perfindex_bounds [OF this, of 0] show ?thesis by (simp add: AVG_LIBC_THRUPUT_def)
qed

end
