(* ===== verification/Driver_Runs.thy ===== *)
theory Driver_Runs
  imports Driver_Score
begin

text \<open>
  The utilisation run and the timed run of the malloc driver over a correct allocator whose heap only grows
  (\<open>eval_mm_util\<close> and \<open>eval_mm_speed\<close> of \<^verbatim>\<open>mymalloc_buddy/mdriver.c\<close>): they make the same calls as the correctness run without
  writing to the payloads, end unless memory runs out, and the high-water mark of the payloads never
  exceeds the size of the heap.  The contract with a growing heap is interpreted on the first-fit allocator.
\<close>

section \<open>Payloads fit into the heap\<close>

text \<open>What the two runs keep of the identifiers in \<open>D\<close>; \<open>sz\<close> is the size that a block has at least.\<close>

definition holds :: "('s \<Rightarrow> bool) \<Rightarrow> ('s \<Rightarrow> (addr \<times> nat) set) \<Rightarrow> (nat \<Rightarrow> nat) \<Rightarrow> nat \<Rightarrow> nat set \<Rightarrow> 's drv \<Rightarrow> bool" where
  "holds ok lv sz n D st \<longleftrightarrow>
     ok (msys st) \<and> D \<subseteq> {..<n} \<and> length (blocks st) = n
     \<and> (\<forall>i \<in> D. \<exists>k \<ge> sz i. (blocks st ! i, k) \<in> lv (msys st)) \<and> inj_on (\<lambda>i. blocks st ! i) D"

lemma holds_block:
  assumes "holds ok lv sz n D st" and "i \<in> D"
  obtains k where "sz i \<le> k" "(blocks st ! i, k) \<in> lv (msys st)"
  using assms unfolding holds_def by blast

text \<open>A new block for an identifier that has none.\<close>

lemma holds_insert:
  assumes H: "holds ok lv sz n D st" and i: "i < n" "i \<notin> D" and blk: "(p, k) \<in> lv (msys st)" "w \<le> k"
    and fresh: "\<And>d. d \<in> D \<Longrightarrow> blocks st ! d \<noteq> p" and bs: "msys st' = msys st" "blocks st' = (blocks st)[i := p]"
  shows "holds ok lv (sz(i := w)) n (insert i D) st'"
proof -
  have len: "length (blocks st) = n" using H by (simp add: holds_def)
  have old: "blocks st' ! d = blocks st ! d" if "d \<in> D" for d using that i(2) bs(2) by (cases "d = i") auto
  have new: "blocks st' ! i = p" using i(1) len bs(2) by simp
  have "inj_on (\<lambda>d. blocks st' ! d) D" using H by (auto simp: holds_def old cong: inj_on_cong)
  moreover have "blocks st' ! i \<notin> (\<lambda>d. blocks st' ! d) ` (D - {i})" using fresh old new by force
  moreover have "\<exists>k \<ge> (sz(i := w)) d. (blocks st' ! d, k) \<in> lv (msys st')" if "d \<in> insert i D" for d
    using that holds_block [OF H, of d] blk new old i(2) bs(1) by (cases "d = i") auto
  ultimately show ?thesis using H i(1) bs by (simp add: holds_def)
qed

lemma holds_without:
  assumes H: "holds ok lv sz n D st" and i: "i \<in> D" "(blocks st ! i, k) \<in> lv (msys st)"
    and s1: "ok s1" "lv (msys st) - {(blocks st ! i, k)} \<subseteq> lv s1" and bs: "msys st' = s1" "blocks st' = blocks st"
  shows "holds ok lv sz n (D - {i}) st'"
proof -
  have "\<exists>k \<ge> sz d. (blocks st ! d, k) \<in> lv s1" if d: "d \<in> D - {i}" for d
  proof -
    have ne: "blocks st ! d \<noteq> blocks st ! i" using H d i(1) by (auto simp: holds_def inj_on_def)
    obtain j where "sz d \<le> j" "(blocks st ! d, j) \<in> lv (msys st)" using holds_block [OF H, of d] d by blast
    then show ?thesis using ne s1(2) by (intro exI [of _ j]) auto
  qed
  moreover have "inj_on (\<lambda>d. blocks st ! d) (D - {i})" using H by (auto simp: holds_def intro: inj_on_subset)
  ultimately show ?thesis using H s1(1) bs by (auto simp: holds_def)
qed

text \<open>Disjoint intervals inside an interval have at most its length together.\<close>

lemma disjoint_lengths:
  fixes a b :: nat
  assumes "finite D" and "\<And>i. i \<in> D \<Longrightarrow> a \<le> p i \<and> p i + k i \<le> b" and "a \<le> b"
    and "\<And>i j. \<lbrakk>i \<in> D; j \<in> D; i \<noteq> j\<rbrakk> \<Longrightarrow> p i + k i \<le> p j \<or> p j + k j \<le> p i"
  shows "(\<Sum>i\<in>D. k i) \<le> b - a"
proof -
  have "(\<Sum>i\<in>D. k i) = (\<Sum>i\<in>D. card {p i..<p i + k i})" by simp
  also have "\<dots> = card (\<Union>i\<in>D. {p i..<p i + k i})"
  proof (rule card_UN_disjoint [symmetric])
    show "\<forall>i\<in>D. \<forall>j\<in>D. i \<noteq> j \<longrightarrow> {p i..<p i + k i} \<inter> {p j..<p j + k j} = {}" using assms(4) by fastforce
  qed (use assms(1) in auto)
  also have "\<dots> \<le> card {a..<b}" by (rule card_mono) (use assms(2) in fastforce)+
  finally show ?thesis by simp
qed

section \<open>The runs over a growing heap\<close>

locale growing = driven_realloc ok live mem set_mem lo hi malloc free M boot realloc
  for ok :: "'s \<Rightarrow> bool" and live :: "'s \<Rightarrow> (addr \<times> nat) set" and mem :: "'s \<Rightarrow> bytes"
    and set_mem :: "bytes \<Rightarrow> 's \<Rightarrow> 's" and lo :: "'s \<Rightarrow> addr" and hi :: "'s \<Rightarrow> addr"
    and malloc :: "'s \<Rightarrow> nat \<Rightarrow> (addr \<times> 's) option" and free :: "'s \<Rightarrow> addr \<Rightarrow> 's"
    and M :: "'s mm_ops" and boot :: "'s \<Rightarrow> bool"
    and realloc :: "'s \<Rightarrow> addr \<Rightarrow> nat \<Rightarrow> (addr \<times> 's) option" +
  assumes heapsize: "do_heapsize M s = hi s - lo s" and lo_hi: "ok s \<Longrightarrow> lo s \<le> hi s"
    and malloc_grows: "malloc s sz = Some (p, s') \<Longrightarrow> boot s \<Longrightarrow> boot s' \<and> lo s' = lo s \<and> hi s \<le> hi s'"
    and realloc_grows: "realloc s p sz = Some (q, s') \<Longrightarrow> boot s \<Longrightarrow> boot s' \<and> lo s' = lo s \<and> hi s \<le> hi s'"
    and free_grows: "boot s \<Longrightarrow> boot (free s p) \<and> lo (free s p) = lo s \<and> hi s \<le> hi (free s p)"
    and init_boot: "boot s \<Longrightarrow> do_init M (do_reset M s) = (r, s') \<Longrightarrow> boot s'"
    and write_boot: "boot s \<Longrightarrow> boot (set_mem m s)"
begin

lemma holds_total:
  assumes "holds ok live sz n D st"
  shows "(\<Sum>i\<in>D. sz i) \<le> do_heapsize M (msys st)"
proof -
  have s: "ok (msys st)" and fin: "finite D" using assms by (auto simp: holds_def intro: finite_subset)
  have "\<forall>i\<in>D. \<exists>k \<ge> sz i. (blocks st ! i, k) \<in> live (msys st)" using assms by (simp add: holds_def)
  then obtain k where k: "\<And>i. i \<in> D \<Longrightarrow> sz i \<le> k i" "\<And>i. i \<in> D \<Longrightarrow> (blocks st ! i, k i) \<in> live (msys st)" by metis
  have "(\<Sum>i\<in>D. sz i) \<le> (\<Sum>i\<in>D. k i)" by (rule sum_mono) (rule k)
  also have "\<dots> \<le> hi (msys st) - lo (msys st)"
  proof (rule disjoint_lengths [OF fin, where p = "\<lambda>i. blocks st ! i"])
    fix i j assume ij: "i \<in> D" "j \<in> D" "i \<noteq> j"
    then have "blocks st ! i \<noteq> blocks st ! j" using assms by (auto simp: holds_def inj_on_def)
    then show "blocks st ! i + k i \<le> blocks st ! j \<or> blocks st ! j + k j \<le> blocks st ! i"
      using live_disjoint [OF s] k(2) ij by blast
  qed (use live_range [OF s] k(2) lo_hi [OF s] in auto)
  finally show ?thesis by (simp add: heapsize)
qed

text \<open>The effect of the three calls on what is held.\<close>

lemma holds_malloc:
  assumes H: "holds ok live sz n D st" and i: "i < n" "i \<notin> D" and w: "0 < w" "w \<le> max_request"
    and call: "malloc (msys st) w = Some (p, s1)" "p \<noteq> NULL" and bs: "msys st' = s1" "blocks st' = (blocks st)[i := p]"
  shows "holds ok live (sz(i := w)) n (insert i D) st'"
proof -
  have s: "ok (msys st)" using H by (simp add: holds_def)
  from malloc_ok [OF s w call] obtain k where
    m: "ok s1" "w \<le> k" "live s1 = insert (p, k) (live (msys st))" "p \<notin> fst ` live (msys st)" by blast
  have fresh: "blocks st ! d \<noteq> p" if "d \<in> D" for d using holds_block [OF H that] m(4) by (metis fst_conv image_eqI)
  have "holds ok live sz n D (st\<lparr>msys := s1\<rparr>)" using H m(1,3) by (fastforce simp: holds_def)
  then show ?thesis by (rule holds_insert [where k = k]) (use i m fresh bs in simp_all)
qed

lemma holds_free:
  assumes H: "holds ok live sz n D st" and i: "i \<in> D" and bs: "msys st' = free (msys st) (blocks st ! i)" "blocks st' = blocks st"
  shows "holds ok live sz n (D - {i}) st'"
proof -
  have s: "ok (msys st)" using H by (simp add: holds_def)
  obtain k where k: "(blocks st ! i, k) \<in> live (msys st)" using holds_block [OF H i] by blast
  show ?thesis by (rule holds_without [OF H i k _ _ bs]) (use free_ok [OF s k] in auto)
qed

lemma holds_realloc:
  assumes H: "holds ok live sz n D st" and i: "i \<in> D" and w: "0 < w" "w \<le> max_request"
    and call: "realloc (msys st) (blocks st ! i) w = Some (q, s1)" "q \<noteq> NULL" and bs: "msys st' = s1" "blocks st' = (blocks st)[i := q]"
  shows "holds ok live (sz(i := w)) n D st'"
proof -
  have s: "ok (msys st)" and len: "length (blocks st) = n" "D \<subseteq> {..<n}" using H by (simp_all add: holds_def)
  obtain k where k: "(blocks st ! i, k) \<in> live (msys st)" using holds_block [OF H i] by blast
  from realloc_ok [OF s k w call] obtain h where
    m: "ok s1" "w \<le> h" "live s1 = insert (q, h) (live (msys st) - {(blocks st ! i, k)})"
      "q \<notin> fst ` (live (msys st) - {(blocks st ! i, k)})" by blast
  have W: "holds ok live sz n (D - {i}) (st\<lparr>msys := s1\<rparr>)" by (rule holds_without [OF H i k m(1)]) (use m(3) in auto)
  have fresh: "blocks st ! d \<noteq> q" if d: "d \<in> D - {i}" for d
  proof -
    have "blocks st ! d \<noteq> blocks st ! i" using H d i by (auto simp: holds_def inj_on_def)
    moreover obtain j where "(blocks st ! d, j) \<in> live (msys st)" using holds_block [OF H, of d] d by blast
    ultimately have "(blocks st ! d, j) \<in> live (msys st) - {(blocks st ! i, k)}" by simp
    then show ?thesis using m(4) by force
  qed
  have "holds ok live (sz(i := w)) n (insert i (D - {i})) st'"
    by (rule holds_insert [OF W, where k = h]) (use i len m(2,3) fresh bs in auto)
  moreover have "insert i (D - {i}) = D" using i by blast
  ultimately show ?thesis by simp
qed

lemma holds_cong: "(\<And>i. i \<in> D \<Longrightarrow> sz i = sz' i) \<Longrightarrow> holds ok live sz n D st = holds ok live sz' n D st"
  by (auto simp: holds_def)

lemma boot_op: "eval_op M x st = Inr st' \<Longrightarrow> boot (msys st) \<Longrightarrow> boot (msys st')"
  using malloc_grows realloc_grows free_grows
  by (auto simp: eval_op_def Let_def calls call_realloc write_boot split: optype.splits option.splits prod.splits sum.splits if_splits)

lemma boot_ops: "eval_ops M xs st = Inr st' \<Longrightarrow> boot (msys st) \<Longrightarrow> boot (msys st')"
proof (induction xs arbitrary: st)
  case (Cons x xs)
  then obtain st1 where "eval_op M x st = Inr st1" "eval_ops M xs st1 = Inr st'" by (auto split: sum.splits)
  with Cons boot_op show ?case by blast
qed simp

section \<open>The utilisation run\<close>

definition util_inv :: "nat \<Rightarrow> nat set \<Rightarrow> 's util \<Rightarrow> bool" where
  "util_inv n D u \<longleftrightarrow>
     holds ok live (\<lambda>i. block_sizes (u_drv u) ! i) n D (u_drv u) \<and> length (block_sizes (u_drv u)) = n \<and> boot (msys (u_drv u))
     \<and> total_size u = int (\<Sum>i\<in>D. block_sizes (u_drv u) ! i)
     \<and> 0 \<le> max_total_size u \<and> max_total_size u \<le> int (do_heapsize M (msys (u_drv u)))"

lemma util_inv_total: "util_inv n D u \<Longrightarrow> total_size u \<le> int (do_heapsize M (msys (u_drv u)))"
  using holds_total [of "\<lambda>i. block_sizes (u_drv u) ! i" n D "u_drv u"] unfolding util_inv_def by (simp del: of_nat_sum)

lemma heapsize_mono: "lo s' = lo s \<Longrightarrow> hi s \<le> hi s' \<Longrightarrow> do_heapsize M s \<le> do_heapsize M s'"
  by (simp add: heapsize)

text \<open>A step that gives identifier \<open>i\<close> a block of \<open>w\<close> bytes.\<close>

lemma util_inv_set:
  assumes I: "util_inv n D u" and i: "i < n" and st': "blocks st' = (blocks (u_drv u))[i := p]" "block_sizes st' = (block_sizes (u_drv u))[i := w]"
    and H: "holds ok live ((\<lambda>j. block_sizes (u_drv u) ! j)(i := w)) n (insert i D) st'"
    and grows: "boot (msys st')" "do_heapsize M (msys (u_drv u)) \<le> do_heapsize M (msys st')"
    and t: "t = total_size u + int w - (if i \<in> D then int (block_sizes (u_drv u) ! i) else 0)"
  shows "util_inv n (insert i D) \<lparr>u_drv = st', total_size = t, max_total_size = max t (max_total_size u)\<rparr>"
proof -
  let ?b = "block_sizes (u_drv u)"
  have len: "length ?b = n" and fin: "finite D" using I by (auto simp: util_inv_def holds_def intro: finite_subset)
  have same: "((\<lambda>j. ?b ! j)(i := w)) j = block_sizes st' ! j" for j using i len st' by (simp add: nth_list_update)
  have "(\<Sum>j\<in>insert i D. block_sizes st' ! j) = w + (\<Sum>j\<in>D - {i}. ?b ! j)"
    using fin i len st' by (subst sum.insert_remove) (auto intro!: sum.cong)
  moreover have "(\<Sum>j\<in>D. ?b ! j) = (if i \<in> D then ?b ! i else 0) + (\<Sum>j\<in>D - {i}. ?b ! j)"
    using fin by (auto simp: sum.remove)
  ultimately have tot: "t = int (\<Sum>j\<in>insert i D. block_sizes st' ! j)" using I t by (simp add: util_inv_def split: if_splits)
  have H': "holds ok live (\<lambda>j. block_sizes st' ! j) n (insert i D) st'" using H holds_cong [of "insert i D"] same by blast
  have "t \<le> int (do_heapsize M (msys st'))" using holds_total [OF H'] unfolding tot by (simp del: of_nat_sum)
  then show ?thesis using I H' tot grows len st' by (simp add: util_inv_def le_max_iff_disj del: of_nat_sum)
qed

lemma util_step:
  assumes I: "util_inv n D u" and x: "MDriver.op_ok n D x"
  shows "util_op M x u \<in> {Inl MallocFailed, Inl ReallocFailed} \<or> (\<exists>u'. util_op M x u = Inr u' \<and> util_inv n (op_live D x) u')"
proof -
  let ?st = "u_drv u" let ?i = "op_index x" let ?s = "msys ?st" let ?w = "nat (op_size x)"
  have H: "holds ok live (\<lambda>i. block_sizes ?st ! i) n D ?st" and s: "ok ?s" "boot ?s" and len: "length (block_sizes ?st) = n"
    and fin: "finite D" using I by (auto simp: util_inv_def holds_def intro: finite_subset)
  show ?thesis
  proof (cases "op_type x")
    case ALLOC
    then have i: "?i < n" "?i \<notin> D" and w: "0 < ?w" "?w \<le> max_request" "to_size_t (op_size x) = ?w" "int ?w = op_size x"
      using x by (auto simp: to_size_t_def max_request_def)
    obtain p s1 where call: "malloc ?s ?w = Some (p, s1)" using malloc_returns [OF s(1) w(1,2)] by blast
    note G = malloc_grows [OF call s(2)]
    show ?thesis
    proof (cases "p = NULL")
      case False
      let ?st' = "?st\<lparr>msys := s1, blocks := (blocks ?st)[?i := p], block_sizes := (block_sizes ?st)[?i := ?w]\<rparr>"
      have "holds ok live ((\<lambda>j. block_sizes ?st ! j)(?i := ?w)) n (insert ?i D) ?st'"
        by (rule holds_malloc [OF H i w(1,2) call False]) simp_all
      then have "util_inv n (insert ?i D) \<lparr>u_drv = ?st', total_size = total_size u + int ?w,
          max_total_size = max (total_size u + int ?w) (max_total_size u)\<rparr>"
        using G heapsize_mono i by (intro util_inv_set [OF I i(1)]) auto
      then show ?thesis using call False ALLOC w by (simp add: util_op_def Let_def calls)
    qed (use call ALLOC w in \<open>simp add: util_op_def Let_def calls\<close>)
  next
    case REALLOC
    then have i: "?i < n" "?i \<in> D" and w: "0 < ?w" "?w \<le> max_request" "to_size_t (op_size x) = ?w" "int ?w = op_size x"
      using x by (auto simp: to_size_t_def max_request_def)
    obtain k where k: "(blocks ?st ! ?i, k) \<in> live ?s" using holds_block [OF H i(2)] by blast
    obtain p s1 where call: "realloc ?s (blocks ?st ! ?i) ?w = Some (p, s1)" using realloc_returns [OF s(1) k w(1,2)] by blast
    note G = realloc_grows [OF call s(2)]
    show ?thesis
    proof (cases "p = NULL")
      case False
      let ?st' = "?st\<lparr>msys := s1, blocks := (blocks ?st)[?i := p], block_sizes := (block_sizes ?st)[?i := ?w]\<rparr>"
      let ?t = "total_size u + (int ?w - int (block_sizes ?st ! ?i))"
      have "holds ok live ((\<lambda>j. block_sizes ?st ! j)(?i := ?w)) n D ?st'"
        by (rule holds_realloc [OF H i(2) w(1,2) call False]) simp_all
      then have "util_inv n (insert ?i D) \<lparr>u_drv = ?st', total_size = ?t, max_total_size = max ?t (max_total_size u)\<rparr>"
        using G heapsize_mono i by (intro util_inv_set [OF I i(1)]) (auto simp: insert_absorb)
      then show ?thesis using call False REALLOC w i by (simp add: util_op_def Let_def call_realloc insert_absorb)
    qed (use call REALLOC w in \<open>simp add: util_op_def Let_def call_realloc\<close>)
  next
    case FREE
    then have i: "?i \<in> D" using x by simp
    let ?st' = "?st\<lparr>msys := free ?s (blocks ?st ! ?i)\<rparr>"
    have "holds ok live (\<lambda>i. block_sizes ?st ! i) n (D - {?i}) ?st'" by (rule holds_free [OF H i]) simp_all
    moreover have "(\<Sum>j\<in>D. block_sizes ?st ! j) = block_sizes ?st ! ?i + (\<Sum>j\<in>D - {?i}. block_sizes ?st ! j)"
      using fin i by (simp add: sum.remove)
    ultimately have "util_inv n (D - {?i}) (u\<lparr>u_drv := ?st', total_size := total_size u - int (block_sizes ?st ! ?i)\<rparr>)"
      using I free_grows [OF s(2)] heapsize_mono by (fastforce simp: util_inv_def)
    then show ?thesis using FREE by (simp add: util_op_def Let_def calls)
  qed
qed

lemma util_run:
  "\<lbrakk>util_inv n D u; ops_ok n D xs\<rbrakk> \<Longrightarrow>
     util_ops M xs u \<in> {Inl MallocFailed, Inl ReallocFailed} \<or> (\<exists>u'. util_ops M xs u = Inr u' \<and> util_inv n (ops_live D xs) u')"
proof (induction xs arbitrary: D u)
  case (Cons x xs)
  then show ?case using util_step [of n D u x] by (fastforce simp del: op_live.simps op_ok.simps)
qed simp

lemma util_ends:
  assumes "boot (msys st)" and "length (blocks st) = n" and "length (block_sizes st) = n" and "ops_ok n {} (ops tr)"
  shows "eval_mm_util M tr st \<in> {Inl MallocFailed, Inl ReallocFailed}
     \<or> (\<exists>m h. eval_mm_util M tr st = Inr (m, h) \<and> 0 \<le> m \<and> m \<le> int h)"
proof -
  from init [OF assms(1)] obtain s1 where s1: "do_init M (do_reset M (msys st)) = (0, s1)" "ok s1" "live s1 = {}" by blast
  let ?u = "\<lparr>u_drv = st\<lparr>msys := s1\<rparr>, total_size = 0, max_total_size = 0\<rparr>"
  have "util_inv n {} ?u" using assms s1 init_boot [OF assms(1)] by (simp add: util_inv_def holds_def)
  from util_run [OF this assms(4)] show ?thesis using s1(1) by (auto simp: eval_mm_util_def util_inv_def)
qed

section \<open>The timed run\<close>

lemma speed_step:
  assumes H: "holds ok live (\<lambda>_. 0) n D st" and x: "MDriver.op_ok n D x"
  shows "speed_op M x st \<in> {Inl MallocFailed, Inl ReallocFailed}
    \<or> (\<exists>st'. speed_op M x st = Inr st' \<and> holds ok live (\<lambda>_. 0) n (op_live D x) st')"
proof -
  let ?i = "op_index x" let ?s = "msys st" let ?w = "nat (op_size x)"
  have s: "ok ?s" using H by (simp add: holds_def)
  have weaken: "holds ok live (\<lambda>_. 0) n E st'" if "holds ok live ((\<lambda>_. 0)(?i := ?w)) n E st'" for E st'
    using that by (fastforce simp: holds_def)
  show ?thesis
  proof (cases "op_type x")
    case ALLOC
    then have i: "?i < n" "?i \<notin> D" and w: "0 < ?w" "?w \<le> max_request" "to_size_t (op_size x) = ?w"
      using x by (auto simp: to_size_t_def max_request_def)
    obtain p s1 where call: "malloc ?s ?w = Some (p, s1)" using malloc_returns [OF s w(1,2)] by blast
    show ?thesis
    proof (cases "p = NULL")
      case False
      have "holds ok live (\<lambda>_. 0) n (insert ?i D) (st\<lparr>msys := s1, blocks := (blocks st)[?i := p]\<rparr>)"
        by (rule weaken, rule holds_malloc [OF H i w(1,2) call False]) simp_all
      then show ?thesis using call False ALLOC w by (simp add: speed_op_def Let_def calls)
    qed (use call ALLOC w in \<open>simp add: speed_op_def Let_def calls\<close>)
  next
    case REALLOC
    then have i: "?i \<in> D" and w: "0 < ?w" "?w \<le> max_request" "to_size_t (op_size x) = ?w"
      using x by (auto simp: to_size_t_def max_request_def)
    obtain k where k: "(blocks st ! ?i, k) \<in> live ?s" using holds_block [OF H i] by blast
    obtain p s1 where call: "realloc ?s (blocks st ! ?i) ?w = Some (p, s1)" using realloc_returns [OF s k w(1,2)] by blast
    show ?thesis
    proof (cases "p = NULL")
      case False
      have "holds ok live (\<lambda>_. 0) n D (st\<lparr>msys := s1, blocks := (blocks st)[?i := p]\<rparr>)"
        by (rule weaken, rule holds_realloc [OF H i w(1,2) call False]) simp_all
      then show ?thesis using call False REALLOC w i by (simp add: speed_op_def Let_def call_realloc insert_absorb)
    qed (use call REALLOC w in \<open>simp add: speed_op_def Let_def call_realloc\<close>)
  next
    case FREE
    then have i: "?i \<in> D" using x by simp
    have "holds ok live (\<lambda>_. 0) n (D - {?i}) (st\<lparr>msys := free ?s (blocks st ! ?i)\<rparr>)" by (rule holds_free [OF H i]) simp_all
    then show ?thesis using FREE by (simp add: speed_op_def Let_def calls)
  qed
qed

lemma speed_run:
  "\<lbrakk>holds ok live (\<lambda>_. 0) n D st; ops_ok n D xs\<rbrakk> \<Longrightarrow>
     speed_ops M xs st \<in> {Inl MallocFailed, Inl ReallocFailed} \<or> (\<exists>st'. speed_ops M xs st = Inr st')"
proof (induction xs arbitrary: D st)
  case (Cons x xs)
  then show ?case using speed_step [of n D st x] by (fastforce simp del: op_live.simps op_ok.simps)
qed simp

lemma speed_ends:
  assumes "boot (msys st)" and "length (blocks st) = n" and "ops_ok n {} (ops tr)"
  shows "eval_mm_speed M tr st \<in> {Inl MallocFailed, Inl ReallocFailed} \<or> (\<exists>st'. eval_mm_speed M tr st = Inr st')"
proof -
  from init [OF assms(1)] obtain s1 where s1: "do_init M (do_reset M (msys st)) = (0, s1)" "ok s1" "live s1 = {}" by blast
  have "holds ok live (\<lambda>_. 0) n {} (st\<lparr>msys := s1\<rparr>)" using assms(2) s1 by (simp add: holds_def)
  from speed_run [OF this assms(3)] show ?thesis using s1(1) by (simp add: eval_mm_speed_def)
qed

text \<open>The evaluation of a trace: statistics in their bounds, or the end of the process for lack of memory.\<close>

lemma trace_evaluated:
  assumes "boot (msys st)" and "length (blocks st) = n" and "length (block_sizes st) = n" and "ops_ok n {} (ops tr)" and "0 \<le> secs"
  shows "eval_trace M tr st secs \<in> {Inl MallocFailed, Inl ReallocFailed}
     \<or> (\<exists>x. eval_trace M tr st secs = Inr x \<and> stats_ok x \<and> st_ops x = real (length (ops tr))
          \<and> (st_valid x \<longleftrightarrow> (\<exists>st'. eval_mm_valid M tr st = Inr st')))"
proof (cases "\<exists>st'. eval_mm_valid M tr st = Inr st'")
  case False
  then have "eval_mm_valid M tr st \<in> {Inl MallocFailed, Inl ReallocFailed}" using valid [OF assms(1-4)] by blast
  then show ?thesis by (auto simp: eval_trace_def reported_def stats_ok_def)
next
  case True
  then obtain st' where v: "eval_mm_valid M tr st = Inr st'" by blast
  from init [OF assms(1)] obtain s1 where s1: "do_init M (do_reset M (msys st)) = (0, s1)" by blast
  have T: "tracks ok live mem n (ops_live {} (ops tr)) st'" using valid [OF assms(1-4)] v by auto
  then have len: "length (blocks st') = n" "length (block_sizes st') = n" by (simp_all add: tracks_def)
  have "eval_ops M (ops tr) (st\<lparr>ranges := [], msys := s1\<rparr>) = Inr st'"
    using v s1 by (simp add: eval_mm_valid_def Let_def clear_ranges_def)
  then have b: "boot (msys st')" by (rule boot_ops) (use init_boot [OF assms(1) s1] in simp)
  from util_ends [OF b len assms(4)] speed_ends [OF b len(1) assms(4)] show ?thesis
    using v assms(5) by (auto simp: eval_trace_def stats_ok_def divide_le_eq)
qed

end

section \<open>The first-fit allocator\<close>

text \<open>Only \<open>mem_sbrk\<close> moves the break, and it moves it up.\<close>

definition grown :: "'a memsys_scheme \<Rightarrow> 'a memsys_scheme \<Rightarrow> bool" where
  "grown s s' \<longleftrightarrow> mem_start_brk s' = mem_start_brk s \<and> mem_max_addr s' = mem_max_addr s \<and> mem_brk s \<le> mem_brk s' \<and> (mem_wf s \<longrightarrow> mem_wf s')"

lemma grown_refl [simp]: "grown s s"
  by (simp add: grown_def)

lemma grown_trans: "grown s s' \<Longrightarrow> grown s' s'' \<Longrightarrow> grown s s''"
  by (simp add: grown_def)

lemma mem_sbrk_grown:
  fixes s :: "'a memsys_scheme"
  assumes "mem_sbrk i s = (r, s')"
  shows "grown s s'"
  using assms by (cases r) (auto dest!: mem_sbrk_None mem_sbrk_Some simp: grown_def mem_wf_def)

lemma heap_grown [simp]: "grown s (t\<lparr>heap := m\<rparr>) = grown s t" "grown (s\<lparr>heap := m\<rparr>) t = grown s t"
  by (simp_all add: grown_def mem_wf_def)

lemma ff_coalesce_grown [simp]: "grown s (snd (ff_coalesce t bp)) = grown s t"
  by (simp add: ff_coalesce_def Let_def)

lemma ff_extend_heap_grown:
  assumes "grown s0 s"
  shows "grown s0 (snd (ff_extend_heap s w))"
proof -
  obtain r s1 where R: "mem_sbrk (to_int32 (if w mod 2 \<noteq> 0 then wrap32 (wrap32 (w + 1) * WSIZE) else wrap32 (w * WSIZE))) s = (r, s1)"
    by fastforce
  then show ?thesis using grown_trans [OF assms mem_sbrk_grown [OF R]] unfolding ff_extend_heap_def Let_def R by (cases r) simp_all
qed

lemma ff_place_grown [simp]: "grown s (ff_place t bp a) = grown s t"
  by (simp add: ff_place_def Let_def)

lemma ff_listp_grown [simp]: "grown s (t\<lparr>heap_listp := m\<rparr>) = grown s t" "grown (s\<lparr>heap_listp := m\<rparr>) t = grown s t"
  by (simp_all add: grown_def mem_wf_def)

lemma ff_mm_init_grown: "grown s (snd (ff_mm_init s))"
proof -
  obtain r s1 where R: "mem_sbrk (int (4 * WSIZE)) s = (r, s1)" by fastforce
  then have "grown s s1" by (rule mem_sbrk_grown)
  then show ?thesis unfolding ff_mm_init_def R by (cases r) (auto simp: Let_def split_beta intro: ff_extend_heap_grown)
qed

lemma ff_mm_malloc_grown:
  assumes "ff_mm_malloc s sz = Some (p, s')"
  shows "grown s s'"
proof -
  let ?s = "if heap_listp s = 0 then snd (ff_mm_init s) else s"
  have "grown s ?s" using ff_mm_init_grown by simp
  then show ?thesis using assms ff_extend_heap_grown [of s ?s] unfolding ff_mm_malloc_def
    by (auto simp: Let_def split_beta split: option.splits if_splits)
qed

lemma ff_mm_free_grown: "grown s0 s \<Longrightarrow> grown s0 (ff_mm_free s p)"
  using ff_mm_init_grown grown_trans by (auto simp: ff_mm_free_def Let_def)

lemma ff_mm_realloc_grown:
  assumes "ff_mm_realloc s p sz = Some (q, s')"
  shows "grown s s'"
  using assms ff_mm_malloc_grown unfolding ff_mm_realloc_def
  by (auto simp: Let_def ff_mm_free_grown split: option.splits if_splits)

lemma arena_ok_grown: "grown s s' \<Longrightarrow> arena_ok s \<Longrightarrow> arena_ok s'"
  by (simp add: grown_def arena_ok_def)

interpretation ffg: growing ff_ok ff_live heap "\<lambda>m s. s\<lparr>heap := m\<rparr>" mem_heap_lo mem_brk
  ff_mm_malloc ff_mm_free ff_ops arena_ok ff_mm_realloc
proof
  fix s :: firstfit
  show "do_heapsize ff_ops s = mem_brk s - mem_heap_lo s" by (simp add: ff_ops_def mem_heapsize_def mem_heap_lo_def)
  show "mem_heap_lo s \<le> mem_brk s" if "ff_ok s" using that ff_invD by (auto simp: ff_ok_iff mem_wf_def mem_heap_lo_def)
  show "arena_ok (s\<lparr>heap := m\<rparr>)" if "arena_ok s" for m using that by (simp add: arena_ok_def mem_wf_def)
  show "arena_ok (ff_mm_free s p) \<and> mem_heap_lo (ff_mm_free s p) = mem_heap_lo s \<and> mem_brk s \<le> mem_brk (ff_mm_free s p)"
    if "arena_ok s" for p
    using ff_mm_free_grown [OF grown_refl, of s p] arena_ok_grown that by (auto simp: grown_def mem_heap_lo_def)
  fix s' p sz
  show "arena_ok s' \<and> mem_heap_lo s' = mem_heap_lo s \<and> mem_brk s \<le> mem_brk s'"
    if "ff_mm_malloc s sz = Some (p, s')" "arena_ok s"
    using ff_mm_malloc_grown [OF that(1)] arena_ok_grown that(2) by (auto simp: grown_def mem_heap_lo_def)
  show "arena_ok s'" if "arena_ok s" "do_init ff_ops (do_reset ff_ops s) = (r, s')" for r
  proof -
    have "arena_ok (mem_reset_brk s)" using arena_reset [OF that(1)] by (simp add: arena_ok_def)
    then show ?thesis using that(2) ff_mm_init_grown [of "mem_reset_brk s"] arena_ok_grown by (auto simp: ff_ops_def)
  qed
  fix q
  show "arena_ok s' \<and> mem_heap_lo s' = mem_heap_lo s \<and> mem_brk s \<le> mem_brk s'"
    if "ff_mm_realloc s p sz = Some (q, s')" "arena_ok s"
    using ff_mm_realloc_grown [OF that(1)] arena_ok_grown that(2) by (auto simp: grown_def mem_heap_lo_def)
qed

end
