(* ===== verification/Driver_Main.thy ===== *)
theory Driver_Main
  imports Driver_Runs
begin

text \<open>
  The malloc driver's \<open>main\<close> (\<^verbatim>\<open>mymalloc_buddy/mdriver.c\<close>): options, team check, the loop over the trace files for the C library's
  allocator and for the one under test, and the report.  \<^verbatim>\<open>getopt\<close> delivers the list of options with their
  arguments; the file system, what uninitialised arrays hold, the memory that earlier runs left behind and the
  measured seconds are arguments.  Of what is printed the tables and figures are kept.
\<close>

section \<open>The program\<close>

definition DRV_MAXLINE :: nat where "DRV_MAXLINE = 1024"

definition TRACEDIR :: string where "TRACEDIR = ''./tracefiles/''"

definition default_tracefiles :: "string list" where
  "default_tracefiles =
     [''amptjp-bal.rep'', ''cccp-bal.rep'', ''cp-decl-bal.rep'', ''expr-bal.rep'', ''coalescing-bal.rep'', ''random-bal.rep'',
      ''random2-bal.rep'', ''binary-bal.rep'', ''binary2-bal.rep'', ''realloc-bal.rep'', ''realloc2-bal.rep'']"

record cmdline =
  autograder :: bool
  tracefiles :: "string list option"
  tracedir :: string
  team_check :: bool
  run_libc :: bool
  verbose :: nat

definition cmd_default :: cmdline where
  "cmd_default = \<lparr>autograder = False, tracefiles = None, tracedir = TRACEDIR, team_check = True, run_libc = False, verbose = 0\<rparr>"

text \<open>How the reading of the options ends: with settings, with an exit after the help text, or with an access
  outside \<^verbatim>\<open>tracedir\<close>.\<close>

datatype opt_end = Settings cmdline | Usage int | OptFault

fun parse_options :: "(char \<times> string) list \<Rightarrow> cmdline \<Rightarrow> opt_end" where
  "parse_options [] c = Settings c"
| "parse_options ((o1, optarg) # opts) c =
     (if o1 = CHR ''g'' then parse_options opts (c\<lparr>autograder := True\<rparr>)
      else if o1 = CHR ''f'' then parse_options opts (c\<lparr>tracefiles := Some [optarg], tracedir := ''./''\<rparr>)
      else if o1 = CHR ''t'' then
        if tracefiles c \<noteq> None then parse_options opts c
        else if optarg = [] \<or> DRV_MAXLINE \<le> length optarg then OptFault
        else if last optarg \<noteq> CHR ''/'' then
          if DRV_MAXLINE \<le> length optarg + 1 then OptFault else parse_options opts (c\<lparr>tracedir := optarg @ ''/''\<rparr>)
        else parse_options opts (c\<lparr>tracedir := optarg\<rparr>)
      else if o1 = CHR ''a'' then parse_options opts (c\<lparr>team_check := False\<rparr>)
      else if o1 = CHR ''l'' then parse_options opts (c\<lparr>run_libc := True\<rparr>)
      else if o1 = CHR ''v'' then parse_options opts (c\<lparr>verbose := 1\<rparr>)
      else if o1 = CHR ''V'' then parse_options opts (c\<lparr>verbose := 2\<rparr>)
      else if o1 = CHR ''h'' then Usage 0
      else Usage 1)"

record team_t =
  student_id :: string
  name1 :: string
  id1 :: string

definition team_ok :: "team_t \<Rightarrow> bool" where
  "team_ok t \<longleftrightarrow> student_id t \<noteq> [] \<and> name1 t \<noteq> [] \<and> id1 t \<noteq> []"

text \<open>How the process ends before its report: with an exit code after the options, without team data, at a
  trace file, in a run, at a failure of the C library, or with undefined behaviour.\<close>

datatype drv_exit = BadOption int | TeamMissing | TraceFault trace_fault | RunFault merr | LibcFailed | DrvUndefined

text \<open>What surrounds the work on one trace: the memory and the range list that the runs before left, the contents of
  fresh arrays, whether the C library grants memory, and the measured seconds.\<close>

record ('s, 'l) trace_env =
  te_mem :: 's
  te_libc :: 'l
  te_ranges :: "range_t list"
  te_blocks :: "nat \<Rightarrow> addr"
  te_sizes :: "nat \<Rightarrow> nat"
  te_grants :: "nat \<Rightarrow> bool"
  te_fill :: "nat \<Rightarrow> int"
  te_hdr :: "int \<times> int \<times> int \<times> int"
  te_junk :: nat
  te_secs :: real
  te_lsecs :: real

definition load_trace :: "(string \<Rightarrow> string option) \<Rightarrow> string \<Rightarrow> string \<Rightarrow> ('s, 'l) trace_env \<Rightarrow> drv_exit + trace" where
  "load_trace fs dir f e =
     (if DRV_MAXLINE \<le> length (dir @ f) then Inl DrvUndefined
      else case read_trace (te_grants e) (te_fill e) (te_hdr e) (te_junk e) (fs (dir @ f)) of
          Inl x \<Rightarrow> Inl (TraceFault x)
        | Inr tr \<Rightarrow> Inr tr)"

definition start_drv :: "('s, 'l) trace_env \<Rightarrow> trace \<Rightarrow> 's drv" where
  "start_drv e tr = \<lparr>msys = te_mem e, ranges = te_ranges e, blocks = map (te_blocks e) [0..<num_ids tr],
     block_sizes = map (te_sizes e) [0..<num_ids tr]\<rparr>"

fun mm_loop :: "'s mm_ops \<Rightarrow> (string \<Rightarrow> string option) \<Rightarrow> string \<Rightarrow> (string \<times> ('s, 'l) trace_env) list \<Rightarrow> drv_exit + stats list" where
  "mm_loop M fs dir [] = Inr []"
| "mm_loop M fs dir ((f, e) # rest) =
     (case load_trace fs dir f e of
        Inl x \<Rightarrow> Inl x
      | Inr tr \<Rightarrow>
          (case eval_trace M tr (start_drv e tr) (te_secs e) of
             Inl x \<Rightarrow> Inl (RunFault x)
           | Inr st \<Rightarrow> (case mm_loop M fs dir rest of Inl x \<Rightarrow> Inl x | Inr ss \<Rightarrow> Inr (st # ss))))"

fun libc_loop :: "'l libc \<Rightarrow> (string \<Rightarrow> string option) \<Rightarrow> string \<Rightarrow> (string \<times> ('s, 'l) trace_env) list \<Rightarrow> drv_exit + stats list" where
  "libc_loop L fs dir [] = Inr []"
| "libc_loop L fs dir ((f, e) # rest) =
     (case load_trace fs dir f e of
        Inl x \<Rightarrow> Inl x
      | Inr tr \<Rightarrow>
          (case eval_libc_valid L (ops tr) (map (te_blocks e) [0..<num_ids tr]) (te_libc e) of
             None \<Rightarrow> Inl LibcFailed
           | Some (bs, s1) \<Rightarrow>
               (case eval_libc_speed L (ops tr) bs s1 of
                  None \<Rightarrow> Inl LibcFailed
                | Some _ \<Rightarrow>
                    (case libc_loop L fs dir rest of
                       Inl x \<Rightarrow> Inl x
                     | Inr ss \<Rightarrow> Inr (\<lparr>st_ops = real (length (ops tr)), st_valid = True, st_secs = te_lsecs e, st_util = 0\<rparr> # ss)))))"

type_synonym table = "(real \<times> real \<times> real \<times> real) option list \<times> (real \<times> real \<times> real \<times> real) option"

record report =
  rep_libc :: "table option"
  rep_mm :: "table option"
  rep_errors :: nat
  rep_index :: real
  rep_grader :: "(nat \<times> real) option"

definition make_report :: "cmdline \<Rightarrow> stats list option \<Rightarrow> stats list \<Rightarrow> report" where
  "make_report c ls ss =
     (let errors = length (filter (\<lambda>s. \<not> st_valid s) ss); pi = perfindex errors ss
      in \<lparr>rep_libc = (if 0 < verbose c then map_option (printresults 0) ls else None),
          rep_mm = (if 0 < verbose c then Some (printresults errors ss) else None),
          rep_errors = errors, rep_index = pi,
          rep_grader = (if autograder c then Some (numcorrect ss, pi) else None)\<rparr>)"

definition driver_main :: "'s mm_ops \<Rightarrow> 'l libc \<Rightarrow> (string \<Rightarrow> string option) \<Rightarrow> team_t \<Rightarrow> (string \<Rightarrow> ('s, 'l) trace_env) \<Rightarrow> (char \<times> string) list \<Rightarrow> drv_exit + report" where
  "driver_main M L fs team env opts =
     (case parse_options opts cmd_default of
        Usage n \<Rightarrow> Inl (BadOption n)
      | OptFault \<Rightarrow> Inl DrvUndefined
      | Settings c \<Rightarrow>
          if team_check c \<and> \<not> team_ok team then Inl TeamMissing
          else let files = (case tracefiles c of None \<Rightarrow> default_tracefiles | Some fl \<Rightarrow> fl);
                   work = map (\<lambda>f. (f, env f)) files
            in case (if run_libc c then map_sum id Some (libc_loop L fs (tracedir c) work) else Inr None) of
                Inl x \<Rightarrow> Inl x
              | Inr ls \<Rightarrow> map_sum id (make_report c ls) (mm_loop M fs (tracedir c) work))"

section \<open>The driver on the first-fit allocator\<close>

text \<open>A file with a printed trace that is well-formed, in a memory that is ready for it.\<close>

definition good_work :: "(firstfit \<Rightarrow> bool) \<Rightarrow> (string \<Rightarrow> string option) \<Rightarrow> string \<Rightarrow> string \<times> (firstfit, 'l) trace_env \<Rightarrow> bool" where
  "good_work ready fs dir = (\<lambda>(f, e).
     length (dir @ f) < DRV_MAXLINE \<and> ready (te_mem e) \<and> 0 < te_secs e \<and> (\<forall>n. te_grants e n)
     \<and> (\<exists>tr h w. fs (dir @ f) = Some (print_trace h w tr) \<and> in_int32 h \<and> in_int32 w
          \<and> trace_ok (te_fill e) tr \<and> ops_ok (num_ids tr) {} (ops tr)))"

lemma good_work_loads:
  assumes "good_work ready fs dir (f, e)"
  obtains tr where "load_trace fs dir f e = Inr tr" "ops_ok (num_ids tr) {} (ops tr)" "ready (te_mem e)" "0 < te_secs e"
proof -
  from assms obtain tr h w where T: "length (dir @ f) < DRV_MAXLINE" "fs (dir @ f) = Some (print_trace h w tr)" "in_int32 h" "in_int32 w"
    "trace_ok (te_fill e) tr" "ops_ok (num_ids tr) {} (ops tr)" "ready (te_mem e)" "0 < te_secs e" "\<And>n. te_grants e n"
    unfolding good_work_def by auto
  have "read_trace (te_grants e) (te_fill e) (te_hdr e) (te_junk e) (fs (dir @ f)) = Inr tr"
    unfolding T(2) by (rule read_print_trace [OF T(5,3,4,9)])
  then show thesis using T(1,6-8) that by (simp add: load_trace_def)
qed

lemma mm_loop_firstfit:
  assumes "list_all (good_work arena_ok fs dir) work"
  shows "mm_loop ff_ops fs dir work \<in> {Inl (RunFault MallocFailed), Inl (RunFault ReallocFailed)}
    \<or> (\<exists>ss. mm_loop ff_ops fs dir work = Inr ss \<and> length ss = length work \<and> (\<forall>s \<in> set ss. stats_ok s \<and> (st_valid s \<longrightarrow> 0 < st_secs s)))"
  using assms
proof (induction work)
  case (Cons x rest)
  obtain f e where x: "x = (f, e)" by (cases x)
  from Cons.prems obtain tr where T: "load_trace fs dir f e = Inr tr" "ops_ok (num_ids tr) {} (ops tr)" "arena_ok (te_mem e)" "0 < te_secs e"
    unfolding x by (auto elim: good_work_loads)
  have "eval_trace ff_ops tr (start_drv e tr) (te_secs e) \<in> {Inl MallocFailed, Inl ReallocFailed}
    \<or> (\<exists>s. eval_trace ff_ops tr (start_drv e tr) (te_secs e) = Inr s \<and> stats_ok s)"
    using ffg.trace_evaluated [of "start_drv e tr" "num_ids tr" tr "te_secs e"] T by (auto simp: start_drv_def)
  moreover have "0 < st_secs s" if "eval_trace ff_ops tr (start_drv e tr) (te_secs e) = Inr s" "st_valid s" for s
    using that T(4) by (auto simp: eval_trace_def split: sum.splits if_splits)
  ultimately show ?case using Cons.IH Cons.prems T(1) unfolding x by (fastforce split: sum.split)
qed simp

lemma libc_loop_loads:
  assumes "list_all (good_work ready fs dir) work"
  shows "libc_loop L fs dir work = Inl LibcFailed \<or> (\<exists>ss. libc_loop L fs dir work = Inr ss)"
  using assms
proof (induction work)
  case (Cons x rest)
  obtain f e where x: "x = (f, e)" by (cases x)
  from Cons.prems obtain tr where "load_trace fs dir f e = Inr tr" unfolding x by (auto elim: good_work_loads)
  then show ?case using Cons unfolding x by (auto split: option.split sum.split)
qed simp

lemma numcorrect_valid: "numcorrect ss = length (filter st_valid ss)"
  by (simp add: numcorrect_def aggregate_sums)

lemma report_bounds:
  assumes "ss \<noteq> []" and "\<forall>s \<in> set ss. stats_ok s \<and> (st_valid s \<longrightarrow> 0 < st_secs s)"
    and r_def: "r = make_report c ls ss"
  shows "0 \<le> rep_index r \<and> rep_index r \<le> 100 \<and> (0 < rep_errors r \<longrightarrow> rep_index r = 0)
    \<and> (\<forall>n x. rep_grader r = Some (n, x) \<longrightarrow> n + rep_errors r = length ss \<and> x = rep_index r)"
proof -
  have "rep_index r = 0 \<or> 0 \<le> rep_index r \<and> rep_index r \<le> 100 \<and> rep_errors r = 0"
  proof (cases "rep_errors r = 0")
    case True
    then have v: "\<forall>s \<in> set ss. st_valid s" by (auto simp: r_def make_report_def Let_def filter_empty_conv)
    obtain x xs where ss: "ss = x # xs" using assms(1) by (cases ss) auto
    have "0 < st_secs x" "0 \<le> sum_list (map st_secs xs)" using assms(2) v unfolding ss by (auto simp: stats_ok_def intro!: sum_list_nonneg)
    then have "0 < sum_list (map st_secs ss)" unfolding ss by simp
    then show ?thesis using perfindex_range [OF assms(1)] assms(2) True by (simp add: r_def make_report_def Let_def)
  next
    case False
    then show ?thesis by (simp add: r_def make_report_def Let_def perfindex_def split: prod.split)
  qed
  moreover have "numcorrect ss + rep_errors r = length ss"
    using sum_length_filter_compl [of st_valid ss] by (simp add: r_def make_report_def Let_def numcorrect_valid)
  ultimately show ?thesis by (auto simp: r_def make_report_def Let_def)
qed

lemma parse_options_files:
  "parse_options opts c0 = Settings c \<Longrightarrow> tracefiles c0 \<noteq> Some [] \<Longrightarrow> tracefiles c \<noteq> Some []"
  by (induction opts c0 rule: parse_options.induct) (auto split: if_splits)


text \<open>One trace that allocates and releases a block.\<close>

definition small_trace :: trace where
  "small_trace = \<lparr>num_ids = 1, ops = [size_op ALLOC 0 64, \<lparr>op_type = FREE, op_index = 0, op_size = 7\<rparr>]\<rparr>"

definition small_env :: "(firstfit, unit) trace_env" where
  "small_env = \<lparr>te_mem = ff_arena, te_libc = (), te_ranges = [], te_blocks = (\<lambda>_. 0), te_sizes = (\<lambda>_. 0), te_grants = (\<lambda>_. True),
     te_fill = (\<lambda>_. 7), te_hdr = (0, 0, 0, 0), te_junk = 9, te_secs = 1 / 100, te_lsecs = 0\<rparr>"

lemma small_work: "good_work arena_ok (\<lambda>f. if f = ''./s.rep'' then Some (print_trace 100 1 small_trace) else None) ''./'' (''s.rep'', small_env)"
proof -
  have "trace_ok (\<lambda>_. 7) small_trace"
    by (auto simp: small_trace_def trace_ok_def op_ok_def size_op_def to_int32_small sized_ids_def less_Suc_eq)
  moreover have "ops_ok (num_ids small_trace) {} (ops small_trace)" by (simp add: small_trace_def size_op_def to_int32_small)
  ultimately have "\<exists>tr h w. Some (print_trace 100 1 small_trace) = Some (print_trace h w tr) \<and> in_int32 h \<and> in_int32 w
      \<and> trace_ok (\<lambda>_. 7) tr \<and> ops_ok (num_ids tr) {} (ops tr)"
    by - (rule exI [of _ small_trace], rule exI [of _ 100], rule exI [of _ 1], simp add: in_int32_def)
  moreover have "arena_ok ff_arena" using ff_arena_wf by (simp add: arena_ok_def)
  ultimately show ?thesis unfolding good_work_def by (simp add: small_env_def DRV_MAXLINE_def)
qed


end
