(* ===== verification/Clock.thy ===== *)
theory Clock
  imports Fcyc "HOL-Library.Word"
begin

text \<open>
  The clocks of the malloc driver (\<^verbatim>\<open>mymalloc_buddy/clock.c\<close> for x86, \<^verbatim>\<open>ftimer.c\<close> and the choice between them in \<^verbatim>\<open>fsecs.c\<close>).
  The readings of the time stamp counter, of the process times, of the interval timer and of the time of day are
  arguments; the counter is read as its two 32-bit halves.  Doubles are real numbers.
\<close>

section \<open>The program\<close>

record cyclock =
  cyc_hi :: "32 word"
  cyc_lo :: "32 word"
  cyc_per_tick :: real
  start_tick :: int

definition access_counter :: "64 word \<Rightarrow> 32 word \<times> 32 word" where
  "access_counter tsc = (ucast (drop_bit 32 tsc), ucast tsc)"

definition start_counter :: "64 word \<Rightarrow> cyclock \<Rightarrow> cyclock" where
  "start_counter tsc s = (case access_counter tsc of (hi, lo) \<Rightarrow> s\<lparr>cyc_hi := hi, cyc_lo := lo\<rparr>)"

text \<open>The difference over the two halves, with a borrow.\<close>

definition get_counter :: "64 word \<Rightarrow> cyclock \<Rightarrow> real" where
  "get_counter tsc s =
     (case access_counter tsc of
        (ncyc_hi, ncyc_lo) \<Rightarrow>
          let lo = ncyc_lo - cyc_lo s;
              borrow = (if lo > ncyc_lo then 1 else 0);
              hi = ncyc_hi - cyc_hi s - borrow
          in real (unat hi) * real (2 ^ 30) * 4 + real (unat lo))"

text \<open>\<open>ovhd\<close> takes four readings.\<close>

definition ovhd :: "64 word \<times> 64 word \<times> 64 word \<times> 64 word \<Rightarrow> cyclock \<Rightarrow> real \<times> cyclock" where
  "ovhd = (\<lambda>(t1, t2, t3, t4) s. let s2 = start_counter t3 (start_counter t1 s) in (get_counter t4 s2, s2))"

definition mhz_full :: "64 word \<Rightarrow> 64 word \<Rightarrow> nat \<Rightarrow> cyclock \<Rightarrow> real \<times> cyclock" where
  "mhz_full t1 t2 sleeptime s = (let s1 = start_counter t1 s in (get_counter t2 s1 / (1000000 * real sleeptime), s1))"

definition mhz :: "64 word \<Rightarrow> 64 word \<Rightarrow> cyclock \<Rightarrow> real \<times> cyclock" where
  "mhz t1 t2 s = mhz_full t1 t2 2 s"

definition NEVENT :: nat where "NEVENT = 100"
definition THRESHOLD :: real where "THRESHOLD = 1000"
definition RECORDTHRESH :: real where "RECORDTHRESH = 3000"

text \<open>The calibration: each entry of the list is what the counter reads in a turn of the loop and what the process
  time would be then.  \<open>None\<close> when the list ends before the events have been seen.\<close>

fun callibrate_loop :: "nat \<Rightarrow> real \<Rightarrow> int \<Rightarrow> (64 word \<times> int) list \<Rightarrow> cyclock \<Rightarrow> cyclock option" where
  "callibrate_loop e oldt oldc rs s =
     (if NEVENT \<le> e then Some s
      else case rs of
          [] \<Rightarrow> None
        | (tsc, newc) # rs' \<Rightarrow>
            (let newt = get_counter tsc s in
             if newt - oldt \<ge> THRESHOLD then
               if newc > oldc then
                 let cpt = (newt - oldt) / real_of_int (newc - oldc);
                     s' = (if (cyc_per_tick s = 0 \<or> cyc_per_tick s > cpt) \<and> cpt > RECORDTHRESH then s\<lparr>cyc_per_tick := cpt\<rparr> else s)
                 in callibrate_loop (e + 1) newt newc rs' s'
               else callibrate_loop e newt oldc rs' s
             else callibrate_loop e oldt oldc rs' s))"

declare callibrate_loop.simps [simp del]

definition callibrate :: "int \<Rightarrow> 64 word \<Rightarrow> 64 word \<Rightarrow> (64 word \<times> int) list \<Rightarrow> cyclock \<Rightarrow> cyclock option" where
  "callibrate oldc t1 t2 rs s = (let s1 = start_counter t1 s in callibrate_loop 0 (get_counter t2 s1) oldc rs s1)"

definition start_comp_counter :: "int \<times> 64 word \<times> 64 word \<times> (64 word \<times> int) list \<Rightarrow> int \<Rightarrow> 64 word \<Rightarrow> cyclock \<Rightarrow> cyclock option" where
  "start_comp_counter = (\<lambda>(oldc, t1, t2, rs) utime tsc s.
     (case (if cyc_per_tick s = 0 then callibrate oldc t1 t2 rs s else Some s) of
        None \<Rightarrow> None
      | Some s1 \<Rightarrow> Some (start_counter tsc (s1\<lparr>start_tick := utime\<rparr>))))"

definition get_comp_counter :: "64 word \<Rightarrow> int \<Rightarrow> cyclock \<Rightarrow> real" where
  "get_comp_counter tsc utime s =
     (let time = get_counter tsc s; ticks = utime - start_tick s in time - real_of_int ticks * cyc_per_tick s)"

text \<open>A time is seconds and microseconds.  The interval timers count down from \<^verbatim>\<open>MAX_ETIME\<close> seconds.\<close>

definition MAX_ETIME :: int where "MAX_ETIME = 86400"

definition get_etime :: "int \<times> int \<Rightarrow> real" where
  "get_etime r_curr = real_of_int (MAX_ETIME - fst r_curr) + real_of_int (0 - snd r_curr) / 1000000"

definition ftimer_itimer :: "int \<times> int \<Rightarrow> int \<times> int \<Rightarrow> nat \<Rightarrow> real" where
  "ftimer_itimer before behind n = (let start = get_etime before; tmeas = get_etime behind - start in tmeas / real n)"

definition ftimer_gettod :: "int \<times> int \<Rightarrow> int \<times> int \<Rightarrow> nat \<Rightarrow> real" where
  "ftimer_gettod stv etv n =
     (let diff = 1000 * real_of_int (fst etv - fst stv) + (1 / 1000) * real_of_int (snd etv - snd stv);
          diff2 = diff / real n
      in (1 / 1000) * diff2)"

text \<open>The three methods of \<^verbatim>\<open>config.h\<close>; the last is the one in use.\<close>

datatype timing = USE_FCYC | USE_ITIMER | USE_GETTOD

definition timing_in_use :: timing where "timing_in_use = USE_GETTOD"

definition init_timing :: "timing \<Rightarrow> 64 word \<Rightarrow> 64 word \<Rightarrow> cyclock \<Rightarrow> sampler \<Rightarrow> real \<times> cyclock \<times> sampler" where
  "init_timing u t1 t2 s sp =
     (case u of USE_FCYC \<Rightarrow> (case mhz t1 t2 s of (r, s1) \<Rightarrow> (r, s1, init_fsecs sp)) | _ \<Rightarrow> (0, s, sp))"

definition time_run :: "timing \<Rightarrow> real \<Rightarrow> (bool \<Rightarrow> nat \<Rightarrow> real) \<Rightarrow> sampler \<Rightarrow> int \<times> int \<Rightarrow> int \<times> int \<Rightarrow> real option" where
  "time_run u Mhz cyc sp before behind =
     (case u of
        USE_FCYC \<Rightarrow> map_option fst (fsecs Mhz cyc sp)
      | USE_ITIMER \<Rightarrow> Some (ftimer_itimer before behind 10)
      | USE_GETTOD \<Rightarrow> Some (ftimer_gettod before behind 10))"

section \<open>The counter\<close>

lemma access_counter_uint:
  "uint (fst (access_counter tsc)) = uint tsc div 2 ^ 32" "uint (snd (access_counter tsc)) = uint tsc mod 2 ^ 32"
proof -
  have "uint tsc < 2 ^ 64" using uint_lt2p [of tsc] by simp
  then have "uint tsc div 2 ^ 32 < 2 ^ 32" by auto
  moreover have "uint (fst (access_counter tsc)) = take_bit 32 (drop_bit 32 (uint tsc))"
    using take_bit_int_eq_self [of "uint tsc" 64] \<open>uint tsc < 2 ^ 64\<close>
    by (simp only: access_counter_def fst_conv unsigned_ucast_eq unsigned_drop_bit_eq) simp
  ultimately show "uint (fst (access_counter tsc)) = uint tsc div 2 ^ 32"
    by (simp add: take_bit_eq_mod drop_bit_eq_div pos_imp_zdiv_nonneg_iff)
  show "uint (snd (access_counter tsc)) = uint tsc mod 2 ^ 32"
    by (simp add: access_counter_def unsigned_ucast_eq take_bit_eq_mod)
qed

lemma long_subtraction:
  fixes a b W :: int
  assumes "0 < W" and "c = (if b mod W < a mod W then 1 else 0)"
  shows "((b div W - a div W - c) mod W) * W + (b mod W - a mod W) mod W = (b - a) mod (W * W)"
proof -
  let ?l = "b mod W - a mod W + c * W" and ?d = "b div W - a div W - c"
  have l: "0 \<le> ?l" "?l < W" using assms pos_mod_bound [of W a] pos_mod_bound [of W b] pos_mod_sign [of W a] pos_mod_sign [of W b]
    by (auto simp del: pos_mod_bound pos_mod_sign)
  have "b - a = ?d * W + ?l" using div_mult_mod_eq [of a W] div_mult_mod_eq [of b W] by (simp add: algebra_simps)
  moreover have "(d * W + r) mod (W * W) = W * (d mod W) + r" if "0 \<le> r" "r < W" for d r
    using assms(1) that by (simp add: zmod_zmult2_eq)
  note this [OF l, of ?d]
  moreover have "(b mod W - a mod W) mod W = ?l" using trans [OF mod_mult_self1 [of "b mod W - a mod W" c W, symmetric] mod_pos_pos_trivial [OF l]] .
  ultimately show ?thesis by (simp add: mult.commute)
qed

lemma get_counter_difference: "get_counter t1 (start_counter t0 s) = real (unat (t1 - t0))"
proof -
  obtain ah al bh bl where h: "access_counter t0 = (ah, al)" "access_counter t1 = (bh, bl)" by fastforce
  have u: "uint ah = uint t0 div 2 ^ 32" "uint al = uint t0 mod 2 ^ 32" "uint bh = uint t1 div 2 ^ 32" "uint bl = uint t1 mod 2 ^ 32"
    using access_counter_uint [of t0] access_counter_uint [of t1] unfolding h by simp_all
  let ?c = "if uint bl < uint al then 1 else 0 :: int" and ?bw = "if bl - al > bl then 1 else 0 :: 32 word"
  have lo: "uint (bl - al) = (uint bl - uint al) mod 2 ^ 32" by (simp add: uint_word_ariths)
  have "bl < bl - al \<longleftrightarrow> uint bl < uint al"
  proof (cases "uint bl < uint al")
    case True
    then have "(uint bl - uint al + 2 ^ 32) mod 2 ^ 32 = uint bl - uint al + 2 ^ 32"
      using uint_lt2p [of al] uint_ge_0 [of bl] by (intro mod_pos_pos_trivial; simp; linarith)
    then show ?thesis using True lo uint_lt2p [of al] by (simp add: word_less_def)
  next
    case False
    then have "(uint bl - uint al) mod 2 ^ 32 = uint bl - uint al"
      using uint_lt2p [of bl] uint_ge_0 [of al] by (intro mod_pos_pos_trivial; simp; linarith)
    then show ?thesis using False lo uint_ge_0 [of al] by (simp add: word_less_def)
  qed
  then have bw: "uint ?bw = ?c" by simp
  have "uint (bh - ah - ?bw) = (uint bh - uint ah - ?c) mod 2 ^ 32" unfolding bw [symmetric] by (simp add: uint_word_ariths mod_simps)
  then have "uint (bh - ah - ?bw) * 2 ^ 32 + uint (bl - al) = (uint t1 - uint t0) mod (2 ^ 32 * 2 ^ 32)"
    using long_subtraction [of "2 ^ 32" ?c "uint t1" "uint t0", folded u, OF _ refl] unfolding lo by (simp only: zero_less_power zero_less_numeral)
  also have "\<dots> = uint (t1 - t0)" by (simp add: uint_word_ariths)
  finally have e: "uint (t1 - t0) = uint (bh - ah - ?bw) * 2 ^ 32 + uint (bl - al)" by (rule sym)
  have f: "cyc_hi (s\<lparr>cyc_hi := ah, cyc_lo := al\<rparr>) = ah" "cyc_lo (s\<lparr>cyc_hi := ah, cyc_lo := al\<rparr>) = al" by simp_all
  have "get_counter t1 (start_counter t0 s) = real (unat (bh - ah - ?bw)) * real (2 ^ 30) * 4 + real (unat (bl - al))"
    by (simp only: get_counter_def start_counter_def h prod.case Let_def f)
  moreover have "real_of_int (uint (t1 - t0)) = real_of_int (uint (bh - ah - ?bw)) * 2 ^ 32 + real_of_int (uint (bl - al))"
    unfolding e by (simp only: of_int_add of_int_mult of_int_power of_int_numeral)
  ultimately show ?thesis by (simp only: of_nat_unat of_int_uint) simp
qed

section \<open>Properties\<close>

text \<open>The cycle counter: the subtraction over the two 32-bit halves with a borrow is the difference of the 64-bit
  readings modulo \<open>2 ^ 64\<close>, so the measured time is never negative, also when the counter wraps around.\<close>

theorem get_counter_exact: "get_counter t1 (start_counter t0 s) = real (unat (t1 - t0))"
  by (rule get_counter_difference)

text \<open>The calibration records nothing or the cost of an event above the threshold.\<close>

lemma callibrate_range:
  "\<lbrakk>callibrate_loop e oldt oldc rs s = Some s'; cyc_per_tick s = 0 \<or> cyc_per_tick s > RECORDTHRESH\<rbrakk> \<Longrightarrow>
     (cyc_per_tick s' = 0 \<or> cyc_per_tick s' > RECORDTHRESH) \<and> cyc_hi s' = cyc_hi s \<and> cyc_lo s' = cyc_lo s"
proof (induction e oldt oldc rs s rule: callibrate_loop.induct)
  case (1 e oldt oldc rs s)
  show ?case
  proof (cases "NEVENT \<le> e \<or> rs = []")
    case True
    then show ?thesis using 1(4,5) by (subst (asm) callibrate_loop.simps) (auto split: if_splits list.splits)
  next
    case False
    then obtain tsc newc rs' where rs: "rs = (tsc, newc) # rs'" by (cases rs) auto
    then show ?thesis using 1 False by (subst (asm) (4) callibrate_loop.simps) (simp add: Let_def split: if_splits)
  qed
qed

text \<open>The compensated measurement subtracts the recorded cost per clock tick.\<close>

lemma comp_counter_value:
  assumes "start_comp_counter cal u0 t0 s = Some s1"
  shows "get_comp_counter t1 u1 s1 = real (unat (t1 - t0)) - real_of_int (u1 - u0) * cyc_per_tick s1"
proof -
  obtain s0 where s1: "s1 = start_counter t0 (s0\<lparr>start_tick := u0\<rparr>)"
    using assms by (auto simp: start_comp_counter_def split: prod.splits option.splits if_splits)
  then have "start_tick s1 = u0" by (simp add: start_counter_def split: prod.split)
  then show ?thesis using get_counter_difference [of t1 t0 "s0\<lparr>start_tick := u0\<rparr>"] by (simp add: get_comp_counter_def Let_def s1)
qed

text \<open>Both timers report the elapsed seconds per run: \<open>secs\<close> is a time in seconds.\<close>

definition secs :: "int \<times> int \<Rightarrow> real" where
  "secs t = real_of_int (fst t) + real_of_int (snd t) / 1000000"

lemma ftimer_gettod_secs: "ftimer_gettod t0 t1 n = (secs t1 - secs t0) / real n"
  by (cases "n = 0") (simp_all add: ftimer_gettod_def Let_def secs_def field_simps)

lemma ftimer_itimer_secs: "ftimer_itimer r0 r1 n = (secs r0 - secs r1) / real n"
  by (simp add: ftimer_itimer_def get_etime_def Let_def secs_def field_simps)

lemma mhz_full_rate: "fst (mhz_full t0 t1 n s) = real (unat (t1 - t0)) / real n / 1000000"
  by (simp add: mhz_full_def Let_def get_counter_difference field_simps)

end
