(* ===== verification/Stock_Spec.thy ===== *)
theory Stock_Spec
  imports C_Strings
begin

text \<open>
  What the commands of the stock server rely on: a table of stocks with lookup, insertion and the
  checked change of a count.  Both servers keep the table as a binary tree; the laws below are what
  \<open>sell\<close>, \<open>buy\<close> and \<open>show\<close> need of it.
\<close>

datatype STATUS = SUCCESS | ERROR | NOCMD | INVARG | NOTENOUGHERR | NL

type_synonym table = "int \<rightharpoonup> int \<times> int"

text \<open>The abstract change of a count: the table maps an identifier to its count and price.\<close>

definition abs_modify :: "int \<Rightarrow> int \<Rightarrow> table \<Rightarrow> STATUS \<times> table" where
  "abs_modify i n T =
     (case T i of
        None \<Rightarrow> (ERROR, T)
      | Some (c, p) \<Rightarrow> if int32 (c + n) < 0 then (NOTENOUGHERR, T) else (SUCCESS, T(i \<mapsto> (int32 (c + n), p))))"

definition counts_ok :: "table \<Rightarrow> bool" where
  "counts_ok T \<longleftrightarrow> (\<forall>(c, p) \<in> ran T. 0 \<le> c \<and> in_int32 c)"

lemma counts_okD: "counts_ok T \<Longrightarrow> T i = Some (c, p) \<Longrightarrow> 0 \<le> c \<and> in_int32 c"
  by (auto simp: counts_ok_def ran_def)

lemma abs_modify_counts: "counts_ok T \<Longrightarrow> counts_ok (snd (abs_modify i n T))"
  by (auto simp: abs_modify_def counts_ok_def ran_def split: option.splits if_splits)

lemma abs_modify_other: "j \<noteq> i \<Longrightarrow> snd (abs_modify i n T) j = T j"
  by (auto simp: abs_modify_def split: option.splits)

fun abs_run :: "(int \<times> int) list \<Rightarrow> table \<Rightarrow> table" where
  "abs_run [] T = T"
| "abs_run ((i, n) # xs) T = abs_run xs (snd (abs_modify i n T))"

lemma abs_run_dom: "dom (abs_run xs T) = dom T"
  by (induction xs T rule: abs_run.induct) (auto simp: abs_modify_def split: option.splits)

lemma abs_run_counts: "counts_ok T \<Longrightarrow> counts_ok (abs_run xs T)"
  by (induction xs T rule: abs_run.induct) (simp_all add: abs_modify_counts)

locale stock_store =
  fixes ok :: "'s \<Rightarrow> bool"
    and table :: "'s \<Rightarrow> table"
    and empty :: "'s"
    and insert_stock :: "'s \<Rightarrow> int \<Rightarrow> int \<Rightarrow> int \<Rightarrow> 's"
    and modify_stock :: "int \<Rightarrow> int \<Rightarrow> 's \<Rightarrow> (STATUS \<times> 's) option"
  assumes ok_empty: "ok empty" and table_empty: "table empty = Map.empty"
    and insert_ok: "ok s \<Longrightarrow> ok (insert_stock s i c p)"
    and insert_table: "ok s \<Longrightarrow> table (insert_stock s i c p) = (if i \<in> dom (table s) then table s else (table s)(i \<mapsto> (c, p)))"
    and modify_refines: "ok s \<Longrightarrow> \<exists>st s'. modify_stock i n s = Some (st, s') \<and> ok s' \<and> abs_modify i n (table s) = (st, table s')"
begin

fun run :: "(int \<times> int) list \<Rightarrow> 's \<Rightarrow> 's option" where
  "run [] s = Some s"
| "run ((i, n) # xs) s = (case modify_stock i n s of None \<Rightarrow> None | Some (_, s') \<Rightarrow> run xs s')"

lemma run_refines: "ok s \<Longrightarrow> \<exists>s'. run xs s = Some s' \<and> ok s' \<and> table s' = abs_run xs (table s)"
proof (induction xs arbitrary: s)
  case Nil
  then show ?case by simp
next
  case (Cons x xs)
  obtain i n where x: "x = (i, n)" by (cases x)
  obtain st s1 where s1: "modify_stock i n s = Some (st, s1)" "ok s1" "abs_modify i n (table s) = (st, table s1)"
    using modify_refines [OF Cons.prems] by blast
  from Cons.IH [OF s1(2)] s1 show ?case by (auto simp: x)
qed

definition load :: "(int \<times> int \<times> int) list \<Rightarrow> 's" where
  "load rows = foldl (\<lambda>s (i, c, p). insert_stock s i c p) empty rows"

lemma load_table:
  assumes "distinct (map fst rows)"
  shows "ok (load rows) \<and> table (load rows) = map_of rows"
  using assms
proof (induction rows rule: rev_induct)
  case Nil
  then show ?case by (simp add: load_def ok_empty table_empty)
next
  case (snoc r rows)
  obtain i c p where r: "r = (i, c, p)" by (metis prod_cases3)
  have IH: "ok (load rows)" "table (load rows) = map_of rows" using snoc by auto
  have "load (rows @ [r]) = insert_stock (load rows) i c p" by (simp add: load_def r)
  moreover have i: "i \<notin> dom (map_of rows)" using snoc.prems by (auto simp: r dom_map_of_conv_image_fst)
  moreover have "map_of (rows @ [r]) = (map_of rows)(i \<mapsto> (c, p))"
    using i by (auto simp: fun_eq_iff r map_add_def domIff split: option.splits)
  ultimately show ?case using insert_ok [OF IH(1)] insert_table [OF IH(1)] IH(2) by simp
qed

end

end
