(* ===== verification/Stock_Tree.thy ===== *)
theory Stock_Tree
  imports Stock_Spec
begin

text \<open>
  The in-memory table of the event-driven server
  (\<^verbatim>\<open>concurrent_stockserver/event_driven/binary_tree.c\<close>): a binary tree keyed by the stock's
  identifier.  A pointer to a node is the subtree below it, the null pointer is \<open>NullStock\<close>; the
  update through the pointer that \<open>find\<close> returned is \<open>set_count\<close> along the same path.
\<close>

section \<open>The program\<close>

datatype stock = NullStock | Stock int int int stock stock

text \<open>The arguments of \<open>Stock\<close> are \<^verbatim>\<open>id\<close>, \<^verbatim>\<open>price\<close>, \<^verbatim>\<open>count\<close>, \<^verbatim>\<open>left\<close> and \<^verbatim>\<open>right\<close>.\<close>

fun stock_insert :: "stock \<Rightarrow> int \<Rightarrow> int \<Rightarrow> int \<Rightarrow> stock" where
  "stock_insert NullStock i c p = Stock i p c NullStock NullStock"
| "stock_insert (Stock ri rp rc l r) i c p =
     (if ri > i then Stock ri rp rc (stock_insert l i c p) r else Stock ri rp rc l (stock_insert r i c p))"

fun print_to_buf :: "stock \<Rightarrow> string \<Rightarrow> STATUS \<times> string" where
  "print_to_buf NullStock buf = (ERROR, buf)"
| "print_to_buf (Stock i p c l r) buf =
     (let buf1 = buf @ show_int i @ '' '' @ show_int c @ '' '' @ show_int p @ [NEWLINE];
          buf2 = snd (print_to_buf l buf1);
          buf3 = snd (print_to_buf r buf2)
      in (SUCCESS, buf3))"

fun stock_find :: "int \<Rightarrow> stock \<Rightarrow> stock" where
  "stock_find i NullStock = NullStock"
| "stock_find i (Stock ri rp rc l r) =
     (if i = ri then Stock ri rp rc l r else if i > ri then stock_find i r else stock_find i l)"

fun set_count :: "int \<Rightarrow> int \<Rightarrow> stock \<Rightarrow> stock" where
  "set_count i v NullStock = NullStock"
| "set_count i v (Stock ri rp rc l r) =
     (if i = ri then Stock ri rp v l r
      else if i > ri then Stock ri rp rc l (set_count i v r) else Stock ri rp rc (set_count i v l) r)"

definition modify :: "int \<Rightarrow> int \<Rightarrow> stock \<Rightarrow> STATUS \<times> stock" where
  "modify i n root =
     (case stock_find i root of
        NullStock \<Rightarrow> (ERROR, root)
      | Stock si sp sc _ _ \<Rightarrow>
          if int32 (sc + n) < 0 then (NOTENOUGHERR, root)
          else (SUCCESS, set_count i (int32 (sc + n)) root))"

section \<open>The tree as a table\<close>

definition table_of :: "stock \<Rightarrow> table" where
  "table_of t i = (case stock_find i t of NullStock \<Rightarrow> None | Stock _ p c _ _ \<Rightarrow> Some (c, p))"

fun stock_keys :: "stock \<Rightarrow> int set" where
  "stock_keys NullStock = {}"
| "stock_keys (Stock i p c l r) = {i} \<union> stock_keys l \<union> stock_keys r"

text \<open>Search order as \<open>insert\<close> makes it: equal identifiers go right.\<close>

fun bst :: "stock \<Rightarrow> bool" where
  "bst NullStock = True"
| "bst (Stock i p c l r) = ((\<forall>j \<in> stock_keys l. j < i) \<and> (\<forall>j \<in> stock_keys r. i \<le> j) \<and> bst l \<and> bst r)"

lemma table_of_simps [simp]:
  "table_of NullStock = Map.empty"
  "table_of (Stock ri rp rc l r) i = (if i = ri then Some (rc, rp) else if i > ri then table_of r i else table_of l i)"
  by (auto simp: table_of_def fun_eq_iff)

lemma keys_insert [simp]: "stock_keys (stock_insert t i c p) = {i} \<union> stock_keys t"
  by (induction t) auto

lemma bst_insert [simp]: "bst t \<Longrightarrow> bst (stock_insert t i c p)"
  by (induction t) auto

lemma keys_set_count [simp]: "stock_keys (set_count i v t) = stock_keys t"
  by (induction t) auto

lemma bst_set_count [simp]: "bst t \<Longrightarrow> bst (set_count i v t)"
  by (induction t) auto

lemma table_of_insert:
  "table_of (stock_insert t i c p) j = (if j = i \<and> table_of t i = None then Some (c, p) else table_of t j)"
  by (induction t) auto

lemma table_of_set_count:
  "table_of (set_count i v t) j = (if j = i then map_option (\<lambda>(c, p). (v, p)) (table_of t i) else table_of t j)"
  by (induction t) auto

lemma table_of_keys: "bst t \<Longrightarrow> table_of t i = None \<longleftrightarrow> i \<notin> stock_keys t"
  by (induction t) force+

lemma modify_table: "abs_modify i n (table_of t) = (fst (modify i n t), table_of (snd (modify i n t)))"
proof (cases "stock_find i t")
  case NullStock
  then have "table_of t i = None" by (simp add: table_of_def)
  with NullStock show ?thesis by (simp add: modify_def abs_modify_def)
next
  case (Stock si sp sc l r)
  then have "table_of t i = Some (sc, sp)" by (simp add: table_of_def)
  with Stock show ?thesis by (auto simp: modify_def abs_modify_def fun_eq_iff table_of_set_count)
qed

lemma bst_modify: "bst t \<Longrightarrow> bst (snd (modify i n t))"
  by (auto simp: modify_def split: stock.splits)

interpretation ev: stock_store bst table_of NullStock stock_insert "\<lambda>i n t. Some (modify i n t)"
proof
  fix s i n
  assume "bst s"
  then show "\<exists>st s'. Some (modify i n s) = Some (st, s') \<and> bst s' \<and> abs_modify i n (table_of s) = (st, table_of s')"
    using modify_table [of i n s] bst_modify [of s i n] by (metis prod.collapse)
qed (auto simp: fun_eq_iff table_of_insert)

section \<open>Printing in preorder and inserting again\<close>

fun preorder :: "stock \<Rightarrow> (int \<times> int \<times> int) list" where
  "preorder NullStock = []"
| "preorder (Stock i p c l r) = (i, c, p) # preorder l @ preorder r"

definition insert_all :: "stock \<Rightarrow> (int \<times> int \<times> int) list \<Rightarrow> stock" where
  "insert_all = foldl (\<lambda>t (i, c, p). stock_insert t i c p)"

lemma insert_all_simps [simp]:
  "insert_all t [] = t" "insert_all t ((i, c, p) # rows) = insert_all (stock_insert t i c p) rows"
  "insert_all t (xs @ ys) = insert_all (insert_all t xs) ys"
  by (simp_all add: insert_all_def)

lemma keys_preorder: "stock_keys t = fst ` set (preorder t)"
  by (induction t) (auto simp: image_Un)

lemma insert_all_left:
  "\<forall>x \<in> set rows. fst x < i \<Longrightarrow> insert_all (Stock i p c l r) rows = Stock i p c (insert_all l rows) r"
  by (induction rows arbitrary: l) auto

lemma insert_all_right:
  "\<forall>x \<in> set rows. i \<le> fst x \<Longrightarrow> insert_all (Stock i p c l r) rows = Stock i p c l (insert_all r rows)"
  by (induction rows arbitrary: r) auto

lemma insert_preorder: "bst t \<Longrightarrow> insert_all NullStock (preorder t) = t"
proof (induction t)
  case (Stock i p c l r)
  have l: "\<forall>x \<in> set (preorder l). fst x < i" and r: "\<forall>x \<in> set (preorder r). i \<le> fst x"
    using Stock.prems keys_preorder by force+
  with Stock show ?case by (simp add: insert_all_left [OF l] insert_all_right [OF r])
qed simp

definition print_row :: "int \<times> int \<times> int \<Rightarrow> string" where
  "print_row = (\<lambda>(i, c, p). show_int i @ '' '' @ show_int c @ '' '' @ show_int p @ [NEWLINE])"

lemma print_to_buf_rows: "snd (print_to_buf t buf) = buf @ concat (map print_row (preorder t))"
  by (induction t arbitrary: buf) (simp_all add: print_row_def)

lemma print_to_buf_status: "fst (print_to_buf t buf) = (if t = NullStock then ERROR else SUCCESS)"
  by (cases t) (simp_all add: Let_def)

end
