(* ===== verification/Stock_File.thy ===== *)
theory Stock_File
  imports Stock_Tree
begin

text \<open>
  The stock file (\<^verbatim>\<open>concurrent_stockserver/event_driven/stockfile_handle.c\<close>): loading the tree
  at start, writing it back, and the time check.  The disk holds the text of \<^verbatim>\<open>stock.txt\<close>, if
  there is one.  A write through a full line buffer, which the C code does not check, is the fault
  \<open>BufferOverflow\<close>.
\<close>

datatype srv_fault = BufferOverflow | OutOfBounds | NoStockFile | NullArgument | BadFree | TooManyClients

definition MAXLINE :: nat where "MAXLINE = 8192"

type_synonym timeval = "int \<times> int"

record disk =
  stock_txt :: "string option"
  last_fsync_time :: timeval

section \<open>The program\<close>

text \<open>One \<^verbatim>\<open>fscanf(fp, "%s %s %s\n", id, count, price)\<close>: a conversion that meets the end of the
  file leaves its buffer as it was, and so do the ones after it.  The result is the three buffers
  and the input that is left; end of file has been seen exactly when that is empty.\<close>

definition fscanf3 :: "string \<Rightarrow> string \<times> string \<times> string \<Rightarrow> (string \<times> string \<times> string) \<times> string" where
  "fscanf3 s = (\<lambda>(a, b, c).
     case scan_word s of
       None \<Rightarrow> ((a, b, c), [])
     | Some (a', s1) \<Rightarrow>
         (case scan_word s1 of
            None \<Rightarrow> ((a', b, c), [])
          | Some (b', s2) \<Rightarrow>
              (case scan_word s2 of
                 None \<Rightarrow> ((a', b', c), [])
               | Some (c', s3) \<Rightarrow> ((a', b', c'), dropWhile isspace s3))))"

lemma fscanf3_length:
  assumes "fscanf3 s bufs = (bufs', r)" and "r \<noteq> []"
  shows "length r < length s"
proof -
  obtain a b c where bufs: "bufs = (a, b, c)" by (metis prod_cases3)
  from assms obtain a' s1 b' s2 c' s3 where
    "scan_word s = Some (a', s1)" "scan_word s1 = Some (b', s2)" "scan_word s2 = Some (c', s3)"
    "r = dropWhile isspace s3"
    by (auto simp: fscanf3_def bufs split: option.splits prod.splits)
  then have "length s1 < length s" "length s2 < length s1" "length s3 < length s2" "length r \<le> length s3"
    using scan_word_length length_dropWhile_le by blast+
  then show ?thesis by simp
qed

function read_loop :: "string \<Rightarrow> string \<times> string \<times> string \<Rightarrow> stock \<Rightarrow> stock" where
  "read_loop s bufs root =
     (case fscanf3 s bufs of
        (bufs', r) \<Rightarrow>
          let root' = stock_insert root (atoi (fst bufs')) (atoi (fst (snd bufs'))) (atoi (snd (snd bufs')))
          in if r = [] then root' else read_loop r bufs' root')"
  by pat_completeness auto
termination
  by (relation "measure (\<lambda>(s, _, _). length s)") (simp, metis case_prod_conv fscanf3_length in_measure)

declare read_loop.simps [simp del]

text \<open>\<open>uninit\<close> is what the three buffers hold before anything is read into them.\<close>

definition read_stockfile :: "timeval \<Rightarrow> string \<times> string \<times> string \<Rightarrow> disk \<Rightarrow> stock \<Rightarrow> srv_fault + (disk \<times> stock)" where
  "read_stockfile now uninit d root =
     (case stock_txt d of
        None \<Rightarrow> Inl NoStockFile
      | Some s \<Rightarrow> Inr (d\<lparr>last_fsync_time := now\<rparr>, read_loop s uninit root))"

text \<open>The file is opened without \<^verbatim>\<open>O_TRUNC\<close>: what lies behind the written part stays.\<close>

definition fsync_stockfile :: "timeval \<Rightarrow> stock \<Rightarrow> disk \<Rightarrow> srv_fault + disk" where
  "fsync_stockfile now root d =
     (let buf = snd (print_to_buf root [])
      in if length buf \<ge> MAXLINE then Inl BufferOverflow
         else Inr (d\<lparr>last_fsync_time := now,
                     stock_txt := map_option (\<lambda>old. buf @ drop (length buf) old) (stock_txt d)\<rparr>))"

definition MAX_FSYNC_TIME :: int where "MAX_FSYNC_TIME = 16"

definition time_check :: "timeval \<Rightarrow> disk \<Rightarrow> int" where
  "time_check cur d =
     (let diff = fst cur + snd cur - fst (last_fsync_time d) - snd (last_fsync_time d)
      in if diff > MAX_FSYNC_TIME then 1 else -1)"

section \<open>Reading back what was printed\<close>

definition row_ok :: "int \<times> int \<times> int \<Rightarrow> bool" where
  "row_ok r \<longleftrightarrow> in_int32 (fst r) \<and> in_int32 (fst (snd r)) \<and> in_int32 (snd (snd r))"

lemma isspace_blank [simp]: "isspace (CHR '' '')" "isspace NEWLINE"
  by (simp_all add: isspace_def)

lemma scan_show_int:
  assumes "isspace c"
  shows "scan_word (show_int i @ c # s) = Some (show_int i, c # s)"
  using scan_word_append [of "show_int i" c s] show_int_no_space [of _ i] assms by simp

lemma fscanf3_row:
  "fscanf3 (print_row (i, c, p) @ s) bufs = ((show_int i, show_int c, show_int p), dropWhile isspace s)"
  by (cases bufs) (simp add: print_row_def fscanf3_def scan_show_int del: scan_word_blank, simp add: scan_show_int)

lemma print_row_head: "dropWhile isspace (print_row r @ s) = print_row r @ s"
proof -
  obtain i c p where r: "r = (i, c, p)" by (metis prod_cases3)
  obtain x xs where x: "show_int i = x # xs" by (cases "show_int i") auto
  then have "\<not> isspace x" using show_int_no_space [of x i] by simp
  with x r show ?thesis by (simp add: print_row_def)
qed

lemma read_loop_rows:
  "\<lbrakk>rows \<noteq> []; \<forall>r \<in> set rows. row_ok r\<rbrakk> \<Longrightarrow>
     read_loop (concat (map print_row rows)) bufs root = insert_all root rows"
proof (induction rows arbitrary: bufs root)
  case (Cons r rows)
  obtain i c p where r: "r = (i, c, p)" by (metis prod_cases3)
  have ok: "in_int32 i" "in_int32 c" "in_int32 p" using Cons.prems(2) by (auto simp: r row_ok_def)
  let ?s = "concat (map print_row rows)"
  have s: "dropWhile isspace ?s = ?s" by (cases rows) (simp_all add: print_row_head)
  have "?s \<noteq> []" if "rows \<noteq> []"
    using that by (cases rows) (auto simp: print_row_def split: prod.splits)
  then have "?s = [] \<longleftrightarrow> rows = []" by auto
  then show ?case
    using Cons.IH Cons.prems(2) ok
    by (subst read_loop.simps) (auto simp: r fscanf3_row s)
qed simp

definition stock_ok :: "stock \<Rightarrow> bool" where
  "stock_ok t \<longleftrightarrow> bst t \<and> t \<noteq> NullStock \<and> list_all row_ok (preorder t)"

lemma read_printed:
  assumes "stock_ok t"
  shows "read_loop (snd (print_to_buf t [])) bufs NullStock = t"
proof -
  have "preorder t \<noteq> []" using assms by (cases t) (auto simp: stock_ok_def)
  then show ?thesis
    using assms read_loop_rows [of "preorder t"] insert_preorder [of t]
    by (simp add: print_to_buf_rows stock_ok_def list_all_iff)
qed

end
