(* ===== verification/Stock_Parser.thy ===== *)
theory Stock_Parser
  imports Stock_File
begin

text \<open>
  The command parser of the stock servers
  (\<^verbatim>\<open>concurrent_stockserver/event_driven/parser.c\<close> and the table in \<^verbatim>\<open>impl.c\<close>; the
  thread-based server's parser differs in the name of the structure only).  The parser walks over a
  \<^verbatim>\<open>char\<close> array whose bytes behind the line are whatever was there before: the argument \<open>buf\<close> is
  the array from the current position to its end, and running off it is the fault \<open>OutOfBounds\<close>.
\<close>

section \<open>The program\<close>

datatype cmd_fp = show_fp | sell_fp | buy_fp | exit_client_fp

text \<open>\<open>c_args\<close> is \<open>None\<close> and \<open>c_argc\<close> is \<open>None\<close> while the C field is uninitialised; an entry of the
  argument array is \<open>None\<close> when it is a null pointer.\<close>

record command =
  c_flag :: nat
  c_connfd :: int
  c_poolidx :: nat
  c_name :: string
  c_result :: string
  c_args :: "string option list option"
  c_argc :: "nat option"
  c_fp :: cmd_fp

definition NOARGS :: nat where "NOARGS = 0"
definition INTINT :: nat where "INTINT = 1"

definition command_list :: "(nat \<times> string \<times> cmd_fp) list" where
  "command_list = [(0, ''show'', show_fp), (1, ''sell'', sell_fp), (1, ''buy'', buy_fp), (0, ''exit'', exit_client_fp)]"

definition whitespace :: "char \<Rightarrow> bool" where
  "whitespace c \<longleftrightarrow> c = CHR '' '' \<or> c = CHR 0x09"

definition match_cmd :: "string \<Rightarrow> nat \<Rightarrow> command \<Rightarrow> nat \<times> string \<times> cmd_fp \<Rightarrow> command" where
  "match_cmd buf pos cmd = (\<lambda>(fl, nm, f).
     if strncmp_eq nm buf pos
     then cmd\<lparr>c_flag := fl, c_name := nm, c_args := map_option (\<lambda>a. a[0 := Some []]) (c_args cmd),
              c_argc := Some 1, c_fp := f\<rparr>
     else cmd)"

definition find_cmd :: "string \<Rightarrow> command \<Rightarrow> srv_fault + (STATUS \<times> command \<times> nat)" where
  "find_cmd buf cmd0 =
     (let cmd = cmd0\<lparr>c_args := Some [None, None, None, None]\<rparr>
      in if buf = [] then Inl OutOfBounds
         else if hd buf = NEWLINE then Inr (ERROR, cmd, 0)
         else case skip (\<lambda>c. \<not> whitespace c \<and> c \<noteq> NEWLINE) buf of
             None \<Rightarrow> Inl OutOfBounds
           | Some pos \<Rightarrow>
               let cmd' = foldl (match_cmd buf pos) cmd command_list
               in if (case c_args cmd' of Some (None # _) \<Rightarrow> True | _ \<Rightarrow> False) then Inr (ERROR, cmd', 0)
                  else Inr (SUCCESS, cmd', pos))"

definition set_arg :: "nat \<Rightarrow> string \<Rightarrow> command \<Rightarrow> command" where
  "set_arg i s cmd = cmd\<lparr>c_args := map_option (\<lambda>a. a[i := Some s]) (c_args cmd)\<rparr>"

definition find_args :: "string \<Rightarrow> command \<Rightarrow> srv_fault + (STATUS \<times> command)" where
  "find_args buf cmd =
     (if c_flag cmd = NOARGS then
        case skip whitespace buf of
          None \<Rightarrow> Inl OutOfBounds
        | Some pos \<Rightarrow> Inr (if buf ! pos \<noteq> NEWLINE then ERROR else SUCCESS, cmd)
      else if c_flag cmd = INTINT then
        case skip whitespace buf of
          None \<Rightarrow> Inl OutOfBounds
        | Some p1 \<Rightarrow>
            let buf1 = drop p1 buf in
            case skip (\<lambda>c. \<not> whitespace c) buf1 of
              None \<Rightarrow> Inl OutOfBounds
            | Some q1 \<Rightarrow>
                let cmd1 = set_arg 1 (c_str (take q1 buf1)) cmd in
                case skip whitespace (drop q1 buf1) of
                  None \<Rightarrow> Inl OutOfBounds
                | Some p2 \<Rightarrow>
                    let buf2 = drop (q1 + p2) buf1 in
                    case skip (\<lambda>c. \<not> whitespace c \<and> c \<noteq> NEWLINE) buf2 of
                      None \<Rightarrow> Inl OutOfBounds
                    | Some q2 \<Rightarrow>
                        let cmd2 = set_arg 2 (c_str (take q2 buf2)) cmd1 in
                        case skip whitespace (drop q2 buf2) of
                          None \<Rightarrow> Inl OutOfBounds
                        | Some p3 \<Rightarrow>
                            Inr (if buf2 ! (q2 + p3) \<noteq> NEWLINE then ERROR else SUCCESS,
                                 cmd2\<lparr>c_argc := Some 3\<rparr>)
      else Inr (SUCCESS, cmd))"

definition parser :: "string \<Rightarrow> int \<Rightarrow> command \<Rightarrow> srv_fault + (STATUS \<times> command)" where
  "parser buf rc cmd =
     (if rc = 1 then Inr (NL, cmd)
      else case find_cmd buf cmd of
          Inl e \<Rightarrow> Inl e
        | Inr (st, cmd1, p) \<Rightarrow>
            if st = ERROR then Inr (NOCMD, cmd1)
            else case find_args (drop p buf) cmd1 of
                Inl e \<Rightarrow> Inl e
              | Inr (st, cmd2) \<Rightarrow> if st = ERROR then Inr (INVARG, cmd2) else Inr (SUCCESS, cmd2))"

section \<open>Scanning\<close>

definition blanks :: "string \<Rightarrow> bool" where
  "blanks s \<longleftrightarrow> list_all whitespace s"

definition word :: "string \<Rightarrow> bool" where
  "word s \<longleftrightarrow> list_all (\<lambda>c. \<not> whitespace c \<and> c \<noteq> NEWLINE \<and> c \<noteq> NUL) s"

lemma word_c_str: "word s \<Longrightarrow> c_str s = s"
  by (induction s) (auto simp: word_def c_str_def)

lemma whitespace_simps [simp]: "whitespace (CHR '' '')" "\<not> whitespace NEWLINE"
  by (simp_all add: whitespace_def)

text \<open>The command word: the last entry of the table that the word is a prefix of.\<close>

definition pick :: "string \<Rightarrow> (nat \<times> string \<times> cmd_fp) option" where
  "pick w = List.find (\<lambda>(fl, nm, f). take (length w) nm = w) (rev command_list)"

lemma find_cmd_word:
  assumes "word w" and "whitespace d \<or> d = NEWLINE" and "w = [] \<longrightarrow> d \<noteq> NEWLINE" and "pick w = Some (fl, nm, f)"
  shows "find_cmd (w @ d # rest) cmd = Inr (SUCCESS,
    cmd\<lparr>c_flag := fl, c_name := nm, c_args := Some [Some [], None, None, None], c_argc := Some 1, c_fp := f\<rparr>, length w)"
proof -
  have nul: "NUL \<notin> set w" using assms(1) by (auto simp: word_def list_all_iff)
  have sk: "skip (\<lambda>c. \<not> whitespace c \<and> c \<noteq> NEWLINE) (w @ d # rest) = Some (length w)"
    by (rule skip_append) (use assms(1,2) in \<open>auto simp: word_def list_all_iff\<close>)
  have m: "strncmp_eq nm (w @ d # rest) (length w) = (take (length w) nm = w)" if "nm \<in> {''show'', ''sell'', ''buy'', ''exit''}" for nm
    by (rule strncmp_prefix) (use nul that in auto)
  have hd: "hd (w @ d # rest) \<noteq> NEWLINE" using assms(1,3) by (cases w) (auto simp: word_def)
  show ?thesis
    using assms(4) hd sk
    by (auto simp: find_cmd_def Let_def command_list_def pick_def match_cmd_def m split: if_splits)
qed

lemma find_args_none:
  assumes "blanks ws" and "c_flag cmd = NOARGS"
  shows "find_args (ws @ NEWLINE # rest) cmd = Inr (SUCCESS, cmd)"
proof -
  have "skip whitespace (ws @ NEWLINE # rest) = Some (length ws)"
    by (rule skip_append) (use assms in \<open>auto simp: blanks_def\<close>)
  then show ?thesis using assms by (simp add: find_args_def)
qed

lemma find_args_two:
  assumes "blanks w1" "blanks w2" "w2 \<noteq> []" "blanks w3" "word a" "a \<noteq> []" "word b" "c_flag cmd = INTINT" "b \<noteq> []"
  shows "find_args (w1 @ a @ w2 @ b @ w3 @ NEWLINE # rest) cmd
    = Inr (SUCCESS, (set_arg 2 b (set_arg 1 a cmd))\<lparr>c_argc := Some 3\<rparr>)"
proof -
  obtain a0 a' where a: "a = a0 # a'" "\<not> whitespace a0" using assms(5,6) by (cases a) (auto simp: word_def)
  obtain b0 b' where b: "b = b0 # b'" "\<not> whitespace b0" using assms(7,9) by (cases b) (auto simp: word_def)
  obtain s0 w2' where w2: "w2 = s0 # w2'" "whitespace s0" using assms(2,3) by (cases w2) (auto simp: blanks_def)
  have 1: "skip whitespace (w1 @ a @ w2 @ b @ w3 @ NEWLINE # rest) = Some (length w1)"
    using skip_append [of whitespace w1 a0] assms(1) a by (simp add: blanks_def)
  have 2: "skip (\<lambda>c. \<not> whitespace c) (a @ w2 @ b @ w3 @ NEWLINE # rest) = Some (length a)"
    using skip_append [of "\<lambda>c. \<not> whitespace c" a s0] assms(5) w2 by (auto simp: word_def list_all_iff)
  have 3: "skip whitespace (w2 @ b @ w3 @ NEWLINE # rest) = Some (length w2)"
    using skip_append [of whitespace w2 b0] assms(2) b by (simp add: blanks_def)
  have 4: "skip (\<lambda>c. \<not> whitespace c \<and> c \<noteq> NEWLINE) (b @ w3 @ NEWLINE # rest) = Some (length b)"
    using skip_append [of "\<lambda>c. \<not> whitespace c \<and> c \<noteq> NEWLINE" b] assms(4,7)
    by (cases w3) (auto simp: word_def blanks_def list_all_iff)
  have 5: "skip whitespace (w3 @ NEWLINE # rest) = Some (length w3)"
    using skip_append [of whitespace w3 NEWLINE] assms(4) by (simp add: blanks_def)
  show ?thesis
    using 1 2 3 4 5 assms(8) word_c_str [OF assms(5)] word_c_str [OF assms(7)]
    by (simp add: find_args_def NOARGS_def INTINT_def nth_append)
qed

end
