(* ===== verification/Rio.thy ===== *)
theory Rio
  imports C_Strings
begin

text \<open>
  The robust I/O package and the signal-safe output of \<^verbatim>\<open>csapp.c\<close> (the servers' \<^verbatim>\<open>util.c\<close>
  has copies of the buffered reader).  What the kernel will answer to the coming \<^verbatim>\<open>read\<close> or
  \<^verbatim>\<open>write\<close> calls is a list; an exhausted input list means end of file.
\<close>

datatype rd = Data string | RdEintr | RdErr

definition RIO_BUFSIZE :: nat where "RIO_BUFSIZE = 8192"

fun sys_read :: "nat \<Rightarrow> rd list \<Rightarrow> rd \<times> rd list" where
  "sys_read n [] = (Data [], [])"
| "sys_read n (Data d # rs) = (if length d \<le> n then (Data d, rs) else (Data (take n d), Data (drop n d) # rs))"
| "sys_read n (r # rs) = (r, rs)"

record rio =
  rio_fd :: int
  rio_cnt :: int
  rio_bufptr :: nat
  rio_buf :: string

section \<open>The program\<close>

definition rio_readinitb :: "rio \<Rightarrow> int \<Rightarrow> rio" where
  "rio_readinitb rp fd = rp\<lparr>rio_fd := fd, rio_cnt := 0, rio_bufptr := 0\<rparr>"

text \<open>The refill loop of \<open>rio_read\<close>: \<open>Some r\<close> is an early return with \<open>r\<close>.\<close>

fun rio_fill :: "rio \<Rightarrow> rd list \<Rightarrow> int option \<times> rio \<times> rd list" where
  "rio_fill rp rs =
     (if rio_cnt rp > 0 then (None, rp, rs)
      else case rs of
          [] \<Rightarrow> (Some 0, rp\<lparr>rio_cnt := 0\<rparr>, [])
        | r # rs' \<Rightarrow>
            (case sys_read RIO_BUFSIZE rs of
               (Data d, rs2) \<Rightarrow>
                 if d = [] then (Some 0, rp\<lparr>rio_cnt := 0\<rparr>, rs2)
                 else (None, rp\<lparr>rio_cnt := int (length d), rio_bufptr := 0, rio_buf := d @ drop (length d) (rio_buf rp)\<rparr>, rs2)
             | (RdErr, rs2) \<Rightarrow> (Some (-1), rp\<lparr>rio_cnt := -1\<rparr>, rs2)
             | (RdEintr, rs2) \<Rightarrow> rio_fill (rp\<lparr>rio_cnt := -1\<rparr>) rs'))"

declare rio_fill.simps [simp del]

definition rio_read :: "rio \<Rightarrow> nat \<Rightarrow> rd list \<Rightarrow> int \<times> string \<times> rio \<times> rd list" where
  "rio_read rp n rs =
     (case rio_fill rp rs of
        (Some r, rp1, rs1) \<Rightarrow> (r, [], rp1, rs1)
      | (None, rp1, rs1) \<Rightarrow>
          let cnt = (if rio_cnt rp1 < int n then nat (rio_cnt rp1) else n)
          in (int cnt, take cnt (drop (rio_bufptr rp1) (rio_buf rp1)),
              rp1\<lparr>rio_bufptr := rio_bufptr rp1 + cnt, rio_cnt := rio_cnt rp1 - int cnt\<rparr>, rs1))"

fun rio_readline_loop :: "nat \<Rightarrow> nat \<Rightarrow> string \<Rightarrow> rio \<Rightarrow> rd list \<Rightarrow> int \<times> string \<times> rio \<times> rd list" where
  "rio_readline_loop 0 n acc rp rs = (int n - 1, acc, rp, rs)"
| "rio_readline_loop (Suc k) n acc rp rs =
     (case rio_read rp 1 rs of
        (rc, d, rp', rs') \<Rightarrow>
          if rc = 1 then
            if d = [NEWLINE] then (int (n + 1) - 1, acc @ d, rp', rs')
            else rio_readline_loop k (n + 1) (acc @ d) rp' rs'
          else if rc = 0 then (if n = 1 then (0, acc, rp', rs') else (int n - 1, acc, rp', rs'))
          else (-1, acc, rp', rs'))"

definition rio_readlineb :: "rio \<Rightarrow> nat \<Rightarrow> rd list \<Rightarrow> int \<times> string \<times> rio \<times> rd list" where
  "rio_readlineb rp maxlen rs = rio_readline_loop (maxlen - 1) 1 [] rp rs"

function rio_readnb_loop :: "nat \<Rightarrow> string \<Rightarrow> rio \<Rightarrow> rd list \<Rightarrow> int option \<times> string \<times> rio \<times> rd list" where
  "rio_readnb_loop nleft acc rp rs =
     (if nleft > 0 then
        (case rio_read rp nleft rs of
           (nread, d, rp', rs') \<Rightarrow>
             if nread < 0 then (Some (-1), acc, rp', rs')
             else if nread = 0 then (None, acc, rp', rs')
             else rio_readnb_loop (nleft - nat nread) (acc @ d) rp' rs')
      else (None, acc, rp, rs))"
  by pat_completeness auto
termination
  by (relation "measure (\<lambda>(n, _, _, _). n)") auto

declare rio_readnb_loop.simps [simp del]

definition rio_readnb :: "rio \<Rightarrow> nat \<Rightarrow> rd list \<Rightarrow> int \<times> string \<times> rio \<times> rd list" where
  "rio_readnb rp n rs =
     (case rio_readnb_loop n [] rp rs of
        (Some r, acc, rp', rs') \<Rightarrow> (r, acc, rp', rs')
      | (None, acc, rp', rs') \<Rightarrow> (int (length acc), acc, rp', rs'))"

text \<open>The unbuffered reader.\<close>

function rio_readn_loop :: "nat \<Rightarrow> string \<Rightarrow> rd list \<Rightarrow> int option \<times> string \<times> rd list" where
  "rio_readn_loop nleft acc rs =
     (if nleft > 0 then
        (case sys_read nleft rs of
           (RdErr, rs') \<Rightarrow> (Some (-1), acc, rs')
         | (RdEintr, rs') \<Rightarrow> rio_readn_loop nleft acc (tl rs)
         | (Data d, rs') \<Rightarrow>
             if d = [] then (None, acc, rs') else rio_readn_loop (nleft - length d) (acc @ d) rs')
      else (None, acc, rs))"
  by pat_completeness auto
termination
proof (relation "measures [\<lambda>(n, _, _). n, \<lambda>(_, _, rs). length rs]", goal_cases)
  case (2 nleft acc rs x y d)
  then show ?case by (cases d) auto
next
  case (3 nleft acc rs x y)
  then have "rs \<noteq> []" by (cases rs) auto
  then show ?case by (cases rs) auto
qed simp

declare rio_readn_loop.simps [simp del]

definition rio_readn :: "nat \<Rightarrow> rd list \<Rightarrow> int \<times> string \<times> rd list" where
  "rio_readn n rs =
     (case rio_readn_loop n [] rs of
        (Some r, acc, rs') \<Rightarrow> (r, acc, rs')
      | (None, acc, rs') \<Rightarrow> (int (length acc), acc, rs'))"

text \<open>Writing: the kernel accepts some bytes, is interrupted, or fails; an exhausted list accepts
  everything.  The result has the bytes that went out.  \<open>eintr\<close> says whether \<^verbatim>\<open>errno\<close> is
  \<^verbatim>\<open>EINTR\<close>, which the loop also consults, stale, after a write of no bytes.\<close>

datatype wr = Wrote nat | WrEintr | WrErr

fun rio_writen_loop :: "bool \<Rightarrow> string \<Rightarrow> string \<Rightarrow> wr list \<Rightarrow> bool \<times> string \<times> wr list" where
  "rio_writen_loop eintr out bufp [] = (True, out @ bufp, [])"
| "rio_writen_loop eintr out bufp (w # ws) =
     (if bufp = [] then (True, out, w # ws)
      else case w of
          WrEintr \<Rightarrow> rio_writen_loop True out bufp ws
        | WrErr \<Rightarrow> (False, out, ws)
        | Wrote k \<Rightarrow> if k = 0 then (if eintr then rio_writen_loop eintr out bufp ws else (False, out, ws))
                     else rio_writen_loop eintr (out @ take k bufp) (drop k bufp) ws)"

definition rio_writen :: "bool \<Rightarrow> string \<Rightarrow> wr list \<Rightarrow> int \<times> string \<times> wr list" where
  "rio_writen eintr usrbuf ws =
     (case rio_writen_loop eintr [] usrbuf ws of
        (True, out, ws') \<Rightarrow> (int (length usrbuf), out, ws')
      | (False, out, ws') \<Rightarrow> (-1, out, ws'))"

text \<open>The wrappers end the process on an error (\<open>None\<close>).\<close>

definition Rio_readn :: "nat \<Rightarrow> rd list \<Rightarrow> (int \<times> string \<times> rd list) option" where
  "Rio_readn n rs = (case rio_readn n rs of (r, d, rs') \<Rightarrow> if r < 0 then None else Some (r, d, rs'))"

definition Rio_writen :: "bool \<Rightarrow> string \<Rightarrow> wr list \<Rightarrow> (string \<times> wr list) option" where
  "Rio_writen eintr usrbuf ws =
     (case rio_writen eintr usrbuf ws of (r, out, ws') \<Rightarrow> if r \<noteq> int (length usrbuf) then None else Some (out, ws'))"

definition Rio_readnb :: "rio \<Rightarrow> nat \<Rightarrow> rd list \<Rightarrow> (int \<times> string \<times> rio \<times> rd list) option" where
  "Rio_readnb rp n rs = (case rio_readnb rp n rs of (r, x) \<Rightarrow> if r < 0 then None else Some (r, x))"

definition Rio_readlineb :: "rio \<Rightarrow> nat \<Rightarrow> rd list \<Rightarrow> (int \<times> string \<times> rio \<times> rd list) option" where
  "Rio_readlineb rp n rs = (case rio_readlineb rp n rs of (r, x) \<Rightarrow> if r < 0 then None else Some (r, x))"

section \<open>The stream behind a descriptor\<close>

text \<open>All bytes that will arrive before the next end of file or error.\<close>

fun stream :: "rd list \<Rightarrow> string" where
  "stream [] = []"
| "stream (Data d # rs) = (if d = [] then [] else d @ stream rs)"
| "stream (RdEintr # rs) = stream rs"
| "stream (RdErr # rs) = []"

definition clean :: "rd list \<Rightarrow> bool" where
  "clean rs \<longleftrightarrow> Data [] \<notin> set rs \<and> RdErr \<notin> set rs"

definition rio_ok :: "rio \<Rightarrow> bool" where
  "rio_ok rp \<longleftrightarrow> rio_cnt rp > 0 \<longrightarrow> rio_bufptr rp + nat (rio_cnt rp) \<le> length (rio_buf rp)"

definition unread :: "rio \<Rightarrow> string" where
  "unread rp = take (nat (rio_cnt rp)) (drop (rio_bufptr rp) (rio_buf rp))"

definition avail :: "rio \<Rightarrow> rd list \<Rightarrow> string" where
  "avail rp rs = unread rp @ stream rs"

lemma rio_ok_init [simp]: "rio_ok (rio_readinitb rp fd)" "unread (rio_readinitb rp fd) = []"
  by (simp_all add: rio_ok_def rio_readinitb_def unread_def)

lemma rio_fill_spec:
  "\<lbrakk>rio_ok rp; clean rs; rio_fill rp rs = (r, rp', rs')\<rbrakk> \<Longrightarrow>
     rio_ok rp' \<and> clean rs' \<and> avail rp' rs' = avail rp rs
     \<and> (case r of None \<Rightarrow> 0 < rio_cnt rp' | Some e \<Rightarrow> e = 0 \<and> avail rp rs = [] \<and> rio_cnt rp' = 0)"
proof (induction rs arbitrary: rp)
  case Nil
  then show ?case
    by (subst (asm) rio_fill.simps) (auto simp: rio_ok_def avail_def unread_def split: if_splits)
next
  case (Cons x rs)
  show ?case
  proof (cases "rio_cnt rp > 0")
    case True
    then show ?thesis using Cons.prems by (subst (asm) rio_fill.simps) auto
  next
    case False
    then have u: "unread rp = []" by (simp add: unread_def)
    show ?thesis
    proof (cases x)
      case (Data d)
      with Cons.prems False u show ?thesis
        by (subst (asm) rio_fill.simps)
          (auto simp: rio_ok_def avail_def unread_def clean_def RIO_BUFSIZE_def split: if_splits)
    next
      case RdEintr
      have ok: "rio_ok (rp\<lparr>rio_cnt := -1\<rparr>)" by (simp add: rio_ok_def)
      have av: "avail (rp\<lparr>rio_cnt := -1\<rparr>) rs = avail rp (x # rs)" using u RdEintr by (simp add: avail_def unread_def)
      have "rio_fill (rp\<lparr>rio_cnt := -1\<rparr>) rs = (r, rp', rs')"
        using Cons.prems(3) False RdEintr by (subst (asm) rio_fill.simps) simp
      from Cons.IH [OF ok _ this] Cons.prems(2) av show ?thesis by (auto simp: clean_def split: option.splits)
    next
      case RdErr
      then show ?thesis using Cons.prems by (simp add: clean_def)
    qed
  qed
qed

lemma rio_read_spec:
  assumes "rio_ok rp" and "clean rs" and "0 < n" and "rio_read rp n rs = (rc, d, rp', rs')"
  shows "rio_ok rp' \<and> clean rs' \<and> rc = int (length d) \<and> avail rp rs = d @ avail rp' rs'
    \<and> length d \<le> n \<and> (d = [] \<longleftrightarrow> avail rp rs = [])"
proof -
  obtain r rp1 rs1 where F: "rio_fill rp rs = (r, rp1, rs1)" by (metis prod_cases3)
  note S = rio_fill_spec [OF assms(1,2) F]
  show ?thesis
  proof (cases r)
    case (Some e)
    then show ?thesis
      using assms(4) F S by (auto simp: rio_read_def)
  next
    case None
    let ?c = "if rio_cnt rp1 < int n then nat (rio_cnt rp1) else n"
    have pos: "0 < rio_cnt rp1" "rio_bufptr rp1 + nat (rio_cnt rp1) \<le> length (rio_buf rp1)"
      using S None by (auto simp: rio_ok_def)
    have eq: "rc = int ?c" "d = take ?c (drop (rio_bufptr rp1) (rio_buf rp1))" "rs' = rs1"
      "rp' = rp1\<lparr>rio_bufptr := rio_bufptr rp1 + ?c, rio_cnt := rio_cnt rp1 - int ?c\<rparr>"
      using assms(4) F None by (auto simp: rio_read_def Let_def)
    have c: "?c \<le> nat (rio_cnt rp1)" "0 < ?c" "?c \<le> n" using pos(1) assms(3) by auto
    have len: "length d = ?c" using eq(2) c(1) pos(2) by simp
    have "unread rp1 = d @ unread rp'"
      using take_add [of ?c "nat (rio_cnt rp1) - ?c" "drop (rio_bufptr rp1) (rio_buf rp1)"] c(1)
      by (simp add: unread_def eq nat_diff_distrib add.commute)
    moreover have "rio_ok rp'" using pos c by (auto simp: rio_ok_def eq)
    ultimately show ?thesis
      using S len c eq(1,3) by (auto simp: avail_def)
  qed
qed

text \<open>The first line of a text, cut after \<open>k\<close> characters.\<close>

fun line_of :: "nat \<Rightarrow> string \<Rightarrow> string" where
  "line_of (Suc k) (c # s) = (if c = NEWLINE then [c] else c # line_of k s)"
| "line_of _ _ = []"

lemma line_of_exact: "NEWLINE \<notin> set w \<Longrightarrow> length w < k \<Longrightarrow> line_of k (w @ NEWLINE # rest) = w @ [NEWLINE]"
proof (induction w arbitrary: k)
  case Nil
  then show ?case by (cases k) auto
next
  case (Cons c w)
  then show ?case by (cases k) auto
qed

lemma rio_readline_loop_spec:
  assumes "rio_ok rp" and "clean rs" and "0 < n" and "avail rp rs \<noteq> [] \<or> 1 < n"
  shows "\<exists>rp' rs'. rio_readline_loop k n acc rp rs
       = (int n - 1 + int (length (line_of k (avail rp rs))), acc @ line_of k (avail rp rs), rp', rs')
     \<and> rio_ok rp' \<and> clean rs' \<and> avail rp rs = line_of k (avail rp rs) @ avail rp' rs'"
  using assms
proof (induction k arbitrary: n acc rp rs)
  case 0
  then show ?case by simp
next
  case (Suc k)
  obtain rc d rp1 rs1 where R: "rio_read rp 1 rs = (rc, d, rp1, rs1)" by (metis prod_cases4)
  have S: "rio_ok rp1" "clean rs1" "rc = int (length d)" "avail rp rs = d @ avail rp1 rs1" "length d \<le> 1"
    "d = [] \<Longrightarrow> avail rp rs = []"
    using rio_read_spec [OF Suc.prems(1,2) zero_less_one R] by blast+
  show ?case
  proof (cases "avail rp rs")
    case Nil
    then have "d = []" "rc = 0" "avail rp1 rs1 = []" "n \<noteq> 1" using S(3,4,6) Suc.prems(4) by simp_all
    then show ?thesis using R S(1,2) Nil by (intro exI [of _ rp1] exI [of _ rs1]) simp
  next
    case (Cons c s)
    then obtain d' where d': "d = c # d'" using S(4,6) by (cases d) auto
    then have d: "d = [c]" "rc = 1" "avail rp1 rs1 = s" using S(3,4,5) Cons by auto
    show ?thesis
    proof (cases "c = NEWLINE")
      case True
      then show ?thesis using R S(1,2) d Cons by (intro exI [of _ rp1] exI [of _ rs1]) simp
    next
      case False
      from Suc.IH [OF S(1,2), of "n + 1" "acc @ d"] Suc.prems(3) obtain rp' rs' where
        "rio_readline_loop k (n + 1) (acc @ d) rp1 rs1
          = (int (n + 1) - 1 + int (length (line_of k s)), (acc @ d) @ line_of k s, rp', rs')"
        "rio_ok rp'" "clean rs'" "s = line_of k s @ avail rp' rs'" unfolding d(3) by auto
      then show ?thesis using R d Cons False by auto
    qed
  qed
qed

lemma rio_readlineb_spec:
  fixes maxlen :: nat
  assumes "rio_ok rp" and "clean rs"
  defines "l \<equiv> line_of (maxlen - 1) (avail rp rs)"
  shows "\<exists>rp' rs'. rio_readlineb rp maxlen rs = (int (length l), l, rp', rs')
     \<and> rio_ok rp' \<and> clean rs' \<and> avail rp rs = l @ avail rp' rs'"
proof (cases "avail rp rs = [] \<and> maxlen > 1")
  case False
  then have "avail rp rs \<noteq> [] \<or> maxlen - 1 = 0" by auto
  then show ?thesis
    using rio_readline_loop_spec [OF assms(1,2), of 1 "maxlen - 1" "[]"] assms(1,2)
    by (auto simp: rio_readlineb_def l_def)
next
  case True
  then obtain k where k: "maxlen - 1 = Suc k" by (cases "maxlen - 1") auto
  obtain rc d rp1 rs1 where R: "rio_read rp 1 rs = (rc, d, rp1, rs1)" by (metis prod_cases4)
  have S: "rio_ok rp1" "clean rs1" "rc = 0" "avail rp1 rs1 = []"
    using rio_read_spec [OF assms(1,2) _ R] True by auto
  then show ?thesis using R k True
    by (intro exI [of _ rp1] exI [of _ rs1]) (simp add: rio_readlineb_def l_def del: One_nat_def)
qed

text \<open>A chunk that fits the internal buffer is taken from the kernel at once, however little of it the
  caller asks for.\<close>

lemma rio_read_Nil: "rio_read rp n [] = (rc, d, rp', rs') \<Longrightarrow> rs' = []"
  by (auto simp: rio_read_def rio_fill.simps Let_def split: if_splits)

lemma rio_readline_loop_Nil: "rio_readline_loop k n acc rp [] = (rc, l, rp', rs') \<Longrightarrow> rs' = []"
proof (induction k arbitrary: n acc rp)
  case (Suc k)
  obtain rc1 d rp1 rs1 where R: "rio_read rp 1 [] = (rc1, d, rp1, rs1)" by (metis prod_cases4)
  with rio_read_Nil [OF R] Suc show ?case by (auto split: if_splits)
qed simp

lemma rio_readlineb_drains:
  assumes "rio_cnt rp = 0" and "d \<noteq> []" and "length d \<le> RIO_BUFSIZE" and "1 < maxlen"
    and "rio_readlineb rp maxlen [Data d] = (rc, l, rp', rs')"
  shows "rs' = []"
proof -
  obtain k where k: "maxlen - 1 = Suc k" using assms(4) by (cases "maxlen - 1") auto
  obtain rc1 d1 rp1 rs1 where R: "rio_read rp 1 [Data d] = (rc1, d1, rp1, rs1)" by (metis prod_cases4)
  then have "rs1 = []" using assms(1-3) by (auto simp: rio_read_def rio_fill.simps Let_def)
  then show ?thesis using assms(5) R k rio_readline_loop_Nil
    by (auto simp: rio_readlineb_def simp del: One_nat_def split: if_splits)
qed

text \<open>Reading a number of bytes.\<close>

lemma rio_readnb_loop_spec:
  "\<lbrakk>rio_ok rp; clean rs\<rbrakk> \<Longrightarrow>
     \<exists>rp' rs'. rio_readnb_loop n acc rp rs = (None, acc @ take n (avail rp rs), rp', rs')
       \<and> rio_ok rp' \<and> clean rs' \<and> avail rp' rs' = drop n (avail rp rs)"
proof (induction n acc rp rs rule: rio_readnb_loop.induct)
  case (1 n acc rp rs)
  show ?case
  proof (cases "n = 0")
    case True
    then show ?thesis using "1.prems" by (subst rio_readnb_loop.simps) simp
  next
    case False
    obtain rc d rp1 rs1 where R: "rio_read rp n rs = (rc, d, rp1, rs1)" by (metis prod_cases4)
    have n: "0 < n" using False by simp
    have S: "rio_ok rp1" "clean rs1" "rc = int (length d)" "avail rp rs = d @ avail rp1 rs1" "length d \<le> n"
      "d = [] \<Longrightarrow> avail rp rs = []"
      using rio_read_spec [OF "1.prems" n R] by blast+
    show ?thesis
    proof (cases "d = []")
      case True
      then have "rc = 0" "avail rp rs = []" "avail rp1 rs1 = []" using S(3,4,6) by simp_all
      moreover from this(1) have "rio_readnb_loop n acc rp rs = (None, acc, rp1, rs1)"
        by (subst rio_readnb_loop.simps) (simp add: R n)
      ultimately show ?thesis using S(1,2) by simp
    next
      case ne: False
      then have nz: "\<not> rc < 0" "rc \<noteq> 0" "nat rc = length d" using S(3) by auto
      from "1.IH" [OF n R [symmetric] refl refl nz(1,2) S(1,2)] obtain rp' rs' where
        "rio_readnb_loop (n - length d) (acc @ d) rp1 rs1
           = (None, (acc @ d) @ take (n - length d) (avail rp1 rs1), rp', rs')"
        "rio_ok rp'" "clean rs'" "avail rp' rs' = drop (n - length d) (avail rp1 rs1)" unfolding nz(3) by blast
      then show ?thesis using R S(4,5) nz n
        by (subst rio_readnb_loop.simps) (intro exI [of _ rp'] exI [of _ rs'], simp)
    qed
  qed
qed

lemma stream_sys_read:
  assumes "clean rs" and "0 < n" and "sys_read n rs = (Data d, rs')"
  shows "stream rs = d @ stream rs'" and "clean rs'" and "length d \<le> n" and "d = [] \<longleftrightarrow> rs = []"
  using assms by (induction n rs rule: sys_read.induct) (auto simp: clean_def split: if_splits)

lemma rio_readn_loop_spec:
  "clean rs \<Longrightarrow> \<exists>rs'. rio_readn_loop n acc rs = (None, acc @ take n (stream rs), rs')
       \<and> clean rs' \<and> stream rs' = drop n (stream rs)"
proof (induction n acc rs rule: rio_readn_loop.induct)
  case (1 n acc rs)
  show ?case
  proof (cases "n = 0")
    case True
    then show ?thesis using "1.prems" by (subst rio_readn_loop.simps) simp
  next
    case False
    then have n: "0 < n" by simp
    obtain x rs1 where R: "sys_read n rs = (x, rs1)" by fastforce
    show ?thesis
    proof (cases x)
      case RdErr
      then have "RdErr \<in> set rs" using R by (induction n rs rule: sys_read.induct) (auto split: if_splits)
      then show ?thesis using "1.prems" by (simp add: clean_def)
    next
      case RdEintr
      then obtain rs2 where rs: "rs = RdEintr # rs2" "rs1 = rs2"
        using R by (induction n rs rule: sys_read.induct) (auto split: if_splits)
      have "clean rs2" using "1.prems" rs by (simp add: clean_def)
      with "1.IH"(2) [OF n R [symmetric] RdEintr] rs n R RdEintr show ?thesis
        by (subst rio_readn_loop.simps) simp
    next
      case (Data d)
      note S = stream_sys_read [OF "1.prems" n R [unfolded Data]]
      show ?thesis
      proof (cases "d = []")
        case True
        then show ?thesis using R S Data n by (subst rio_readn_loop.simps) simp
      next
        case ne: False
        from "1.IH"(1) [OF n R [symmetric] Data ne S(2)] show ?thesis
          using R S Data n ne by (subst rio_readn_loop.simps) auto
      qed
    qed
  qed
qed

lemma rio_writen_loop_spec:
  "rio_writen_loop e out bufp ws = (b, out', ws') \<Longrightarrow>
     \<exists>k. out' = out @ take k bufp \<and> (b \<longrightarrow> out' = out @ bufp)"
proof (induction e out bufp ws rule: rio_writen_loop.induct)
  case (1 e out bufp)
  then show ?case by (auto intro: exI [of _ "length bufp"])
next
  case (2 e out bufp w ws)
  show ?case
  proof (cases "bufp = [] \<or> w = WrErr \<or> (w = Wrote 0 \<and> \<not> e)")
    case True
    then have "out' = out @ take 0 bufp" "b \<longrightarrow> out' = out @ bufp"
      using "2.prems" by (auto split: if_splits)
    then show ?thesis by blast
  next
    case False
    show ?thesis
    proof (cases w)
      case (Wrote k)
      show ?thesis
      proof (cases "k = 0")
        case True
        then have "rio_writen_loop e out bufp ws = (b, out', ws')" "e" "bufp \<noteq> []"
          using False Wrote "2.prems" by auto
        then show ?thesis using "2.IH"(1) [OF _ Wrote True] by blast
      next
        case nz: False
        have "bufp \<noteq> []" "rio_writen_loop e (out @ take k bufp) (drop k bufp) ws = (b, out', ws')"
          using False Wrote nz "2.prems" by auto
        from "2.IH"(2) [OF this(1) Wrote nz this(2)] obtain j where
          "out' = (out @ take k bufp) @ take j (drop k bufp)"
          "b \<longrightarrow> out' = (out @ take k bufp) @ drop k bufp" by blast
        then show ?thesis by (auto intro!: exI [of _ "k + j"] simp: take_add)
      qed
    next
      case WrEintr
      then have "bufp \<noteq> []" "rio_writen_loop True out bufp ws = (b, out', ws')" using False "2.prems" by auto
      from "2.IH"(3) [OF this(1) WrEintr this(2)] show ?thesis .
    qed (use False in simp)
  qed
qed

section \<open>Signal-safe output\<close>

text \<open>A \<^verbatim>\<open>long\<close> has 64 bits; negating its least value gives that value again.\<close>

definition long_neg :: "int \<Rightarrow> int" where
  "long_neg v = (if v = - (2 ^ 63) then v else - v)"

function reverse_loop :: "string \<Rightarrow> nat \<Rightarrow> nat \<Rightarrow> string" where
  "reverse_loop s i j = (if i < j then reverse_loop (s[i := s ! j, j := s ! i]) (i + 1) (j - 1) else s)"
  by pat_completeness auto
termination
  by (relation "measure (\<lambda>(s, i, j). j - i)") auto

declare reverse_loop.simps [simp del]

definition sio_reverse :: "string \<Rightarrow> string" where
  "sio_reverse s = reverse_loop s 0 (length s - 1)"

lemma length_reverse_loop [simp]: "length (reverse_loop s i j) = length s"
  by (induction s i j rule: reverse_loop.induct) (subst reverse_loop.simps, simp)

lemma nth_reverse_loop:
  "j < length s \<Longrightarrow> k < length s \<Longrightarrow>
     reverse_loop s i j ! k = (if i \<le> k \<and> k \<le> j then s ! (i + j - k) else s ! k)"
proof (induction s i j rule: reverse_loop.induct)
  case (1 s i j)
  show ?case
  proof (cases "i < j")
    case True
    have "reverse_loop s i j ! k = (if i + 1 \<le> k \<and> k \<le> j - 1 then s[i := s ! j, j := s ! i] ! (i + 1 + (j - 1) - k)
        else s[i := s ! j, j := s ! i] ! k)"
      using "1.IH" [OF True] "1.prems" True by (subst reverse_loop.simps) simp
    moreover have "i + 1 + (j - 1) - k = i + j - k" using True by simp
    ultimately show ?thesis using True "1.prems" by (auto simp: nth_list_update)
  next
    case False
    then have "i \<le> k \<and> k \<le> j \<Longrightarrow> i + j - k = k" by arith
    with False show ?thesis by (subst reverse_loop.simps) auto
  qed
qed

lemma sio_reverse_rev: "sio_reverse s = rev s"
  unfolding sio_reverse_def by (rule nth_equalityI) (auto simp: nth_reverse_loop rev_nth)

function ltoa_loop :: "int \<Rightarrow> int \<Rightarrow> string" where
  "ltoa_loop v b =
     (let c = c_mod v b;
          ch = (if c < 10 then char_of (nat (c + 48)) else char_of (nat (c - 10 + 97)));
          v' = c_div v b
      in if v' > 0 \<and> b > 1 then ch # ltoa_loop v' b else [ch])"
  by pat_completeness auto
termination
proof (relation "measure (\<lambda>(v, b). nat v)", goal_cases)
  case (2 v b c ch v')
  then have v: "0 < c_div v b" and b: "1 < b" by auto
  have "0 < v"
  proof (rule ccontr)
    assume "\<not> 0 < v"
    then have "c_div v b \<le> 0" using b by (cases "v = 0") (auto simp: c_div_def sgn_if pos_imp_zdiv_nonneg_iff)
    with v show False by simp
  qed
  then have "c_div v b < v" using b by (simp add: c_div_def int_div_less_self)
  then show ?case using 2 \<open>0 < v\<close> by auto
qed simp

declare ltoa_loop.simps [simp del]

definition sio_ltoa :: "int \<Rightarrow> int \<Rightarrow> string" where
  "sio_ltoa v b =
     (let neg = v < 0;
          v1 = (if neg then long_neg v else v);
          s = ltoa_loop v1 b @ (if neg then ''-'' else [])
      in sio_reverse s)"

definition sio_strlen :: "string \<Rightarrow> nat" where
  "sio_strlen s = length (c_str s)"

definition sio_puts :: "string \<Rightarrow> string" where
  "sio_puts s = take (sio_strlen s) s"

definition sio_putl :: "int \<Rightarrow> string" where
  "sio_putl v = sio_puts (sio_ltoa v 10 @ [NUL])"

lemma ltoa_loop_show: "ltoa_loop (int n) 10 = rev (show_nat n)"
proof (induction n rule: show_nat.induct)
  case (1 n)
  have d: "c_div (int n) 10 = int (n div 10)" "c_mod (int n) 10 = int (n mod 10)"
    by (auto simp: c_mod_def c_div_def sgn_if zdiv_int zmod_int minus_mult_div_eq_mod)
  have ch: "(if c_mod (int n) 10 < 10 then char_of (nat (c_mod (int n) 10 + 48)) else char_of (nat (c_mod (int n) 10 - 10 + 97)))
      = digit (n mod 10)"
    unfolding d digit_def by (simp add: nat_add_distrib add.commute)
  show ?case
  proof (cases "n < 10")
    case True
    then show ?thesis using ch d by (subst ltoa_loop.simps, subst show_nat.simps) (simp add: Let_def)
  next
    case False
    then have "0 < n div 10" by (simp add: div_greater_zero_iff)
    with False show ?thesis using ch d 1
      by (subst ltoa_loop.simps, subst show_nat.simps) (simp add: Let_def)
  qed
qed

section \<open>Properties\<close>

text \<open>(C21) \<open>rio_readlineb\<close> delivers the next line of the stream whatever the sizes of the chunks that the
  kernel hands out and however often it is interrupted: the result is the text up to and including
  the first newline, cut at \<open>maxlen - 1\<close> characters or at the end of file; its length is returned,
  and exactly the rest of the stream stays available.\<close>

theorem rio_readlineb_framing:
  assumes "rio_ok rp" and "clean rs"
  shows "\<exists>rp' rs'. rio_readlineb rp maxlen rs
       = (int (length (line_of (maxlen - 1) (avail rp rs))), line_of (maxlen - 1) (avail rp rs), rp', rs')
     \<and> rio_ok rp' \<and> clean rs' \<and> avail rp rs = line_of (maxlen - 1) (avail rp rs) @ avail rp' rs'"
  by (rule rio_readlineb_spec [OF assms])

definition rio_fresh :: rio where
  "rio_fresh = \<lparr>rio_fd = 4, rio_cnt = 0, rio_bufptr = 0, rio_buf = []\<rparr>"

lemma rio_fresh_ok [simp]: "rio_ok rio_fresh" "unread rio_fresh = []"
  by (simp_all add: rio_fresh_def rio_ok_def unread_def)

theorem rio_readlineb_framing_witness:
  "\<exists>rp' rs'. rio_readlineb rio_fresh 8192 [Data ''sh'', RdEintr, Data (''ow'' @ [NEWLINE] @ ''exit'')]
     = (5, ''show'' @ [NEWLINE], rp', rs') \<and> avail rp' rs' = ''exit''"
proof -
  let ?rs = "[Data ''sh'', RdEintr, Data (''ow'' @ [NEWLINE] @ ''exit'')]"
  have c: "clean ?rs" by (simp add: clean_def)
  have a: "avail rio_fresh ?rs = ''show'' @ [NEWLINE] @ ''exit''" by (simp add: avail_def)
  have l: "line_of (8192 - 1) (''show'' @ [NEWLINE] @ ''exit'') = ''show'' @ [NEWLINE]"
    by (simp add: numeral_eq_Suc)
  show ?thesis using rio_readlineb_framing [OF rio_fresh_ok(1) c, of 8192] unfolding a l by auto
qed

text \<open>\<open>rio_readn\<close> and \<open>rio_readnb\<close> return the next \<open>n\<close> bytes of the stream, or all that is left before
  the end of file, and leave the rest for the next call.\<close>

theorem rio_read_exact:
  assumes "rio_ok rp" and "clean rs"
  shows "(\<exists>rp' rs'. rio_readnb rp n rs = (int (length (take n (avail rp rs))), take n (avail rp rs), rp', rs')
       \<and> rio_ok rp' \<and> clean rs' \<and> avail rp' rs' = drop n (avail rp rs))
     \<and> (\<exists>rs'. rio_readn n rs = (int (length (take n (stream rs))), take n (stream rs), rs')
       \<and> clean rs' \<and> stream rs' = drop n (stream rs))"
proof -
  obtain rp' rs' where "rio_readnb_loop n [] rp rs = (None, [] @ take n (avail rp rs), rp', rs')"
    "rio_ok rp'" "clean rs'" "avail rp' rs' = drop n (avail rp rs)"
    using rio_readnb_loop_spec [OF assms] by blast
  moreover obtain rs2 where "rio_readn_loop n [] rs = (None, [] @ take n (stream rs), rs2)"
    "clean rs2" "stream rs2 = drop n (stream rs)"
    using rio_readn_loop_spec [OF assms(2)] by blast
  ultimately show ?thesis by (simp add: rio_readnb_def rio_readn_def)
qed

theorem rio_read_exact_witness:
  "\<exists>rs'. rio_readn 3 [Data ''ab'', RdEintr, Data ''cd''] = (3, ''abc'', rs') \<and> stream rs' = ''d''"
  using rio_read_exact [OF rio_fresh_ok(1), of "[Data ''ab'', RdEintr, Data ''cd'']" 3]
  by (auto simp: clean_def)

text \<open>\<open>rio_writen\<close> sends the bytes of the buffer in order, each once: all of them when it returns the
  length, and some prefix of them when it returns -1.\<close>

theorem rio_writen_in_order:
  "\<exists>r out ws' k. rio_writen eintr usrbuf ws = (r, out, ws') \<and> out = take k usrbuf
     \<and> (r = int (length usrbuf) \<and> out = usrbuf \<or> r = -1)"
proof -
  obtain b out ws' where L: "rio_writen_loop eintr [] usrbuf ws = (b, out, ws')" by (metis prod_cases3)
  from rio_writen_loop_spec [OF L] obtain k where k: "out = take k usrbuf" "b \<longrightarrow> out = usrbuf"
    by (metis append_Nil)
  show ?thesis
  proof (cases b)
    case True
    then have "rio_writen eintr usrbuf ws = (int (length usrbuf), out, ws')" using L by (simp add: rio_writen_def)
    then show ?thesis using k True by blast
  next
    case False
    then have "rio_writen eintr usrbuf ws = (-1, out, ws')" using L by (simp add: rio_writen_def)
    then show ?thesis using k by blast
  qed
qed

text \<open>\<open>sio_ltoa\<close> with base 10 is the decimal notation of every \<^verbatim>\<open>long\<close> but the least one, for
  which negation overflows and the text is a minus sign and an opening bracket.\<close>

theorem sio_ltoa_decimal:
  "(if - (2 ^ 63) < v then sio_ltoa v 10 = show_int v else v = - (2 ^ 63) \<longrightarrow> sio_ltoa v 10 = ''-('')"
proof (cases "- (2 ^ 63) < v")
  case True
  have "sio_ltoa v 10 = show_int v"
  proof (cases "v < 0")
    case True
    with \<open>- (2 ^ 63) < v\<close> have "long_neg v = int (nat (- v))" by (simp add: long_neg_def)
    then show ?thesis using True ltoa_loop_show [of "nat (- v)"]
      by (simp add: sio_ltoa_def sio_reverse_rev show_int_def Let_def)
  next
    case False
    then show ?thesis using ltoa_loop_show [of "nat v"]
      by (simp add: sio_ltoa_def sio_reverse_rev show_int_def Let_def)
  qed
  then show ?thesis using True by simp
next
  case False
  have "ltoa_loop (- (2 ^ 63)) 10 = ''(''"
    by (subst ltoa_loop.simps) (simp add: c_mod_def c_div_def Let_def char_of_def bit_iff_odd)
  then show ?thesis using False by (simp add: sio_ltoa_def sio_reverse_rev Let_def long_neg_def)
qed

theorem sio_ltoa_decimal_witness: "sio_ltoa (-120) 10 = show_int (-120)"
  using sio_ltoa_decimal [of "-120"] by simp

end
