(* ===== verification/Event_Server.thy ===== *)
theory Event_Server
  imports Stock_Parser Rio
begin

text \<open>
  The event-driven server: the commands (\<^verbatim>\<open>concurrent_stockserver/event_driven/impl.c\<close>), the
  pool of connections and the service of one ready set (\<^verbatim>\<open>network.c\<close>), and the body of the main
  loop (\<^verbatim>\<open>stockserver.c\<close>).  The kernel's answers are arguments: what \<^verbatim>\<open>select\<close> and
  \<^verbatim>\<open>accept\<close> return, the input that is waiting on a descriptor, and the result of \<^verbatim>\<open>close\<close>.
  The messages handed to \<^verbatim>\<open>send\<close> are collected in \<open>out\<close>.
\<close>

definition FD_SETSIZE :: nat where "FD_SETSIZE = 1024"

record pool =
  maxfd :: int
  read_set :: "int set"
  ready_set :: "int set"
  nready :: int
  clients :: int
  maxi :: int
  clientfd :: "int list"
  clientrio :: "rio list"

record server =
  root :: stock
  pl :: pool
  out :: "(int \<times> string) list"
  inputs :: "int \<Rightarrow> rd list"
  dsk :: disk

section \<open>The pool\<close>

definition init_pool :: "int \<Rightarrow> rio list \<Rightarrow> pool" where
  "init_pool listenfd rios =
     \<lparr>maxfd = listenfd, read_set = {listenfd}, ready_set = {}, nready = 0, clients = 0, maxi = -1,
      clientfd = replicate FD_SETSIZE (-1), clientrio = rios\<rparr>"

fun first_free :: "int list \<Rightarrow> nat option" where
  "first_free [] = None"
| "first_free (fd # fds) = (if fd < 0 then Some 0 else map_option Suc (first_free fds))"

definition add_client :: "int \<Rightarrow> pool \<Rightarrow> srv_fault + pool" where
  "add_client connfd p0 =
     (let p = p0\<lparr>nready := nready p0 - 1\<rparr> in
      case first_free (clientfd p) of
        None \<Rightarrow> Inl TooManyClients
      | Some i \<Rightarrow>
          Inr (p\<lparr>clientfd := (clientfd p)[i := connfd],
                 clientrio := (clientrio p)[i := rio_readinitb (clientrio p ! i) connfd],
                 read_set := insert connfd (read_set p),
                 maxfd := (if connfd > maxfd p then connfd else maxfd p),
                 maxi := (if int i > maxi p then int i else maxi p),
                 clients := clients p + 1\<rparr>))"

definition remove_client :: "(int \<Rightarrow> int) \<Rightarrow> int \<Rightarrow> nat \<Rightarrow> pool \<Rightarrow> int \<times> pool" where
  "remove_client closef connfd idx p =
     (if closef connfd < 0 then (-1, p)
      else (1, p\<lparr>read_set := read_set p - {connfd}, clientfd := (clientfd p)[idx := -1],
                 clients := clients p - 1\<rparr>))"

definition see_pool :: "int \<Rightarrow> int \<times> int set \<Rightarrow> int \<Rightarrow> pool \<Rightarrow> srv_fault + pool" where
  "see_pool listenfd sel connfd p =
     (let p1 = p\<lparr>ready_set := snd sel, nready := fst sel\<rparr>
      in if listenfd \<in> ready_set p1 then add_client connfd p1 else Inr p1)"

section \<open>The commands\<close>

definition arg :: "nat \<Rightarrow> command \<Rightarrow> srv_fault + int" where
  "arg i cmd =
     (case c_args cmd of
        None \<Rightarrow> Inl NullArgument
      | Some a \<Rightarrow> (case a ! i of None \<Rightarrow> Inl NullArgument | Some s \<Rightarrow> Inr (atoi s)))"

definition show_cmd :: "command \<Rightarrow> server \<Rightarrow> srv_fault + STATUS \<times> command \<times> server" where
  "show_cmd cmd s =
     (case print_to_buf (root s) (c_result cmd) of
        (st, buf) \<Rightarrow> if length buf \<ge> MAXLINE then Inl BufferOverflow else Inr (st, cmd\<lparr>c_result := buf\<rparr>, s))"

definition sell :: "command \<Rightarrow> server \<Rightarrow> srv_fault + STATUS \<times> command \<times> server" where
  "sell cmd s =
     (case arg 1 cmd of Inl e \<Rightarrow> Inl e | Inr a1 \<Rightarrow>
      case arg 2 cmd of Inl e \<Rightarrow> Inl e | Inr a2 \<Rightarrow>
      case modify a1 a2 (root s) of (st, r) \<Rightarrow> Inr (st, cmd, s\<lparr>root := r\<rparr>))"

definition buy :: "command \<Rightarrow> server \<Rightarrow> srv_fault + STATUS \<times> command \<times> server" where
  "buy cmd s =
     (case arg 1 cmd of Inl e \<Rightarrow> Inl e | Inr a1 \<Rightarrow>
      case arg 2 cmd of Inl e \<Rightarrow> Inl e | Inr a2 \<Rightarrow>
      case modify a1 (int32 (- a2)) (root s) of (st, r) \<Rightarrow> Inr (st, cmd, s\<lparr>root := r\<rparr>))"

definition exit_client :: "(int \<Rightarrow> int) \<Rightarrow> command \<Rightarrow> server \<Rightarrow> srv_fault + STATUS \<times> command \<times> server" where
  "exit_client closef cmd s =
     (case remove_client closef (c_connfd cmd) (c_poolidx cmd) (pl s) of
        (r, p) \<Rightarrow> Inr (if r \<noteq> 0 then SUCCESS else ERROR, cmd, s\<lparr>pl := p\<rparr>))"

definition call_fp :: "(int \<Rightarrow> int) \<Rightarrow> command \<Rightarrow> server \<Rightarrow> srv_fault + STATUS \<times> command \<times> server" where
  "call_fp closef cmd s =
     (case c_fp cmd of show_fp \<Rightarrow> show_cmd cmd s | sell_fp \<Rightarrow> sell cmd s | buy_fp \<Rightarrow> buy cmd s
      | exit_client_fp \<Rightarrow> exit_client closef cmd s)"

abbreviation ESC :: char where "ESC \<equiv> CHR 0x1B"

definition reply :: "string \<Rightarrow> STATUS \<Rightarrow> string \<Rightarrow> string" where
  "reply name st result =
     (let res = ESC # ''[0m['' @ name in
      (case st of
         SUCCESS \<Rightarrow> res @ '']'' @ ESC # ''[0;32msuccess'' @ NEWLINE # ESC # ''[0m''
       | ERROR \<Rightarrow> res @ ''] failed'' @ [NEWLINE]
       | NOTENOUGHERR \<Rightarrow> ''NOT ENOUGH LEFT STOCK'' @ [NEWLINE]
       | _ \<Rightarrow> res) @ result)"

definition execute :: "(int \<Rightarrow> int) \<Rightarrow> command \<Rightarrow> server \<Rightarrow> srv_fault + server" where
  "execute closef cmd0 s =
     (case call_fp closef (cmd0\<lparr>c_result := []\<rparr>) s of
        Inl e \<Rightarrow> Inl e
      | Inr (st, cmd, s1) \<Rightarrow>
          let res = reply (c_name cmd) st (c_result cmd)
          in if length res \<ge> MAXLINE then Inl BufferOverflow
             else Inr (s1\<lparr>out := out s1 @ [(c_connfd cmd, res)]\<rparr>))"

text \<open>\<open>free_args\<close> walks over \<^verbatim>\<open>argc\<close> entries of the array; either may be uninitialised.\<close>

definition free_args :: "command \<Rightarrow> srv_fault + unit" where
  "free_args cmd =
     (case (c_args cmd, c_argc cmd) of
        (Some a, Some n) \<Rightarrow> if n \<le> length a then Inr () else Inl BadFree
      | _ \<Rightarrow> Inl BadFree)"

section \<open>Serving\<close>

definition fresh_cmd :: "int \<Rightarrow> nat \<Rightarrow> command" where
  "fresh_cmd fd i = \<lparr>c_flag = 0, c_connfd = fd, c_poolidx = i, c_name = [], c_result = [],
     c_args = None, c_argc = None, c_fp = show_fp\<rparr>"

definition send_msg :: "int \<Rightarrow> string \<Rightarrow> server \<Rightarrow> server" where
  "send_msg fd msg s = s\<lparr>out := out s @ [(fd, msg)]\<rparr>"

definition serve_line :: "(int \<Rightarrow> int) \<Rightarrow> string \<Rightarrow> int \<Rightarrow> command \<Rightarrow> server \<Rightarrow> srv_fault + server" where
  "serve_line closef buf rc cmd0 s =
     (case parser buf rc cmd0 of
        Inl e \<Rightarrow> Inl e
      | Inr (st, cmd) \<Rightarrow>
          case (if st = NOCMD then Inr (send_msg (c_connfd cmd) (''No Such Command'' @ [NEWLINE]) s)
                else if st = INVARG then Inr (send_msg (c_connfd cmd) (''Invalid Argument'' @ [NEWLINE]) s)
                else if st = NL then Inr (send_msg (c_connfd cmd) (''Please Type Command'' @ [NEWLINE]) s)
                else execute closef cmd s) of
            Inl e \<Rightarrow> Inl e
          | Inr s1 \<Rightarrow> (case free_args cmd of Inl e \<Rightarrow> Inl e | Inr _ \<Rightarrow> Inr s1))"

text \<open>\<open>junk\<close> is what the line buffer holds before the line is read into it.  The reader works on a
  copy of the slot's \<^verbatim>\<open>rio_t\<close> that is dropped at the end of the iteration.\<close>

definition serve_slot :: "(int \<Rightarrow> int) \<Rightarrow> string \<Rightarrow> nat \<Rightarrow> server \<Rightarrow> srv_fault + server" where
  "serve_slot closef junk i s =
     (let p = pl s; connfd = clientfd p ! i; rp = clientrio p ! i in
      if connfd > 0 \<and> connfd \<in> ready_set p then
        let s1 = s\<lparr>pl := p\<lparr>nready := nready p - 1\<rparr>\<rparr> in
        case rio_readlineb rp MAXLINE (inputs s1 connfd) of
          (rc, line, rp', rs') \<Rightarrow>
            let s2 = s1\<lparr>inputs := (inputs s1)(connfd := rs')\<rparr> in
            if rc \<noteq> 0 then
              let txt = line @ (if rc > 0 then [NUL] else []);
                  buf = txt @ drop (length txt) junk
              in serve_line closef buf rc (fresh_cmd connfd i) s2
            else Inr (s2\<lparr>pl := snd (remove_client closef connfd i (pl s2))\<rparr>)
      else Inr s)"

fun write_loop :: "(int \<Rightarrow> int) \<Rightarrow> string \<Rightarrow> nat list \<Rightarrow> server \<Rightarrow> srv_fault + server" where
  "write_loop closef junk [] s = Inr s"
| "write_loop closef junk (i # is) s =
     (if nready (pl s) > 0 then
        (case serve_slot closef junk i s of Inl e \<Rightarrow> Inl e | Inr s' \<Rightarrow> write_loop closef junk is s')
      else Inr s)"

definition write_pool :: "(int \<Rightarrow> int) \<Rightarrow> string \<Rightarrow> server \<Rightarrow> srv_fault + server" where
  "write_pool closef junk s = write_loop closef junk [0..<nat (maxi (pl s) + 1)] s"

text \<open>One turn of the main loop.\<close>

definition main_step :: "(int \<Rightarrow> int) \<Rightarrow> string \<Rightarrow> int \<Rightarrow> int \<times> int set \<Rightarrow> int \<Rightarrow> timeval \<Rightarrow> server \<Rightarrow> srv_fault + server" where
  "main_step closef junk listenfd sel connfd now s =
     (case see_pool listenfd sel connfd (pl s) of
        Inl e \<Rightarrow> Inl e
      | Inr p \<Rightarrow>
          case write_pool closef junk (s\<lparr>pl := p\<rparr>) of
            Inl e \<Rightarrow> Inl e
          | Inr s1 \<Rightarrow>
              if clients (pl s1) = 0 then
                (case fsync_stockfile now (root s1) (dsk s1) of
                   Inl e \<Rightarrow> Inl e | Inr d \<Rightarrow> Inr (s1\<lparr>dsk := d\<rparr>))
              else Inr s1)"

section \<open>The invariant of the pool\<close>

definition active :: "pool \<Rightarrow> int list" where
  "active p = filter (\<lambda>fd. 0 \<le> fd) (clientfd p)"

definition pool_inv :: "int \<Rightarrow> pool \<Rightarrow> bool" where
  "pool_inv L p \<longleftrightarrow>
     length (clientfd p) = FD_SETSIZE \<and> length (clientrio p) = FD_SETSIZE \<and> 0 \<le> L
     \<and> (\<forall>fd \<in> set (clientfd p). fd = -1 \<or> 0 < fd)
     \<and> distinct (L # active p) \<and> read_set p = set (L # active p) \<and> clients p = int (length (active p))
     \<and> (\<forall>fd \<in> read_set p. fd \<le> maxfd p) \<and> -1 \<le> maxi p \<and> maxi p < int FD_SETSIZE
     \<and> (\<forall>i < FD_SETSIZE. 0 \<le> clientfd p ! i \<longrightarrow> int i \<le> maxi p \<and> rio_cnt (clientrio p ! i) = 0)"

lemma first_free_Some: "first_free xs = Some i \<Longrightarrow> i < length xs \<and> xs ! i < 0"
  by (induction xs arbitrary: i) (auto split: if_splits)

lemma first_free_None: "first_free xs = None \<longleftrightarrow> (\<forall>x \<in> set xs. 0 \<le> x)"
  by (induction xs) auto

lemma filter_update:
  assumes "i < length xs"
  shows "filter P (xs[i := v]) = filter P (take i xs) @ (if P v then [v] else []) @ filter P (drop (Suc i) xs)"
    and "filter P xs = filter P (take i xs) @ (if P (xs ! i) then [xs ! i] else []) @ filter P (drop (Suc i) xs)"
proof -
  show "filter P (xs[i := v]) = filter P (take i xs) @ (if P v then [v] else []) @ filter P (drop (Suc i) xs)"
    using assms by (simp add: upd_conv_take_nth_drop)
  show "filter P xs = filter P (take i xs) @ (if P (xs ! i) then [xs ! i] else []) @ filter P (drop (Suc i) xs)"
    using arg_cong [OF id_take_nth_drop [OF assms], of "filter P"] by simp
qed

lemma init_pool_inv: "length rios = FD_SETSIZE \<Longrightarrow> 0 \<le> L \<Longrightarrow> pool_inv L (init_pool L rios)"
  by (simp add: pool_inv_def init_pool_def active_def)

lemma pool_inv_ready [simp]:
  "pool_inv L (p\<lparr>nready := k\<rparr>) = pool_inv L p" "pool_inv L (p\<lparr>ready_set := S\<rparr>) = pool_inv L p"
  by (simp_all add: pool_inv_def active_def)

lemma add_client_inv:
  assumes I: "pool_inv L p" and fd: "0 < fd" "fd \<notin> read_set p"
  shows "if clients p = int FD_SETSIZE then add_client fd p = Inl TooManyClients
    else \<exists>p'. add_client fd p = Inr p' \<and> pool_inv L p' \<and> clients p' = clients p + 1
      \<and> read_set p' = insert fd (read_set p) \<and> ready_set p' = ready_set p"
proof -
  have len: "length (clientfd p) = FD_SETSIZE" "length (clientrio p) = FD_SETSIZE"
    and n: "clients p = int (length (active p))"
    and H: "\<And>j. j < FD_SETSIZE \<Longrightarrow> 0 \<le> clientfd p ! j \<Longrightarrow> int j \<le> maxi p \<and> rio_cnt (clientrio p ! j) = 0"
    using I by (simp_all add: pool_inv_def)
  show ?thesis
  proof (cases "first_free (clientfd p)")
    case None
    then have "active p = clientfd p" by (simp add: active_def first_free_None)
    then show ?thesis using None n len by (simp add: add_client_def)
  next
    case (Some i)
    have i: "i < FD_SETSIZE" "clientfd p ! i < 0" using first_free_Some [OF Some] len by auto
    let ?p = "p\<lparr>nready := nready p - 1, clientfd := (clientfd p)[i := fd],
      clientrio := (clientrio p)[i := rio_readinitb (clientrio p ! i) fd], read_set := insert fd (read_set p),
      maxfd := (if fd > maxfd p then fd else maxfd p), maxi := (if int i > maxi p then int i else maxi p),
      clients := clients p + 1\<rparr>"
    have call: "add_client fd p = Inr ?p" using Some by (simp add: add_client_def Let_def)
    obtain xs ys where A: "active p = xs @ ys" "active ?p = xs @ fd # ys"
      using filter_update(1) [of i "clientfd p" "\<lambda>fd. 0 \<le> fd" fd] filter_update(2) [of i "clientfd p" "\<lambda>fd. 0 \<le> fd"] i len(1) fd(1) by (auto simp: active_def)
    have "\<forall>x \<in> set (clientfd ?p). x = -1 \<or> 0 < x"
      using I fd(1) set_update_subset_insert [of "clientfd p" i fd] by (auto simp: pool_inv_def)
    moreover have "\<forall>j < FD_SETSIZE. 0 \<le> clientfd ?p ! j \<longrightarrow> int j \<le> maxi ?p \<and> rio_cnt (clientrio ?p ! j) = 0"
    proof (intro allI impI)
      fix j assume "j < FD_SETSIZE" "0 \<le> clientfd ?p ! j"
      with H [of j] len i(1) show "int j \<le> maxi ?p \<and> rio_cnt (clientrio ?p ! j) = 0"
        by (cases "j = i") (auto simp: rio_readinitb_def)
    qed
    moreover have "distinct (L # active ?p)" "read_set ?p = set (L # active ?p)"
      using I fd(2) unfolding pool_inv_def A by auto
    moreover have "clients ?p = int (length (active ?p))" using n unfolding A by simp
    moreover have "\<forall>x \<in> read_set ?p. x \<le> maxfd ?p" using I by (force simp: pool_inv_def)
    moreover have "0 \<le> L" "-1 \<le> maxi ?p" "maxi ?p < int FD_SETSIZE" using I i(1) by (auto simp: pool_inv_def)
    ultimately have "pool_inv L ?p" unfolding pool_inv_def using len by simp
    moreover have "clients p \<noteq> int FD_SETSIZE"
    proof -
      have "length (active p) < length (clientfd p)"
        unfolding active_def by (rule length_filter_less [of "clientfd p ! i"]) (use i len in auto)
      then show ?thesis using n len by simp
    qed
    ultimately show ?thesis using call by simp
  qed
qed

lemma remove_client_inv:
  assumes I: "pool_inv L p" and i: "i < FD_SETSIZE" "clientfd p ! i = fd" "0 < fd"
  shows "pool_inv L (snd (remove_client cf fd i p))"
proof (cases "cf fd < 0")
  case True
  then show ?thesis using I by (simp add: remove_client_def)
next
  case False
  have len: "length (clientfd p) = FD_SETSIZE"
    and H: "\<And>j. j < FD_SETSIZE \<Longrightarrow> 0 \<le> clientfd p ! j \<Longrightarrow> int j \<le> maxi p \<and> rio_cnt (clientrio p ! j) = 0"
    using I by (simp_all add: pool_inv_def)
  let ?p = "p\<lparr>read_set := read_set p - {fd}, clientfd := (clientfd p)[i := -1], clients := clients p - 1\<rparr>"
  obtain xs ys where A: "active p = xs @ fd # ys" "active ?p = xs @ ys"
    using filter_update(1) [of i "clientfd p" "\<lambda>fd. 0 \<le> fd" "-1"] filter_update(2) [of i "clientfd p" "\<lambda>fd. 0 \<le> fd"] i len by (auto simp: active_def)
  have "\<forall>x \<in> set (clientfd ?p). x = -1 \<or> 0 < x"
    using I set_update_subset_insert [of "clientfd p" i "-1"] by (auto simp: pool_inv_def)
  moreover have "\<forall>j < FD_SETSIZE. 0 \<le> clientfd ?p ! j \<longrightarrow> int j \<le> maxi ?p \<and> rio_cnt (clientrio ?p ! j) = 0"
  proof (intro allI impI)
    fix j assume "j < FD_SETSIZE" "0 \<le> clientfd ?p ! j"
    with H len i(1) show "int j \<le> maxi ?p \<and> rio_cnt (clientrio ?p ! j) = 0" by (cases "j = i") auto
  qed
  moreover have "distinct (L # active ?p)" "read_set ?p = set (L # active ?p)"
    using I unfolding pool_inv_def A by auto
  moreover have "clients ?p = int (length (active ?p))" using I unfolding pool_inv_def A by simp
  ultimately have "pool_inv L ?p" using I unfolding pool_inv_def by simp
  then show ?thesis using False by (simp add: remove_client_def)
qed

section \<open>The invariant of the server\<close>

definition server_inv :: "int \<Rightarrow> server \<Rightarrow> bool" where
  "server_inv L s \<longleftrightarrow> pool_inv L (pl s) \<and> bst (root s) \<and> counts_ok (table_of (root s))"

lemma find_cmd_fields:
  "find_cmd buf cmd = Inr (st, cmd', p) \<Longrightarrow> c_connfd cmd' = c_connfd cmd \<and> c_poolidx cmd' = c_poolidx cmd"
  by (auto simp: find_cmd_def Let_def command_list_def match_cmd_def split: if_splits option.splits)

lemma find_args_fields:
  "find_args buf cmd = Inr (st, cmd') \<Longrightarrow> c_connfd cmd' = c_connfd cmd \<and> c_poolidx cmd' = c_poolidx cmd"
  by (auto simp: find_args_def set_arg_def Let_def split: if_splits option.splits)

lemma parser_fields:
  "parser buf rc cmd = Inr (st, cmd') \<Longrightarrow> c_connfd cmd' = c_connfd cmd \<and> c_poolidx cmd' = c_poolidx cmd"
  by (auto simp: parser_def split: if_splits sum.splits dest!: find_cmd_fields find_args_fields)

lemma modify_inv:
  "bst t \<Longrightarrow> counts_ok (table_of t) \<Longrightarrow> modify i n t = (st, t') \<Longrightarrow> bst t' \<and> counts_ok (table_of t')"
  using bst_modify [of t i n] abs_modify_counts [of "table_of t" i n] modify_table [of i n t] by auto

lemma call_fp_inv:
  assumes I: "server_inv L s" and c: "c_poolidx cmd < FD_SETSIZE" "clientfd (pl s) ! c_poolidx cmd = c_connfd cmd"
      "0 < c_connfd cmd"
    and call: "call_fp cf cmd s = Inr (st, cmd', s')"
  shows "server_inv L s' \<and> maxi (pl s') = maxi (pl s) \<and> dsk s' = dsk s"
proof (cases "c_fp cmd")
  case exit_client_fp
  then show ?thesis
    using call I remove_client_inv [OF _ c, of L cf]
    by (auto simp: call_fp_def exit_client_def server_inv_def remove_client_def split: if_splits)
qed (use call I in \<open>auto simp: call_fp_def show_cmd_def sell_def buy_def server_inv_def
      split: prod.splits if_splits sum.splits dest: modify_inv\<close>)

lemma serve_line_inv:
  assumes I: "server_inv L s" and c: "c_poolidx cmd < FD_SETSIZE" "clientfd (pl s) ! c_poolidx cmd = c_connfd cmd"
      "0 < c_connfd cmd"
    and call: "serve_line cf buf rc cmd s = Inr s'"
  shows "server_inv L s' \<and> maxi (pl s') = maxi (pl s) \<and> dsk s' = dsk s"
proof -
  obtain st cmd1 where P: "parser buf rc cmd = Inr (st, cmd1)"
    using call by (cases "parser buf rc cmd") (auto simp: serve_line_def)
  note F = parser_fields [OF P]
  consider m where "s' = send_msg (c_connfd cmd1) m s" | "execute cf cmd1 s = Inr s'"
    using call P by (auto simp: serve_line_def split: if_splits sum.splits)
  then show ?thesis
  proof cases
    case (1 m)
    then show ?thesis using I by (simp add: send_msg_def server_inv_def)
  next
    case 2
    then obtain st' cmd2 s1 where E: "call_fp cf (cmd1\<lparr>c_result := []\<rparr>) s = Inr (st', cmd2, s1)"
        "s' = s1\<lparr>out := out s'\<rparr>"
      by (auto simp: execute_def Let_def split: sum.splits if_splits)
    have "server_inv L s1 \<and> maxi (pl s1) = maxi (pl s) \<and> dsk s1 = dsk s"
      using call_fp_inv [OF I _ _ _ E(1)] c F by simp
    then show ?thesis by (subst (1 2 3) E(2)) (simp add: server_inv_def)
  qed
qed

lemma serve_slot_inv:
  assumes I: "server_inv L s" and i: "i < FD_SETSIZE" and call: "serve_slot cf junk i s = Inr s'"
  shows "server_inv L s' \<and> maxi (pl s') = maxi (pl s) \<and> dsk s' = dsk s"
proof (cases "clientfd (pl s) ! i > 0 \<and> clientfd (pl s) ! i \<in> ready_set (pl s)")
  case False
  then show ?thesis using call I by (auto simp: serve_slot_def Let_def)
next
  case True
  let ?fd = "clientfd (pl s) ! i"
  obtain rc line rp rs where R: "rio_readlineb (clientrio (pl s) ! i) MAXLINE (inputs s ?fd) = (rc, line, rp, rs)"
    by (metis prod_cases4)
  let ?s = "s\<lparr>pl := (pl s)\<lparr>nready := nready (pl s) - 1\<rparr>, inputs := (inputs s)(?fd := rs)\<rparr>"
  have I': "server_inv L ?s" using I by (simp add: server_inv_def)
  show ?thesis
  proof (cases "rc = 0")
    case True
    then have "s' = ?s\<lparr>pl := snd (remove_client cf ?fd i (pl ?s))\<rparr>"
      using call R \<open>?fd > 0 \<and> _\<close> by (simp add: serve_slot_def Let_def)
    then show ?thesis
      using I' remove_client_inv [of L "pl ?s" i ?fd cf] i \<open>?fd > 0 \<and> _\<close>
      by (simp add: server_inv_def remove_client_def)
  next
    case False
    then obtain buf where "serve_line cf buf rc (fresh_cmd ?fd i) ?s = Inr s'"
      using call R True by (auto simp: serve_slot_def Let_def)
    from serve_line_inv [OF I' _ _ _ this] i True show ?thesis by (simp add: fresh_cmd_def)
  qed
qed

lemma write_loop_inv:
  "\<lbrakk>server_inv L s; \<forall>i \<in> set is. i < FD_SETSIZE; write_loop cf junk is s = Inr s'\<rbrakk> \<Longrightarrow>
     server_inv L s' \<and> dsk s' = dsk s"
proof (induction "is" arbitrary: s)
  case (Cons i "is")
  show ?case
  proof (cases "nready (pl s) > 0")
    case True
    then obtain s1 where s1: "serve_slot cf junk i s = Inr s1" "write_loop cf junk is s1 = Inr s'"
      using Cons.prems(3) by (auto split: sum.splits)
    then show ?thesis using Cons.IH [of s1] serve_slot_inv [OF Cons.prems(1) _ s1(1)] Cons.prems(2) by auto
  qed (use Cons.prems in auto)
qed simp

text \<open>What the kernel may answer: a set of ready descriptors among the watched ones, and a new
  positive descriptor for an accepted connection.\<close>

definition env_ok :: "int \<Rightarrow> int \<times> int set \<Rightarrow> int \<Rightarrow> pool \<Rightarrow> bool" where
  "env_ok L sel connfd p \<longleftrightarrow> snd sel \<subseteq> read_set p \<and> (L \<in> snd sel \<longrightarrow> 0 < connfd \<and> connfd \<notin> read_set p)"

lemma main_step_inv:
  assumes I: "server_inv L s" and env: "env_ok L sel connfd (pl s)"
    and call: "main_step cf junk L sel connfd now s = Inr s'"
  shows "server_inv L s'"
proof -
  obtain p where P: "see_pool L sel connfd (pl s) = Inr p"
    using call by (cases "see_pool L sel connfd (pl s)") (auto simp: main_step_def)
  have "pool_inv L p"
  proof (cases "L \<in> snd sel")
    case True
    then show ?thesis
      using P env I add_client_inv [of L "(pl s)\<lparr>ready_set := snd sel, nready := fst sel\<rparr>" connfd]
      by (auto simp: see_pool_def env_ok_def server_inv_def split: if_splits)
  next
    case False
    then show ?thesis using P I by (auto simp: see_pool_def server_inv_def)
  qed
  then have I1: "server_inv L (s\<lparr>pl := p\<rparr>)" and m: "maxi p < int FD_SETSIZE"
    using I by (auto simp: server_inv_def pool_inv_def)
  obtain s1 where W: "write_pool cf junk (s\<lparr>pl := p\<rparr>) = Inr s1"
    using call P by (auto simp: main_step_def split: sum.splits)
  have "\<forall>i \<in> set [0..<nat (maxi (pl (s\<lparr>pl := p\<rparr>)) + 1)]. i < FD_SETSIZE" using m by auto
  from write_loop_inv [OF I1 this W [unfolded write_pool_def]] have "server_inv L s1" by blast
  then show ?thesis using call P W
    by (auto simp: main_step_def server_inv_def split: if_splits sum.splits)
qed

text \<open>The states the server goes through, turn by turn.\<close>

inductive served :: "(int \<Rightarrow> int) \<Rightarrow> string \<Rightarrow> int \<Rightarrow> server \<Rightarrow> server \<Rightarrow> bool" for cf junk L s0 where
  start: "served cf junk L s0 s0"
| turn: "\<lbrakk>served cf junk L s0 s; env_ok L sel connfd (pl s); main_step cf junk L sel connfd now s = Inr s'\<rbrakk>
    \<Longrightarrow> served cf junk L s0 s'"

lemma served_inv: "served cf junk L s0 s \<Longrightarrow> server_inv L s0 \<Longrightarrow> server_inv L s"
  by (induction rule: served.induct) (auto intro: main_step_inv)

end
