(* ===== verification/Trade_Lines.thy ===== *)
theory Trade_Lines
  imports Stock_Parser Rio
begin

text \<open>
  Trade lines on the wire: the line a client sends for a purchase or a sale, that the line reader hands it
  over in one piece, and that the parser turns it into the command.  Both servers use this.
\<close>

lemma parse_trade:
  assumes "(nm, f) \<in> {(''sell'', sell_fp), (''buy'', buy_fp)}" and "rc \<noteq> 1"
    and "blanks w1" "w1 \<noteq> []" "blanks w2" "w2 \<noteq> []" "blanks w3"
    and "word a" "a \<noteq> []" "word b" "b \<noteq> []"
  shows "\<exists>cmd'. parser (nm @ w1 @ a @ w2 @ b @ w3 @ NEWLINE # rest) rc cmd = Inr (SUCCESS, cmd')
     \<and> c_fp cmd' = f \<and> c_name cmd' = nm \<and> c_args cmd' = Some [Some [], Some a, Some b, None]
     \<and> c_argc cmd' = Some 3 \<and> c_connfd cmd' = c_connfd cmd \<and> c_poolidx cmd' = c_poolidx cmd"
proof -
  obtain d w1' where w1: "w1 = d # w1'" "whitespace d" using assms(3,4) by (cases w1) (auto simp: blanks_def)
  have nm: "word nm" "nm \<noteq> []" "pick nm = Some (1, nm, f)"
    using assms(1) by (auto simp: word_def whitespace_def pick_def command_list_def)
  let ?cmd = "cmd\<lparr>c_flag := 1, c_name := nm, c_args := Some [Some [], None, None, None], c_argc := Some 1, c_fp := f\<rparr>"
  have "find_cmd (nm @ w1 @ a @ w2 @ b @ w3 @ NEWLINE # rest) cmd = Inr (SUCCESS, ?cmd, length nm)"
    using find_cmd_word [OF nm(1) _ _ nm(3), of d "w1' @ a @ w2 @ b @ w3 @ NEWLINE # rest" cmd] nm(2) w1 by simp
  moreover have "find_args (w1 @ a @ w2 @ b @ w3 @ NEWLINE # rest) ?cmd
      = Inr (SUCCESS, (set_arg 2 b (set_arg 1 a ?cmd))\<lparr>c_argc := Some 3\<rparr>)"
    using find_args_two [OF assms(3,5,6,7,8,9,10) _ assms(11)] by (simp add: INTINT_def)
  ultimately show ?thesis using assms(2) by (simp add: parser_def set_arg_def)
qed

definition trade_line :: "string \<Rightarrow> int \<Rightarrow> int \<Rightarrow> string" where
  "trade_line nm a b = nm @ '' '' @ show_int a @ '' '' @ show_int b @ [NEWLINE]"

lemma word_show_int: "word (show_int i)"
proof -
  have "\<not> whitespace c \<and> c \<noteq> NEWLINE \<and> c \<noteq> NUL" if "c \<in> set (show_int i)" for c
    using show_int_no_space [OF that] by (auto simp: isspace_def whitespace_def)
  then show ?thesis by (simp add: word_def list_all_iff)
qed

lemma trade_line_of:
  assumes "nm \<in> {''sell'', ''buy''}" and "in_int32 a" and "in_int32 b"
  shows "line_of (MAXLINE - 1) (trade_line nm a b @ rest) = trade_line nm a b"
proof -
  let ?w = "nm @ '' '' @ show_int a @ '' '' @ show_int b"
  have d: "NEWLINE \<notin> set (show_int i)" for i
    using word_show_int [of i] unfolding word_def list_all_iff by blast
  have "NEWLINE \<notin> set nm" using assms(1) by auto
  then have nl: "NEWLINE \<notin> set ?w" using d by simp
  have "length ?w < MAXLINE - 1"
    using assms(1) length_show_int [OF assms(2)] length_show_int [OF assms(3)] by (auto simp: MAXLINE_def)
  from line_of_exact [OF nl this, of rest] show ?thesis by (simp add: trade_line_def)
qed

end
