(* ===== verification/Sbuf.thy ===== *)
theory Sbuf
  imports C_Strings
begin

text \<open>
  The bounded buffer between the accepting thread and the workers
  (\<^verbatim>\<open>concurrent_stockserver/thread_based/threading.c\<close>): a ring of connections with a mutex and
  two counting semaphores.  The counters \<^verbatim>\<open>front\<close> and \<^verbatim>\<open>rear\<close> are 32-bit \<^verbatim>\<open>int\<close>s that only
  grow; they are reduced modulo the size at each access.
\<close>

section \<open>The program\<close>

record 'a sbuf =
  buf :: "'a list"
  bn :: int
  front :: int
  rear :: int
  mutex :: nat
  empty_slots :: nat
  items :: nat

definition mutex_init :: "'a \<Rightarrow> nat \<Rightarrow> 'a sbuf" where
  "mutex_init zero n = \<lparr>buf = replicate n zero, bn = int n, front = 0, rear = 0, mutex = 1, empty_slots = n, items = 0\<rparr>"

text \<open>The accesses inside the critical sections.\<close>

definition sbuf_put :: "'a \<Rightarrow> 'a sbuf \<Rightarrow> 'a sbuf" where
  "sbuf_put x s = (let r = int32 (rear s + 1) in s\<lparr>rear := r, buf := (buf s)[nat (c_mod r (bn s)) := x]\<rparr>)"

definition sbuf_get :: "'a sbuf \<Rightarrow> 'a \<times> 'a sbuf" where
  "sbuf_get s = (let f = int32 (front s + 1) in (buf s ! nat (c_mod f (bn s)), s\<lparr>front := f\<rparr>))"

text \<open>The operations without interference; \<open>None\<close> means that the caller waits.\<close>

definition sbuf_insert :: "'a sbuf \<Rightarrow> 'a \<Rightarrow> 'a sbuf option" where
  "sbuf_insert s x =
     (if empty_slots s = 0 then None
      else if mutex s = 0 then None
      else let s1 = s\<lparr>empty_slots := empty_slots s - 1, mutex := mutex s - 1\<rparr>;
               s2 = sbuf_put x s1
           in Some (s2\<lparr>mutex := mutex s2 + 1, items := items s2 + 1\<rparr>))"

definition sbuf_remove :: "'a sbuf \<Rightarrow> ('a \<times> 'a sbuf) option" where
  "sbuf_remove s =
     (if items s = 0 then None
      else if mutex s = 0 then None
      else let s1 = s\<lparr>items := items s - 1, mutex := mutex s - 1\<rparr>;
               (x, s2) = sbuf_get s1
           in Some (x, s2\<lparr>mutex := mutex s2 + 1, empty_slots := empty_slots s2 + 1\<rparr>))"

section \<open>The ring as a queue\<close>

definition ring_ok :: "'a sbuf \<Rightarrow> bool" where
  "ring_ok s \<longleftrightarrow> 0 < bn s \<and> length (buf s) = nat (bn s) \<and> 0 \<le> front s \<and> front s \<le> rear s
     \<and> rear s - front s \<le> bn s \<and> rear s < 2 ^ 31"

definition queue_of :: "'a sbuf \<Rightarrow> 'a list" where
  "queue_of s = map (\<lambda>k. buf s ! nat ((front s + 1 + int k) mod bn s)) [0..<nat (rear s - front s)]"

lemma length_queue_of [simp]: "length (queue_of s) = nat (rear s - front s)"
  by (simp add: queue_of_def)

lemma mod_window_distinct:
  fixes a b n :: int
  assumes "a \<noteq> b" and "\<bar>a - b\<bar> < n"
  shows "a mod n \<noteq> b mod n"
proof
  assume "a mod n = b mod n"
  then have "n dvd a - b" by (simp add: mod_eq_dvd_iff)
  then have "n \<le> \<bar>a - b\<bar>" using assms by (metis abs_dvd_iff dvd_abs_iff right_minus_eq zdvd_imp_le zero_less_abs_iff)
  with assms(2) show False by simp
qed

lemma sbuf_put_queue:
  assumes ok: "ring_ok s" and room: "rear s - front s < bn s" "rear s + 1 < 2 ^ 31"
  shows "ring_ok (sbuf_put x s) \<and> queue_of (sbuf_put x s) = queue_of s @ [x]"
proof -
  let ?r = "rear s + 1"
  have r: "int32 ?r = ?r" using ok room by (simp add: ring_ok_def in_int32_def)
  have m: "c_mod ?r (bn s) = ?r mod bn s" using ok by (simp add: c_mod_nonneg ring_ok_def)
  have put: "sbuf_put x s = s\<lparr>rear := ?r, buf := (buf s)[nat (?r mod bn s) := x]\<rparr>"
    by (simp add: sbuf_put_def r m Let_def)
  have inr: "nat (?r mod bn s) < length (buf s)" using ok by (simp add: ring_ok_def nat_less_iff)
  have old: "(buf s)[nat (?r mod bn s) := x] ! nat ((front s + 1 + int k) mod bn s)
      = buf s ! nat ((front s + 1 + int k) mod bn s)" if k: "k < nat (rear s - front s)" for k
  proof -
    have "?r mod bn s \<noteq> (front s + 1 + int k) mod bn s"
      by (rule mod_window_distinct) (use k room ok in \<open>auto simp: ring_ok_def\<close>)
    moreover have "0 \<le> ?r mod bn s" "0 \<le> (front s + 1 + int k) mod bn s" using ok by (auto simp: ring_ok_def)
    ultimately show ?thesis by (metis eq_nat_nat_iff nth_list_update_neq)
  qed
  have len: "nat (?r - front s) = Suc (nat (rear s - front s))" using ok by (auto simp: ring_ok_def)
  have last: "front s + 1 + int (nat (rear s - front s)) = ?r" using ok by (simp add: ring_ok_def)
  let ?n = "nat (rear s - front s)" let ?B = "(buf s)[nat (?r mod bn s) := x]"
  have "queue_of (sbuf_put x s) = map (\<lambda>k. ?B ! nat ((front s + 1 + int k) mod bn s)) [0..<Suc ?n]"
    unfolding put queue_of_def len [symmetric] by simp
  also have "\<dots> = map (\<lambda>k. ?B ! nat ((front s + 1 + int k) mod bn s)) [0..<?n] @ [?B ! nat (?r mod bn s)]"
    unfolding last [symmetric] by simp
  also have "map (\<lambda>k. ?B ! nat ((front s + 1 + int k) mod bn s)) [0..<?n] = queue_of s"
    unfolding queue_of_def using old by (intro map_cong) auto
  also have "?B ! nat (?r mod bn s) = x" using inr by simp
  finally have "queue_of (sbuf_put x s) = queue_of s @ [x]" .
  moreover have "ring_ok (sbuf_put x s)" using ok room by (simp add: put ring_ok_def)
  ultimately show ?thesis by blast
qed

lemma sbuf_get_queue:
  assumes ok: "ring_ok s" and ne: "front s < rear s"
  shows "\<exists>x s'. sbuf_get s = (x, s') \<and> ring_ok s' \<and> queue_of s = x # queue_of s'"
proof -
  let ?f = "front s + 1"
  have f: "int32 ?f = ?f" using ok ne by (simp add: ring_ok_def in_int32_def)
  have m: "c_mod ?f (bn s) = ?f mod bn s" using ok by (simp add: c_mod_nonneg ring_ok_def)
  have len: "nat (rear s - front s) = Suc (nat (rear s - ?f))" using ne by auto
  have "queue_of s = buf s ! nat (?f mod bn s) # queue_of (s\<lparr>front := ?f\<rparr>)"
    unfolding queue_of_def len
    by (simp add: upt_conv_Cons map_Suc_upt [symmetric] comp_def add.commute add.left_commute del: upt_Suc)
  moreover have "ring_ok (s\<lparr>front := ?f\<rparr>)" using ok ne by (simp add: ring_ok_def)
  ultimately show ?thesis by (simp add: sbuf_get_def f m Let_def)
qed

section \<open>The interface of a bounded queue\<close>

text \<open>\<open>room\<close> is how many insertions the buffer can still take in its lifetime.\<close>

locale bounded_fifo =
  fixes ok :: "'s \<Rightarrow> bool"
    and contents :: "'s \<Rightarrow> 'a list"
    and cap :: "'s \<Rightarrow> nat"
    and room :: "'s \<Rightarrow> nat"
    and put :: "'s \<Rightarrow> 'a \<Rightarrow> 's option"
    and get :: "'s \<Rightarrow> ('a \<times> 's) option"
  assumes put_ok: "\<lbrakk>ok s; length (contents s) < cap s; 0 < room s\<rbrakk> \<Longrightarrow>
      \<exists>s'. put s x = Some s' \<and> ok s' \<and> contents s' = contents s @ [x] \<and> cap s' = cap s \<and> room s' = room s - 1"
    and put_full: "\<lbrakk>ok s; length (contents s) = cap s\<rbrakk> \<Longrightarrow> put s x = None"
    and get_ok: "\<lbrakk>ok s; contents s = x # xs\<rbrakk> \<Longrightarrow>
      \<exists>s'. get s = Some (x, s') \<and> ok s' \<and> contents s' = xs \<and> cap s' = cap s \<and> room s' = room s"
    and get_empty: "\<lbrakk>ok s; contents s = []\<rbrakk> \<Longrightarrow> get s = None"
begin

fun put_all :: "'s \<Rightarrow> 'a list \<Rightarrow> 's option" where
  "put_all s [] = Some s"
| "put_all s (x # xs) = (case put s x of None \<Rightarrow> None | Some s' \<Rightarrow> put_all s' xs)"

fun get_all :: "nat \<Rightarrow> 's \<Rightarrow> ('a list \<times> 's) option" where
  "get_all 0 s = Some ([], s)"
| "get_all (Suc n) s = (case get s of None \<Rightarrow> None
     | Some (x, s') \<Rightarrow> map_option (\<lambda>(xs, t). (x # xs, t)) (get_all n s'))"

lemma put_all_ok:
  "\<lbrakk>ok s; length (contents s) + length xs \<le> cap s; length xs \<le> room s\<rbrakk> \<Longrightarrow>
     \<exists>s'. put_all s xs = Some s' \<and> ok s' \<and> contents s' = contents s @ xs"
proof (induction xs arbitrary: s)
  case (Cons x xs)
  then obtain s1 where "put s x = Some s1" "ok s1" "contents s1 = contents s @ [x]" "cap s1 = cap s" "room s1 = room s - 1"
    using put_ok [of s x] by auto
  with Cons show ?case by force
qed simp

lemma get_all_ok: "ok s \<Longrightarrow> \<exists>s'. get_all (length (contents s)) s = Some (contents s, s') \<and> ok s' \<and> contents s' = []"
proof (induction "contents s" arbitrary: s)
  case (Cons x xs)
  from get_ok [OF Cons.prems Cons.hyps(2) [symmetric]] obtain s1 where
    s1: "get s = Some (x, s1)" "ok s1" "contents s1 = xs" by blast
  from Cons.hyps(1) [OF s1(3) [symmetric] s1(2)] s1 Cons.hyps(2) [symmetric] show ?case by auto
qed simp

lemma fifo_order:
  assumes "ok s" and "contents s = []" and "length xs \<le> cap s" and "length xs \<le> room s"
  shows "\<exists>s' t. put_all s xs = Some s' \<and> get_all (length xs) s' = Some (xs, t)"
  using put_all_ok [of s xs] get_all_ok assms by fastforce

end

definition sbuf_ok :: "'a sbuf \<Rightarrow> bool" where
  "sbuf_ok s \<longleftrightarrow> ring_ok s \<and> mutex s = 1 \<and> int (items s) = rear s - front s
     \<and> int (empty_slots s) = bn s - (rear s - front s)"

definition sbuf_room :: "'a sbuf \<Rightarrow> nat" where
  "sbuf_room s = nat (2 ^ 31 - 1 - rear s)"

lemma sbuf_put_fields [simp]:
  "mutex (sbuf_put x s) = mutex s" "items (sbuf_put x s) = items s" "empty_slots (sbuf_put x s) = empty_slots s"
  "bn (sbuf_put x s) = bn s" "front (sbuf_put x s) = front s" "rear (sbuf_put x s) = int32 (rear s + 1)"
  by (simp_all add: sbuf_put_def Let_def)

lemma ring_ok_sems [simp]:
  "ring_ok (s\<lparr>mutex := a\<rparr>) = ring_ok s" "ring_ok (s\<lparr>items := b\<rparr>) = ring_ok s" "ring_ok (s\<lparr>empty_slots := c\<rparr>) = ring_ok s"
  "queue_of (s\<lparr>mutex := a\<rparr>) = queue_of s" "queue_of (s\<lparr>items := b\<rparr>) = queue_of s" "queue_of (s\<lparr>empty_slots := c\<rparr>) = queue_of s"
  by (simp_all add: ring_ok_def queue_of_def)

lemma sbuf_insert_ok:
  assumes "sbuf_ok s" and "length (queue_of s) < nat (bn s)" and "0 < sbuf_room s"
  shows "\<exists>s'. sbuf_insert s x = Some s' \<and> sbuf_ok s' \<and> queue_of s' = queue_of s @ [x] \<and> bn s' = bn s
     \<and> rear s' = rear s + 1"
proof -
  let ?s = "s\<lparr>empty_slots := empty_slots s - 1, mutex := 0\<rparr>"
  have r: "rear s - front s < bn s" "rear s + 1 < 2 ^ 31" "0 \<le> rear s" "front s \<le> rear s"
    using assms by (auto simp: sbuf_room_def sbuf_ok_def ring_ok_def)
  have w: "int32 (rear s + 1) = rear s + 1" using r by (simp add: in_int32_def)
  have Q: "ring_ok (sbuf_put x ?s) \<and> queue_of (sbuf_put x ?s) = queue_of s @ [x]"
    using sbuf_put_queue [of ?s x] assms(1) r by (simp add: sbuf_ok_def)
  have "0 < empty_slots s" "mutex s = 1" using assms(1) r by (auto simp: sbuf_ok_def)
  then have call: "sbuf_insert s x = Some ((sbuf_put x ?s)\<lparr>mutex := 1, items := items s + 1\<rparr>)"
    by (simp add: sbuf_insert_def Let_def)
  show ?thesis
    unfolding call using Q assms(1) r w \<open>0 < empty_slots s\<close> by (simp add: sbuf_ok_def)
qed

lemma sbuf_remove_ok:
  assumes "sbuf_ok s" and "queue_of s = x # xs"
  shows "\<exists>s'. sbuf_remove s = Some (x, s') \<and> sbuf_ok s' \<and> queue_of s' = xs \<and> bn s' = bn s \<and> rear s' = rear s"
proof -
  let ?s = "s\<lparr>items := items s - 1, mutex := 0\<rparr>"
  have "0 < length (queue_of s)" using assms(2) by simp
  then have f: "front s < rear s" by simp
  obtain y s1 where G: "sbuf_get ?s = (y, s1)" "ring_ok s1" "queue_of ?s = y # queue_of s1"
    using sbuf_get_queue [of ?s] assms(1) f by (auto simp: sbuf_ok_def)
  have yx: "y = x" "queue_of s1 = xs" using G(3) assms(2) by simp_all
  have fr: "int32 (front s + 1) = front s + 1" using f assms(1) by (simp add: in_int32_def sbuf_ok_def ring_ok_def)
  have s1: "s1 = ?s\<lparr>front := front s + 1\<rparr>" using G(1) fr by (auto simp: sbuf_get_def Let_def)
  have "0 < items s" "mutex s = 1" using assms(1) f by (auto simp: sbuf_ok_def)
  then have call: "sbuf_remove s = Some (x, s1\<lparr>mutex := 1, empty_slots := empty_slots s + 1\<rparr>)"
    using G(1) yx(1) s1 by (simp add: sbuf_remove_def Let_def)
  show ?thesis
    unfolding call using G(2) yx(2) assms(1) f s1 \<open>0 < items s\<close>
    by (auto simp: sbuf_ok_def ring_ok_def queue_of_def)
qed

interpretation sb: bounded_fifo sbuf_ok queue_of "\<lambda>s. nat (bn s)" sbuf_room sbuf_insert sbuf_remove
proof
  fix s :: "'a sbuf" and x xs
  assume ok: "sbuf_ok s"
  show "\<exists>s'. sbuf_insert s x = Some s' \<and> sbuf_ok s' \<and> queue_of s' = queue_of s @ [x] \<and> nat (bn s') = nat (bn s)
      \<and> sbuf_room s' = sbuf_room s - 1" if "length (queue_of s) < nat (bn s)" "0 < sbuf_room s"
    using sbuf_insert_ok [OF ok that, of x] by (auto simp: sbuf_room_def)
  show "sbuf_insert s x = None" if "length (queue_of s) = nat (bn s)"
  proof -
    have "empty_slots s = 0" using ok that by (auto simp: sbuf_ok_def ring_ok_def)
    then show ?thesis by (simp add: sbuf_insert_def)
  qed
  show "\<exists>s'. sbuf_remove s = Some (x, s') \<and> sbuf_ok s' \<and> queue_of s' = xs \<and> nat (bn s') = nat (bn s)
      \<and> sbuf_room s' = sbuf_room s" if "queue_of s = x # xs"
    using sbuf_remove_ok [OF ok that] by (auto simp: sbuf_room_def)
  show "sbuf_remove s = None" if "queue_of s = []"
  proof -
    have "length (queue_of s) = 0" using that by simp
    then have "items s = 0" using ok by (auto simp: sbuf_ok_def ring_ok_def)
    then show ?thesis by (simp add: sbuf_remove_def)
  qed
qed

end
