(* ===== verification/Thread_Server.thy ===== *)
theory Thread_Server
  imports Event_Server Trade_Lines Sbuf
begin

text \<open>
  A worker of the thread-based stock server (\<^verbatim>\<open>concurrent_stockserver/thread_based\<close>): the accepting loop
  of \<^verbatim>\<open>stockserver.c\<close>, the worker of \<^verbatim>\<open>threading.c\<close>, the service of one connection in \<^verbatim>\<open>network.c\<close>, the commands
  of \<^verbatim>\<open>impl.c\<close> and the helpers of \<^verbatim>\<open>util.c\<close>, as one thread sees them when no other interferes (interleavings are
  the subject of the theory of the shared counters).  Parser, tree, stock file and line reader are the same
  code as the event-driven server's.  The kernel's answers are arguments: the input of the connection,
  whether the \<open>k\<close>-th answer can be written (\<open>wok k\<close>), and what \<^verbatim>\<open>close\<close> returns.  The field \<open>c_args\<close> is
  \<open>None\<close> while the pointer is uninitialised or dangles.
\<close>

section \<open>The program\<close>

record svc =
  svc_root :: stock
  svc_replies :: "string list"
  svc_open :: bool
  svc_cnct :: command
  svc_rio :: rio
  svc_in :: "rd list"
  svc_buf :: string

text \<open>How a step of the service ends: it goes on, the connection is closed, the whole process has exited, or
  the code has done something undefined.\<close>

datatype svc_result = Running svc | Closed svc | ServerExit svc | Broken srv_fault

definition socket_close :: "int \<Rightarrow> svc \<Rightarrow> int \<times> svc" where
  "socket_close cr s = (cr, if cr < 0 then s else s\<lparr>svc_open := False\<rparr>)"

text \<open>\<^verbatim>\<open>Rio_writen\<close> ends the process when the whole buffer cannot be written.\<close>

definition th_Rio_writen :: "(nat \<Rightarrow> bool) \<Rightarrow> string \<Rightarrow> svc \<Rightarrow> svc_result" where
  "th_Rio_writen wok msg s =
     (if svc_open s \<and> wok (length (svc_replies s)) then Running (s\<lparr>svc_replies := svc_replies s @ [msg]\<rparr>)
      else ServerExit s)"

definition th_show :: "svc \<Rightarrow> srv_fault + STATUS \<times> svc" where
  "th_show s =
     (case print_to_buf (svc_root s) (c_result (svc_cnct s)) of
        (st, b) \<Rightarrow> if length b \<ge> MAXLINE then Inl BufferOverflow else Inr (st, s\<lparr>svc_cnct := (svc_cnct s)\<lparr>c_result := b\<rparr>\<rparr>))"

definition th_sell :: "svc \<Rightarrow> srv_fault + STATUS \<times> svc" where
  "th_sell s =
     (case arg 1 (svc_cnct s) of Inl e \<Rightarrow> Inl e | Inr a1 \<Rightarrow>
      case arg 2 (svc_cnct s) of Inl e \<Rightarrow> Inl e | Inr a2 \<Rightarrow>
      case modify a1 a2 (svc_root s) of (st, r) \<Rightarrow> Inr (st, s\<lparr>svc_root := r\<rparr>))"

definition th_buy :: "svc \<Rightarrow> srv_fault + STATUS \<times> svc" where
  "th_buy s =
     (case arg 1 (svc_cnct s) of Inl e \<Rightarrow> Inl e | Inr a1 \<Rightarrow>
      case arg 2 (svc_cnct s) of Inl e \<Rightarrow> Inl e | Inr a2 \<Rightarrow>
      case modify a1 (int32 (- a2)) (svc_root s) of (st, r) \<Rightarrow> Inr (st, s\<lparr>svc_root := r\<rparr>))"

definition th_exit_client :: "int \<Rightarrow> svc \<Rightarrow> srv_fault + STATUS \<times> svc" where
  "th_exit_client cr s = (case socket_close cr s of (r, s1) \<Rightarrow> Inr (if r \<noteq> 0 then SUCCESS else ERROR, s1))"

definition th_call :: "int \<Rightarrow> svc \<Rightarrow> srv_fault + STATUS \<times> svc" where
  "th_call cr s =
     (case c_fp (svc_cnct s) of
        show_fp \<Rightarrow> th_show s | sell_fp \<Rightarrow> th_sell s | buy_fp \<Rightarrow> th_buy s | exit_client_fp \<Rightarrow> th_exit_client cr s)"

text \<open>\<^verbatim>\<open>execute\<close> gets the connection by value, so what a command writes into it is gone afterwards.\<close>

definition th_execute :: "(nat \<Rightarrow> bool) \<Rightarrow> int \<Rightarrow> svc \<Rightarrow> svc_result" where
  "th_execute wok cr s =
     (case th_call cr (s\<lparr>svc_cnct := (svc_cnct s)\<lparr>c_result := []\<rparr>\<rparr>) of
        Inl e \<Rightarrow> Broken e
      | Inr (st, s1) \<Rightarrow>
          let res = reply (c_name (svc_cnct s1)) st (c_result (svc_cnct s1))
          in if length res \<ge> MAXLINE then Broken BufferOverflow
             else th_Rio_writen wok res (s1\<lparr>svc_cnct := svc_cnct s\<rparr>))"

definition th_free_args :: "svc \<Rightarrow> svc_result" where
  "th_free_args s =
     (case (c_args (svc_cnct s), c_argc (svc_cnct s)) of
        (Some a, Some n) \<Rightarrow>
          if n \<le> length a then Running (s\<lparr>svc_cnct := (svc_cnct s)\<lparr>c_args := None\<rparr>\<rparr>) else Broken BadFree
      | _ \<Rightarrow> Broken BadFree)"

definition service_line :: "(nat \<Rightarrow> bool) \<Rightarrow> int \<Rightarrow> int \<Rightarrow> svc \<Rightarrow> svc_result" where
  "service_line wok cr rc s =
     (case parser (svc_buf s) rc (svc_cnct s) of
        Inl e \<Rightarrow> Broken e
      | Inr (st, cmd) \<Rightarrow>
          let s1 = s\<lparr>svc_cnct := cmd\<rparr> in
          case (if st = NOCMD then th_Rio_writen wok (''No Such Command'' @ [NEWLINE]) s1
                else if st = INVARG then th_Rio_writen wok (''Invalid Argument'' @ [NEWLINE]) s1
                else if st = NL then th_Rio_writen wok (''Please Type Command'' @ [NEWLINE]) s1
                else th_execute wok cr s1) of
            Running s2 \<Rightarrow> th_free_args s2
          | r \<Rightarrow> r)"

text \<open>The loop over the lines of a connection, for at most \<open>k\<close> turns.\<close>

fun service_loop :: "nat \<Rightarrow> (nat \<Rightarrow> bool) \<Rightarrow> int \<Rightarrow> svc \<Rightarrow> svc_result" where
  "service_loop 0 wok cr s = Running s"
| "service_loop (Suc k) wok cr s =
     (case rio_readlineb (svc_rio s) MAXLINE (svc_in s) of
        (rc, line, rp, rs) \<Rightarrow>
          let s1 = s\<lparr>svc_rio := rp, svc_in := rs\<rparr> in
          if rc \<noteq> 0 then
            let txt = line @ (if rc > 0 then [NUL] else [])
            in case service_line wok cr rc (s1\<lparr>svc_buf := txt @ drop (length txt) (svc_buf s1)\<rparr>) of
                 Running s2 \<Rightarrow> service_loop k wok cr s2
               | r \<Rightarrow> r
          else Closed (snd (socket_close cr s1)))"

text \<open>\<open>junk\<close> holds the values of the uninitialised locals.\<close>

definition service :: "nat \<Rightarrow> (nat \<Rightarrow> bool) \<Rightarrow> int \<Rightarrow> int \<Rightarrow> rio \<times> command \<times> string \<Rightarrow> rd list \<Rightarrow> stock \<Rightarrow> svc_result" where
  "service k wok cr connfd junk inp tr =
     (case junk of
        (rp, cmd, b) \<Rightarrow>
          service_loop k wok cr
            \<lparr>svc_root = tr, svc_replies = [], svc_open = True,
             svc_cnct = cmd\<lparr>c_connfd := connfd, c_args := None, c_argc := None\<rparr>,
             svc_rio = rio_readinitb rp connfd, svc_in = inp, svc_buf = b\<rparr>)"

section \<open>Workers and the accepting loop\<close>

definition NETWORK_WORKER_THREAD_N_DEFAULT :: int where "NETWORK_WORKER_THREAD_N_DEFAULT = 4"
definition PENDING_CONNECTION_N :: nat where "PENDING_CONNECTION_N = 4096"

record workers =
  idle_threads :: nat
  worker_n :: int
  wbuf :: "int sbuf"
  wroot :: stock
  wdisk :: disk

definition thread_count :: "string option \<Rightarrow> int" where
  "thread_count argv3 =
     (case argv3 of
        None \<Rightarrow> NETWORK_WORKER_THREAD_N_DEFAULT
      | Some a \<Rightarrow> let n = atoi a in if n \<noteq> 0 then n else NETWORK_WORKER_THREAD_N_DEFAULT)"

definition accept_step :: "int \<Rightarrow> int \<Rightarrow> workers \<Rightarrow> workers option" where
  "accept_step listenfd connfd w =
     (if connfd > listenfd then map_option (\<lambda>b. w\<lparr>wbuf := b\<rparr>) (sbuf_insert (wbuf w) connfd) else Some w)"

text \<open>The stock file is written under the mutex of the buffer, which the handler gives back.\<close>

definition sigsync_handler :: "timeval \<Rightarrow> workers \<Rightarrow> srv_fault + workers" where
  "sigsync_handler now w =
     (case fsync_stockfile now (wroot w) (wdisk w) of
        Inl e \<Rightarrow> Inl e
      | Inr d \<Rightarrow> Inr (w\<lparr>wdisk := d, wbuf := (wbuf w)\<lparr>mutex := mutex (wbuf w) + 1\<rparr>\<rparr>))"

datatype worker_result = Served "int" workers | Waits | Exits | WorkerFault srv_fault

definition network_worker :: "nat \<Rightarrow> (nat \<Rightarrow> bool) \<Rightarrow> int \<Rightarrow> timeval \<Rightarrow> rio \<times> command \<times> string \<Rightarrow> (int \<Rightarrow> rd list) \<Rightarrow> workers \<Rightarrow> worker_result" where
  "network_worker k wok cr now junk inp w =
     (case sbuf_remove (wbuf w) of
        None \<Rightarrow> Waits
      | Some (connfd, b) \<Rightarrow>
          if idle_threads w = 0 then Waits
          else case service k wok cr connfd junk (inp connfd) (wroot w) of
              Running _ \<Rightarrow> Waits
            | ServerExit _ \<Rightarrow> Exits
            | Broken e \<Rightarrow> WorkerFault e
            | Closed s \<Rightarrow>
                let w1 = w\<lparr>wbuf := b, wroot := svc_root s\<rparr> in
                if int (idle_threads w) = worker_n w then
                  if mutex b = 0 then Waits
                  else (case sigsync_handler now (w1\<lparr>wbuf := b\<lparr>mutex := mutex b - 1\<rparr>\<rparr>) of
                          Inl e \<Rightarrow> WorkerFault e
                        | Inr w2 \<Rightarrow> Served connfd w2)
                else Served connfd w1)"

section \<open>Serving trades\<close>

text \<open>A trade is the name of its command, the stock and the amount.\<close>

type_synonym trade = "string \<times> int \<times> int"

definition trade_ok :: "trade \<Rightarrow> bool" where
  "trade_ok t \<longleftrightarrow> fst t \<in> {''sell'', ''buy''} \<and> in_int32 (fst (snd t)) \<and> in_int32 (snd (snd t))"

definition wire :: "trade \<Rightarrow> string" where
  "wire t = trade_line (fst t) (fst (snd t)) (snd (snd t))"

definition delta :: "trade \<Rightarrow> int \<times> int" where
  "delta t = (fst (snd t), if fst t = ''sell'' then snd (snd t) else int32 (- snd (snd t)))"

text \<open>What the clients are promised: the table after the trades and the answers.\<close>

fun trade_session :: "trade list \<Rightarrow> table \<Rightarrow> string list \<times> table" where
  "trade_session [] T = ([], T)"
| "trade_session (t # ts) T =
     (case abs_modify (fst (delta t)) (snd (delta t)) T of
        (st, T1) \<Rightarrow> (case trade_session ts T1 of (rs, T2) \<Rightarrow> (reply (fst t) st [] # rs, T2)))"

lemma wire_not_empty: "length (wire t) > 1"
  by (simp add: wire_def trade_line_def)

lemma modify_status: "modify i n t = (st, t') \<Longrightarrow> st \<in> {SUCCESS, ERROR, NOTENOUGHERR}"
  by (auto simp: modify_def split: stock.splits if_splits)

lemma reply_short: "nm \<in> {''sell'', ''buy'', ''exit''} \<Longrightarrow> length (reply nm st []) < MAXLINE"
  by (cases st) (auto simp: reply_def MAXLINE_def)

lemma trade_parsed:
  assumes "trade_ok t"
  obtains cmd' where "parser (wire t @ rest) (int (length (wire t))) cmd = Inr (SUCCESS, cmd')"
    "c_fp cmd' = (if fst t = ''sell'' then sell_fp else buy_fp)" "c_name cmd' = fst t" "c_argc cmd' = Some 3"
    "c_args cmd' = Some [Some [], Some (show_int (fst (snd t))), Some (show_int (snd (snd t))), None]"
proof -
  have b: "blanks '' ''" "blanks []" by (simp_all add: blanks_def)
  have f: "(fst t, if fst t = ''sell'' then sell_fp else buy_fp) \<in> {(''sell'', sell_fp), (''buy'', buy_fp)}"
    using assms by (auto simp: trade_ok_def)
  have rc: "int (length (wire t)) \<noteq> 1" using wire_not_empty [of t] by simp
  from parse_trade [OF f rc b(1) _ b(1) _ b(2) word_show_int show_int_not_Nil word_show_int
      show_int_not_Nil, of "fst (snd t)" "snd (snd t)" rest cmd]
  show thesis using that by (auto simp: wire_def trade_line_def)
qed

lemma service_trade_line:
  assumes t: "trade_ok t" and buf: "svc_buf s = wire t @ rest" and op: "svc_open s" "wok (length (svc_replies s))"
    and m: "modify (fst (delta t)) (snd (delta t)) (svc_root s) = (st, r)"
  obtains cmd where "service_line wok cr (int (length (wire t))) s
     = Running (s\<lparr>svc_root := r, svc_replies := svc_replies s @ [reply (fst t) st []], svc_cnct := cmd\<rparr>)"
proof -
  obtain cmd where P: "parser (svc_buf s) (int (length (wire t))) (svc_cnct s) = Inr (SUCCESS, cmd)"
    "c_fp cmd = (if fst t = ''sell'' then sell_fp else buy_fp)" "c_name cmd = fst t" "c_argc cmd = Some 3"
    "c_args cmd = Some [Some [], Some (show_int (fst (snd t))), Some (show_int (snd (snd t))), None]"
    unfolding buf by (rule trade_parsed [OF t])
  have i: "in_int32 (fst (snd t))" "in_int32 (snd (snd t))" "fst t \<in> {''sell'', ''buy''}" using t by (auto simp: trade_ok_def)
  let ?s = "s\<lparr>svc_cnct := cmd\<rparr>"
  have "th_call cr (?s\<lparr>svc_cnct := (svc_cnct ?s)\<lparr>c_result := []\<rparr>\<rparr>) = Inr (st, ?s\<lparr>svc_cnct := cmd\<lparr>c_result := []\<rparr>, svc_root := r\<rparr>)"
    using P(2,5) m i by (simp add: th_call_def th_sell_def th_buy_def arg_def delta_def split: if_splits)
  moreover have "length (reply (fst t) st []) < MAXLINE" by (rule reply_short) (use i in auto)
  ultimately have "th_execute wok cr ?s = Running (?s\<lparr>svc_root := r, svc_replies := svc_replies s @ [reply (fst t) st []]\<rparr>)"
    using P(3) op by (simp add: th_execute_def th_Rio_writen_def)
  then have "service_line wok cr (int (length (wire t))) s
      = Running (s\<lparr>svc_root := r, svc_replies := svc_replies s @ [reply (fst t) st []], svc_cnct := cmd\<lparr>c_args := None\<rparr>\<rparr>)"
    using P(1,4,5) by (simp add: service_line_def th_free_args_def)
  then show thesis by (rule that)
qed

declare service_loop.simps(2) [simp del]

lemma service_goes_on:
  assumes "rio_readlineb (svc_rio s) MAXLINE (svc_in s) = (rc, ln, rp, rs)" and "0 < rc"
    and "service_line wok cr rc (s\<lparr>svc_rio := rp, svc_in := rs, svc_buf := (ln @ [NUL]) @ drop (length (ln @ [NUL])) (svc_buf s)\<rparr>) = Running s2"
  shows "service_loop (Suc k) wok cr s = service_loop k wok cr s2"
  using assms by (simp add: service_loop.simps(2) Let_def)

section \<open>Serving any lines\<close>

text \<open>What a series of lines does to the tree, and the answers to them, when \<open>act\<close> is what one line does.\<close>

fun serve_all :: "('a \<Rightarrow> stock \<Rightarrow> string \<times> stock) \<Rightarrow> 'a list \<Rightarrow> stock \<Rightarrow> string list \<times> stock" where
  "serve_all act [] t = ([], t)"
| "serve_all act (x # xs) t =
     (case act x t of (r, t1) \<Rightarrow> (case serve_all act xs t1 of (rs, t2) \<Rightarrow> (r # rs, t2)))"

text \<open>What the loop of a connection needs of the lines a client sends: each is read in one piece, and one line
  answers and changes the tree as \<open>act\<close> says, as long as the tree is \<open>good\<close>.\<close>

locale line_service =
  fixes ok :: "'a \<Rightarrow> bool" and line :: "'a \<Rightarrow> string" and act :: "'a \<Rightarrow> stock \<Rightarrow> string \<times> stock" and good :: "stock \<Rightarrow> bool"
  assumes line_nonempty: "ok x \<Longrightarrow> line x \<noteq> []"
    and line_whole: "ok x \<Longrightarrow> line_of (MAXLINE - 1) (line x @ rest) = line x"
    and line_answered: "\<lbrakk>ok x; good (svc_root s); svc_buf s = line x @ rest; svc_open s\<rbrakk> \<Longrightarrow>
      \<exists>cmd. service_line (\<lambda>_. True) cr (int (length (line x))) s
        = Running (s\<lparr>svc_root := snd (act x (svc_root s)), svc_replies := svc_replies s @ [fst (act x (svc_root s))], svc_cnct := cmd\<rparr>)"
    and good_kept: "ok x \<Longrightarrow> good t \<Longrightarrow> good (snd (act x t))"
begin

lemma read_line:
  assumes "ok x" and "rio_ok (svc_rio s)" and "clean (svc_in s)" and "avail (svc_rio s) (svc_in s) = line x @ rest"
  obtains rp rs where "rio_readlineb (svc_rio s) MAXLINE (svc_in s) = (int (length (line x)), line x, rp, rs)"
    "rio_ok rp" "clean rs" "avail rp rs = rest"
  using rio_readlineb_spec [OF assms(2,3), of MAXLINE] assms(4) line_whole [OF assms(1), of rest] that by auto

lemma lines_served:
  assumes "list_all ok xs" and "good (svc_root s)" and "rio_ok (svc_rio s)" and "clean (svc_in s)"
    and "avail (svc_rio s) (svc_in s) = concat (map line xs)" and "svc_open s"
  shows "\<exists>s'. service_loop (Suc (length xs)) (\<lambda>_. True) 0 s = Closed s' \<and> \<not> svc_open s'
     \<and> svc_replies s' = svc_replies s @ fst (serve_all act xs (svc_root s)) \<and> svc_root s' = snd (serve_all act xs (svc_root s))"
  using assms
proof (induction xs arbitrary: s)
  case Nil
  then have "line_of (MAXLINE - 1) (avail (svc_rio s) (svc_in s)) = []" by (cases "MAXLINE - 1") auto
  then obtain rp rs where "rio_readlineb (svc_rio s) MAXLINE (svc_in s) = (0, [], rp, rs)"
    using rio_readlineb_spec [OF Nil(3,4), of MAXLINE] by auto
  then show ?case using Nil(6) by (simp add: service_loop.simps(2) socket_close_def Let_def)
next
  case (Cons x xs)
  have x: "ok x" "list_all ok xs" using Cons.prems(1) by auto
  obtain rp rs where R: "rio_readlineb (svc_rio s) MAXLINE (svc_in s) = (int (length (line x)), line x, rp, rs)"
    "rio_ok rp" "clean rs" "avail rp rs = concat (map line xs)"
    by (rule read_line [OF x(1) Cons.prems(3,4), of "concat (map line xs)"]) (use Cons.prems(5) in simp)
  obtain r t1 where a: "act x (svc_root s) = (r, t1)" by fastforce
  let ?txt = "line x @ [NUL]"
  let ?s1 = "s\<lparr>svc_rio := rp, svc_in := rs, svc_buf := ?txt @ drop (length ?txt) (svc_buf s)\<rparr>"
  obtain cmd where L: "service_line (\<lambda>_. True) 0 (int (length (line x))) ?s1
     = Running (?s1\<lparr>svc_root := t1, svc_replies := svc_replies s @ [r], svc_cnct := cmd\<rparr>)"
    using line_answered [OF x(1), of ?s1 "[NUL] @ drop (length ?txt) (svc_buf s)" 0] Cons.prems(2,6) a by auto
  let ?s2 = "?s1\<lparr>svc_root := t1, svc_replies := svc_replies s @ [r], svc_cnct := cmd\<rparr>"
  have "good t1" using good_kept [OF x(1) Cons.prems(2)] a by simp
  then obtain s' where s': "service_loop (Suc (length xs)) (\<lambda>_. True) 0 ?s2 = Closed s'" "\<not> svc_open s'"
    "svc_replies s' = (svc_replies s @ [r]) @ fst (serve_all act xs t1)" "svc_root s' = snd (serve_all act xs t1)"
    using Cons.IH [OF x(2), of ?s2] R(2,3,4) Cons.prems(6) by auto
  have pos: "0 < int (length (line x))" using line_nonempty [OF x(1)] by simp
  have loop: "service_loop (Suc (length (x # xs))) (\<lambda>_. True) 0 s = Closed s'"
    using service_goes_on [OF R(1) pos L, of "Suc (length xs)"] s'(1) by simp
  then show ?case using s'(2,3,4) a by (simp split: prod.splits)
qed

end

section \<open>The lines of trades\<close>

definition act_trade :: "trade \<Rightarrow> stock \<Rightarrow> string \<times> stock" where
  "act_trade t tr = (case modify (fst (delta t)) (snd (delta t)) tr of (st, tr') \<Rightarrow> (reply (fst t) st [], tr'))"

interpretation tl: line_service trade_ok wire act_trade "\<lambda>_. True"
proof
  fix t rest and s :: svc and cr
  assume t: "trade_ok t" and b: "svc_buf s = wire t @ rest" and o: "svc_open s"
  obtain st r where m: "modify (fst (delta t)) (snd (delta t)) (svc_root s) = (st, r)" by fastforce
  from service_trade_line [OF t b o _ m, of "\<lambda>_. True" cr]
  show "\<exists>cmd. service_line (\<lambda>_. True) cr (int (length (wire t))) s = Running (s\<lparr>svc_root := snd (act_trade t (svc_root s)),
      svc_replies := svc_replies s @ [fst (act_trade t (svc_root s))], svc_cnct := cmd\<rparr>)"
    by (auto simp: act_trade_def m)
next
  fix t :: trade and rest
  assume "trade_ok t"
  then show "wire t \<noteq> []" "line_of (MAXLINE - 1) (wire t @ rest) = wire t"
    using wire_not_empty [of t] trade_line_of by (auto simp: wire_def trade_ok_def)
qed simp

lemma trade_session_tree:
  "trade_session ts (table_of tr) = (fst (serve_all act_trade ts tr), table_of (snd (serve_all act_trade ts tr)))"
  by (induction ts arbitrary: tr) (simp_all add: modify_table act_trade_def split: prod.splits)

section \<open>Properties\<close>

text \<open>(C11) A client's session with a worker: the service of a connection on which trades arrive, however the
  bytes are cut into packets, comes to its end after as many turns as there are trades and one more
  for the end of the input; every trade, also several in one packet, is applied to the table in order
  and answered by the message for its outcome, as the abstract session does, and the connection is closed.\<close>

theorem thread_session_served:
  assumes "list_all trade_ok ts" and "clean inp" and "stream inp = concat (map wire ts)"
  shows "\<exists>s'. service (Suc (length ts)) (\<lambda>_. True) 0 connfd (rp, cmd, b) inp tr = Closed s'
     \<and> trade_session ts (table_of tr) = (svc_replies s', table_of (svc_root s')) \<and> \<not> svc_open s'"
proof -
  let ?s = "\<lparr>svc_root = tr, svc_replies = [], svc_open = True, svc_cnct = cmd\<lparr>c_connfd := connfd, c_args := None, c_argc := None\<rparr>,
     svc_rio = rio_readinitb rp connfd, svc_in = inp, svc_buf = b\<rparr>"
  have "avail (svc_rio ?s) (svc_in ?s) = concat (map wire ts)" using assms(3) by (simp add: avail_def)
  with tl.lines_served [OF assms(1), of ?s] assms(2) show ?thesis by (auto simp: service_def trade_session_tree)
qed

theorem thread_session_served_witness:
  "\<exists>s'. service 3 (\<lambda>_. True) 0 5 (rio_fresh, fresh_cmd 0 0, []) [Data (wire (''sell'', 1, 4) @ wire (''buy'', 1, 2))]
      (Stock 1 7 5 NullStock NullStock) = Closed s' \<and> table_of (svc_root s') 1 = Some (7, 7)"
proof -
  let ?ts = "[(''sell'', 1, 4), (''buy'', 1, 2)] :: trade list" let ?inp = "[Data (wire (''sell'', 1, 4) @ wire (''buy'', 1, 2))]"
  let ?tr = "Stock 1 7 5 NullStock NullStock"
  have ne: "wire t \<noteq> []" for t using wire_not_empty [of t] by auto
  have "list_all trade_ok ?ts" by (simp add: trade_ok_def in_int32_def)
  moreover have "clean ?inp" "stream ?inp = concat (map wire ?ts)" using ne by (simp_all add: clean_def)
  ultimately obtain s' where s': "service (Suc (length ?ts)) (\<lambda>_. True) 0 5 (rio_fresh, fresh_cmd 0 0, []) ?inp ?tr = Closed s'"
    "trade_session ?ts (table_of ?tr) = (svc_replies s', table_of (svc_root s'))"
    using thread_session_served [of ?ts ?inp 5 rio_fresh "fresh_cmd 0 0" "[]" ?tr] by blast
  have n: "Suc (length ?ts) = 3" by simp
  have "snd (trade_session ?ts (table_of ?tr)) 1 = Some (7, 7)"
    by (simp add: abs_modify_def delta_def table_of_def int32_def split: prod.splits)
  then have "table_of (svc_root s') 1 = Some (7, 7)" unfolding s'(2) by simp
  with s'(1) show ?thesis unfolding n by blast
qed

text \<open>(C34) \<open>exit_client\<close> tests the result of \<open>close\<close> the wrong way round and \<open>execute\<close> answers on the connection
  that was just closed: the write fails, and the whole server process exits, with all its connections,
  when a single client sends \<^verbatim>\<open>exit\<close>, whatever was served before and whatever input follows.\<close>

theorem thread_exit_ends_server:
  assumes "rio_ok (svc_rio s)" and "clean (svc_in s)" and "avail (svc_rio s) (svc_in s) = ''exit'' @ NEWLINE # rest" and "svc_open s"
  shows "\<exists>s'. service_loop (Suc k) wok 0 s = ServerExit s' \<and> svc_root s' = svc_root s \<and> svc_replies s' = svc_replies s"
proof -
  let ?l = "''exit'' @ [NEWLINE]"
  have "line_of (MAXLINE - 1) (''exit'' @ NEWLINE # rest) = ?l" by (rule line_of_exact) (simp_all add: MAXLINE_def)
  then obtain rp rs where R: "rio_readlineb (svc_rio s) MAXLINE (svc_in s) = (int (length ?l), ?l, rp, rs)"
    using rio_readlineb_spec [OF assms(1,2), of MAXLINE] unfolding assms(3) by metis
  have pk: "pick ''exit'' = Some (0, ''exit'', exit_client_fp)" by (simp add: pick_def command_list_def)
  let ?s1 = "s\<lparr>svc_rio := rp, svc_in := rs, svc_buf := (?l @ [NUL]) @ drop (length (?l @ [NUL])) (svc_buf s)\<rparr>"
  let ?tail = "[NUL] @ drop (length (?l @ [NUL])) (svc_buf s)"
  have "find_cmd (''exit'' @ NEWLINE # ?tail) (svc_cnct s) = Inr (SUCCESS, (svc_cnct s)\<lparr>c_flag := 0, c_name := ''exit'',
      c_args := Some [Some [], None, None, None], c_argc := Some 1, c_fp := exit_client_fp\<rparr>, length ''exit'')"
    by (rule find_cmd_word) (use pk in \<open>auto simp: word_def whitespace_def\<close>)
  then obtain cmd where P: "parser (''exit'' @ NEWLINE # ?tail) 5 (svc_cnct s) = Inr (SUCCESS, cmd)" "c_fp cmd = exit_client_fp" "c_name cmd = ''exit''"
    using find_args_none [of "[]"] by (auto simp: parser_def NOARGS_def blanks_def)
  have "length (reply ''exit'' ERROR []) < MAXLINE" by (rule reply_short) simp
  then have "th_execute wok 0 (?s1\<lparr>svc_cnct := cmd\<rparr>) = ServerExit (?s1\<lparr>svc_open := False, svc_cnct := cmd\<rparr>)"
    using P(2,3) by (simp add: th_execute_def th_call_def th_exit_client_def socket_close_def th_Rio_writen_def)
  then have "service_line wok 0 5 ?s1 = ServerExit (?s1\<lparr>svc_open := False, svc_cnct := cmd\<rparr>)"
    using P(1) by (simp add: service_line_def Let_def)
  then show ?thesis using R by (simp add: service_loop.simps(2) Let_def)
qed

theorem thread_exit_ends_server_witness:
  "\<exists>s'. service 1 (\<lambda>_. True) 0 5 (rio_fresh, fresh_cmd 0 0, []) [Data (''exit'' @ [NEWLINE])] NullStock = ServerExit s'"
proof -
  let ?s = "\<lparr>svc_root = NullStock, svc_replies = [], svc_open = True, svc_cnct = (fresh_cmd 0 0)\<lparr>c_connfd := 5, c_args := None, c_argc := None\<rparr>,
     svc_rio = rio_readinitb rio_fresh 5, svc_in = [Data (''exit'' @ [NEWLINE])], svc_buf = []\<rparr>"
  have "\<exists>s'. service_loop (Suc 0) (\<lambda>_. True) 0 ?s = ServerExit s' \<and> svc_root s' = svc_root ?s \<and> svc_replies s' = svc_replies ?s"
    by (rule thread_exit_ends_server [where rest = "[]"]) (simp_all add: clean_def avail_def)
  then show ?thesis by (auto simp: service_def)
qed

end
