(* ===== verification/Stock_Client.thy ===== *)
theory Stock_Client
  imports Thread_Server
begin

text \<open>
  The clients of the stock server (\<^verbatim>\<open>concurrent_stockserver/client\<close>): the interactive \<^verbatim>\<open>stockclient.c\<close>, the load
  generator \<^verbatim>\<open>multiclient.c\<close> and the benchmark \<^verbatim>\<open>multiclient_benchmark.c\<close>.  A client's state has the bytes it
  has sent, what it has printed, and the replies the kernel will still deliver; the results of \<^verbatim>\<open>rand\<close> are a
  sequence, \<open>cl_rands\<close> of which are used up.  The pauses between the orders are left out, printing
  does not fail, and \<^verbatim>\<open>errno\<close> is not \<^verbatim>\<open>EINTR\<close> before a write.
\<close>

section \<open>The program\<close>

definition MAX_CLIENT :: nat where "MAX_CLIENT = 100"
definition ORDER_PER_CLIENT :: nat where "ORDER_PER_CLIENT = 10"
definition STOCK_NUM :: int where "STOCK_NUM = 10"
definition BUY_SELL_MAX :: int where "BUY_SELL_MAX = 10"

record client =
  cl_rio :: rio
  cl_in :: "rd list"
  cl_ws :: "wr list"
  cl_buf :: string
  cl_sent :: string
  cl_screen :: string
  cl_rands :: nat

text \<open>A step goes on, the process has exited in a wrapper, or it has done something undefined.\<close>

datatype client_result = Going client | Exited client | Faulted srv_fault

definition rand :: "(nat \<Rightarrow> nat) \<Rightarrow> client \<Rightarrow> int \<times> client" where
  "rand r c = (int (r (cl_rands c)), c\<lparr>cl_rands := cl_rands c + 1\<rparr>)"

definition put_text :: "string \<Rightarrow> client \<Rightarrow> client" where
  "put_text s c = c\<lparr>cl_buf := s @ NUL # drop (Suc (length s)) (cl_buf c)\<rparr>"

text \<open>\<^verbatim>\<open>sprintf(tmp, "%d", i)\<close> into the array of three characters.\<close>

definition sprintf_tmp :: "int \<Rightarrow> string option" where
  "sprintf_tmp i = (if length (show_int i) < 3 then Some (show_int i) else None)"

definition put_trade :: "(nat \<Rightarrow> nat) \<Rightarrow> string \<Rightarrow> client \<Rightarrow> client_result" where
  "put_trade r nm c =
     (case rand r c of (x, c1) \<Rightarrow> let list_num = c_mod x STOCK_NUM + 1 in
      case rand r c1 of (y, c2) \<Rightarrow> let num = c_mod y BUY_SELL_MAX + 1 in
      case sprintf_tmp list_num of None \<Rightarrow> Faulted BufferOverflow | Some a \<Rightarrow>
      case sprintf_tmp num of None \<Rightarrow> Faulted BufferOverflow | Some b \<Rightarrow>
      Going (put_text (nm @ '' '' @ a @ '' '' @ b @ [NEWLINE]) c2))"

definition put_show :: "client \<Rightarrow> client" where
  "put_show c = put_text (''show'' @ [NEWLINE]) c"

text \<open>The order that the loops of \<^verbatim>\<open>main\<close> in \<^verbatim>\<open>multiclient.c\<close> and of \<open>random_q\<close> prepare, and that of \<open>modify_q\<close>.\<close>

definition random_order :: "(nat \<Rightarrow> nat) \<Rightarrow> client \<Rightarrow> client_result" where
  "random_order r c =
     (case rand r c of (x, c1) \<Rightarrow> let option = c_mod x 3 in
      if option = 0 then Going (put_show c1)
      else if option = 1 then put_trade r ''buy'' c1
      else if option = 2 then put_trade r ''sell'' c1
      else Going c1)"

definition modify_order :: "(nat \<Rightarrow> nat) \<Rightarrow> client \<Rightarrow> client_result" where
  "modify_order r c =
     (case rand r c of (x, c1) \<Rightarrow> let option = c_mod x 2 in
      if option = 0 then put_trade r ''buy'' c1
      else if option = 1 then put_trade r ''sell'' c1
      else Going c1)"

text \<open>Sending the order and reading \<^verbatim>\<open>MAXLINE\<close> bytes of answer over it.\<close>

definition exchange :: "client \<Rightarrow> client_result" where
  "exchange c =
     (case Rio_writen False (c_str (cl_buf c)) (cl_ws c) of
        None \<Rightarrow> Exited c
      | Some (sent, ws) \<Rightarrow>
          let c1 = c\<lparr>cl_sent := cl_sent c @ sent, cl_ws := ws\<rparr> in
          case Rio_readnb (cl_rio c1) MAXLINE (cl_in c1) of
            None \<Rightarrow> Exited c1
          | Some (n, d, rp, rs) \<Rightarrow> Going (c1\<lparr>cl_rio := rp, cl_in := rs, cl_buf := d @ drop (length d) (cl_buf c1)\<rparr>))"

text \<open>\<^verbatim>\<open>Fputs\<close> prints up to the first null character; without one it leaves the array.\<close>

definition Fputs :: "client \<Rightarrow> client_result" where
  "Fputs c = (if NUL \<in> set (cl_buf c) then Going (c\<lparr>cl_screen := cl_screen c @ c_str (cl_buf c)\<rparr>) else Faulted OutOfBounds)"

definition then_do :: "client_result \<Rightarrow> (client \<Rightarrow> client_result) \<Rightarrow> client_result" where
  "then_do x f = (case x of Going c \<Rightarrow> f c | _ \<Rightarrow> x)"

primrec run_orders :: "nat \<Rightarrow> (client \<Rightarrow> client_result) \<Rightarrow> client \<Rightarrow> client_result" where
  "run_orders 0 f c = Going c"
| "run_orders (Suc n) f c = then_do (f c) (run_orders n f)"

definition multiclient_child :: "(nat \<Rightarrow> nat) \<Rightarrow> client \<Rightarrow> client_result" where
  "multiclient_child r = run_orders ORDER_PER_CLIENT (\<lambda>c. then_do (then_do (random_order r c) exchange) Fputs)"

definition random_q :: "int \<Rightarrow> (nat \<Rightarrow> nat) \<Rightarrow> client \<Rightarrow> client_result" where
  "random_q order_per_client r = run_orders (nat order_per_client) (\<lambda>c. then_do (random_order r c) exchange)"

definition modify_q :: "int \<Rightarrow> (nat \<Rightarrow> nat) \<Rightarrow> client \<Rightarrow> client_result" where
  "modify_q order_per_client r = run_orders (nat order_per_client) (\<lambda>c. then_do (modify_order r c) exchange)"

definition show_q :: "int \<Rightarrow> client \<Rightarrow> client_result" where
  "show_q order_per_client = run_orders (nat order_per_client) (\<lambda>c. exchange (put_show c))"

section \<open>The benchmark's parent process\<close>

datatype query = RAND | SHOW | MODIFY

text \<open>\<^verbatim>\<open>argv[5]\<close> is the null pointer when there are five arguments.  The two tests have their sense the wrong way round.\<close>

definition query_type :: "string list \<Rightarrow> query" where
  "query_type argv =
     (if 5 < length argv then
        if argv ! 5 \<noteq> ''show'' then SHOW else if argv ! 5 \<noteq> ''modify'' then MODIFY else RAND
      else RAND)"

definition run_query :: "query \<Rightarrow> int \<Rightarrow> (nat \<Rightarrow> nat) \<Rightarrow> client \<Rightarrow> client_result" where
  "run_query q order_per_client r c =
     (case q of SHOW \<Rightarrow> show_q order_per_client c | MODIFY \<Rightarrow> modify_q order_per_client r c | RAND \<Rightarrow> random_q order_per_client r c)"

text \<open>The parent forks the clients, \<open>fork k\<close> being the result of the \<open>k\<close>-th call, and waits for all of them.\<close>

datatype parent = Usage | DivByZero | ForkFailed "int list" | PidsOverflow | WaitedFor "int list"

function fork_loop :: "(nat \<Rightarrow> int) \<Rightarrow> int \<Rightarrow> int list \<Rightarrow> parent" where
  "fork_loop fork num_client pids =
     (if int (length pids) < num_client then
        if length pids \<ge> MAX_CLIENT then PidsOverflow
        else let pid = fork (length pids) in
          if pid < 0 then ForkFailed pids else fork_loop fork num_client (pids @ [pid])
      else WaitedFor pids)"
  by pat_completeness auto
termination
  by (relation "measure (\<lambda>(_, n, pids). nat n - length pids)") auto

declare fork_loop.simps [simp del]

definition multiclient_main :: "(nat \<Rightarrow> int) \<Rightarrow> string list \<Rightarrow> parent" where
  "multiclient_main fork argv = (if length argv \<noteq> 4 then Usage else fork_loop fork (atoi (argv ! 3)) [])"

definition benchmark_main :: "(nat \<Rightarrow> int) \<Rightarrow> string list \<Rightarrow> parent \<times> query \<times> int" where
  "benchmark_main fork argv =
     (if length argv < 5 then (Usage, RAND, 0)
      else let num_client = atoi (argv ! 3); total_order = atoi (argv ! 4) in
        if num_client = 0 \<or> num_client = -1 \<and> total_order = - (2 ^ 31) then (DivByZero, RAND, 0)
        else let order_per_client = sgn num_client * c_div total_order \<bar>num_client\<bar>; query_type = query_type argv in
          (fork_loop fork num_client [], query_type, order_per_client))"

section \<open>The interactive client\<close>

text \<open>\<^verbatim>\<open>Fgets\<close> reads a line of at most \<^verbatim>\<open>MAXLINE - 1\<close> characters; the unchecked \<^verbatim>\<open>rio_readnb\<close> may fail, with
  what it has read in the array.\<close>

definition typed_line :: "string \<Rightarrow> client \<Rightarrow> client_result" where
  "typed_line ln c =
     (let c0 = put_text ln c in
      case Rio_writen False (c_str (cl_buf c0)) (cl_ws c0) of
        None \<Rightarrow> Exited c0
      | Some (sent, ws) \<Rightarrow>
          let c1 = c0\<lparr>cl_sent := cl_sent c0 @ sent, cl_ws := ws\<rparr> in
          case rio_readnb (cl_rio c1) MAXLINE (cl_in c1) of
            (n, d, rp, rs) \<Rightarrow> Fputs (c1\<lparr>cl_rio := rp, cl_in := rs, cl_buf := d @ drop (length d) (cl_buf c1)\<rparr>))"

function stockclient :: "string \<Rightarrow> client \<Rightarrow> client_result" where
  "stockclient stdin c =
     (let ln = line_of (MAXLINE - 1) stdin in
      if ln = [] then Going c else then_do (typed_line ln c) (stockclient (drop (length ln) stdin)))"
  by pat_completeness auto
termination
proof (relation "measure (\<lambda>(s, _). length s)", goal_cases)
  case (2 stdin c ln x)
  have "stdin \<noteq> []"
  proof
    assume "stdin = []"
    with 2 show False by (cases "MAXLINE - 1") auto
  qed
  then show ?case using 2 by (cases "line_of (MAXLINE - 1) stdin") auto
qed simp

declare stockclient.simps [simp del]

section \<open>The orders that are drawn\<close>

datatype request = Show | Trade trade

fun order_ok :: "request \<Rightarrow> bool" where
  "order_ok Show = True"
| "order_ok (Trade (nm, i, n)) \<longleftrightarrow> nm \<in> {''buy'', ''sell''} \<and> 1 \<le> i \<and> i \<le> STOCK_NUM \<and> 1 \<le> n \<and> n \<le> BUY_SELL_MAX"

fun order_line :: "request \<Rightarrow> string" where
  "order_line Show = ''show'' @ [NEWLINE]"
| "order_line (Trade t) = wire t"

definition drawn_trade :: "(nat \<Rightarrow> nat) \<Rightarrow> string \<Rightarrow> nat \<Rightarrow> request" where
  "drawn_trade r nm k = Trade (nm, int (r k) mod STOCK_NUM + 1, int (r (Suc k)) mod BUY_SELL_MAX + 1)"

definition draw_random :: "(nat \<Rightarrow> nat) \<Rightarrow> nat \<Rightarrow> request \<times> nat" where
  "draw_random r k =
     (if r k mod 3 = 0 then (Show, k + 1) else (drawn_trade r (if r k mod 3 = 1 then ''buy'' else ''sell'') (k + 1), k + 3))"

definition draw_modify :: "(nat \<Rightarrow> nat) \<Rightarrow> nat \<Rightarrow> request \<times> nat" where
  "draw_modify r k = (drawn_trade r (if r k mod 2 = 0 then ''buy'' else ''sell'') (k + 1), k + 3)"

primrec draws :: "(nat \<Rightarrow> request \<times> nat) \<Rightarrow> nat \<Rightarrow> nat \<Rightarrow> request list" where
  "draws d 0 k = []"
| "draws d (Suc n) k = fst (d k) # draws d n (snd (d k))"

lemma length_draws [simp]: "length (draws d n k) = n"
  by (induction n arbitrary: k) simp_all

lemma drawn_trade_ok: "nm \<in> {''buy'', ''sell''} \<Longrightarrow> order_ok (drawn_trade r nm k)"
  by (auto simp: drawn_trade_def STOCK_NUM_def BUY_SELL_MAX_def)

lemma show_small: "0 \<le> i \<Longrightarrow> i < 100 \<Longrightarrow> length (show_int i) < 3"
  using length_show_nat [of "nat i" 1] by (auto simp: show_int_def nat_less_iff)

lemma put_trade_text:
  "put_trade r nm c = Going (put_text (order_line (drawn_trade r nm (cl_rands c))) (c\<lparr>cl_rands := cl_rands c + 2\<rparr>))"
proof -
  have "length (show_int (int x mod 10 + 1)) < 3" for x by (rule show_small) auto
  then show ?thesis
    by (simp add: put_trade_def rand_def sprintf_tmp_def c_mod_nonneg drawn_trade_def wire_def trade_line_def STOCK_NUM_def BUY_SELL_MAX_def)
qed

definition prepared :: "request \<times> nat \<Rightarrow> client \<Rightarrow> client_result" where
  "prepared x c = Going (put_text (order_line (fst x)) (c\<lparr>cl_rands := snd x\<rparr>))"

lemma c_mod_nat: "c_mod (int m) (int n) = int (m mod n)"
  using c_mod_nonneg [of "int m" "int n"] of_nat_mod [of m n, where ?'a = int] by simp

lemma random_order_prepared: "random_order r c = prepared (draw_random r (cl_rands c)) c"
proof -
  let ?k = "cl_rands c"
  have m: "c_mod (int (r ?k)) 3 = int (r ?k mod 3)" using c_mod_nat [of "r ?k" 3] by simp
  obtain x where x: "r ?k mod 3 = x" "x < 3" by simp
  then have "x \<in> {0, 1, 2}" by auto
  then show ?thesis
    unfolding random_order_def rand_def draw_random_def x(1) m [unfolded x]
    by (auto simp: put_trade_text prepared_def put_show_def m [unfolded x] numeral_3_eq_3)
qed

lemma modify_order_prepared: "modify_order r c = prepared (draw_modify r (cl_rands c)) c"
proof -
  let ?k = "cl_rands c"
  have m: "c_mod (int (r ?k)) 2 = int (r ?k mod 2)" using c_mod_nat [of "r ?k" 2] by simp
  obtain x where x: "r ?k mod 2 = x" "x < 2" by simp
  then have "x \<in> {0, 1}" by auto
  then show ?thesis
    unfolding modify_order_def rand_def draw_modify_def x(1) m [unfolded x]
    by (auto simp: put_trade_text prepared_def m [unfolded x] numeral_3_eq_3)
qed

lemma show_prepared: "Going (put_show c) = prepared (Show, cl_rands c) c"
  by (simp add: put_show_def prepared_def)

section \<open>One exchange\<close>

text \<open>The servers answer with the whole array, the message and null characters behind it.\<close>

definition frame :: "string \<Rightarrow> string" where
  "frame msg = msg @ replicate (MAXLINE - length msg) NUL"

definition msg_ok :: "string \<Rightarrow> bool" where
  "msg_ok msg \<longleftrightarrow> length msg < MAXLINE \<and> NUL \<notin> set msg"

definition ready :: "client \<Rightarrow> bool" where
  "ready c \<longleftrightarrow> cl_ws c = [] \<and> rio_ok (cl_rio c) \<and> clean (cl_in c)"

definition pending :: "client \<Rightarrow> string" where
  "pending c = avail (cl_rio c) (cl_in c)"

lemma c_str_append_NUL: "NUL \<notin> set s \<Longrightarrow> c_str (s @ NUL # rest) = s"
  by (induction s) (auto simp: c_str_def)

lemma frame_shows:
  assumes "msg_ok msg"
  shows "length (frame msg) = MAXLINE" "c_str (frame msg @ rest) = msg" "NUL \<in> set (frame msg)"
proof -
  obtain k where k: "MAXLINE - length msg = Suc k" using assms by (metis Suc_diff_Suc msg_ok_def)
  then show "length (frame msg) = MAXLINE" "NUL \<in> set (frame msg)" by (auto simp: frame_def)
  show "c_str (frame msg @ rest) = msg" using assms c_str_append_NUL k by (simp add: frame_def msg_ok_def)
qed

lemma frame_read:
  assumes "ready c" and "msg_ok msg" and "pending c = frame msg @ rest"
  obtains rp rs where "rio_readnb (cl_rio c) MAXLINE (cl_in c) = (int MAXLINE, frame msg, rp, rs)"
    "rio_ok rp" "clean rs" "avail rp rs = rest"
proof -
  from assms rio_readnb_loop_spec [of "cl_rio c" "cl_in c" MAXLINE "[]"] frame_shows(1) [OF assms(2)]
  obtain rp rs where "rio_readnb_loop MAXLINE [] (cl_rio c) (cl_in c) = (None, frame msg, rp, rs)" "rio_ok rp" "clean rs" "avail rp rs = rest"
    by (auto simp: ready_def pending_def)
  then show thesis using that frame_shows(1) [OF assms(2)] by (simp add: rio_readnb_def)
qed

text \<open>The client after its text went out and the message came back.\<close>

definition answered :: "string \<Rightarrow> string \<Rightarrow> string \<Rightarrow> client \<Rightarrow> client \<Rightarrow> bool" where
  "answered txt msg rest c c' \<longleftrightarrow> ready c' \<and> pending c' = rest \<and> cl_sent c' = cl_sent c @ txt \<and> cl_rands c' = cl_rands c
     \<and> cl_screen c' = cl_screen c \<and> NUL \<in> set (cl_buf c') \<and> c_str (cl_buf c') = msg"

lemma exchange_answered:
  assumes "ready c" and "msg_ok msg" and "pending c = frame msg @ rest" and "NUL \<notin> set txt"
  shows "\<exists>c'. exchange (put_text txt c) = Going c' \<and> answered txt msg rest c c'"
proof -
  obtain rp rs where R: "rio_readnb (cl_rio c) MAXLINE (cl_in c) = (int MAXLINE, frame msg, rp, rs)"
    "rio_ok rp" "clean rs" "avail rp rs = rest" by (rule frame_read [OF assms(1,2,3)])
  have W: "Rio_writen False txt [] = Some (txt, [])" by (simp add: Rio_writen_def rio_writen_def)
  have ws: "cl_ws c = []" using assms(1) by (simp add: ready_def)
  show ?thesis
    using R W ws frame_shows [OF assms(2)] c_str_append_NUL [OF assms(4)]
    by (simp add: exchange_def put_text_def Rio_readnb_def answered_def ready_def pending_def)
qed

section \<open>Whole clients\<close>

text \<open>What a client's loop over its orders rests on: one turn draws the next request, sends its line, reads one
  answer and prints what \<open>shown\<close> says of it.\<close>

locale ordering_client =
  fixes turn :: "client \<Rightarrow> client_result" and draw :: "nat \<Rightarrow> request \<times> nat" and shown :: "string \<Rightarrow> string"
  assumes one_turn: "\<lbrakk>ready c; msg_ok msg; pending c = frame msg @ rest\<rbrakk> \<Longrightarrow>
      \<exists>c'. turn c = Going c' \<and> ready c' \<and> pending c' = rest \<and> cl_rands c' = snd (draw (cl_rands c))
        \<and> cl_sent c' = cl_sent c @ order_line (fst (draw (cl_rands c))) \<and> cl_screen c' = cl_screen c @ shown msg"
    and draw_ok: "order_ok (fst (draw k))"
begin

lemma draws_ok: "list_all order_ok (draws draw n k)"
  by (induction n arbitrary: k) (simp_all add: draw_ok)

lemma all_turns:
  assumes "ready c" and "list_all msg_ok msgs" and "pending c = concat (map frame msgs) @ rest"
  shows "\<exists>c'. run_orders (length msgs) turn c = Going c' \<and> pending c' = rest
    \<and> cl_sent c' = cl_sent c @ concat (map order_line (draws draw (length msgs) (cl_rands c)))
    \<and> cl_screen c' = cl_screen c @ concat (map shown msgs)"
  using assms
proof (induction msgs arbitrary: c)
  case (Cons msg msgs)
  obtain c1 where 1: "turn c = Going c1" "ready c1" "pending c1 = concat (map frame msgs) @ rest"
    "cl_rands c1 = snd (draw (cl_rands c))" "cl_sent c1 = cl_sent c @ order_line (fst (draw (cl_rands c)))"
    "cl_screen c1 = cl_screen c @ shown msg"
    using one_turn [of c msg "concat (map frame msgs) @ rest"] Cons.prems by auto
  from Cons.IH [OF 1(2) _ 1(3)] Cons.prems(2) show ?case by (auto simp: 1 then_do_def)
qed simp

end

lemma word_no_NUL: "word s \<Longrightarrow> NUL \<notin> set s"
  by (auto simp: word_def list_all_iff)

lemma order_line_no_NUL: "order_ok x \<Longrightarrow> NUL \<notin> set (order_line x)"
  by (cases x rule: order_ok.cases) (auto simp: wire_def trade_line_def word_no_NUL [OF word_show_int])

text \<open>Two turns: that of the benchmark, and that of the load generator, which prints the answer.\<close>

lemma quiet_turn:
  assumes "ready c" and "msg_ok msg" and "pending c = frame msg @ rest" and "order_ok (fst x)"
  shows "\<exists>c'. then_do (prepared x c) exchange = Going c'
    \<and> answered (order_line (fst x)) msg rest (c\<lparr>cl_rands := snd x\<rparr>) c'"
  using exchange_answered [of "c\<lparr>cl_rands := snd x\<rparr>" msg rest] order_line_no_NUL [OF assms(4)] assms
  by (simp add: prepared_def then_do_def ready_def pending_def)

lemma printing_turn:
  assumes "answered txt msg rest c c'"
  shows "Fputs c' = Going (c'\<lparr>cl_screen := cl_screen c @ msg\<rparr>)"
  using assms by (simp add: Fputs_def answered_def)

lemma draw_random_ok: "order_ok (fst (draw_random r k))"
  by (simp add: draw_random_def drawn_trade_ok)

lemma draw_modify_ok: "order_ok (fst (draw_modify r k))"
  by (simp add: draw_modify_def drawn_trade_ok)

interpretation mcl: ordering_client "\<lambda>c. then_do (then_do (random_order r c) exchange) Fputs" "draw_random r" "\<lambda>msg. msg" for r
proof
  fix c msg rest
  assume a: "ready c" "msg_ok msg" "pending c = frame msg @ rest"
  obtain c' where c': "then_do (random_order r c) exchange = Going c'"
    "answered (order_line (fst (draw_random r (cl_rands c)))) msg rest (c\<lparr>cl_rands := snd (draw_random r (cl_rands c))\<rparr>) c'"
    using quiet_turn [OF a draw_random_ok] by (auto simp: random_order_prepared)
  have "then_do (then_do (random_order r c) exchange) Fputs = Going (c'\<lparr>cl_screen := cl_screen c @ msg\<rparr>)"
    using printing_turn [OF c'(2)] c'(1) by (simp add: then_do_def)
  then show "\<exists>c'. then_do (then_do (random_order r c) exchange) Fputs = Going c' \<and> ready c' \<and> pending c' = rest
      \<and> cl_rands c' = snd (draw_random r (cl_rands c)) \<and> cl_sent c' = cl_sent c @ order_line (fst (draw_random r (cl_rands c)))
      \<and> cl_screen c' = cl_screen c @ msg"
    using c'(2) by (auto simp: answered_def ready_def pending_def)
qed (rule draw_random_ok)

interpretation rq: ordering_client "\<lambda>c. then_do (random_order r c) exchange" "draw_random r" "\<lambda>_. []" for r
proof
  fix c msg rest
  assume a: "ready c" "msg_ok msg" "pending c = frame msg @ rest"
  from quiet_turn [OF a draw_random_ok, of r "cl_rands c"]
  show "\<exists>c'. then_do (random_order r c) exchange = Going c' \<and> ready c' \<and> pending c' = rest
      \<and> cl_rands c' = snd (draw_random r (cl_rands c)) \<and> cl_sent c' = cl_sent c @ order_line (fst (draw_random r (cl_rands c)))
      \<and> cl_screen c' = cl_screen c @ []"
    by (auto simp: random_order_prepared answered_def)
qed (rule draw_random_ok)

interpretation mq: ordering_client "\<lambda>c. then_do (modify_order r c) exchange" "draw_modify r" "\<lambda>_. []" for r
proof
  fix c msg rest
  assume a: "ready c" "msg_ok msg" "pending c = frame msg @ rest"
  from quiet_turn [OF a draw_modify_ok, of r "cl_rands c"]
  show "\<exists>c'. then_do (modify_order r c) exchange = Going c' \<and> ready c' \<and> pending c' = rest
      \<and> cl_rands c' = snd (draw_modify r (cl_rands c)) \<and> cl_sent c' = cl_sent c @ order_line (fst (draw_modify r (cl_rands c)))
      \<and> cl_screen c' = cl_screen c @ []"
    by (auto simp: modify_order_prepared answered_def)
qed (rule draw_modify_ok)

interpretation sq: ordering_client "\<lambda>c. exchange (put_show c)" "\<lambda>k. (Show, k)" "\<lambda>_. []"
proof
  fix c msg rest
  assume a: "ready c" "msg_ok msg" "pending c = frame msg @ rest"
  from exchange_answered [OF a, of "order_line Show"]
  show "\<exists>c'. exchange (put_show c) = Going c' \<and> ready c' \<and> pending c' = rest \<and> cl_rands c' = snd (Show, cl_rands c)
      \<and> cl_sent c' = cl_sent c @ order_line (fst (Show, cl_rands c)) \<and> cl_screen c' = cl_screen c @ []"
    by (auto simp: put_show_def answered_def)
qed simp

section \<open>The server's side\<close>

definition act_order :: "request \<Rightarrow> stock \<Rightarrow> string \<times> stock" where
  "act_order x tr =
     (case x of Show \<Rightarrow> (reply ''show'' (fst (print_to_buf tr [])) (snd (print_to_buf tr [])), tr) | Trade t \<Rightarrow> act_trade t tr)"

text \<open>A table that the answer to \<^verbatim>\<open>show\<close> has room for, whatever the numbers are: a row is at most 36 characters.\<close>

definition fits :: "stock \<Rightarrow> bool" where
  "fits tr \<longleftrightarrow> list_all row_ok (preorder tr) \<and> length (preorder tr) \<le> 226"

lemma preorder_set_count: "list_all row_ok (preorder t) \<Longrightarrow> in_int32 v \<Longrightarrow> list_all row_ok (preorder (set_count i v t))"
  by (induction t) (auto simp: row_ok_def)

lemma length_preorder_set_count [simp]: "length (preorder (set_count i v t)) = length (preorder t)"
  by (induction t) auto

lemma fits_modify: "fits tr \<Longrightarrow> fits (snd (modify i n tr))"
  by (auto simp: fits_def modify_def preorder_set_count split: stock.split)

lemma length_print_row: "row_ok x \<Longrightarrow> length (print_row x) \<le> 36"
  using length_show_int [of "fst x"] length_show_int [of "fst (snd x)"] length_show_int [of "snd (snd x)"]
  by (auto simp: print_row_def row_ok_def split: prod.splits)

lemma length_rows: "list_all row_ok rows \<Longrightarrow> length (concat (map print_row rows)) \<le> 36 * length rows"
  by (induction rows) (auto dest!: length_print_row)

lemma rows_no_NUL: "NUL \<notin> set (concat (map print_row rows))"
  using word_no_NUL [OF word_show_int] by (auto simp: print_row_def split: prod.splits)

lemma shown_table:
  assumes "fits tr"
  shows "length (snd (print_to_buf tr [])) \<le> 8136" "NUL \<notin> set (snd (print_to_buf tr []))"
  using assms length_rows [of "preorder tr"] rows_no_NUL [of "preorder tr"] by (auto simp: print_to_buf_rows fits_def)

lemma reply_ok: "msg_ok (reply nm st res)" if "nm \<in> {''sell'', ''buy'', ''show''}" "length res \<le> 8136" "NUL \<notin> set res"
  using that by (cases st) (auto simp: reply_def msg_ok_def MAXLINE_def)

lemma act_order_msg: "order_ok x \<Longrightarrow> fits tr \<Longrightarrow> msg_ok (fst (act_order x tr))"
  using shown_table [of tr]
  by (cases x rule: order_ok.cases) (auto simp: act_order_def act_trade_def reply_ok split: prod.split)

lemma act_order_fits: "fits tr \<Longrightarrow> fits (snd (act_order x tr))"
  using fits_modify by (auto simp: act_order_def act_trade_def split: request.split prod.split) (metis snd_conv)+

lemma order_trade_ok: "order_ok (Trade t) \<Longrightarrow> trade_ok t"
  by (cases t) (auto simp: trade_ok_def in_int32_def STOCK_NUM_def BUY_SELL_MAX_def)

lemma show_parsed:
  obtains cmd' where "parser (''show'' @ NEWLINE # rest) 5 cmd = Inr (SUCCESS, cmd')" "c_fp cmd' = show_fp" "c_name cmd' = ''show''"
    "c_argc cmd' = Some 1" "c_args cmd' = Some [Some [], None, None, None]"
proof -
  let ?cmd = "cmd\<lparr>c_flag := 0, c_name := ''show'', c_args := Some [Some [], None, None, None], c_argc := Some 1, c_fp := show_fp\<rparr>"
  have "find_cmd (''show'' @ NEWLINE # rest) cmd = Inr (SUCCESS, ?cmd, length ''show'')"
    by (rule find_cmd_word) (auto simp: word_def whitespace_def pick_def command_list_def)
  then have "parser (''show'' @ NEWLINE # rest) 5 cmd = Inr (SUCCESS, ?cmd)"
    using find_args_none [of "[]" ?cmd rest] by (simp add: parser_def NOARGS_def blanks_def)
  then show thesis by (rule that) simp_all
qed

lemma service_show_line:
  assumes "fits (svc_root s)" and "svc_buf s = ''show'' @ NEWLINE # rest" and "svc_open s"
  shows "\<exists>cmd. service_line (\<lambda>_. True) cr 5 s
    = Running (s\<lparr>svc_replies := svc_replies s @ [fst (act_order Show (svc_root s))], svc_cnct := cmd\<rparr>)"
proof -
  obtain cmd where P: "parser (svc_buf s) 5 (svc_cnct s) = Inr (SUCCESS, cmd)" "c_fp cmd = show_fp" "c_name cmd = ''show''"
    "c_argc cmd = Some 1" "c_args cmd = Some [Some [], None, None, None]" unfolding assms(2) by (rule show_parsed)
  obtain st b where pb: "print_to_buf (svc_root s) [] = (st, b)" by fastforce
  have l: "length b < MAXLINE" "length (reply ''show'' st b) < MAXLINE"
    using shown_table [OF assms(1)] reply_ok [of "''show''" b st] by (auto simp: pb MAXLINE_def msg_ok_def)
  have "th_execute (\<lambda>_. True) cr (s\<lparr>svc_cnct := cmd\<rparr>)
      = Running (s\<lparr>svc_replies := svc_replies s @ [reply ''show'' st b], svc_cnct := cmd\<rparr>)"
    using P(2,3) l assms(3) pb by (simp add: th_execute_def th_call_def th_show_def th_Rio_writen_def)
  then show ?thesis using P(1,4,5) pb by (auto simp: service_line_def th_free_args_def act_order_def)
qed

interpretation ol: line_service order_ok order_line act_order fits
proof
  fix x rest
  assume x: "order_ok x"
  show "order_line x \<noteq> []" using tl.line_nonempty order_trade_ok x by (cases x) auto
  show "line_of (MAXLINE - 1) (order_line x @ rest) = order_line x"
  proof (cases x)
    case Show
    then show ?thesis using line_of_exact [of "''show''" "MAXLINE - 1" rest] by (simp add: MAXLINE_def)
  next
    case (Trade t)
    then show ?thesis using tl.line_whole order_trade_ok x by simp
  qed
next
  fix x rest and s :: svc and cr
  assume a: "order_ok x" "fits (svc_root s)" "svc_buf s = order_line x @ rest" "svc_open s"
  show "\<exists>cmd. service_line (\<lambda>_. True) cr (int (length (order_line x))) s = Running (s\<lparr>svc_root := snd (act_order x (svc_root s)),
      svc_replies := svc_replies s @ [fst (act_order x (svc_root s))], svc_cnct := cmd\<rparr>)"
  proof (cases x)
    case Show
    then show ?thesis using service_show_line [OF a(2) _ a(4), of rest cr] a(3) by (simp add: act_order_def)
  next
    case (Trade t)
    then show ?thesis using tl.line_answered [of t s rest cr] order_trade_ok a(1,3,4) by (simp add: act_order_def)
  qed
qed (rule act_order_fits)

lemma answers_ok: "fits tr \<Longrightarrow> list_all order_ok xs \<Longrightarrow> list_all msg_ok (fst (serve_all act_order xs tr))"
proof (induction xs arbitrary: tr)
  case (Cons x xs)
  then show ?case using act_order_msg [of x tr] act_order_fits [of tr x] by (simp split: prod.split) (metis fst_conv snd_conv)
qed simp

lemma length_answers [simp]: "length (fst (serve_all act xs tr)) = length xs"
  by (induction xs arbitrary: tr) (simp_all split: prod.split, metis fst_conv)

fun trades_of :: "request list \<Rightarrow> trade list" where
  "trades_of [] = []"
| "trades_of (Show # xs) = trades_of xs"
| "trades_of (Trade t # xs) = t # trades_of xs"

lemma trades_table: "table_of (snd (serve_all act_order xs tr)) = snd (trade_session (trades_of xs) (table_of tr))"
  by (induction xs arbitrary: tr rule: trades_of.induct)
     (simp_all add: act_order_def act_trade_def modify_table case_prod_beta)

section \<open>The interactive client's session\<close>

fun typed_lines :: "string list \<Rightarrow> bool" where
  "typed_lines [] = True"
| "typed_lines (w # ws) = (NEWLINE \<notin> set w \<and> NUL \<notin> set w \<and> length w < MAXLINE - 1 \<and> typed_lines ws)"

lemma typed_line_answered:
  assumes "ready c" and "msg_ok msg" and "pending c = frame msg @ rest" and "NUL \<notin> set ln"
  shows "\<exists>c'. typed_line ln c = Going c' \<and> ready c' \<and> pending c' = rest \<and> cl_sent c' = cl_sent c @ ln
    \<and> cl_screen c' = cl_screen c @ msg"
proof -
  obtain rp rs where R: "rio_readnb (cl_rio c) MAXLINE (cl_in c) = (int MAXLINE, frame msg, rp, rs)"
    "rio_ok rp" "clean rs" "avail rp rs = rest" by (rule frame_read [OF assms(1,2,3)])
  have W: "Rio_writen False ln [] = Some (ln, [])" by (simp add: Rio_writen_def rio_writen_def)
  have ws: "cl_ws c = []" using assms(1) by (simp add: ready_def)
  show ?thesis
    using R W ws frame_shows [OF assms(2)] c_str_append_NUL [OF assms(4)]
    by (simp add: typed_line_def put_text_def Fputs_def ready_def pending_def)
qed

lemma stockclient_line:
  assumes "NEWLINE \<notin> set w" and "length w < MAXLINE - 1"
  shows "stockclient (w @ NEWLINE # rest) c = then_do (typed_line (w @ [NEWLINE]) c) (stockclient rest)"
  using line_of_exact [OF assms, of rest] by (subst stockclient.simps) simp

lemma stockclient_end: "stockclient [] c = Going c"
  by (subst stockclient.simps) (cases "MAXLINE - 1", simp_all)

text \<open>(C36) The interactive client answers every line its user types with the server's reply to that line: if
  the replies arrive as the servers send them, whole arrays with the message in front, however they are cut
  into packets, then the client sends exactly what was typed, prints exactly the messages, in order, has read
  everything, and ends with the input.\<close>

theorem stockclient_prints_replies:
  assumes "typed_lines ws" and "list_all msg_ok msgs" and "length ws = length msgs"
    and "ready c" and "pending c = concat (map frame msgs) @ rest"
  shows "\<exists>c'. stockclient (concat (map (\<lambda>w. w @ [NEWLINE]) ws)) c = Going c' \<and> pending c' = rest
    \<and> cl_sent c' = cl_sent c @ concat (map (\<lambda>w. w @ [NEWLINE]) ws) \<and> cl_screen c' = cl_screen c @ concat msgs"
  using assms
proof (induction ws arbitrary: msgs c)
  case Nil
  then show ?case by (simp add: stockclient_end)
next
  case (Cons w ws)
  obtain msg ms where ms: "msgs = msg # ms" using Cons.prems(3) by (cases msgs) auto
  obtain c1 where 1: "typed_line (w @ [NEWLINE]) c = Going c1" "ready c1" "pending c1 = concat (map frame ms) @ rest"
    "cl_sent c1 = cl_sent c @ w @ [NEWLINE]" "cl_screen c1 = cl_screen c @ msg"
    using typed_line_answered [of c msg "concat (map frame ms) @ rest" "w @ [NEWLINE]"] Cons.prems by (auto simp: ms)
  have "stockclient (concat (map (\<lambda>w. w @ [NEWLINE]) (w # ws))) c = stockclient (concat (map (\<lambda>w. w @ [NEWLINE]) ws)) c1"
    using stockclient_line [of w "concat (map (\<lambda>w. w @ [NEWLINE]) ws)" c] Cons.prems(1) 1(1) by (simp add: then_do_def)
  with Cons.IH [of ms c1] 1 Cons.prems show ?case by (auto simp: ms)
qed

definition fresh_client :: "rd list \<Rightarrow> client" where
  "fresh_client rs = \<lparr>cl_rio = rio_fresh, cl_in = rs, cl_ws = [], cl_buf = [], cl_sent = [], cl_screen = [], cl_rands = 0\<rparr>"

lemma fresh_client_ready [simp]:
  "ready (fresh_client rs) = clean rs" "pending (fresh_client rs) = stream rs" "cl_sent (fresh_client rs) = []"
  "cl_screen (fresh_client rs) = []" "cl_rands (fresh_client rs) = 0"
  by (simp_all add: fresh_client_def ready_def pending_def avail_def)

lemma frame_not_Nil: "msg_ok m \<Longrightarrow> frame m \<noteq> []"
  using frame_shows(3) by force

theorem stockclient_prints_replies_witness:
  "\<exists>c'. stockclient (''show'' @ [NEWLINE]) (fresh_client [Data (frame ''hello'')]) = Going c' \<and> cl_screen c' = ''hello''"
proof -
  have m: "msg_ok ''hello''" by (simp add: msg_ok_def MAXLINE_def)
  then have "ready (fresh_client [Data (frame ''hello'')])" "pending (fresh_client [Data (frame ''hello'')]) = concat (map frame [''hello'']) @ []"
    using frame_not_Nil [OF m] frame_not_Nil [OF m, symmetric] by (auto simp: clean_def)
  with stockclient_prints_replies [of "[''show'']" "[''hello'']" "fresh_client [Data (frame ''hello'')]" "[]"] m
  show ?thesis by (auto simp: MAXLINE_def)
qed

section \<open>Clients and the thread-based server\<close>

lemma service_orders:
  assumes "list_all order_ok os" and "fits tr" and "clean inp" and "stream inp = concat (map order_line os)"
  shows "\<exists>s'. service (Suc (length os)) (\<lambda>_. True) 0 connfd (rp, cmd, b) inp tr = Closed s'
    \<and> svc_replies s' = fst (serve_all act_order os tr) \<and> svc_root s' = snd (serve_all act_order os tr)"
proof -
  let ?s = "\<lparr>svc_root = tr, svc_replies = [], svc_open = True, svc_cnct = cmd\<lparr>c_connfd := connfd, c_args := None, c_argc := None\<rparr>,
     svc_rio = rio_readinitb rp connfd, svc_in = inp, svc_buf = b\<rparr>"
  have "avail (svc_rio ?s) (svc_in ?s) = concat (map order_line os)" using assms(4) by (simp add: avail_def)
  with ol.lines_served [OF assms(1), of ?s] assms(2,3) show ?thesis by (auto simp: service_def)
qed

text \<open>(C14) The load generator and the server together: whatever \<^verbatim>\<open>rand\<close> returns and however the bytes are cut
  into packets, for a table of at most 226 stocks the child process finishes its ten orders; they are shows, and
  purchases and sales of one to ten of the stocks one to ten; the server, reading what the child sends, answers each
  and closes the connection; the child prints exactly these answers in order, and the table is the one the
  abstract session of the trades gives.\<close>

theorem multiclient_served:
  assumes "fits tr" and "os = draws (draw_random r) ORDER_PER_CLIENT 0"
    and "clean inp" and "stream inp = concat (map order_line os)"
    and "clean rs" and "stream rs = concat (map frame (fst (serve_all act_order os tr)))"
  shows "list_all order_ok os \<and> (\<exists>s' c'. service (Suc ORDER_PER_CLIENT) (\<lambda>_. True) 0 connfd (rp, cmd, b) inp tr = Closed s'
     \<and> multiclient_child r (fresh_client rs) = Going c' \<and> cl_sent c' = stream inp
     \<and> length (svc_replies s') = ORDER_PER_CLIENT \<and> cl_screen c' = concat (svc_replies s') \<and> pending c' = []
     \<and> table_of (svc_root s') = snd (trade_session (trades_of os) (table_of tr)))"
proof -
  let ?ans = "fst (serve_all act_order os tr)"
  have os: "list_all order_ok os" using mcl.draws_ok assms(2) by simp
  have len: "length ?ans = ORDER_PER_CLIENT" "length os = ORDER_PER_CLIENT" using assms(2) by simp_all
  obtain s' where
    s': "service (Suc ORDER_PER_CLIENT) (\<lambda>_. True) 0 connfd (rp, cmd, b) inp tr = Closed s'" "svc_replies s' = ?ans"
    "svc_root s' = snd (serve_all act_order os tr)" using service_orders [OF os assms(1,3,4), of connfd rp cmd b] len(2) by auto
  obtain c' where c': "multiclient_child r (fresh_client rs) = Going c'" "pending c' = []" "cl_sent c' = concat (map order_line os)"
    "cl_screen c' = concat ?ans"
    using mcl.all_turns [of "fresh_client rs" ?ans "[]" r] answers_ok [OF assms(1) os] assms(2,5,6) len(1)
    by (auto simp: multiclient_child_def)
  show ?thesis using os s' c' assms(4) len by (auto simp: trades_table)
qed

lemma one_packet: "d \<noteq> [] \<Longrightarrow> clean [Data d] \<and> stream [Data d] = d"
  by (auto simp: clean_def)

lemma counting_draws: "draws (draw_random (\<lambda>k. k)) ORDER_PER_CLIENT 0
   = [Show, Trade (''buy'', 3, 4), Trade (''buy'', 6, 7), Trade (''buy'', 9, 10), Trade (''buy'', 2, 3),
      Trade (''buy'', 5, 6), Trade (''buy'', 8, 9), Trade (''buy'', 1, 2), Trade (''buy'', 4, 5), Trade (''buy'', 7, 8)]"
  by code_simp

theorem multiclient_served_witness:
  "\<exists>inp rs s' c'. service 11 (\<lambda>_. True) 0 5 (rio_fresh, fresh_cmd 0 0, []) inp (Stock 3 7 5 NullStock NullStock) = Closed s'
     \<and> multiclient_child (\<lambda>k. k) (fresh_client rs) = Going c' \<and> cl_sent c' = stream inp
     \<and> cl_screen c' = concat (svc_replies s') \<and> table_of (svc_root s') 3 = Some (1, 7)"
proof -
  let ?tr = "Stock 3 7 5 NullStock NullStock"
  let ?os = "draws (draw_random (\<lambda>k. k)) ORDER_PER_CLIENT 0"
  let ?i = "concat (map order_line ?os)" let ?o = "concat (map frame (fst (serve_all act_order ?os ?tr)))"
  have f: "fits ?tr" by (simp add: fits_def row_ok_def in_int32_def)
  have n: "Suc ORDER_PER_CLIENT = 11" by (simp add: ORDER_PER_CLIENT_def)
  have "?i \<noteq> []" unfolding counting_draws by simp
  moreover have "?o \<noteq> []"
    using frame_not_Nil [OF act_order_msg [of Show, OF _ f]] unfolding counting_draws by (simp add: case_prod_beta)
  ultimately obtain s' c' where "service (Suc ORDER_PER_CLIENT) (\<lambda>_. True) 0 5 (rio_fresh, fresh_cmd 0 0, []) [Data ?i] ?tr = Closed s'"
    "multiclient_child (\<lambda>k. k) (fresh_client [Data ?o]) = Going c'" "cl_sent c' = stream [Data ?i]"
    "cl_screen c' = concat (svc_replies s')" "table_of (svc_root s') = snd (trade_session (trades_of ?os) (table_of ?tr))"
    using multiclient_served [OF f refl, where r = "\<lambda>k. k" and inp = "[Data ?i]" and rs = "[Data ?o]" and connfd = 5
        and rp = rio_fresh and cmd = "fresh_cmd 0 0" and b = "[]"] one_packet by blast
  moreover have "snd (trade_session (trades_of ?os) (table_of ?tr)) 3 = Some (1, 7)"
    unfolding counting_draws by (simp add: delta_def abs_modify_def int32_def)
  ultimately show ?thesis unfolding n by metis
qed

section \<open>The benchmark\<close>

lemma modify_q_served:
  assumes "0 \<le> n" and "os = draws (draw_modify r) (nat n) 0" and "clean inp" and "stream inp = concat (map order_line os)"
    and "clean rs" and "stream rs = concat (map frame (fst (serve_all act_order os tr)))" and "fits tr"
  shows "\<exists>s' c'. service (Suc (nat n)) (\<lambda>_. True) 0 connfd (rp, cmd, b) inp tr = Closed s'
     \<and> modify_q n r (fresh_client rs) = Going c' \<and> cl_sent c' = stream inp \<and> pending c' = []"
proof -
  have os: "list_all order_ok os" "length os = nat n" using mq.draws_ok assms(2) by simp_all
  have "\<exists>s'. service (Suc (nat n)) (\<lambda>_. True) 0 connfd (rp, cmd, b) inp tr = Closed s'"
    using service_orders [OF os(1) assms(7,3,4), of connfd rp cmd b] os(2) by auto
  moreover have "\<exists>c'. modify_q n r (fresh_client rs) = Going c' \<and> pending c' = [] \<and> cl_sent c' = concat (map order_line os)"
    using mq.all_turns [of "fresh_client rs" "fst (serve_all act_order os tr)" "[]" r] answers_ok [OF assms(7) os(1)] assms(2,5,6) os(2)
    by (auto simp: modify_q_def)
  ultimately show ?thesis using assms(4) by auto
qed

text \<open>What the fifth argument selects.\<close>

lemma query_type_inverted:
  "query_type [p, h, po, n, t, ''show''] = MODIFY" "query_type [p, h, po, n, t, ''modify''] = SHOW" "query_type [p, h, po, n, t] = RAND"
  by (simp_all add: query_type_def)

text \<open>The parent waits for all clients it was asked for, in the order of their creation; it has room for a hundred.\<close>

lemma fork_loop_all:
  assumes "\<And>k. 0 \<le> fork k" and "n \<le> int MAX_CLIENT" and "pids = map fork [0..<length pids]"
    and "int (length pids) \<le> max 0 n"
  shows "fork_loop fork n pids = WaitedFor (map fork [0..<nat n])"
  using assms
proof (induction fork n pids rule: fork_loop.induct)
  case (1 fork n pids)
  show ?case
  proof (cases "int (length pids) < n")
    case True
    have "\<not> fork (length pids) < 0" using "1.prems"(1) [of "length pids"] by simp
    moreover from this have "fork_loop fork n (pids @ [fork (length pids)]) = WaitedFor (map fork [0..<nat n])"
      using "1.IH" [OF True _ refl] True "1.prems" by simp
    ultimately show ?thesis using True "1.prems"(2) by (subst fork_loop.simps) (simp add: Let_def)
  next
    case False
    then have "length pids = nat n" using "1.prems"(4) by linarith
    then show ?thesis using False "1.prems"(3) by (subst fork_loop.simps) simp
  qed
qed

lemma too_many_clients: "fork_loop (\<lambda>_. 1) 101 (replicate 100 1) = PidsOverflow"
  by (subst fork_loop.simps) (simp add: MAX_CLIENT_def)

end
