(* ===== verification/Command_Types.thy ===== *)
theory Command_Types
  imports Thread_Server
begin

text \<open>
  The typing of commands, for both stock servers.  A command that the parser delivers fits its signature in the
  table of commands: its function is the one the table pairs with its name, and the array of arguments holds as many
  strings as that function reads and \<open>free_args\<close> frees.  Running a typed command cannot use a missing argument, and
  leaves it typed.
\<close>

section \<open>Typed commands\<close>

definition arity :: "cmd_fp \<Rightarrow> nat" where
  "arity f = (case f of show_fp \<Rightarrow> 0 | sell_fp \<Rightarrow> 2 | buy_fp \<Rightarrow> 2 | exit_client_fp \<Rightarrow> 0)"

text \<open>The array has \<open>n\<close> strings in front.\<close>

definition holds_args :: "nat \<Rightarrow> command \<Rightarrow> bool" where
  "holds_args n cmd \<longleftrightarrow> (\<exists>a. c_args cmd = Some a \<and> length a = 4 \<and> (\<forall>i < n. a ! i \<noteq> None))"

definition in_table :: "command \<Rightarrow> bool" where
  "in_table cmd \<longleftrightarrow> (c_flag cmd, c_name cmd, c_fp cmd) \<in> set command_list"

definition cmd_typed :: "command \<Rightarrow> bool" where
  "cmd_typed cmd \<longleftrightarrow> in_table cmd \<and> c_argc cmd = Some (Suc (arity (c_fp cmd))) \<and> holds_args (Suc (arity (c_fp cmd))) cmd"

named_theorems typing

lemma in_table_cases [consumes 1]:
  assumes "in_table cmd"
  obtains "c_flag cmd = NOARGS" "c_fp cmd \<in> {show_fp, exit_client_fp}" "c_name cmd \<in> {''show'', ''exit''}"
  | "c_flag cmd = INTINT" "c_fp cmd \<in> {sell_fp, buy_fp}" "c_name cmd \<in> {''sell'', ''buy''}"
  using assms by (auto simp: in_table_def command_list_def NOARGS_def INTINT_def)

lemma holds_args_set [typing]:
  "holds_args n cmd \<Longrightarrow> n < 4 \<Longrightarrow> holds_args (Suc n) (set_arg n s cmd)"
  by (auto simp: holds_args_def set_arg_def nth_list_update less_Suc_eq)

lemma holds_args_fields [simp]:
  "holds_args n (cmd\<lparr>c_argc := x\<rparr>) = holds_args n cmd" "holds_args n (cmd\<lparr>c_result := r\<rparr>) = holds_args n cmd"
  by (simp_all add: holds_args_def)

lemma in_table_fields [simp]:
  "in_table (cmd\<lparr>c_argc := x\<rparr>) = in_table cmd" "in_table (cmd\<lparr>c_result := r\<rparr>) = in_table cmd" "in_table (set_arg i s cmd) = in_table cmd"
  by (simp_all add: in_table_def set_arg_def)

lemma set_arg_fields [simp]:
  "c_flag (set_arg i s cmd) = c_flag cmd" "c_fp (set_arg i s cmd) = c_fp cmd" "c_argc (set_arg i s cmd) = c_argc cmd"
  by (simp_all add: set_arg_def)

lemma cmd_typed_result [simp]: "cmd_typed (cmd\<lparr>c_result := r\<rparr>) = cmd_typed cmd"
  by (simp add: cmd_typed_def)

section \<open>The parser delivers typed commands\<close>

text \<open>The loop over the table: either no entry matched, or the fields are those of an entry.\<close>

definition matched :: "command \<Rightarrow> bool" where
  "matched cmd \<longleftrightarrow> c_args cmd = Some [None, None, None, None]
     \<or> c_args cmd = Some [Some [], None, None, None] \<and> c_argc cmd = Some 1 \<and> in_table cmd"

lemma match_cmd_matched: "e \<in> set command_list \<Longrightarrow> matched cmd \<Longrightarrow> matched (match_cmd bf pos cmd e)"
  by (cases e) (auto simp: matched_def match_cmd_def in_table_def)

lemma foldl_matched: "set es \<subseteq> set command_list \<Longrightarrow> matched cmd \<Longrightarrow> matched (foldl (match_cmd bf pos) cmd es)"
  by (induction es arbitrary: cmd) (simp_all add: match_cmd_matched)

lemma find_cmd_typed:
  assumes "find_cmd bf cmd = Inr (SUCCESS, cmd', p)"
  shows "in_table cmd' \<and> c_argc cmd' = Some 1 \<and> holds_args 1 cmd'"
proof -
  obtain pos where "cmd' = foldl (match_cmd bf pos) (cmd\<lparr>c_args := Some [None, None, None, None]\<rparr>) command_list"
    and "\<not> (case c_args cmd' of Some (None # _) \<Rightarrow> True | _ \<Rightarrow> False)"
    using assms by (auto simp: find_cmd_def Let_def simp del: foldl.simps split: if_splits option.splits)
  moreover from this(1) have "matched cmd'" by (simp only:) (rule foldl_matched, simp_all add: matched_def)
  ultimately show ?thesis by (auto simp: matched_def holds_args_def)
qed

text \<open>Whatever \<open>find_args\<close> answers, it leaves a typed command.\<close>

lemma find_args_typed:
  assumes "find_args bf cmd = Inr (st, cmd')" and "in_table cmd" and "c_argc cmd = Some 1" and "holds_args 1 cmd"
  shows "cmd_typed cmd'"
  using assms(2)
proof (cases rule: in_table_cases)
  case 1
  then have "cmd' = cmd" using assms(1) by (auto simp: find_args_def split: option.splits)
  then show ?thesis using assms 1 by (auto simp: cmd_typed_def arity_def)
next
  case 2
  then obtain a b where "cmd' = (set_arg 2 b (set_arg 1 a cmd))\<lparr>c_argc := Some 3\<rparr>"
    using assms(1) by (auto simp: find_args_def NOARGS_def INTINT_def Let_def split: option.splits)
  moreover have "holds_args 3 (set_arg 2 b (set_arg 1 a cmd))"
    using assms(4) holds_args_set [of 1 cmd a] holds_args_set [of 2 "set_arg 1 a cmd" b] by (simp add: numeral_eq_Suc)
  ultimately show ?thesis using assms(2) 2 by (auto simp: cmd_typed_def arity_def numeral_eq_Suc)
qed

lemma parser_typed:
  assumes "parser bf rc cmd = Inr (st, cmd')" and "st \<in> {SUCCESS, INVARG}"
  shows "cmd_typed cmd'"
proof -
  obtain st1 cmd1 p where 1: "find_cmd bf cmd = Inr (st1, cmd1, p)" "st1 \<noteq> ERROR"
    and "\<exists>st2. find_args (drop p bf) cmd1 = Inr (st2, cmd')"
    using assms by (auto simp: parser_def split: if_splits sum.splits prod.splits)
  moreover from 1 have "st1 = SUCCESS" by (auto simp: find_cmd_def Let_def split: if_splits option.splits)
  ultimately show ?thesis using find_cmd_typed find_args_typed by blast
qed

section \<open>Typed commands run\<close>

lemma typed_arg [typing]: "cmd_typed cmd \<Longrightarrow> i \<le> arity (c_fp cmd) \<Longrightarrow> \<exists>n. arg i cmd = Inr n"
  by (auto simp: cmd_typed_def holds_args_def arg_def less_Suc_eq_le)

lemma typed_freed: "cmd_typed cmd \<Longrightarrow> free_args cmd = Inr ()"
  by (auto simp: cmd_typed_def holds_args_def free_args_def arity_def split: cmd_fp.splits)

lemma typed_call:
  assumes "cmd_typed cmd"
  shows "call_fp closef cmd s = Inl e \<Longrightarrow> e = BufferOverflow \<and> c_fp cmd = show_fp"
    and "call_fp closef cmd s = Inr (st, cmd1, s1) \<Longrightarrow> cmd_typed cmd1 \<and> c_name cmd1 = c_name cmd \<and> (c_fp cmd \<noteq> show_fp \<longrightarrow> cmd1 = cmd)"
proof -
  have "\<exists>n. arg 1 cmd = Inr n" "\<exists>n. arg 2 cmd = Inr n" if "c_fp cmd \<in> {sell_fp, buy_fp}"
    using typed_arg [OF assms, of 1] typed_arg [OF assms, of 2] that by (auto simp: arity_def)
  then show "call_fp closef cmd s = Inl e \<Longrightarrow> e = BufferOverflow \<and> c_fp cmd = show_fp"
    and "call_fp closef cmd s = Inr (st, cmd1, s1) \<Longrightarrow> cmd_typed cmd1 \<and> c_name cmd1 = c_name cmd \<and> (c_fp cmd \<noteq> show_fp \<longrightarrow> cmd1 = cmd)"
    using assms by (auto simp: call_fp_def show_cmd_def sell_def buy_def exit_client_def split: cmd_fp.splits prod.splits if_splits)
qed

lemma typed_execute:
  assumes "cmd_typed cmd" and "execute closef cmd s = Inl e"
  shows "e = BufferOverflow \<and> c_fp cmd = show_fp"
proof (cases "call_fp closef (cmd\<lparr>c_result := []\<rparr>) s")
  case (Inl e')
  then show ?thesis using typed_call(1) [of "cmd\<lparr>c_result := []\<rparr>"] assms by (auto simp: execute_def)
next
  case (Inr x)
  obtain st cmd1 s1 where x: "x = (st, cmd1, s1)" by (cases x)
  have c: "c_name cmd1 = c_name cmd" "c_fp cmd \<noteq> show_fp \<longrightarrow> cmd1 = cmd\<lparr>c_result := []\<rparr>"
    using typed_call(2) [of "cmd\<lparr>c_result := []\<rparr>"] assms(1) Inr x by auto
  have e: "e = BufferOverflow" "length (reply (c_name cmd1) st (c_result cmd1)) \<ge> MAXLINE"
    using assms(2) Inr x by (auto simp: execute_def Let_def split: if_splits)
  moreover have "length (reply (c_name cmd) st []) < MAXLINE" if "c_fp cmd \<noteq> show_fp"
    by (rule reply_short) (use assms(1) that in \<open>auto simp: cmd_typed_def in_table_def command_list_def\<close>)
  ultimately show ?thesis using c by fastforce
qed

lemma typed_th_execute:
  assumes "cmd_typed (svc_cnct s)" and "th_execute wok cr s = Broken e"
  shows "e = BufferOverflow"
proof -
  let ?c = "svc_cnct s"
  have "\<exists>n. arg 1 (?c\<lparr>c_result := []\<rparr>) = Inr n" "\<exists>n. arg 2 (?c\<lparr>c_result := []\<rparr>) = Inr n" if "c_fp ?c \<in> {sell_fp, buy_fp}"
    using typed_arg [of "?c\<lparr>c_result := []\<rparr>" 1] typed_arg [of "?c\<lparr>c_result := []\<rparr>" 2] assms(1) that by (auto simp: arity_def)
  then show ?thesis using assms(2)
    by (auto simp: th_execute_def th_call_def th_show_def th_sell_def th_buy_def th_exit_client_def th_Rio_writen_def Let_def
        split: cmd_fp.splits prod.splits if_splits sum.splits)
qed

section \<open>The property\<close>



end
