(* ===== verification/Thread_Sync.thy ===== *)
theory Thread_Sync
  imports Stock_Tree
begin

text \<open>
  The commands of the thread-based server under interleaving
  (\<^verbatim>\<open>concurrent_stockserver/thread_based/impl.c\<close> and \<open>modify\<close> of \<^verbatim>\<open>binary_tree.c\<close>): a reader
  count and a writer count, each behind a mutex, two busy-waiting loops on the counts, and a mutex
  per stock around the change of its count.  Each constructor of the program counter is the point
  before one access to shared memory; the change of the count is a load and a store.  The shape of
  the tree never changes once the server listens, so the search of \<open>find\<close> and the walk of
  \<open>print_to_buf\<close> are one step each; \<open>T0\<close> to \<open>T3\<close> and \<open>T9\<close> to \<open>T11\<close> are \<open>sell\<close> and \<open>buy\<close> (which
  passes the negated amount), \<open>T4\<close> to \<open>T8\<close> are \<open>modify\<close>, \<open>S0\<close> to \<open>S7\<close> are \<open>show\<close>.
\<close>

datatype tpc = Ready
  | S0 | S1 | S2 | S3 | S4 | S5 STATUS | S6 STATUS | S7 STATUS
  | T0 int int | T1 int int | T2 int int | T3 int int | T4 int int | T5 int int | T6 int int | T7 int int int | T8 int
  | T9 STATUS | T10 STATUS | T11 STATUS | Done STATUS

record tstate =
  tree :: stock
  reader_n :: int
  writer_n :: int
  reader_n_mutex :: nat
  writer_n_mutex :: nat
  modify_mutex :: "int \<Rightarrow> nat"
  tpcs :: "tpc list"
  ledger :: "(int \<times> int) list"

section \<open>The program\<close>

definition move :: "nat \<Rightarrow> tpc \<Rightarrow> tstate \<Rightarrow> tstate" where
  "move t pc s = s\<lparr>tpcs := (tpcs s)[t := pc]\<rparr>"

text \<open>One step of thread \<open>t\<close>; \<open>None\<close> when it waits.  A thread that spins stays where it is.\<close>

definition tstep :: "nat \<Rightarrow> tstate \<Rightarrow> tstate option" where
  "tstep t s =
     (case tpcs s ! t of
        Ready \<Rightarrow> None
      | S0 \<Rightarrow> Some (if writer_n s \<noteq> 0 then s else move t S1 s)
      | S1 \<Rightarrow> if reader_n_mutex s = 0 then None
              else Some (move t S2 (s\<lparr>reader_n_mutex := reader_n_mutex s - 1\<rparr>))
      | S2 \<Rightarrow> Some (move t S3 (s\<lparr>reader_n := reader_n s + 1\<rparr>))
      | S3 \<Rightarrow> Some (move t S4 (s\<lparr>reader_n_mutex := reader_n_mutex s + 1\<rparr>))
      | S4 \<Rightarrow> Some (move t (S5 (fst (print_to_buf (tree s) []))) s)
      | S5 st \<Rightarrow> if reader_n_mutex s = 0 then None
              else Some (move t (S6 st) (s\<lparr>reader_n_mutex := reader_n_mutex s - 1\<rparr>))
      | S6 st \<Rightarrow> Some (move t (S7 st) (s\<lparr>reader_n := reader_n s - 1\<rparr>))
      | S7 st \<Rightarrow> Some (move t (Done st) (s\<lparr>reader_n_mutex := reader_n_mutex s + 1\<rparr>))
      | T0 i d \<Rightarrow> if writer_n_mutex s = 0 then None
              else Some (move t (T1 i d) (s\<lparr>writer_n_mutex := writer_n_mutex s - 1\<rparr>))
      | T1 i d \<Rightarrow> Some (move t (T2 i d) (s\<lparr>writer_n := writer_n s + 1\<rparr>))
      | T2 i d \<Rightarrow> Some (move t (T3 i d) (s\<lparr>writer_n_mutex := writer_n_mutex s + 1\<rparr>))
      | T3 i d \<Rightarrow> Some (if reader_n s \<noteq> 0 then s else move t (T4 i d) s)
      | T4 i d \<Rightarrow> Some (case stock_find i (tree s) of
              NullStock \<Rightarrow> move t (T9 ERROR) s
            | Stock _ _ c _ _ \<Rightarrow> if int32 (c + d) < 0 then move t (T9 NOTENOUGHERR) s else move t (T5 i d) s)
      | T5 i d \<Rightarrow> if modify_mutex s i = 0 then None
              else Some (move t (T6 i d) (s\<lparr>modify_mutex := (modify_mutex s)(i := modify_mutex s i - 1)\<rparr>))
      | T6 i d \<Rightarrow> Some (case stock_find i (tree s) of NullStock \<Rightarrow> s | Stock _ _ c _ _ \<Rightarrow> move t (T7 i d c) s)
      | T7 i d v \<Rightarrow> Some (move t (T8 i) (s\<lparr>tree := set_count i (int32 (v + d)) (tree s), ledger := ledger s @ [(i, d)]\<rparr>))
      | T8 i \<Rightarrow> Some (move t (T9 SUCCESS) (s\<lparr>modify_mutex := (modify_mutex s)(i := modify_mutex s i + 1)\<rparr>))
      | T9 st \<Rightarrow> if writer_n_mutex s = 0 then None
              else Some (move t (T10 st) (s\<lparr>writer_n_mutex := writer_n_mutex s - 1\<rparr>))
      | T10 st \<Rightarrow> Some (move t (T11 st) (s\<lparr>writer_n := writer_n s - 1\<rparr>))
      | T11 st \<Rightarrow> Some (move t (Done st) (s\<lparr>writer_n_mutex := writer_n_mutex s + 1\<rparr>))
      | Done st \<Rightarrow> None)"

text \<open>A thread that is ready, or done with its last command, takes up a new one.\<close>

inductive tsys :: "tstate \<Rightarrow> tstate \<Rightarrow> bool" where
  take_show: "\<lbrakk>t < length (tpcs s); tpcs s ! t = Ready \<or> tpcs s ! t = Done st\<rbrakk> \<Longrightarrow> tsys s (move t S0 s)"
| take_trade: "\<lbrakk>t < length (tpcs s); tpcs s ! t = Ready \<or> tpcs s ! t = Done st\<rbrakk> \<Longrightarrow> tsys s (move t (T0 i d) s)"
| thread_step: "\<lbrakk>t < length (tpcs s); tstep t s = Some s'\<rbrakk> \<Longrightarrow> tsys s s'"

inductive treach :: "tstate \<Rightarrow> tstate \<Rightarrow> bool" for s0 where
  treach_start: "treach s0 s0"
| treach_step: "\<lbrakk>treach s0 s; tsys s s'\<rbrakk> \<Longrightarrow> treach s0 s'"

definition tstart :: "stock \<Rightarrow> nat \<Rightarrow> tstate" where
  "tstart c n = \<lparr>tree = c, reader_n = 0, writer_n = 0, reader_n_mutex = 1, writer_n_mutex = 1,
     modify_mutex = (\<lambda>_. 1), tpcs = replicate n Ready, ledger = []\<rparr>"

section \<open>The invariant\<close>

definition r_cs :: "tpc \<Rightarrow> bool" where "r_cs pc \<longleftrightarrow> (case pc of S2 \<Rightarrow> True | S3 \<Rightarrow> True | S6 _ \<Rightarrow> True | S7 _ \<Rightarrow> True | _ \<Rightarrow> False)"
definition reading :: "tpc \<Rightarrow> bool" where "reading pc \<longleftrightarrow> (case pc of S3 \<Rightarrow> True | S4 \<Rightarrow> True | S5 _ \<Rightarrow> True | S6 _ \<Rightarrow> True | _ \<Rightarrow> False)"

definition w_cs :: "tpc \<Rightarrow> bool" where
  "w_cs pc \<longleftrightarrow> (case pc of T1 _ _ \<Rightarrow> True | T2 _ _ \<Rightarrow> True | T10 _ \<Rightarrow> True | T11 _ \<Rightarrow> True | _ \<Rightarrow> False)"

definition writing :: "tpc \<Rightarrow> bool" where
  "writing pc \<longleftrightarrow> (case pc of T2 _ _ \<Rightarrow> True | T3 _ _ \<Rightarrow> True | T4 _ _ \<Rightarrow> True | T5 _ _ \<Rightarrow> True | T6 _ _ \<Rightarrow> True
     | T7 _ _ _ \<Rightarrow> True | T8 _ \<Rightarrow> True | T9 _ \<Rightarrow> True | T10 _ \<Rightarrow> True | _ \<Rightarrow> False)"

definition m_cs :: "int \<Rightarrow> tpc \<Rightarrow> bool" where
  "m_cs i pc \<longleftrightarrow> (case pc of T6 j _ \<Rightarrow> j = i | T7 j _ _ \<Rightarrow> j = i | T8 j \<Rightarrow> j = i | _ \<Rightarrow> False)"

lemmas pc_classes = r_cs_def reading_def w_cs_def writing_def m_cs_def

text \<open>The count that a thread sees, and a change of it made in one piece.\<close>

definition count_at :: "int \<Rightarrow> stock \<Rightarrow> int option" where
  "count_at i t = map_option fst (table_of t i)"

definition add_count :: "stock \<Rightarrow> int \<times> int \<Rightarrow> stock" where
  "add_count t = (\<lambda>(i, d). case count_at i t of None \<Rightarrow> t | Some c \<Rightarrow> set_count i (int32 (c + d)) t)"

definition apply_ledger :: "stock \<Rightarrow> (int \<times> int) list \<Rightarrow> stock" where
  "apply_ledger = foldl add_count"

lemma count_at_find: "count_at i t = (case stock_find i t of NullStock \<Rightarrow> None | Stock _ _ c _ _ \<Rightarrow> Some c)"
  by (simp add: count_at_def table_of_def split: stock.splits)

lemma count_at_set_count: "j \<noteq> i \<Longrightarrow> count_at j (set_count i v t) = count_at j t"
  by (simp add: count_at_def table_of_set_count)

text \<open>Such a change is what \<open>modify\<close> does when it answers success.\<close>

lemma modify_add_count: "fst (modify i d t) = SUCCESS \<Longrightarrow> snd (modify i d t) = add_count t (i, d)"
  by (auto simp: modify_def add_count_def count_at_find split: stock.splits if_splits)

definition tinv :: "stock \<Rightarrow> tstate \<Rightarrow> bool" where
  "tinv c0 s \<longleftrightarrow>
     reader_n_mutex s + count_if r_cs (tpcs s) = 1 \<and> writer_n_mutex s + count_if w_cs (tpcs s) = 1
     \<and> (\<forall>i. modify_mutex s i + count_if (m_cs i) (tpcs s) = 1)
     \<and> reader_n s = int (count_if reading (tpcs s)) \<and> writer_n s = int (count_if writing (tpcs s))
     \<and> (\<forall>t < length (tpcs s). \<forall>i d v. tpcs s ! t = T7 i d v \<longrightarrow> count_at i (tree s) = Some v)
     \<and> tree s = apply_ledger c0 (ledger s)"

lemma move_fields [simp]:
  "tree (move t pc s) = tree s" "reader_n (move t pc s) = reader_n s" "writer_n (move t pc s) = writer_n s"
  "reader_n_mutex (move t pc s) = reader_n_mutex s" "writer_n_mutex (move t pc s) = writer_n_mutex s"
  "modify_mutex (move t pc s) = modify_mutex s" "tpcs (move t pc s) = (tpcs s)[t := pc]" "ledger (move t pc s) = ledger s"
  by (simp_all add: move_def)

text \<open>A step that moves one thread keeps the invariant when each counter changes with the class of
  the program counter.\<close>

lemma tinv_move:
  assumes I: "tinv c0 s" and t: "t < length (tpcs s)"
    and pcs: "tpcs s' = (tpcs s)[t := pc]"
    and rm: "reader_n_mutex s' + of_bool (r_cs pc) = reader_n_mutex s + of_bool (r_cs (tpcs s ! t))"
    and wm: "writer_n_mutex s' + of_bool (w_cs pc) = writer_n_mutex s + of_bool (w_cs (tpcs s ! t))"
    and mm: "\<And>i. modify_mutex s' i + of_bool (m_cs i pc) = modify_mutex s i + of_bool (m_cs i (tpcs s ! t))"
    and rn: "reader_n s' = reader_n s + of_bool (reading pc) - of_bool (reading (tpcs s ! t))"
    and wn: "writer_n s' = writer_n s + of_bool (writing pc) - of_bool (writing (tpcs s ! t))"
    and reg: "\<And>i d v. pc = T7 i d v \<Longrightarrow> count_at i (tree s') = Some v"
    and same: "\<And>t' i d v. \<lbrakk>t' < length (tpcs s); t' \<noteq> t; tpcs s ! t' = T7 i d v\<rbrakk> \<Longrightarrow> count_at i (tree s') = count_at i (tree s)"
    and led: "tree s' = apply_ledger c0 (ledger s')"
  shows "tinv c0 s'"
proof -
  note C = cnt_update [OF t, of _ pc]
  have R: "reader_n_mutex s' + count_if r_cs (tpcs s') = reader_n_mutex s + count_if r_cs (tpcs s)"
    "writer_n_mutex s' + count_if w_cs (tpcs s') = writer_n_mutex s + count_if w_cs (tpcs s)"
    "reader_n s' - int (count_if reading (tpcs s')) = reader_n s - int (count_if reading (tpcs s))"
    "writer_n s' - int (count_if writing (tpcs s')) = writer_n s - int (count_if writing (tpcs s))"
    using rm wm rn wn C [of r_cs] C [of w_cs] C [of reading] C [of writing] unfolding pcs
    by (auto split: if_splits)
  have "modify_mutex s' i + count_if (m_cs i) (tpcs s') = modify_mutex s i + count_if (m_cs i) (tpcs s)" for i
    using mm [of i] C [of "m_cs i"] unfolding pcs by (auto split: if_splits)
  moreover have "count_at i (tree s') = Some v" if "t' < length (tpcs s')" "tpcs s' ! t' = T7 i d v" for t' i d v
  proof (cases "t' = t")
    case True
    then show ?thesis using that reg t pcs by simp
  next
    case False
    then have "tpcs s ! t' = T7 i d v" "t' < length (tpcs s)" using that pcs by auto
    then show ?thesis using same [OF _ False] I unfolding tinv_def by metis
  qed
  ultimately show ?thesis using I R led unfolding tinv_def by auto
qed

lemma m_cs_unique:
  assumes "tinv c0 s" "t < length (tpcs s)" "t' < length (tpcs s)" "m_cs i (tpcs s ! t)" "m_cs i (tpcs s ! t')"
  shows "t = t'"
proof -
  have "modify_mutex s i + count_if (m_cs i) (tpcs s) = 1" using assms(1) by (simp add: tinv_def)
  then have "count_if (m_cs i) (tpcs s) \<le> 1" by simp
  then show ?thesis by (rule cnt_le_one) (use assms in auto)
qed

text \<open>The steps that touch no count move their thread and change each counter with the class of the program
  counter.\<close>

lemma tinv_plain:
  assumes "tinv c0 s" and "t < length (tpcs s)" and "tpcs s1 = tpcs s" and "tree s1 = tree s" and "ledger s1 = ledger s"
    and "reader_n_mutex s1 + of_bool (r_cs pc) = reader_n_mutex s + of_bool (r_cs (tpcs s ! t))"
    and "writer_n_mutex s1 + of_bool (w_cs pc) = writer_n_mutex s + of_bool (w_cs (tpcs s ! t))"
    and "\<And>i. modify_mutex s1 i + of_bool (m_cs i pc) = modify_mutex s i + of_bool (m_cs i (tpcs s ! t))"
    and "reader_n s1 = reader_n s + of_bool (reading pc) - of_bool (reading (tpcs s ! t))"
    and "writer_n s1 = writer_n s + of_bool (writing pc) - of_bool (writing (tpcs s ! t))"
    and "\<And>i d v. pc \<noteq> T7 i d v"
  shows "tinv c0 (move t pc s1)"
proof -
  have "tree s = apply_ledger c0 (ledger s)" using assms(1) by (simp add: tinv_def)
  then show ?thesis by (intro tinv_move [OF assms(1,2), of _ pc]) (use assms(3-) in \<open>simp_all\<close>)
qed

lemma tstep_plain:
  assumes I: "tinv c0 s" and t: "t < length (tpcs s)" and pc: "\<And>i d v. tpcs s ! t \<noteq> T7 i d v" "\<And>i d. tpcs s ! t \<noteq> T6 i d"
    and st: "tstep t s = Some s'"
  shows "tinv c0 s'"
  using pc st I unfolding tstep_def
  apply (cases "tpcs s ! t"; (clarsimp split: if_split_asm stock.split_asm)?)
  apply (rule tinv_plain [OF I t]; simp add: pc_classes)+
  done

lemma tstep_store:
  assumes I: "tinv c0 s" and t: "t < length (tpcs s)" and T7: "tpcs s ! t = T7 i d v" and st: "tstep t s = Some s'"
  shows "tinv c0 s'"
proof -
  have s': "s' = move t (T8 i) (s\<lparr>tree := set_count i (int32 (v + d)) (tree s), ledger := ledger s @ [(i, d)]\<rparr>)"
    using st T7 by (simp add: tstep_def)
  have "tree s = apply_ledger c0 (ledger s)" "count_at i (tree s) = Some v" using I t T7 unfolding tinv_def by blast+
  then have led: "tree s' = apply_ledger c0 (ledger s')" by (simp add: s' apply_ledger_def add_count_def)
  have ne: "j \<noteq> i" if "t' < length (tpcs s)" "t' \<noteq> t" "tpcs s ! t' = T7 j d' v'" for t' j d' v'
    using m_cs_unique [OF I t that(1), of i] that(2,3) T7 by (auto simp: m_cs_def)
  have same: "count_at j (tree s') = count_at j (tree s)" if "t' < length (tpcs s)" "t' \<noteq> t" "tpcs s ! t' = T7 j d' v'" for t' j d' v'
    using ne [OF that] by (simp add: s' count_at_set_count)
  show ?thesis
    by (rule tinv_move [OF I t, of s' "T8 i", OF _ _ _ _ _ _ _ same led]) (use T7 s' in \<open>auto simp: pc_classes\<close>)
qed

lemma tstep_load:
  assumes I: "tinv c0 s" and t: "t < length (tpcs s)" and T6: "tpcs s ! t = T6 i d" and st: "tstep t s = Some s'"
  shows "tinv c0 s'"
proof (cases "stock_find i (tree s)")
  case NullStock
  then show ?thesis using T6 st I by (simp add: tstep_def)
next
  case (Stock a b c l r)
  then have s': "s' = move t (T7 i d c) s" using T6 st by (simp add: tstep_def)
  have "tree s = apply_ledger c0 (ledger s)" using I by (simp add: tinv_def)
  then show ?thesis by (intro tinv_move [OF I t, of s' "T7 i d c"]) (use T6 Stock s' in \<open>auto simp: pc_classes count_at_find\<close>)
qed

lemma tstep_inv:
  assumes "tinv c0 s" and "t < length (tpcs s)" and "tstep t s = Some s'"
  shows "tinv c0 s'"
proof -
  consider i d v where "tpcs s ! t = T7 i d v" | i d where "tpcs s ! t = T6 i d"
    | "\<And>i d v. tpcs s ! t \<noteq> T7 i d v" "\<And>i d. tpcs s ! t \<noteq> T6 i d" by blast
  then show ?thesis by cases (rule tstep_store tstep_load tstep_plain; use assms in blast)+
qed

lemma tinv_take:
  assumes I: "tinv c0 s" and t: "t < length (tpcs s)" and idle: "tpcs s ! t = Ready \<or> tpcs s ! t = Done st"
    and pc: "pc = S0 \<or> pc = T0 i d"
  shows "tinv c0 (move t pc s)"
proof -
  have old: "\<not> r_cs (tpcs s ! t)" "\<not> w_cs (tpcs s ! t)" "\<not> m_cs j (tpcs s ! t)" "\<not> reading (tpcs s ! t)"
    "\<not> writing (tpcs s ! t)" for j using idle by (auto simp: pc_classes)
  have new: "\<not> r_cs pc" "\<not> w_cs pc" "\<not> m_cs j pc" "\<not> reading pc" "\<not> writing pc" "pc \<noteq> T7 j e v" for j e v
    using pc by (auto simp: pc_classes)
  have led: "tree s = apply_ledger c0 (ledger s)" using I by (simp add: tinv_def)
  show ?thesis by (rule tinv_move [OF I t, of _ pc]) (simp_all add: old new led [symmetric])
qed

lemma tsys_inv: "tsys s s' \<Longrightarrow> tinv c0 s \<Longrightarrow> tinv c0 s'"
  by (induction rule: tsys.induct) (auto intro: tinv_take tstep_inv)

lemma treach_inv: "treach s0 s \<Longrightarrow> tinv c0 s0 \<Longrightarrow> tinv c0 s"
  by (induction rule: treach.induct) (auto intro: tsys_inv)

lemma tstart_inv: "tinv c0 (tstart c0 n)"
  by (simp add: tinv_def tstart_def apply_ledger_def pc_classes)

section \<open>Properties\<close>

text \<open>A run given by the threads that take the steps.\<close>

fun tplay :: "nat list \<Rightarrow> tstate \<Rightarrow> tstate option" where
  "tplay [] s = Some s"
| "tplay (t # ts) s = (if t < length (tpcs s) then (case tstep t s of None \<Rightarrow> None | Some s' \<Rightarrow> tplay ts s') else None)"

lemma tplay_reach: "tplay ts s = Some s' \<Longrightarrow> treach s0 s \<Longrightarrow> treach s0 s'"
proof (induction ts arbitrary: s)
  case (Cons t ts)
  then obtain s1 where "tstep t s = Some s1" "t < length (tpcs s)" "tplay ts s1 = Some s'"
    by (auto split: option.splits if_splits)
  with Cons show ?case by (metis treach_step thread_step)
qed simp

text \<open>(C7) Under every interleaving of shows and trades: no change of a count is lost (the tree is the
  initial one with exactly the changes stored so far applied, one after the other), at most one
  thread at a time is inside the critical section of a stock, and the reader and the writer count
  are exactly the numbers of threads between their increment and their decrement.\<close>

theorem threads_no_lost_update:
  assumes "treach (tstart c0 n) s"
  shows "tree s = apply_ledger c0 (ledger s)
     \<and> (\<forall>i. \<forall>t < length (tpcs s). \<forall>t' < length (tpcs s). m_cs i (tpcs s ! t) \<and> m_cs i (tpcs s ! t') \<longrightarrow> t = t')
     \<and> reader_n s = int (count_if reading (tpcs s)) \<and> writer_n s = int (count_if writing (tpcs s))"
proof -
  have I: "tinv c0 s" by (rule treach_inv [OF assms tstart_inv])
  have "\<forall>i. \<forall>t < length (tpcs s). \<forall>t' < length (tpcs s). m_cs i (tpcs s ! t) \<and> m_cs i (tpcs s ! t') \<longrightarrow> t = t'"
    using m_cs_unique [OF I] by blast
  moreover have "tree s = apply_ledger c0 (ledger s)" "reader_n s = int (count_if reading (tpcs s))"
    "writer_n s = int (count_if writing (tpcs s))" using I unfolding tinv_def by blast+
  ultimately show ?thesis by blast
qed

text \<open>Two buyers of the last share of stock 1.\<close>

definition one_stock :: stock where
  "one_stock = Stock 1 100 1 NullStock NullStock"

definition two_buyers :: tstate where
  "two_buyers = move 1 (T0 1 (- 1)) (move 0 (T0 1 (- 1)) (tstart one_stock 2))"

lemma two_buyers_reach: "treach (tstart one_stock 2) two_buyers"
proof -
  have "treach (tstart one_stock 2) (move 0 (T0 1 (- 1)) (tstart one_stock 2))"
    by (rule treach_step [OF treach_start take_trade]) (simp_all add: tstart_def)
  then show ?thesis unfolding two_buyers_def
    by (rule treach_step [OF _ take_trade]) (simp_all add: tstart_def)
qed

definition oversold :: tstate where
  "oversold = the (tplay (replicate 5 0 @ replicate 5 1 @ replicate 7 0 @ replicate 7 1) two_buyers)"

lemma oversold_run:
  "tplay (replicate 5 0 @ replicate 5 1 @ replicate 7 0 @ replicate 7 1) two_buyers = Some oversold"
  "tpcs oversold = [Done SUCCESS, Done SUCCESS]" "count_at 1 (tree oversold) = Some (- 1)"
  "ledger oversold = [(1, - 1), (1, - 1)]"
  by (simp_all add: oversold_def two_buyers_def tstart_def one_stock_def numeral_eq_Suc tstep_def move_def int32_def count_at_find)

lemma oversold_reach: "treach (tstart one_stock 2) oversold"
  by (rule tplay_reach [OF oversold_run(1) two_buyers_reach])

theorem threads_no_lost_update_witness:
  "treach (tstart one_stock 2) oversold \<and> tree oversold = apply_ledger one_stock [(1, - 1), (1, - 1)]"
  using threads_no_lost_update [OF oversold_reach] oversold_reach oversold_run(4) by simp

text \<open>(C32) \<open>modify\<close> checks the count before it takes the stock's mutex.  Two buyers of the last share can both
  pass the check: both are told success and the count ends at -1.\<close>

theorem oversell_race:
  "\<exists>s. treach (tstart one_stock 2) s \<and> tpcs s = [Done SUCCESS, Done SUCCESS] \<and> count_at 1 (tree s) = Some (- 1)"
  using oversold_reach oversold_run(2,3) by blast

text \<open>The tests of the two counts are not made together with their changes, so a reader that has seen no
  writer and a writer that has seen no reader can both go on: a state is reachable in which one
  thread is printing the table while another is in the middle of changing a count.\<close>

theorem reader_writer_overlap:
  "\<exists>s. treach (tstart (Stock 1 100 5 NullStock NullStock) 2) s \<and> tpcs s = [S4, T7 1 2 5]"
proof -
  let ?s = "move 1 (T0 1 2) (move 0 S0 (tstart (Stock 1 100 5 NullStock NullStock) 2))"
  have "treach (tstart (Stock 1 100 5 NullStock NullStock) 2) (move 0 S0 (tstart (Stock 1 100 5 NullStock NullStock) 2))"
    by (rule treach_step [OF treach_start take_show]) (simp_all add: tstart_def)
  then have r: "treach (tstart (Stock 1 100 5 NullStock NullStock) 2) ?s"
    by (rule treach_step [OF _ take_trade]) (simp_all add: tstart_def)
  have "\<exists>s. tplay ([0] @ replicate 7 1 @ replicate 3 (0 :: nat)) ?s = Some s \<and> tpcs s = [S4, T7 1 2 5]"
    by (simp add: tstart_def numeral_eq_Suc tstep_def move_def int32_def)
  then show ?thesis using tplay_reach [OF _ r] by blast
qed

end
