(* ===== verification/Thread_Snapshot.thy ===== *)
theory Thread_Snapshot
  imports Thread_Sync Stock_File
begin

text \<open>
  When the thread-based server writes its stock file (\<^verbatim>\<open>concurrent_stockserver/thread_based/threading.c\<close>): the workers, the
  semaphore that counts the idle ones, the buffer of connections with its mutex, and the handler of \<^verbatim>\<open>SIGSYNC\<close>, under
  interleaving.  A worker that finds all workers idle takes the mutex of the buffer and sends the signal; the handler
  prints the table, writes the file and gives the mutex back.  Each program counter is the point before one
  operation on a semaphore; the handler prints one row per step, as the counts are then, since a worker may be
  serving while it runs.  A service is any number of changes of counts: those of the theory of the
  shared counters.
\<close>

datatype wpc = WRemove | WMutex | WTake | WSlot | WIdle | WServe | WPost | WGet | WLock | WKill

datatype apc = ASlot | AMutex | APut | AItem

datatype hpc = HNone | HPending | HPrint nat string | HWrite string | HPost

record sync =
  items :: nat
  slots :: nat
  smutex :: nat
  idle :: nat
  acceptor :: apc
  wpcs :: "wpc list"
  handler :: hpc
  tab :: stock
  content :: string

section \<open>The program\<close>

definition wmove :: "nat \<Rightarrow> wpc \<Rightarrow> sync \<Rightarrow> sync" where
  "wmove t pc s = s\<lparr>wpcs := (wpcs s)[t := pc]\<rparr>"

text \<open>One step of worker \<open>t\<close>: \<open>sbuf_remove\<close> up to \<open>WSlot\<close>, then the rest of \<open>network_worker\<close>.  \<open>None\<close> when it waits.\<close>

definition wstep :: "nat \<Rightarrow> sync \<Rightarrow> sync option" where
  "wstep t s =
     (case wpcs s ! t of
        WRemove \<Rightarrow> if items s = 0 then None else Some (wmove t WMutex (s\<lparr>items := items s - 1\<rparr>))
      | WMutex \<Rightarrow> if smutex s = 0 then None else Some (wmove t WTake (s\<lparr>smutex := smutex s - 1\<rparr>))
      | WTake \<Rightarrow> Some (wmove t WSlot (s\<lparr>smutex := smutex s + 1\<rparr>))
      | WSlot \<Rightarrow> Some (wmove t WIdle (s\<lparr>slots := slots s + 1\<rparr>))
      | WIdle \<Rightarrow> if idle s = 0 then None else Some (wmove t WServe (s\<lparr>idle := idle s - 1\<rparr>))
      | WServe \<Rightarrow> Some (wmove t WPost s)
      | WPost \<Rightarrow> Some (wmove t WGet (s\<lparr>idle := idle s + 1\<rparr>))
      | WGet \<Rightarrow> Some (wmove t (if idle s = length (wpcs s) then WLock else WRemove) s)
      | WLock \<Rightarrow> if smutex s = 0 then None else Some (wmove t WKill (s\<lparr>smutex := smutex s - 1\<rparr>))
      | WKill \<Rightarrow> Some (wmove t WRemove (s\<lparr>handler := (if handler s = HNone then HPending else handler s)\<rparr>)))"

text \<open>The handler: \<open>fsync_stockfile\<close> row by row, then the mutex.  A text that does not fit the buffer is an
  overflow, and the model stops there.\<close>

definition hstep :: "sync \<Rightarrow> sync option" where
  "hstep s =
     (case handler s of
        HNone \<Rightarrow> None
      | HPending \<Rightarrow> Some (s\<lparr>handler := HPrint 0 []\<rparr>)
      | HPrint k b \<Rightarrow>
          if k < length (preorder (tab s)) then
            let b' = b @ print_row (preorder (tab s) ! k) in
            if length b' < MAXLINE then Some (s\<lparr>handler := HPrint (k + 1) b'\<rparr>) else None
          else Some (s\<lparr>handler := HWrite b\<rparr>)
      | HWrite b \<Rightarrow> Some (s\<lparr>content := b @ drop (length b) (content s), handler := HPost\<rparr>)
      | HPost \<Rightarrow> Some (s\<lparr>smutex := smutex s + 1, handler := HNone\<rparr>))"

text \<open>The main thread puts a connection into the buffer: \<open>sbuf_insert\<close>.\<close>

definition astep :: "sync \<Rightarrow> sync option" where
  "astep s =
     (case acceptor s of
        ASlot \<Rightarrow> if slots s = 0 then None else Some (s\<lparr>acceptor := AMutex, slots := slots s - 1\<rparr>)
      | AMutex \<Rightarrow> if smutex s = 0 then None else Some (s\<lparr>acceptor := APut, smutex := smutex s - 1\<rparr>)
      | APut \<Rightarrow> Some (s\<lparr>acceptor := AItem, smutex := smutex s + 1\<rparr>)
      | AItem \<Rightarrow> Some (s\<lparr>acceptor := ASlot, items := items s + 1\<rparr>))"

inductive ssys :: "sync \<Rightarrow> sync \<Rightarrow> bool" where
  worker: "\<lbrakk>t < length (wpcs s); wstep t s = Some s'\<rbrakk> \<Longrightarrow> ssys s s'"
| change: "\<lbrakk>t < length (wpcs s); wpcs s ! t = WServe\<rbrakk> \<Longrightarrow> ssys s (s\<lparr>tab := add_count (tab s) (i, d)\<rparr>)"
| handle: "hstep s = Some s' \<Longrightarrow> ssys s s'"
| arrive: "astep s = Some s' \<Longrightarrow> ssys s s'"

inductive sreach :: "sync \<Rightarrow> sync \<Rightarrow> bool" for s0 where
  sreach_start: "sreach s0 s0"
| sreach_step: "\<lbrakk>sreach s0 s; ssys s s'\<rbrakk> \<Longrightarrow> sreach s0 s'"

definition sstart :: "nat \<Rightarrow> nat \<Rightarrow> stock \<Rightarrow> string \<Rightarrow> sync" where
  "sstart n cap tr file = \<lparr>items = 0, slots = cap, smutex = 1, idle = n, acceptor = ASlot, wpcs = replicate n WRemove,
     handler = HNone, tab = tr, content = file\<rparr>"

section \<open>The invariant\<close>

definition table_text :: "stock \<Rightarrow> string" where
  "table_text tr = concat (map print_row (preorder tr))"

text \<open>The file begins with the current table.\<close>

definition in_file :: "stock \<Rightarrow> string \<Rightarrow> bool" where
  "in_file tr file \<longleftrightarrow> take (length (table_text tr)) file = table_text tr"

definition takes_mutex :: "wpc \<Rightarrow> bool" where "takes_mutex pc \<longleftrightarrow> pc = WTake \<or> pc = WKill"
definition busy :: "wpc \<Rightarrow> bool" where "busy pc \<longleftrightarrow> pc = WServe \<or> pc = WPost"

text \<open>A worker that may still ask for a synchronisation.\<close>

definition active :: "wpc \<Rightarrow> bool" where "active pc \<longleftrightarrow> busy pc \<or> pc = WGet \<or> pc = WLock \<or> pc = WKill"

text \<open>What the handler will leave in the file is the current table, unless a count changes.\<close>

definition up_to_date :: "sync \<Rightarrow> bool" where
  "up_to_date s \<longleftrightarrow>
     (case handler s of
        HNone \<Rightarrow> in_file (tab s) (content s)
      | HPending \<Rightarrow> True
      | HPrint k b \<Rightarrow> k \<le> length (preorder (tab s)) \<and> b = concat (map print_row (take k (preorder (tab s))))
      | HWrite b \<Rightarrow> b = table_text (tab s)
      | HPost \<Rightarrow> in_file (tab s) (content s))"

definition some_active :: "sync \<Rightarrow> bool" where
  "some_active s \<longleftrightarrow> (\<exists>t < length (wpcs s). active (wpcs s ! t))"

definition sync_inv :: "sync \<Rightarrow> bool" where
  "sync_inv s \<longleftrightarrow>
     smutex s + count_if takes_mutex (wpcs s) + of_bool (acceptor s = APut) + of_bool (handler s \<noteq> HNone) = 1
     \<and> idle s + count_if busy (wpcs s) = length (wpcs s)
     \<and> (up_to_date s \<or> some_active s)"

lemma wmove_fields [simp]:
  "items (wmove t pc s) = items s" "slots (wmove t pc s) = slots s" "smutex (wmove t pc s) = smutex s" "idle (wmove t pc s) = idle s"
  "acceptor (wmove t pc s) = acceptor s" "wpcs (wmove t pc s) = (wpcs s)[t := pc]" "handler (wmove t pc s) = handler s"
  "tab (wmove t pc s) = tab s" "content (wmove t pc s) = content s"
  by (simp_all add: wmove_def)

lemma written_in_file: "in_file tr (table_text tr @ rest)"
  by (simp add: in_file_def)

lemma some_activeI: "t < length (wpcs s) \<Longrightarrow> active (wpcs s ! t) \<Longrightarrow> some_active s"
  by (auto simp: some_active_def)

text \<open>A worker that moves on keeps another one active, unless it was the active one.\<close>

lemma some_active_move:
  assumes "t < length (wpcs s)" and "wpcs s' = (wpcs s)[t := pc]" and "some_active s" and "active (wpcs s ! t) \<longrightarrow> active pc"
  shows "some_active s'"
proof -
  obtain u where u: "u < length (wpcs s)" "active (wpcs s ! u)" using assms(3) by (auto simp: some_active_def)
  then show ?thesis using assms by (cases "u = t") (auto simp: some_active_def nth_list_update intro!: exI [of _ u])
qed

lemma sync_inv_move:
  assumes I: "sync_inv s" and t: "t < length (wpcs s)" and pcs: "wpcs s' = (wpcs s)[t := pc]"
    and m: "smutex s' + of_bool (takes_mutex pc) + of_bool (handler s' \<noteq> HNone) = smutex s + of_bool (takes_mutex (wpcs s ! t)) + of_bool (handler s \<noteq> HNone)"
    and i: "idle s' + of_bool (busy pc) = idle s + of_bool (busy (wpcs s ! t))" and a: "acceptor s' = acceptor s"
    and u: "up_to_date s' \<or> some_active s'"
  shows "sync_inv s'"
  using I m i a u cnt_update [OF t, of takes_mutex pc] cnt_update [OF t, of busy pc] unfolding sync_inv_def pcs
  by (auto simp: of_bool_def split: if_splits)

lemma up_to_date_cong:
  "handler s' = handler s \<Longrightarrow> tab s' = tab s \<Longrightarrow> content s' = content s \<Longrightarrow> up_to_date s' = up_to_date s"
  by (cases "handler s") (simp_all add: up_to_date_def)

lemmas wpc_classes = takes_mutex_def busy_def active_def

lemma worker_inv:
  assumes I: "sync_inv s" and t: "t < length (wpcs s)" and st: "wstep t s = Some s'"
  shows "sync_inv s'"
proof -
  have fresh: "up_to_date s' = up_to_date s" if "wpcs s ! t \<noteq> WKill"
    by (rule up_to_date_cong) (use that st in \<open>auto simp: wstep_def split: wpc.splits if_splits\<close>)
  consider (get) "wpcs s ! t = WGet" | (kill) "wpcs s ! t = WKill" | (other) "wpcs s ! t \<noteq> WGet" "wpcs s ! t \<noteq> WKill" by blast
  then show ?thesis
  proof cases
    case get
    let ?pc = "if idle s = length (wpcs s) then WLock else WRemove"
    have s': "s' = wmove t ?pc s" using st get by (simp add: wstep_def)
    have "some_active s'" if "\<not> up_to_date s"
    proof (cases "idle s = length (wpcs s)")
      case True
      then show ?thesis using t by (intro some_activeI [of t]) (simp_all add: s' active_def)
    next
      case False
      then have "0 < count_if busy (wpcs s)" using I by (simp add: sync_inv_def)
      then obtain u where "u < length (wpcs s)" "busy (wpcs s ! u)" by (auto simp: count_if_def filter_empty_conv in_set_conv_nth)
      then show ?thesis using get t by (intro some_activeI [of u]) (auto simp: s' busy_def active_def nth_list_update)
    qed
    then show ?thesis using fresh get by (intro sync_inv_move [OF I t, of s' ?pc]) (auto simp: s' wpc_classes)
  next
    case kill
    have "handler s = HNone" using I cnt_pos [of t "wpcs s" takes_mutex] t kill
      by (cases "handler s = HNone") (auto simp: sync_inv_def takes_mutex_def)
    then have "s' = wmove t WRemove (s\<lparr>handler := HPending\<rparr>)" using st kill by (simp add: wstep_def)
    then show ?thesis using kill \<open>handler s = HNone\<close>
      by (intro sync_inv_move [OF I t, of s' WRemove]) (auto simp: wpc_classes up_to_date_def)
  next
    case other
    obtain pc where pc: "wpcs s' = (wpcs s)[t := pc]" "active (wpcs s ! t) \<longrightarrow> active pc" "acceptor s' = acceptor s"
      "smutex s' + of_bool (takes_mutex pc) + of_bool (handler s' \<noteq> HNone) = smutex s + of_bool (takes_mutex (wpcs s ! t)) + of_bool (handler s \<noteq> HNone)"
      "idle s' + of_bool (busy pc) = idle s + of_bool (busy (wpcs s ! t))"
      using other st by (cases "wpcs s ! t") (force simp: wstep_def wpc_classes split: if_splits)+
    have "up_to_date s' \<or> some_active s'" using I fresh other some_active_move [OF t pc(1)] pc(2) by (auto simp: sync_inv_def)
    then show ?thesis by (intro sync_inv_move [OF I t pc(1)] pc)
  qed
qed

lemma handler_inv:
  assumes I: "sync_inv s" and st: "hstep s = Some s'"
  shows "sync_inv s'"
proof -
  have "up_to_date s'" if "up_to_date s"
    using that st written_in_file
    by (auto simp: hstep_def up_to_date_def Let_def table_text_def take_Suc_conv_app_nth split: hpc.splits if_splits)
  moreover have "wpcs s' = wpcs s" "idle s' = idle s" "acceptor s' = acceptor s"
    "smutex s' + of_bool (handler s' \<noteq> HNone) = smutex s + of_bool (handler s \<noteq> HNone)"
    using st by (auto simp: hstep_def Let_def split: hpc.splits if_splits)
  ultimately show ?thesis using I by (auto simp: sync_inv_def some_active_def)
qed

lemma ssys_inv: "ssys s s' \<Longrightarrow> sync_inv s \<Longrightarrow> sync_inv s'"
proof (induction rule: ssys.induct)
  case (change t s i d)
  then have "some_active s" by (intro some_activeI [of t]) (simp_all add: active_def busy_def)
  then show ?case using change by (simp add: sync_inv_def some_active_def)
next
  case (arrive s s')
  have "up_to_date s' = up_to_date s"
    by (rule up_to_date_cong) (use arrive(1) in \<open>auto simp: astep_def split: apc.splits if_splits\<close>)
  moreover have "wpcs s' = wpcs s" "idle s' = idle s" "handler s' = handler s"
    "smutex s' + of_bool (acceptor s' = APut) = smutex s + of_bool (acceptor s = APut)"
    using arrive(1) by (auto simp: astep_def split: apc.splits if_splits)
  ultimately show ?case using arrive(2) by (simp add: sync_inv_def some_active_def)
qed (auto intro: worker_inv handler_inv)

lemma sreach_inv: "sreach s0 s \<Longrightarrow> sync_inv s0 \<Longrightarrow> sync_inv s"
  by (induction rule: sreach.induct) (auto intro: ssys_inv)

lemma sstart_inv: "in_file tr file \<Longrightarrow> sync_inv (sstart n cap tr file)"
  by (simp add: sync_inv_def sstart_def up_to_date_def wpc_classes)

section \<open>Properties\<close>

text \<open>A run given by who takes the steps.\<close>

datatype act = Worker nat | Change nat int int | Handler | Main

definition act_step :: "act \<Rightarrow> sync \<Rightarrow> sync option" where
  "act_step a s =
     (case a of
        Worker t \<Rightarrow> if t < length (wpcs s) then wstep t s else None
      | Change t i d \<Rightarrow> if t < length (wpcs s) \<and> wpcs s ! t = WServe then Some (s\<lparr>tab := add_count (tab s) (i, d)\<rparr>) else None
      | Handler \<Rightarrow> hstep s
      | Main \<Rightarrow> astep s)"

fun splay :: "act list \<Rightarrow> sync \<Rightarrow> sync option" where
  "splay [] s = Some s"
| "splay (a # as) s = (case act_step a s of None \<Rightarrow> None | Some s' \<Rightarrow> splay as s')"

lemma act_step_ssys: "act_step a s = Some s' \<Longrightarrow> ssys s s'"
  by (auto simp: act_step_def intro: ssys.intros split: act.splits if_splits)

lemma splay_reach: "splay as s = Some s' \<Longrightarrow> sreach s0 s \<Longrightarrow> sreach s0 s'"
  by (induction as arbitrary: s) (auto intro: sreach_step dest: act_step_ssys split: option.splits)


definition first_table :: stock where
  "first_table = Stock 1 7 5 NullStock (Stock 2 7 5 NullStock NullStock)"

definition one_visit :: "act list" where
  "one_visit = replicate 4 Main @ replicate 5 (Worker 0) @ [Change 0 1 (- 2)] @ replicate 5 (Worker 0) @ replicate 6 Handler"

lemma one_visit_run:
  "case splay one_visit (sstart 2 4 first_table (table_text first_table)) of None \<Rightarrow> False | Some s \<Rightarrow>
     wpcs s = [WRemove, WRemove] \<and> handler s = HNone \<and> tab s = Stock 1 7 3 NullStock (Stock 2 7 5 NullStock NullStock)"
  by code_simp


text \<open>The idle count is read before the mutex is taken, and other workers may begin to serve in between.  In this
  run a worker trades in both stocks while the handler prints: the file gets the first stock as it was before and
  the second as it is after, a table that the server never had.\<close>

definition torn_run :: "act list" where
  "torn_run = replicate 4 Main @ replicate 8 (Worker 0) @ replicate 4 Main @ replicate 4 (Worker 1) @ [Worker 0, Worker 0, Worker 1]
     @ [Handler, Handler, Change 1 1 (- 1), Change 1 2 (- 1), Handler, Handler, Handler]"

lemma torn_snapshot:
  "case splay torn_run (sstart 2 4 first_table (table_text first_table)) of None \<Rightarrow> False | Some s \<Rightarrow>
     handler s = HPost \<and> content s = ''1 5 7'' @ NEWLINE # ''2 4 7'' @ [NEWLINE]
     \<and> list_all (\<lambda>k. case splay (take k torn_run) (sstart 2 4 first_table (table_text first_table)) of
         None \<Rightarrow> False | Some s' \<Rightarrow> table_text (tab s') \<noteq> content s) [0..<Suc (length torn_run)]"
  by code_simp

end
