(* ===== verification/Event_Correct.thy ===== *)
theory Event_Correct
  imports Event_Server Trade_Lines
begin

text \<open>
  The properties of the stock table, the stock file, the command parser and the event-driven
  server.
\<close>

section \<open>The table and the file\<close>




definition two_stocks :: stock where
  "two_stocks = Stock 3 100 10 (Stock 1 7 5 NullStock NullStock) NullStock"

lemma two_stocks_text:
  "snd (print_to_buf two_stocks []) = ''3 10 100'' @ NEWLINE # ''1 5 7'' @ [NEWLINE]"
  by (simp add: two_stocks_def show_int_def show_nat.simps digit_def char_of_def bit_iff_odd)


text \<open>The stock file is written without being truncated.  When the text becomes shorter, its old tail
  stays and is read as further stocks at the next start: a single stock 1 whose count goes from 100
  to 9 comes back with a stock 5 that never existed.\<close>

theorem stockfile_stale_tail:
  "\<exists>d'. fsync_stockfile now (Stock 1 5 9 NullStock NullStock)
          \<lparr>stock_txt = Some (''1 100 5'' @ [NEWLINE]), last_fsync_time = t0\<rparr> = Inr d'
     \<and> (\<exists>d''. read_stockfile now' uninit d' NullStock = Inr (d'', Stock 1 5 9 NullStock (Stock 5 5 9 NullStock NullStock)))"
proof -
  have p: "snd (print_to_buf (Stock 1 5 9 NullStock NullStock) []) = ''1 9 5'' @ [NEWLINE]"
    by (simp add: show_int_def show_nat.simps digit_def char_of_def bit_iff_odd)
  have d: "show_int 1 = ''1''" "show_int 9 = ''9''" "show_int 5 = ''5''"
    by (simp_all add: show_int_def show_nat.simps digit_def char_of_def bit_iff_odd)
  have a: "atoi ''1'' = 1" "atoi ''9'' = 9" "atoi ''5'' = 5"
    using atoi_show_int [of 1] atoi_show_int [of 9] atoi_show_int [of 5] by (simp_all add: d in_int32_def)
  have s1: "fscanf3 (''1 9 5'' @ [NEWLINE] @ ''5'' @ [NEWLINE]) b = ((''1'', ''9'', ''5''), ''5'' @ [NEWLINE])" for b
    by (cases b) (simp add: fscanf3_def scan_word_def isspace_def)
  have s2: "fscanf3 (''5'' @ [NEWLINE]) (''1'', ''9'', ''5'') = ((''5'', ''9'', ''5''), [])"
    by (simp add: fscanf3_def scan_word_def isspace_def)
  have "read_loop (''1 9 5'' @ [NEWLINE] @ ''5'' @ [NEWLINE]) uninit NullStock
      = Stock 1 5 9 NullStock (Stock 5 5 9 NullStock NullStock)"
    using s1 [of uninit] s2 a by (subst read_loop.simps, subst read_loop.simps) simp
  then show ?thesis unfolding fsync_stockfile_def p by (simp add: read_stockfile_def MAXLINE_def)
qed

section \<open>The parser\<close>

text \<open>A trade line parses: the name of the command, then two words, separated by blanks or tabs, give
  that command with exactly these words as its arguments, whatever the buffer holds behind the
  newline.\<close>

theorem parser_trade:
  assumes "(nm, f) \<in> {(''sell'', sell_fp), (''buy'', buy_fp)}" and "rc \<noteq> 1"
    and "blanks w1" "w1 \<noteq> []" "blanks w2" "w2 \<noteq> []" "blanks w3"
    and "word a" "a \<noteq> []" "word b" "b \<noteq> []"
  shows "\<exists>cmd'. parser (nm @ w1 @ a @ w2 @ b @ w3 @ NEWLINE # rest) rc cmd = Inr (SUCCESS, cmd')
     \<and> c_fp cmd' = f \<and> c_name cmd' = nm \<and> c_args cmd' = Some [Some [], Some a, Some b, None]
     \<and> c_argc cmd' = Some 3 \<and> c_connfd cmd' = c_connfd cmd \<and> c_poolidx cmd' = c_poolidx cmd"
  by (rule parse_trade [OF assms])

theorem parser_trade_witness:
  "\<exists>cmd'. parser (''buy'' @ '' '' @ ''1'' @ '' '' @ ''3'' @ [] @ NEWLINE # []) 8 (fresh_cmd 4 0) = Inr (SUCCESS, cmd')
     \<and> c_args cmd' = Some [Some [], Some ''1'', Some ''3'', None]"
  using parser_trade [of "''buy''" buy_fp 8 "'' ''" "'' ''" "[]" "''1''" "''3''" "[]" "fresh_cmd 4 0"]
  by (auto simp: blanks_def word_def whitespace_def)

text \<open>The command word is compared over its own length only, and the last matching entry wins.  A line
  that starts with a blank has the empty word, which is a prefix of every name: it is taken for
  \<^verbatim>\<open>exit\<close>, so a line of blanks closes the connection.\<close>

theorem blank_line_exits:
  assumes "blanks ws" and "ws \<noteq> []" and "rc \<noteq> 1"
  shows "\<exists>cmd'. parser (ws @ NEWLINE # rest) rc cmd = Inr (SUCCESS, cmd') \<and> c_fp cmd' = exit_client_fp"
proof -
  obtain d ws' where ws: "ws = d # ws'" "whitespace d" using assms(1,2) by (cases ws) (auto simp: blanks_def)
  have pk: "pick [] = Some (0, ''exit'', exit_client_fp)" by (simp add: pick_def command_list_def)
  have "find_cmd ([] @ d # ws' @ NEWLINE # rest) cmd = Inr (SUCCESS,
      cmd\<lparr>c_flag := 0, c_name := ''exit'', c_args := Some [Some [], None, None, None], c_argc := Some 1,
          c_fp := exit_client_fp\<rparr>, length ([] :: string))"
    by (rule find_cmd_word) (use pk ws(2) in \<open>auto simp: word_def whitespace_def\<close>)
  then show ?thesis using assms ws find_args_none [OF assms(1)] by (simp add: parser_def NOARGS_def)
qed

theorem blank_line_exits_witness:
  "\<exists>cmd'. parser ('' '' @ NEWLINE # []) 2 (fresh_cmd 4 0) = Inr (SUCCESS, cmd') \<and> c_fp cmd' = exit_client_fp"
  using blank_line_exits [of "'' ''" 2 "[]" "fresh_cmd 4 0"] by (simp add: blanks_def)

text \<open>The loop over the first argument does not look for the end of the line.  For a trade with one
  argument it runs on behind the newline and the terminating null character, and leaves the buffer
  when no blank follows there.\<close>

theorem missing_argument_overrun:
  assumes "blanks w1" and "word a" and "a \<noteq> []" and "list_all (\<lambda>c. \<not> whitespace c) rest" and "c_flag cmd = INTINT"
  shows "find_args (w1 @ a @ NEWLINE # rest) cmd = Inl OutOfBounds"
proof -
  obtain a0 a' where a: "a = a0 # a'" "\<not> whitespace a0" using assms(2,3) by (cases a) (auto simp: word_def)
  have "skip whitespace (w1 @ a @ NEWLINE # rest) = Some (length w1)"
    using skip_append [of whitespace w1 a0] assms(1) a by (simp add: blanks_def)
  moreover have "skip (\<lambda>c. \<not> whitespace c) (a @ NEWLINE # rest) = None"
    using assms(2,4) by (auto simp: skip_None word_def list_all_iff)
  ultimately show ?thesis using assms(5) by (simp add: find_args_def NOARGS_def INTINT_def)
qed

theorem missing_argument_overrun_witness:
  "find_args ('' '' @ ''5'' @ NEWLINE # [NUL]) ((fresh_cmd 4 0)\<lparr>c_flag := INTINT\<rparr>) = Inl OutOfBounds"
  using missing_argument_overrun [of "'' ''" "''5''" "[NUL]" "(fresh_cmd 4 0)\<lparr>c_flag := INTINT\<rparr>"]
  by (simp add: blanks_def word_def whitespace_def)

section \<open>Serving a client\<close>

lemma slot_avail:
  assumes "pool_inv L p" and "i < FD_SETSIZE" and "0 < clientfd p ! i"
  shows "rio_ok (clientrio p ! i)" and "avail (clientrio p ! i) rs = stream rs"
proof -
  have "rio_cnt (clientrio p ! i) = 0" using assms by (simp add: pool_inv_def)
  then show "rio_ok (clientrio p ! i)" "avail (clientrio p ! i) rs = stream rs"
    by (simp_all add: rio_ok_def avail_def unread_def)
qed

lemma serve_trade_line:
  assumes f: "(nm, f) \<in> {(''sell'', sell_fp), (''buy'', buy_fp)}" and ab: "in_int32 a" "in_int32 b" and rc: "rc \<noteq> 1"
    and m: "modify a (if nm = ''sell'' then b else int32 (- b)) (root s) = (st, t)"
  shows "serve_line cf (trade_line nm a b @ rest) rc (fresh_cmd fd i) s
     = Inr (s\<lparr>root := t, out := out s @ [(fd, reply nm st [])]\<rparr>)"
proof -
  have "blanks '' ''" "blanks []" by (simp_all add: blanks_def)
  from parse_trade [OF f rc this(1) _ this(1) _ this(2) word_show_int show_int_not_Nil word_show_int
      show_int_not_Nil, of a b rest "fresh_cmd fd i"]
  obtain cmd where P: "parser (trade_line nm a b @ rest) rc (fresh_cmd fd i) = Inr (SUCCESS, cmd)"
    "c_fp cmd = f" "c_name cmd = nm" "c_args cmd = Some [Some [], Some (show_int a), Some (show_int b), None]"
    "c_argc cmd = Some 3" "c_connfd cmd = fd"
    by (auto simp: trade_line_def fresh_cmd_def)
  have st: "st \<in> {SUCCESS, ERROR, NOTENOUGHERR}" using m by (auto simp: modify_def split: stock.splits if_splits)
  have len: "length (reply nm st []) < MAXLINE" using f st by (auto simp: reply_def MAXLINE_def)
  have "call_fp cf (cmd\<lparr>c_result := []\<rparr>) s = Inr (st, cmd\<lparr>c_result := []\<rparr>, s\<lparr>root := t\<rparr>)"
    using f P(2,4) m ab by (auto simp: call_fp_def sell_def buy_def arg_def)
  then have "execute cf cmd s = Inr (s\<lparr>root := t, out := out s @ [(fd, reply nm st [])]\<rparr>)"
    using len P(3,6) by (simp add: execute_def)
  then show ?thesis using P(1,4,5) by (simp add: serve_line_def free_args_def)
qed

text \<open>A server with one client on descriptor 4 in slot 0 and the listening descriptor 3.\<close>

definition demo_pool :: pool where
  "demo_pool = \<lparr>maxfd = 4, read_set = {3, 4}, ready_set = {4}, nready = 1, clients = 1, maxi = 0,
     clientfd = 4 # replicate (FD_SETSIZE - 1) (-1), clientrio = replicate FD_SETSIZE rio_fresh\<rparr>"

definition demo :: "rd list \<Rightarrow> server" where
  "demo rs = \<lparr>root = two_stocks, pl = demo_pool, out = [], inputs = (\<lambda>_. rs),
     dsk = \<lparr>stock_txt = None, last_fsync_time = (0, 0)\<rparr>\<rparr>"

lemma demo_inv: "server_inv 3 (demo rs)"
proof -
  have "active demo_pool = [4]" by (simp add: active_def demo_pool_def)
  moreover have "clientfd demo_pool ! i = (if i = 0 then 4 else -1)" if "i < FD_SETSIZE" for i
    using that by (auto simp: demo_pool_def nth_Cons')
  ultimately have "pool_inv 3 demo_pool"
    by (auto simp: pool_inv_def) (auto simp: demo_pool_def FD_SETSIZE_def rio_fresh_def split: if_splits)
  moreover have "counts_ok (table_of two_stocks)"
    by (auto simp: counts_ok_def ran_def two_stocks_def in_int32_def split: if_splits)
  ultimately show ?thesis by (simp add: server_inv_def demo_def two_stocks_def)
qed

lemma demo_slot: "clientfd (pl (demo rs)) ! 0 = 4" "4 \<in> ready_set (pl (demo rs))" "inputs (demo rs) fd = rs"
  by (simp_all add: demo_def demo_pool_def)

lemma serve_slot_trade:
  assumes I: "server_inv L s" and i: "i < FD_SETSIZE" "clientfd (pl s) ! i = fd" "0 < fd" "fd \<in> ready_set (pl s)"
    and f: "(nm, f) \<in> {(''sell'', sell_fp), (''buy'', buy_fp)}" and ab: "in_int32 a" "in_int32 b"
    and inp: "clean (inputs s fd)" "stream (inputs s fd) = trade_line nm a b @ rest"
    and m: "modify a (if nm = ''sell'' then b else int32 (- b)) (root s) = (st, t)"
  obtains rp rs where "rio_readlineb (clientrio (pl s) ! i) MAXLINE (inputs s fd)
      = (int (length (trade_line nm a b)), trade_line nm a b, rp, rs)"
    and "serve_slot cf junk i s = Inr (s\<lparr>pl := (pl s)\<lparr>nready := nready (pl s) - 1\<rparr>, inputs := (inputs s)(fd := rs),
          root := t, out := out s @ [(fd, reply nm st [])]\<rparr>)"
proof -
  have p: "pool_inv L (pl s)" using I by (simp add: server_inv_def)
  have i0: "0 < clientfd (pl s) ! i" using i by simp
  let ?l = "trade_line nm a b"
  have nm: "nm \<in> {''sell'', ''buy''}" using f by auto
  from rio_readlineb_spec [OF slot_avail(1) [OF p i(1) i0] inp(1), of MAXLINE]
  obtain rp rs where R: "rio_readlineb (clientrio (pl s) ! i) MAXLINE (inputs s fd) = (int (length ?l), ?l, rp, rs)"
    unfolding slot_avail(2) [OF p i(1) i0] inp(2) trade_line_of [OF nm ab] by blast
  have rc: "int (length ?l) \<noteq> 1" "int (length ?l) \<noteq> 0" "int (length ?l) > 0" by (auto simp: trade_line_def)
  let ?s = "s\<lparr>pl := (pl s)\<lparr>nready := nready (pl s) - 1\<rparr>, inputs := (inputs s)(fd := rs)\<rparr>"
  have "modify a (if nm = ''sell'' then b else int32 (- b)) (root ?s) = (st, t)" using m by simp
  note S = serve_trade_line [OF f ab rc(1) this, of cf _ fd i]
  have "serve_slot cf junk i s = Inr (?s\<lparr>root := t, out := out ?s @ [(fd, reply nm st [])]\<rparr>)"
    using R i rc S by (simp add: serve_slot_def Let_def)
  then show thesis using that R by simp
qed

text \<open>(C4) From the bytes on the connection to the answer: when a ready client's input starts with a
  well-formed \<^verbatim>\<open>buy\<close> or \<^verbatim>\<open>sell\<close> line, however the bytes are cut into packets, the server
  performs exactly that checked change on its table and answers once, on that connection, with the
  message for the outcome.\<close>

theorem trade_end_to_end:
  assumes "server_inv L s" and "i < FD_SETSIZE" and "clientfd (pl s) ! i = fd" and "0 < fd" and "fd \<in> ready_set (pl s)"
    and "nm \<in> {''sell'', ''buy''}" and "in_int32 a" and "in_int32 b"
    and "clean (inputs s fd)" and "stream (inputs s fd) = trade_line nm a b @ rest"
  shows "\<exists>s' st. serve_slot cf junk i s = Inr s'
     \<and> abs_modify a (if nm = ''sell'' then b else int32 (- b)) (table_of (root s)) = (st, table_of (root s'))
     \<and> out s' = out s @ [(fd, reply nm st [])] \<and> server_inv L s'"
proof -
  obtain f where f: "(nm, f) \<in> {(''sell'', sell_fp), (''buy'', buy_fp)}" using assms(6) by blast
  let ?n = "if nm = ''sell'' then b else int32 (- b)"
  obtain st t where m: "modify a ?n (root s) = (st, t)" by fastforce
  obtain rs where S: "serve_slot cf junk i s = Inr (s\<lparr>pl := (pl s)\<lparr>nready := nready (pl s) - 1\<rparr>,
        inputs := (inputs s)(fd := rs), root := t, out := out s @ [(fd, reply nm st [])]\<rparr>)"
    by (rule serve_slot_trade [OF assms(1-5) f assms(7-10) m]) blast
  have "abs_modify a ?n (table_of (root s)) = (st, table_of t)" using modify_table [of a ?n "root s"] m by simp
  then show ?thesis using S serve_slot_inv [OF assms(1,2) S] by auto
qed

theorem trade_end_to_end_witness:
  "\<exists>s' st. serve_slot (\<lambda>_. 0) [] 0 (demo [Data ''bu'', Data (''y 1 3'' @ [NEWLINE])]) = Inr s'
     \<and> abs_modify 1 (- 3) (table_of two_stocks) = (st, table_of (root s')) \<and> out s' = [(4, reply ''buy'' st [])]"
proof -
  let ?s = "demo [Data ''bu'', Data (''y 1 3'' @ [NEWLINE])]"
  have l: "trade_line ''buy'' 1 3 = ''buy 1 3'' @ [NEWLINE]"
    by (simp add: trade_line_def show_int_def show_nat.simps digit_def char_of_def bit_iff_odd)
  have "clean (inputs ?s 4)" "stream (inputs ?s 4) = trade_line ''buy'' 1 3 @ []"
    by (simp_all add: l demo_slot clean_def)
  from trade_end_to_end [OF demo_inv _ demo_slot(1) _ demo_slot(2) _ _ _ this, of "\<lambda>_. 0" "[]"]
  show ?thesis by (auto simp: FD_SETSIZE_def in_int32_def demo_def)
qed

text \<open>\<open>write_pool\<close> reads from a copy of the connection's buffer and throws the copy away.  When two
  commands arrive in one packet, the second one is read from the kernel together with the first and
  lost: after the first is served nothing is left to read.\<close>

theorem pipelined_command_lost:
  assumes "server_inv L s" and "i < FD_SETSIZE" and "clientfd (pl s) ! i = fd" and "0 < fd" and "fd \<in> ready_set (pl s)"
    and "nm \<in> {''sell'', ''buy''}" and "in_int32 a" and "in_int32 b"
    and "inputs s fd = [Data (trade_line nm a b @ tail)]" and "length (trade_line nm a b @ tail) \<le> RIO_BUFSIZE"
  shows "\<exists>s'. serve_slot cf junk i s = Inr s' \<and> avail (clientrio (pl s') ! i) (inputs s' fd) = []"
proof -
  obtain f where f: "(nm, f) \<in> {(''sell'', sell_fp), (''buy'', buy_fp)}" using assms(6) by blast
  let ?n = "if nm = ''sell'' then b else int32 (- b)" let ?l = "trade_line nm a b"
  have ne: "?l \<noteq> []" by (simp add: trade_line_def)
  obtain st t where m: "modify a ?n (root s) = (st, t)" by fastforce
  have inp: "clean (inputs s fd)" "stream (inputs s fd) = ?l @ tail" using assms(9) ne by (auto simp: clean_def)
  obtain rp rs where R: "rio_readlineb (clientrio (pl s) ! i) MAXLINE (inputs s fd) = (int (length ?l), ?l, rp, rs)"
    and S: "serve_slot cf junk i s = Inr (s\<lparr>pl := (pl s)\<lparr>nready := nready (pl s) - 1\<rparr>,
        inputs := (inputs s)(fd := rs), root := t, out := out s @ [(fd, reply nm st [])]\<rparr>)"
    by (rule serve_slot_trade [OF assms(1-5) f assms(7,8) inp m])
  have p: "pool_inv L (pl s)" and cnt: "rio_cnt (clientrio (pl s) ! i) = 0"
    using assms(1-4) by (auto simp: server_inv_def pool_inv_def)
  have "rs = []"
    by (rule rio_readlineb_drains [OF cnt _ assms(10) _ R [unfolded assms(9)]]) (simp_all add: ne MAXLINE_def)
  then show ?thesis using S cnt by (simp add: avail_def unread_def)
qed

theorem pipelined_command_lost_witness:
  "\<exists>s'. serve_slot (\<lambda>_. 0) [] 0 (demo [Data (trade_line ''buy'' 1 3 @ trade_line ''sell'' 3 2)]) = Inr s'
     \<and> avail (clientrio (pl s') ! 0) (inputs s' 4) = []"
proof -
  have "length (trade_line ''buy'' 1 3 @ trade_line ''sell'' 3 2) \<le> RIO_BUFSIZE"
    by (simp add: trade_line_def RIO_BUFSIZE_def show_int_def show_nat.simps)
  from pipelined_command_lost [OF demo_inv _ demo_slot(1) _ demo_slot(2) _ _ _ demo_slot(3) this, of "\<lambda>_. 0" "[]"]
  show ?thesis by (simp add: FD_SETSIZE_def in_int32_def)
qed

text \<open>An empty line is answered before any argument array is allocated, but the array is freed all the
  same: the server passes an uninitialised pointer to \<^verbatim>\<open>free\<close>.\<close>

theorem empty_line_bad_free:
  assumes "server_inv L s" and "i < FD_SETSIZE" and "clientfd (pl s) ! i = fd" and "0 < fd" and "fd \<in> ready_set (pl s)"
    and "clean (inputs s fd)" and "stream (inputs s fd) = NEWLINE # rest"
  shows "serve_slot cf junk i s = Inl BadFree"
proof -
  have p: "pool_inv L (pl s)" using assms(1) by (simp add: server_inv_def)
  have i0: "0 < clientfd (pl s) ! i" using assms by simp
  have "line_of (MAXLINE - 1) (NEWLINE # rest) = [NEWLINE]" by (simp add: MAXLINE_def numeral_eq_Suc)
  with rio_readlineb_spec [OF slot_avail(1) [OF p assms(2) i0] assms(6), of MAXLINE]
  obtain rp rs where "rio_readlineb (clientrio (pl s) ! i) MAXLINE (inputs s fd) = (1, [NEWLINE], rp, rs)"
    unfolding slot_avail(2) [OF p assms(2) i0] assms(7) by auto
  then show ?thesis using assms(3-5)
    by (simp add: serve_slot_def Let_def serve_line_def parser_def free_args_def fresh_cmd_def)
qed

theorem empty_line_bad_free_witness: "serve_slot (\<lambda>_. 0) [] 0 (demo [Data [NEWLINE]]) = Inl BadFree"
  by (rule empty_line_bad_free [OF demo_inv _ demo_slot(1) _ demo_slot(2)])
    (simp_all add: FD_SETSIZE_def demo_slot clean_def)



end
