(* ===== verification/Event_Turn.thy ===== *)
theory Event_Turn
  imports Event_Correct Thread_Server
begin

text \<open>
  A whole turn of the event-driven server's main loop
  (\<^verbatim>\<open>concurrent_stockserver/event_driven/stockserver.c\<close>, \<^verbatim>\<open>network.c\<close>) when every ready client has sent a trade: one
  call of \<^verbatim>\<open>select\<close> is answered completely, and the turn is a session of the abstract table over the trades, in the
  order of the slots.
\<close>

section \<open>The clients that are ready\<close>

definition slot_ready :: "pool \<Rightarrow> nat \<Rightarrow> bool" where
  "slot_ready p i \<longleftrightarrow> 0 < clientfd p ! i \<and> clientfd p ! i \<in> ready_set p"

definition ready_fds :: "pool \<Rightarrow> nat list \<Rightarrow> int list" where
  "ready_fds p is = map (\<lambda>i. clientfd p ! i) (filter (slot_ready p) is)"

text \<open>What waits on a connection: a trade line, in any packets, and whatever follows it.\<close>

definition has_trade :: "trade \<Rightarrow> rd list \<Rightarrow> bool" where
  "has_trade t rs \<longleftrightarrow> trade_ok t \<and> clean rs \<and> take (length (wire t)) (stream rs) = wire t"

lemma ready_fds_simps [simp]:
  "ready_fds p [] = []" "ready_fds p (i # is) = (if slot_ready p i then clientfd p ! i # ready_fds p is else ready_fds p is)"
  by (simp_all add: ready_fds_def)

lemma ready_fds_nready [simp]: "slot_ready (p\<lparr>nready := k\<rparr>) = slot_ready p" "ready_fds (p\<lparr>nready := k\<rparr>) is = ready_fds p is"
proof -
  show "slot_ready (p\<lparr>nready := k\<rparr>) = slot_ready p" by (rule ext) (simp add: slot_ready_def)
  then show "ready_fds (p\<lparr>nready := k\<rparr>) is = ready_fds p is" by (simp add: ready_fds_def)
qed

lemma filter_nth_distinct:
  "\<lbrakk>distinct (filter P xs); i < length xs; j < length xs; i \<noteq> j; P (xs ! i); P (xs ! j)\<rbrakk> \<Longrightarrow> xs ! i \<noteq> xs ! j"
proof (induction xs arbitrary: i j)
  case (Cons x xs)
  have nin: "x \<noteq> xs ! k" if "P x" "k < length xs" "P (xs ! k)" for k using Cons.prems(1) that by auto
  show ?case
  proof (cases i; cases j)
    fix i' j' assume "i = Suc i'" "j = Suc j'"
    then show ?thesis using Cons.IH [of i' j'] Cons.prems by (auto split: if_splits)
  qed (use Cons.prems nin in \<open>auto dest: not_sym\<close>)
qed simp

lemma slots_differ:
  assumes "pool_inv L p" and "i < FD_SETSIZE" and "j < FD_SETSIZE" and "i \<noteq> j" and "0 < clientfd p ! i" and "0 < clientfd p ! j"
  shows "clientfd p ! i \<noteq> clientfd p ! j"
  by (rule filter_nth_distinct [where P = "\<lambda>fd. 0 \<le> fd"]) (use assms in \<open>auto simp: pool_inv_def active_def\<close>)

section \<open>One pass over the slots\<close>

lemma serve_slot_ready:
  assumes I: "server_inv L s" and i: "i < FD_SETSIZE" "slot_ready (pl s) i" and t: "has_trade t (inputs s (clientfd (pl s) ! i))"
    and m: "modify (fst (delta t)) (snd (delta t)) (root s) = (st, r)"
  obtains rs where "serve_slot cf junk i s = Inr (s\<lparr>pl := (pl s)\<lparr>nready := nready (pl s) - 1\<rparr>,
      inputs := (inputs s)(clientfd (pl s) ! i := rs), root := r, out := out s @ [(clientfd (pl s) ! i, reply (fst t) st [])]\<rparr>)"
proof -
  let ?fd = "clientfd (pl s) ! i"
  obtain nm a b where T: "t = (nm, a, b)" by (cases t)
  obtain f where f: "(nm, f) \<in> {(''sell'', sell_fp), (''buy'', buy_fp)}" using t by (auto simp: has_trade_def trade_ok_def T)
  have "stream (inputs s ?fd) = trade_line nm a b @ drop (length (wire t)) (stream (inputs s ?fd))"
    using t append_take_drop_id [of "length (wire t)" "stream (inputs s ?fd)"] by (simp add: has_trade_def wire_def T)
  moreover have "modify a (if nm = ''sell'' then b else int32 (- b)) (root s) = (st, r)" using m by (auto simp: delta_def T)
  ultimately show thesis
    using serve_slot_trade [OF I i(1) refl _ _ f, of a b _ st r cf junk] t i(2) that
    by (auto simp: has_trade_def trade_ok_def slot_ready_def T)
qed

lemma serve_slot_not_ready: "\<not> slot_ready (pl s) i \<Longrightarrow> serve_slot cf junk i s = Inr s"
  by (auto simp: serve_slot_def slot_ready_def Let_def)

lemma write_loop_trades:
  assumes "server_inv L s" and "\<forall>i \<in> set is. i < FD_SETSIZE" and "distinct is"
    and "nready (pl s) = int (length (ready_fds (pl s) is))"
    and "\<forall>i \<in> set is. slot_ready (pl s) i \<longrightarrow> has_trade (req (clientfd (pl s) ! i)) (inputs s (clientfd (pl s) ! i))"
  shows "\<exists>s'. write_loop cf junk is s = Inr s' \<and> pl s' = (pl s)\<lparr>nready := 0\<rparr> \<and> dsk s' = dsk s
    \<and> out s' = out s @ zip (ready_fds (pl s) is) (fst (trade_session (map req (ready_fds (pl s) is)) (table_of (root s))))
    \<and> table_of (root s') = snd (trade_session (map req (ready_fds (pl s) is)) (table_of (root s)))"
  using assms
proof (induction "is" arbitrary: s)
  case Nil
  then show ?case by (auto intro!: exI [of _ s])
next
  case (Cons i "is")
  show ?case
  proof (cases "nready (pl s) > 0")
    case False
    then have n: "nready (pl s) = 0" and r: "ready_fds (pl s) (i # is) = []" using Cons.prems(4) by auto
    have "write_loop cf junk (i # is) s = Inr s" using False by simp
    then show ?thesis unfolding r using n by (auto intro!: exI [of _ s])
  next
    case n: True
    show ?thesis
    proof (cases "slot_ready (pl s) i")
      case False
      then show ?thesis using Cons.IH [of s] Cons.prems n serve_slot_not_ready [OF False] by simp
    next
      case True
      let ?fd = "clientfd (pl s) ! i"
      obtain st r where m: "modify (fst (delta (req ?fd))) (snd (delta (req ?fd))) (root s) = (st, r)" by fastforce
      have i: "i < FD_SETSIZE" and h: "has_trade (req ?fd) (inputs s ?fd)" using Cons.prems(2,5) True by auto
      obtain rs where S: "serve_slot cf junk i s = Inr (s\<lparr>pl := (pl s)\<lparr>nready := nready (pl s) - 1\<rparr>,
          inputs := (inputs s)(?fd := rs), root := r, out := out s @ [(?fd, reply (fst (req ?fd)) st [])]\<rparr>)"
        by (rule serve_slot_ready [OF Cons.prems(1) i True h m])
      let ?s = "s\<lparr>pl := (pl s)\<lparr>nready := nready (pl s) - 1\<rparr>, inputs := (inputs s)(?fd := rs), root := r,
          out := out s @ [(?fd, reply (fst (req ?fd)) st [])]\<rparr>"
      have inv: "server_inv L ?s" using serve_slot_inv [OF Cons.prems(1) i S] by blast
      have other: "clientfd (pl s) ! j \<noteq> ?fd" if "j \<in> set is" "slot_ready (pl s) j" for j
        using slots_differ [of L "pl s" j i] Cons.prems(1,2,3) that True i by (auto simp: server_inv_def slot_ready_def)
      obtain s' where s': "write_loop cf junk is ?s = Inr s'" "pl s' = (pl ?s)\<lparr>nready := 0\<rparr>" "dsk s' = dsk ?s"
        "out s' = out ?s @ zip (ready_fds (pl ?s) is) (fst (trade_session (map req (ready_fds (pl ?s) is)) (table_of (root ?s))))"
        "table_of (root s') = snd (trade_session (map req (ready_fds (pl ?s) is)) (table_of (root ?s)))"
        using Cons.IH [of ?s, OF inv] Cons.prems(2,3,4,5) True other by (auto simp del: fun_upd_apply simp: fun_upd_def)
      have am: "abs_modify (fst (delta (req ?fd))) (snd (delta (req ?fd))) (table_of (root s)) = (st, table_of r)"
        using modify_table [of "fst (delta (req ?fd))" "snd (delta (req ?fd))" "root s"] m by simp
      have "write_loop cf junk (i # is) s = Inr s'" using n S s'(1) by simp
      then show ?thesis using s' True am by (auto simp: case_prod_beta)
    qed
  qed
qed

section \<open>A whole turn\<close>

lemma ready_fds_distinct:
  assumes "pool_inv L p" and "distinct is" and "\<forall>i \<in> set is. i < FD_SETSIZE"
  shows "distinct (ready_fds p is)"
  using assms(2,3)
proof (induction "is")
  case (Cons i "is")
  have "clientfd p ! i \<noteq> clientfd p ! j" if "j \<in> set is" "slot_ready p j" "slot_ready p i" for j
    using slots_differ [OF assms(1), of i j] Cons.prems that by (auto simp: slot_ready_def)
  then show ?case using Cons by (auto simp: ready_fds_def)
qed simp

text \<open>Every watched client has a slot, and the slots up to \<open>maxi\<close> are visited.\<close>

lemma ready_fds_all:
  assumes I: "pool_inv L p" and sub: "ready_set p \<subseteq> read_set p"
  shows "set (ready_fds p [0..<nat (maxi p + 1)]) = ready_set p - {L}"
proof
  show "set (ready_fds p [0..<nat (maxi p + 1)]) \<subseteq> ready_set p - {L}"
  proof
    fix fd assume "fd \<in> set (ready_fds p [0..<nat (maxi p + 1)])"
    then obtain i where i: "i < nat (maxi p + 1)" "slot_ready p i" "fd = clientfd p ! i" by (auto simp: ready_fds_def)
    then have "i < length (clientfd p)" using I by (auto simp: pool_inv_def)
    then have "fd \<in> set (active p)" using i by (auto simp: active_def slot_ready_def)
    then show "fd \<in> ready_set p - {L}" using I i by (auto simp: pool_inv_def slot_ready_def)
  qed
  show "ready_set p - {L} \<subseteq> set (ready_fds p [0..<nat (maxi p + 1)])"
  proof
    fix fd assume fd: "fd \<in> ready_set p - {L}"
    then have "fd \<in> set (active p)" using I sub by (auto simp: pool_inv_def)
    then obtain i where i: "i < FD_SETSIZE" "clientfd p ! i = fd" "0 \<le> fd"
      using I by (auto simp: active_def in_set_conv_nth pool_inv_def)
    moreover from this have "fd \<noteq> -1" "0 < fd" "int i \<le> maxi p"
      using I nth_mem [of i "clientfd p"] by (auto simp: pool_inv_def)
    ultimately show "fd \<in> set (ready_fds p [0..<nat (maxi p + 1)])" using fd by (auto simp: ready_fds_def slot_ready_def)
  qed
qed

lemma see_pool_turn:
  assumes I: "pool_inv L p" and env: "env_ok L sel connfd p" and fin: "fst sel = int (card (snd sel))" "finite (snd sel)"
    and room: "clients p < int FD_SETSIZE"
  obtains p' where "see_pool L sel connfd p = Inr p'" "pool_inv L p'" "ready_set p' = snd sel" "snd sel \<subseteq> read_set p'"
    "nready p' = int (card (snd sel - {L}))" "L \<in> snd sel \<Longrightarrow> clients p' = clients p + 1" "L \<notin> snd sel \<Longrightarrow> clients p' = clients p"
proof (cases "L \<in> snd sel")
  case True
  let ?p = "p\<lparr>ready_set := snd sel, nready := fst sel\<rparr>"
  obtain p' where p': "add_client connfd ?p = Inr p'" "pool_inv L p'" "clients p' = clients p + 1" "read_set p' = insert connfd (read_set p)" "ready_set p' = snd sel"
    using add_client_inv [of L ?p connfd] I env room True by (auto simp: env_ok_def split: if_splits)
  have "nready p' = fst sel - 1" using p'(1) by (auto simp: add_client_def Let_def split: option.splits)
  moreover have "int (card (snd sel - {L})) = int (card (snd sel)) - 1" using True fin(2) card_gt_0_iff [of "snd sel"] by (auto simp: card_Diff_singleton)
  ultimately show ?thesis using that [of p'] p' env fin(1) True by (auto simp: see_pool_def env_ok_def)
next
  case False
  then show ?thesis using that [of "p\<lparr>ready_set := snd sel, nready := fst sel\<rparr>"] I env fin(1) by (auto simp: see_pool_def env_ok_def)
qed



end
