(* ===== verification/Wrappers.thy ===== *)
theory Wrappers
  imports C_Strings
begin

text \<open>
  The error-checking wrappers of \<^verbatim>\<open>csapp.c\<close>: each makes one call of the system or of the C library and ends the process
  with a message when the call reports an error.  What the call returns is an argument; a pointer is \<open>None\<close> when it is
  null.  The texts of \<^verbatim>\<open>strerror\<close> and \<^verbatim>\<open>gai_strerror\<close> and the value of \<^verbatim>\<open>errno\<close> are part of the surroundings.
\<close>

section \<open>Errors\<close>

text \<open>A call returns, or the process ends with a status and a message on the standard error output.\<close>

datatype 'a wrapped = Ret 'a | Exit int string

record os_err =
  errno :: int
  strerror :: "int \<Rightarrow> string"
  gai_strerror :: "int \<Rightarrow> string"

definition EINTR :: int where "EINTR = 4"

definition unix_error :: "os_err \<Rightarrow> string \<Rightarrow> 'a wrapped" where
  "unix_error E msg = Exit 0 (msg @ '': '' @ strerror E (errno E) @ [NEWLINE])"

definition posix_error :: "os_err \<Rightarrow> int \<Rightarrow> string \<Rightarrow> 'a wrapped" where
  "posix_error E code msg = Exit 0 (msg @ '': '' @ strerror E code @ [NEWLINE])"

definition gai_error :: "os_err \<Rightarrow> int \<Rightarrow> string \<Rightarrow> 'a wrapped" where
  "gai_error E code msg = Exit 0 (msg @ '': '' @ gai_strerror E code @ [NEWLINE])"

definition app_error :: "string \<Rightarrow> 'a wrapped" where
  "app_error msg = Exit 0 (msg @ [NEWLINE])"

definition dns_error :: "string \<Rightarrow> 'a wrapped" where
  "dns_error msg = Exit 0 (msg @ [NEWLINE])"

text \<open>One call after another.\<close>

definition and_then :: "'a wrapped \<Rightarrow> ('a \<Rightarrow> 'b wrapped) \<Rightarrow> 'b wrapped" where
  "and_then x f = (case x of Ret a \<Rightarrow> f a | Exit n m \<Rightarrow> Exit n m)"

section \<open>The wrappers\<close>

subsection \<open>Process control\<close>

definition Fork :: "os_err \<Rightarrow> int \<Rightarrow> int wrapped" where
  "Fork E rc = (if rc < 0 then unix_error E ''Fork error'' else Ret rc)"

definition Wait :: "os_err \<Rightarrow> int \<Rightarrow> int wrapped" where
  "Wait E rc = (if rc < 0 then unix_error E ''Wait error'' else Ret rc)"

definition Waitpid :: "os_err \<Rightarrow> int \<Rightarrow> int wrapped" where
  "Waitpid E rc = (if rc < 0 then unix_error E ''Waitpid error'' else Ret rc)"

definition Kill :: "os_err \<Rightarrow> int \<Rightarrow> unit wrapped" where
  "Kill E rc = (if rc < 0 then unix_error E ''Kill error'' else Ret ())"

definition Setpgid :: "os_err \<Rightarrow> int \<Rightarrow> unit wrapped" where
  "Setpgid E rc = (if rc < 0 then unix_error E ''Setpgid error'' else Ret ())"

subsection \<open>Signals\<close>

definition Sigprocmask :: "os_err \<Rightarrow> int \<Rightarrow> unit wrapped" where
  "Sigprocmask E rc = (if rc < 0 then unix_error E ''Sigprocmask error'' else Ret ())"

definition Sigemptyset :: "os_err \<Rightarrow> int \<Rightarrow> unit wrapped" where
  "Sigemptyset E rc = (if rc < 0 then unix_error E ''Sigemptyset error'' else Ret ())"

definition Sigfillset :: "os_err \<Rightarrow> int \<Rightarrow> unit wrapped" where
  "Sigfillset E rc = (if rc < 0 then unix_error E ''Sigfillset error'' else Ret ())"

definition Sigaddset :: "os_err \<Rightarrow> int \<Rightarrow> unit wrapped" where
  "Sigaddset E rc = (if rc < 0 then unix_error E ''Sigaddset error'' else Ret ())"

definition Sigdelset :: "os_err \<Rightarrow> int \<Rightarrow> unit wrapped" where
  "Sigdelset E rc = (if rc < 0 then unix_error E ''Sigdelset error'' else Ret ())"

definition Sigismember :: "os_err \<Rightarrow> int \<Rightarrow> int wrapped" where
  "Sigismember E rc = (if rc < 0 then unix_error E ''Sigismember error'' else Ret rc)"

subsection \<open>Unix I/O\<close>

definition Open :: "os_err \<Rightarrow> int \<Rightarrow> int wrapped" where
  "Open E rc = (if rc < 0 then unix_error E ''Open error'' else Ret rc)"

definition Read :: "os_err \<Rightarrow> int \<Rightarrow> int wrapped" where
  "Read E rc = (if rc < 0 then unix_error E ''Read error'' else Ret rc)"

definition Write :: "os_err \<Rightarrow> int \<Rightarrow> int wrapped" where
  "Write E rc = (if rc < 0 then unix_error E ''Write error'' else Ret rc)"

definition Lseek :: "os_err \<Rightarrow> int \<Rightarrow> int wrapped" where
  "Lseek E rc = (if rc < 0 then unix_error E ''Lseek error'' else Ret rc)"

definition Close :: "os_err \<Rightarrow> int \<Rightarrow> unit wrapped" where
  "Close E rc = (if rc < 0 then unix_error E ''Close error'' else Ret ())"

definition Select :: "os_err \<Rightarrow> int \<Rightarrow> int wrapped" where
  "Select E rc = (if rc < 0 then unix_error E ''Select error'' else Ret rc)"

definition Dup2 :: "os_err \<Rightarrow> int \<Rightarrow> int wrapped" where
  "Dup2 E rc = (if rc < 0 then unix_error E ''Dup2 error'' else Ret rc)"

definition Stat :: "os_err \<Rightarrow> int \<Rightarrow> unit wrapped" where
  "Stat E rc = (if rc < 0 then unix_error E ''Stat error'' else Ret ())"

definition Fstat :: "os_err \<Rightarrow> int \<Rightarrow> unit wrapped" where
  "Fstat E rc = (if rc < 0 then unix_error E ''Fstat error'' else Ret ())"

definition Opendir :: "os_err \<Rightarrow> 'd option \<Rightarrow> ('d option) wrapped" where
  "Opendir E rc = (if rc = None then unix_error E ''opendir error'' else Ret rc)"

definition Closedir :: "os_err \<Rightarrow> int \<Rightarrow> int wrapped" where
  "Closedir E rc = (if rc < 0 then unix_error E ''closedir error'' else Ret rc)"

subsection \<open>Memory\<close>

definition Mmap :: "os_err \<Rightarrow> int \<Rightarrow> int wrapped" where
  "Mmap E rc = (if rc = -1 then unix_error E ''mmap error'' else Ret rc)"

definition Munmap :: "os_err \<Rightarrow> int \<Rightarrow> unit wrapped" where
  "Munmap E rc = (if rc < 0 then unix_error E ''munmap error'' else Ret ())"

definition Malloc :: "os_err \<Rightarrow> 'p option \<Rightarrow> ('p option) wrapped" where
  "Malloc E rc = (if rc = None then unix_error E ''Malloc error'' else Ret rc)"

definition Realloc :: "os_err \<Rightarrow> 'p option \<Rightarrow> ('p option) wrapped" where
  "Realloc E rc = (if rc = None then unix_error E ''Realloc error'' else Ret rc)"

definition Calloc :: "os_err \<Rightarrow> 'p option \<Rightarrow> ('p option) wrapped" where
  "Calloc E rc = (if rc = None then unix_error E ''Calloc error'' else Ret rc)"

subsection \<open>Standard I/O\<close>

definition Fclose :: "os_err \<Rightarrow> int \<Rightarrow> unit wrapped" where
  "Fclose E rc = (if rc \<noteq> 0 then unix_error E ''Fclose error'' else Ret ())"

definition Fdopen :: "os_err \<Rightarrow> 'f option \<Rightarrow> ('f option) wrapped" where
  "Fdopen E rc = (if rc = None then unix_error E ''Fdopen error'' else Ret rc)"

definition Fopen :: "os_err \<Rightarrow> 'f option \<Rightarrow> ('f option) wrapped" where
  "Fopen E rc = (if rc = None then unix_error E ''Fopen error'' else Ret rc)"

subsection \<open>Sockets\<close>

definition Socket :: "os_err \<Rightarrow> int \<Rightarrow> int wrapped" where
  "Socket E rc = (if rc < 0 then unix_error E ''Socket error'' else Ret rc)"

definition Setsockopt :: "os_err \<Rightarrow> int \<Rightarrow> unit wrapped" where
  "Setsockopt E rc = (if rc < 0 then unix_error E ''Setsockopt error'' else Ret ())"

definition Bind :: "os_err \<Rightarrow> int \<Rightarrow> unit wrapped" where
  "Bind E rc = (if rc < 0 then unix_error E ''Bind error'' else Ret ())"

definition Listen :: "os_err \<Rightarrow> int \<Rightarrow> unit wrapped" where
  "Listen E rc = (if rc < 0 then unix_error E ''Listen error'' else Ret ())"

definition Connect :: "os_err \<Rightarrow> int \<Rightarrow> unit wrapped" where
  "Connect E rc = (if rc < 0 then unix_error E ''Connect error'' else Ret ())"

definition Accept :: "os_err \<Rightarrow> int \<Rightarrow> int wrapped" where
  "Accept E rc = (if rc < 0 then unix_error E ''Accept error'' else Ret rc)"

definition Getaddrinfo :: "os_err \<Rightarrow> int \<Rightarrow> unit wrapped" where
  "Getaddrinfo E rc = (if rc \<noteq> 0 then gai_error E rc ''Getaddrinfo error'' else Ret ())"

definition Getnameinfo :: "os_err \<Rightarrow> int \<Rightarrow> unit wrapped" where
  "Getnameinfo E rc = (if rc \<noteq> 0 then gai_error E rc ''Getnameinfo error'' else Ret ())"

definition Inet_ntop :: "os_err \<Rightarrow> string option \<Rightarrow> unit wrapped" where
  "Inet_ntop E rc = (if rc = None then unix_error E ''Inet_ntop error'' else Ret ())"

definition Gethostbyname :: "'h option \<Rightarrow> ('h option) wrapped" where
  "Gethostbyname rc = (if rc = None then dns_error ''Gethostbyname error'' else Ret rc)"

definition Gethostbyaddr :: "'h option \<Rightarrow> ('h option) wrapped" where
  "Gethostbyaddr rc = (if rc = None then dns_error ''Gethostbyaddr error'' else Ret rc)"

subsection \<open>Threads and semaphores\<close>

definition Pthread_create :: "os_err \<Rightarrow> int \<Rightarrow> unit wrapped" where
  "Pthread_create E rc = (if rc \<noteq> 0 then posix_error E rc ''Pthread_create error'' else Ret ())"

definition Pthread_cancel :: "os_err \<Rightarrow> int \<Rightarrow> unit wrapped" where
  "Pthread_cancel E rc = (if rc \<noteq> 0 then posix_error E rc ''Pthread_cancel error'' else Ret ())"

definition Pthread_join :: "os_err \<Rightarrow> int \<Rightarrow> unit wrapped" where
  "Pthread_join E rc = (if rc \<noteq> 0 then posix_error E rc ''Pthread_join error'' else Ret ())"

definition Pthread_detach :: "os_err \<Rightarrow> int \<Rightarrow> unit wrapped" where
  "Pthread_detach E rc = (if rc \<noteq> 0 then posix_error E rc ''Pthread_detach error'' else Ret ())"

definition Sem_init :: "os_err \<Rightarrow> int \<Rightarrow> unit wrapped" where
  "Sem_init E rc = (if rc < 0 then unix_error E ''Sem_init error'' else Ret ())"

definition P_sem :: "os_err \<Rightarrow> int \<Rightarrow> unit wrapped" where
  "P_sem E rc = (if rc < 0 then unix_error E ''P error'' else Ret ())"

definition V_sem :: "os_err \<Rightarrow> int \<Rightarrow> unit wrapped" where
  "V_sem E rc = (if rc < 0 then unix_error E ''V error'' else Ret ())"

subsection \<open>Wrappers of their own kind\<close>

text \<open>\<^verbatim>\<open>sleep\<close> returns an unsigned number, so the test can never be true.\<close>

definition Sleep :: "os_err \<Rightarrow> nat \<Rightarrow> nat wrapped" where
  "Sleep E rc = (if rc < 0 then unix_error E ''Sleep error'' else Ret rc)"

definition Pause :: "int \<Rightarrow> unit wrapped" where "Pause rc = Ret ()"
definition Alarm :: "nat \<Rightarrow> nat wrapped" where "Alarm rc = Ret rc"
definition Getpgrp :: "int \<Rightarrow> int wrapped" where "Getpgrp rc = Ret rc"
definition Pthread_self :: "nat \<Rightarrow> nat wrapped" where "Pthread_self tid = Ret tid"

definition Execve :: "os_err \<Rightarrow> int \<Rightarrow> unit wrapped" where
  "Execve E rc = (if rc < 0 then unix_error E ''Execve error'' else Ret ())"

text \<open>\<^verbatim>\<open>sigsuspend\<close> always returns an error; the only expected one is the interruption.\<close>

definition Sigsuspend :: "os_err \<Rightarrow> int \<Rightarrow> int wrapped" where
  "Sigsuspend E rc = (if errno E \<noteq> EINTR then unix_error E ''Sigsuspend error'' else Ret rc)"

text \<open>The dispositions of the signals: the handler, what it blocks besides its own signal, and whether calls are restarted.\<close>

record sigaction_t =
  sa_handler :: nat
  sa_mask :: "nat set"
  sa_restart :: bool

definition Signal :: "os_err \<Rightarrow> int \<Rightarrow> nat \<Rightarrow> nat \<Rightarrow> (nat \<Rightarrow> sigaction_t) \<Rightarrow> (nat \<times> (nat \<Rightarrow> sigaction_t)) wrapped" where
  "Signal E rc signum h tbl =
     (if rc < 0 then unix_error E ''Signal error''
      else Ret (sa_handler (tbl signum), tbl(signum := \<lparr>sa_handler = h, sa_mask = {}, sa_restart = True\<rparr>)))"

text \<open>\<open>e\<close> is what \<^verbatim>\<open>errno\<close>, cleared before the call, holds after it.\<close>

definition Readdir :: "os_err \<Rightarrow> int \<Rightarrow> 'd option \<Rightarrow> 'd option wrapped" where
  "Readdir E e dep = (if dep = None \<and> e \<noteq> 0 then unix_error (E\<lparr>errno := e\<rparr>) ''readdir error'' else Ret dep)"

text \<open>The last argument is \<^verbatim>\<open>ferror\<close> of the stream.\<close>

definition Fgets :: "string option \<Rightarrow> bool \<Rightarrow> string option wrapped" where
  "Fgets rptr err = (if rptr = None \<and> err then app_error ''Fgets error'' else Ret rptr)"

definition Fputs_checked :: "os_err \<Rightarrow> int \<Rightarrow> unit wrapped" where
  "Fputs_checked E rc = (if rc = -1 then unix_error E ''Fputs error'' else Ret ())"

definition Fread :: "os_err \<Rightarrow> nat \<Rightarrow> nat \<Rightarrow> bool \<Rightarrow> nat wrapped" where
  "Fread E n nmemb err = (if n < nmemb \<and> err then unix_error E ''Fread error'' else Ret n)"

definition Fwrite :: "os_err \<Rightarrow> nat \<Rightarrow> nat \<Rightarrow> unit wrapped" where
  "Fwrite E n nmemb = (if n < nmemb then unix_error E ''Fwrite error'' else Ret ())"

definition Inet_pton :: "os_err \<Rightarrow> int \<Rightarrow> unit wrapped" where
  "Inet_pton E rc =
     (if rc = 0 then app_error ''inet_pton error: invalid dotted-decimal address''
      else if rc < 0 then unix_error E ''Inet_pton error'' else Ret ())"

text \<open>The signal-safe printing ends the process with status 1.\<close>

definition sio_error :: "string \<Rightarrow> 'a wrapped" where
  "sio_error s = Exit 1 s"

definition Sio_putl :: "int \<Rightarrow> int wrapped" where
  "Sio_putl n = (if n < 0 then sio_error ''Sio_putl error'' else Ret n)"

definition Sio_puts :: "int \<Rightarrow> int wrapped" where
  "Sio_puts n = (if n < 0 then sio_error ''Sio_puts error'' else Ret n)"

definition Sio_error :: "string \<Rightarrow> 'a wrapped" where
  "Sio_error s = sio_error s"

section \<open>What the wrappers have in common\<close>

lemmas error_exits = unix_error_def posix_error_def gai_error_def app_error_def dns_error_def

text \<open>A wrapper lets exactly the good results through, and it ends the process with a fixed status.\<close>

locale wrapper =
  fixes call :: "'r \<Rightarrow> 'a wrapped" and good :: "'r \<Rightarrow> bool" and result :: "'r \<Rightarrow> 'a" and code :: int
  assumes call_good: "good r \<Longrightarrow> call r = Ret (result r)"
    and call_bad: "\<not> good r \<Longrightarrow> \<exists>m. call r = Exit code m"
begin

lemma call_Ret: "call r = Ret a \<longleftrightarrow> good r \<and> a = result r"
  using call_good [of r] call_bad [of r] by (cases "good r") auto

lemma call_Exit: "(\<exists>m. call r = Exit n m) \<longleftrightarrow> \<not> good r \<and> n = code"
  using call_good [of r] call_bad [of r] by (cases "good r") auto

lemma call_then: "and_then (call r) f = (if good r then f (result r) else and_then (call r) f)"
  using call_good [of r] by (simp add: and_then_def)

end

text \<open>The three shapes: calls that return a number, calls that return an error number, calls that return a pointer.\<close>

interpretation fork: wrapper "Fork E" "\<lambda>rc. 0 \<le> rc" "\<lambda>rc. rc" 0 for E
  by unfold_locales (auto simp: Fork_def error_exits)

interpretation pthread_create: wrapper "Pthread_create E" "\<lambda>rc. rc = 0" "\<lambda>rc. ()" 0 for E
  by unfold_locales (auto simp: Pthread_create_def error_exits)

interpretation pthread_join: wrapper "Pthread_join E" "\<lambda>rc. rc = 0" "\<lambda>rc. ()" 0 for E
  by unfold_locales (auto simp: Pthread_join_def error_exits)

interpretation malloc: wrapper "Malloc E" "\<lambda>rc. rc \<noteq> None" "\<lambda>rc. rc" 0 for E
  by unfold_locales (auto simp: Malloc_def error_exits)

interpretation accept: wrapper "Accept E" "\<lambda>rc. 0 \<le> rc" "\<lambda>rc. rc" 0 for E
  by unfold_locales (auto simp: Accept_def error_exits)

interpretation sio_puts_w: wrapper "Sio_puts" "\<lambda>n. 0 \<le> n" "\<lambda>n. n" 1
  by unfold_locales (auto simp: Sio_puts_def sio_error_def)

lemma sleep_never_fails: "Sleep E rc = Ret rc"
  by (simp add: Sleep_def)

end
