(* ===== verification/Course_Examples.thy ===== *)
theory Course_Examples
  imports Wrappers Rio Stock_File
begin

text \<open>
  Programs of the course: the parallel sum (\<^verbatim>\<open>excode/12ConcurrencyProgramming/psum-mutex.c\<close>), the echo server and its
  client (\<^verbatim>\<open>excode/11NetworkProgramming/echoserveri.c\<close>, \<^verbatim>\<open>echoclient.c\<close>), the small shell
  \<^verbatim>\<open>CSE4100/CSE4100-SP-P1/proj1/shellex.c\<close> and the driver of the bomb (\<^verbatim>\<open>CSE3030/bomb/bomb.c\<close>).
\<close>

section \<open>The parallel sum\<close>

definition MAXTHREADS :: nat where "MAXTHREADS = 32"

definition to_long :: "int \<Rightarrow> int" where
  "to_long i = (i + 2 ^ 63) mod 2 ^ 64 - 2 ^ 63"

fun sum_loop :: "nat \<Rightarrow> int \<Rightarrow> int \<Rightarrow> int" where
  "sum_loop 0 i s = s"
| "sum_loop (Suc n) i s = sum_loop n (i + 1) (to_long (s + i))"

text \<open>A thread writes its own cell of \<open>psum\<close> only, so the order in which the threads run does not matter.\<close>

definition sum_local :: "int \<Rightarrow> nat \<Rightarrow> int" where
  "sum_local nelems_per_threads myid =
     (let start = int myid * nelems_per_threads; end1 = start + nelems_per_threads in sum_loop (nat (end1 - start)) start 0)"

text \<open>The process exits, traps on a division by zero, leaves an array or a shift's range, or prints its check.\<close>

datatype psum_end = PsumExit int string | PsumTrap | PsumUndefined | PsumDone int bool

fun calls :: "(int \<Rightarrow> unit wrapped) \<Rightarrow> (nat \<Rightarrow> int) \<Rightarrow> nat \<Rightarrow> unit wrapped" where
  "calls w r 0 = Ret ()"
| "calls w r (Suc n) = and_then (calls w r n) (\<lambda>_. w (r n))"

definition psum_main :: "os_err \<Rightarrow> (nat \<Rightarrow> int) \<Rightarrow> (nat \<Rightarrow> int) \<Rightarrow> string list \<Rightarrow> psum_end" where
  "psum_main E create join argv =
     (if length argv \<noteq> 3 then PsumExit 0 []
      else let nthreads = atoi (argv ! 1); long_nelems = atoi (argv ! 2) in
        if long_nelems < 0 \<or> 62 < long_nelems then PsumUndefined
        else let nelems = 2 ^ nat long_nelems in
          if nthreads = 0 then PsumTrap
          else if int MAXTHREADS < nthreads then PsumUndefined
          else let nelems_per_threads = sgn nthreads * c_div nelems \<bar>nthreads\<bar> in
            case and_then (calls (Pthread_create E) create (nat nthreads)) (\<lambda>_. calls (Pthread_join E) join (nat nthreads)) of
              Exit n m \<Rightarrow> PsumExit n m
            | Ret _ \<Rightarrow>
                let gsum = foldl (\<lambda>g x. to_long (g + x)) 0 (map (sum_local nelems_per_threads) [0..<nat nthreads])
                in PsumDone gsum (gsum \<noteq> c_div (to_long (nelems * (nelems - 1))) 2))"

lemma to_long_id: "- (2 ^ 63) \<le> i \<Longrightarrow> i < 2 ^ 63 \<Longrightarrow> to_long i = i"
  by (simp add: to_long_def)

text \<open>The sum of the numbers below \<open>n\<close>.\<close>

definition below :: "int \<Rightarrow> int" where "below n = n * (n - 1) div 2"

lemma below_step: "below (n + 1) = below n + n"
proof -
  have "(n + 1) * (n + 1 - 1) = n * (n - 1) + n * 2" by (simp add: algebra_simps)
  then show ?thesis by (simp add: below_def)
qed

lemma below_nonneg: "0 \<le> n \<Longrightarrow> 0 \<le> below n"
  by (cases "n = 0") (auto simp: below_def)

lemma below_mono:
  assumes "0 \<le> m" and "m \<le> n"
  shows "below m \<le> below n"
proof (cases "m = 0")
  case True
  then show ?thesis using below_nonneg [of n] assms by (simp add: below_def)
next
  case False
  then have "m * (m - 1) \<le> n * (n - 1)" using mult_mono [of m n "m - 1" "n - 1"] assms by simp
  then show ?thesis by (simp add: below_def zdiv_mono1)
qed

lemma c_div_nonneg: "0 \<le> a \<Longrightarrow> c_div a b = a div b"
  by (cases "a = 0") (simp_all add: c_div_def)

lemma below_strict: "0 \<le> m \<Longrightarrow> m < n \<Longrightarrow> 1 < n \<Longrightarrow> below m < below n"
  using below_mono [of m "n - 1"] below_step [of "n - 1"] by simp

lemma sum_loop_below:
  assumes "0 \<le> i" and "0 \<le> s" and "s + (below (i + int n) - below i) < 2 ^ 63"
  shows "sum_loop n i s = s + (below (i + int n) - below i)"
  using assms
proof (induction n arbitrary: i s)
  case (Suc n)
  have st: "below (i + 1) = below i + i" by (rule below_step)
  have mono: "below (i + 1) \<le> below (i + int (Suc n))" using Suc.prems(1) by (intro below_mono) auto
  then have "s + i < 2 ^ 63" using Suc.prems(3) st by simp
  then have "to_long (s + i) = s + i" using Suc.prems(1,2) by (intro to_long_id) auto
  moreover have e: "i + 1 + int n = i + int (Suc n)" by simp
  ultimately show ?case using Suc.IH [of "i + 1" "s + i", unfolded e] Suc.prems st by simp
qed simp

lemma sum_local_below:
  assumes "0 \<le> q" and "below (int (Suc t) * q) < 2 ^ 63"
  shows "sum_local q t = below (int (Suc t) * q) - below (int t * q)"
proof -
  have n: "nat (int t * q + q - int t * q) = nat q" "int t * q + int (nat q) = int (Suc t) * q" using assms(1) by (simp_all add: algebra_simps)
  have "0 \<le> below (int t * q)" using assms(1) by (intro below_nonneg) simp
  then show ?thesis using sum_loop_below [of "int t * q" 0 "nat q"] assms unfolding sum_local_def Let_def n by simp
qed

lemma psum_total:
  assumes "0 \<le> q" and "below (int t * q) < 2 ^ 63"
  shows "foldl (\<lambda>g x. to_long (g + x)) 0 (map (sum_local q) [0..<t]) = below (int t * q)"
  using assms(2)
proof (induction t)
  case (Suc t)
  have le: "int t * q \<le> int (Suc t) * q" "0 \<le> int t * q" using assms(1) by (simp_all add: algebra_simps)
  then have b: "below (int t * q) \<le> below (int (Suc t) * q)" by (intro below_mono)
  then have "foldl (\<lambda>g x. to_long (g + x)) 0 (map (sum_local q) [0..<t]) = below (int t * q)" using Suc by simp
  moreover have "0 \<le> below (int (Suc t) * q)" using le by (intro below_nonneg) linarith
  ultimately show ?case using sum_local_below [OF assms(1) Suc.prems] Suc.prems by (simp add: to_long_id)
qed (simp add: below_def)

lemma calls_ok: "(\<And>k. w (r k) = Ret ()) \<Longrightarrow> calls w r n = Ret ()"
  by (induction n) (simp_all add: and_then_def)

text \<open>What the program prints: the sum of the first \<open>(nelems / nthreads) * nthreads\<close> numbers, and an error exactly when the
  number of threads does not divide the number of elements.\<close>

lemma psum_checks:
  assumes "1 \<le> t" and "t \<le> MAXTHREADS" and "k \<le> 31" and "\<And>i. create i = 0" and "\<And>i. join i = 0"
  shows "psum_main E create join [p, show_int (int t), show_int (int k)]
    = PsumDone (below (int t * (2 ^ k div int t))) (\<not> (int t dvd 2 ^ k \<or> k = 0))"
proof -
  let ?n = "2 ^ k :: int" let ?m = "int t * (?n div int t)"
  have n1: "1 \<le> ?n" by simp
  have "?n \<le> 2 ^ 31" using assms(3) by (intro power_increasing) auto
  then have "?n * (?n - 1) \<le> 2 ^ 31 * 2 ^ 31" using n1 by (intro mult_mono) auto
  then have big: "?n * (?n - 1) < 2 ^ 63" "0 \<le> ?n * (?n - 1)" using n1 by simp_all
  have "0 \<le> ?n div int t" using assms(1) by (simp add: pos_imp_zdiv_nonneg_iff)
  moreover have "?m + ?n mod int t = ?n" "0 \<le> ?n mod int t" using assms(1) by simp_all
  ultimately have m: "0 \<le> ?m" "?m \<le> ?n" "0 \<le> ?n div int t" using assms(1) by (simp, linarith, simp)
  have small: "below ?m < 2 ^ 63" using below_mono [OF m(1,2)] big unfolding below_def by linarith
  have "atoi (show_int (int t)) = int t" "atoi (show_int (int k)) = int k"
    using assms(2,3) by (simp_all add: in_int32_def MAXTHREADS_def)
  moreover have "calls (Pthread_create E) create (nat (int t)) = Ret ()" "calls (Pthread_join E) join (nat (int t)) = Ret ()"
    using assms(4,5) by (auto intro!: calls_ok simp: pthread_create.call_good pthread_join.call_good)
  moreover have "to_long (?n * (?n - 1)) = ?n * (?n - 1)" by (rule to_long_id) (use big in linarith)+
  then have "c_div (to_long (?n * (?n - 1))) 2 = below ?n" using c_div_nonneg [OF big(2)] by (simp only: below_def)
  moreover have "foldl (\<lambda>g x. to_long (g + x)) 0 (map (sum_local (c_div ?n (int t))) [0..<t]) = below ?m"
    using psum_total [OF m(3) small] assms(1) by (simp add: c_div_def)
  moreover have "below ?m = below ?n \<longleftrightarrow> int t dvd ?n \<or> k = 0"
  proof (cases "int t dvd ?n")
    case False
    then have "?m \<noteq> ?n" by (metis dvd_triv_left)
    then have lt: "?m < ?n" using m(2) by linarith
    show ?thesis
    proof (cases "k = 0")
      case True
      then have "?n = 1" by simp
      then have "?m = 0" using lt m(1) by linarith
      then show ?thesis unfolding \<open>?m = 0\<close> using True by (simp add: below_def)
    next
      case k: False
      then have "1 < ?n" by simp
      then show ?thesis using False k below_strict [OF m(1) lt] by simp
    qed
  qed simp
  ultimately show ?thesis using assms(1,2,3) by (simp add: psum_main_def and_then_def Let_def)
qed

section \<open>The echo server and its client\<close>

text \<open>How the service of a connection ends: the client has closed it, or a wrapper has ended the process.  The
  number counts the bytes received.\<close>

datatype echo_end = EchoClosed string nat | EchoExit

partial_function (option) echo_loop :: "rio \<Rightarrow> rd list \<Rightarrow> wr list \<Rightarrow> string \<Rightarrow> nat \<Rightarrow> echo_end option" where
  "echo_loop rp rs ws sent cnt =
     (case Rio_readlineb rp MAXLINE rs of
        None \<Rightarrow> Some EchoExit
      | Some (n, line, rp', rs') \<Rightarrow>
          if n = 0 then Some (EchoClosed sent cnt)
          else (case Rio_writen False line ws of
                  None \<Rightarrow> Some EchoExit
                | Some (w, ws') \<Rightarrow> echo_loop rp' rs' ws' (sent @ w) (cnt + nat n)))"

definition echo :: "rio \<Rightarrow> int \<Rightarrow> rd list \<Rightarrow> wr list \<Rightarrow> echo_end option" where
  "echo junk connfd rs ws = echo_loop (rio_readinitb junk connfd) rs ws [] 0"

text \<open>The client: each line typed is sent, and the line that comes back is printed.\<close>

partial_function (option) echo_client :: "string \<Rightarrow> rio \<Rightarrow> rd list \<Rightarrow> wr list \<Rightarrow> string \<Rightarrow> string \<Rightarrow> (string \<times> string) option" where
  "echo_client stdin rp rs ws sent screen =
     (let ln = line_of (MAXLINE - 1) stdin in
      if ln = [] then Some (sent, screen)
      else case Rio_writen False (c_str ln) ws of
          None \<Rightarrow> Some (sent, screen)
        | Some (w, ws') \<Rightarrow>
            (case Rio_readlineb rp MAXLINE rs of
               None \<Rightarrow> Some (sent @ w, screen)
             | Some (n, back, rp', rs') \<Rightarrow>
                 let buf = (if 0 < n then back else c_str ln)
                 in echo_client (drop (length ln) stdin) rp' rs' ws' (sent @ w) (screen @ c_str buf)))"

lemma line_of_Nil: "line_of (Suc k) s = [] \<longleftrightarrow> s = []"
  by (cases s) auto

lemma read_piece:
  assumes "rio_ok rp" and "clean rs"
  obtains rp' rs' where "Rio_readlineb rp MAXLINE rs = Some (int (length (line_of (MAXLINE - 1) (avail rp rs))), line_of (MAXLINE - 1) (avail rp rs), rp', rs')"
    "rio_ok rp'" "clean rs'" "avail rp rs = line_of (MAXLINE - 1) (avail rp rs) @ avail rp' rs'"
  using rio_readlineb_spec [OF assms, of MAXLINE] that by (auto simp: Rio_readlineb_def)

lemma MAXLINE_Suc: "MAXLINE - 1 = Suc 8190"
  by (simp add: MAXLINE_def)

lemma write_all: "Rio_writen False s [] = Some (s, [])"
  by (simp add: Rio_writen_def rio_writen_def)

text \<open>The server sends back exactly the bytes it gets, in whatever packets they come and however long the lines are, and
  counts them.\<close>

lemma echo_loop_exact:
  "\<lbrakk>rio_ok rp; clean rs\<rbrakk> \<Longrightarrow>
     echo_loop rp rs [] sent cnt = Some (EchoClosed (sent @ avail rp rs) (cnt + length (avail rp rs)))"
proof (induction "length (avail rp rs)" arbitrary: rp rs sent cnt rule: less_induct)
  case less
  let ?l = "line_of (MAXLINE - 1) (avail rp rs)"
  obtain rp' rs' where R: "Rio_readlineb rp MAXLINE rs = Some (int (length ?l), ?l, rp', rs')"
    "rio_ok rp'" "clean rs'" "avail rp rs = ?l @ avail rp' rs'" by (rule read_piece [OF less.prems])
  show ?case
  proof (cases "?l = []")
    case True
    then have "avail rp rs = []" unfolding MAXLINE_Suc line_of_Nil .
    then show ?thesis using R(1) True by (subst echo_loop.simps) simp
  next
    case False
    have len: "length (avail rp rs) = length ?l + length (avail rp' rs')" using arg_cong [OF R(4), of length] by simp
    then have "length (avail rp' rs') < length (avail rp rs)" using False by simp
    from less.hyps [OF this R(2,3)] have
      "echo_loop rp' rs' [] (sent @ ?l) (cnt + length ?l) = Some (EchoClosed (sent @ ?l @ avail rp' rs') (cnt + length ?l + length (avail rp' rs')))" by simp
    then show ?thesis using R(1) False len unfolding R(4) [symmetric] by (subst echo_loop.simps) (simp add: write_all)
  qed
qed

lemma echo_exact: "clean rs \<Longrightarrow> echo junk fd rs [] = Some (EchoClosed (stream rs) (length (stream rs)))"
  using echo_loop_exact [of "rio_readinitb junk fd" rs "[]" 0] by (simp add: echo_def avail_def)

text \<open>Client and server together: what was typed is printed again, line by line.\<close>

lemma line_of_prefix: "line_of k s = take (length (line_of k s)) s"
  by (induction k s rule: line_of.induct) auto

lemma c_str_no_NUL: "NUL \<notin> set s \<Longrightarrow> c_str s = s"
  by (auto simp: c_str_def takeWhile_eq_all_conv)

lemma echo_client_prints:
  "\<lbrakk>rio_ok rp; clean rs; avail rp rs = stdin; NUL \<notin> set stdin\<rbrakk> \<Longrightarrow>
     echo_client stdin rp rs [] sent screen = Some (sent @ stdin, screen @ stdin)"
proof (induction "length stdin" arbitrary: stdin rp rs sent screen rule: less_induct)
  case less
  let ?l = "line_of (MAXLINE - 1) stdin"
  obtain rp' rs' where R: "Rio_readlineb rp MAXLINE rs = Some (int (length ?l), ?l, rp', rs')"
    "rio_ok rp'" "clean rs'" "stdin = ?l @ avail rp' rs'" using read_piece [OF less.prems(1,2)] unfolding less.prems(3) by metis
  show ?case
  proof (cases "?l = []")
    case True
    then have "stdin = []" unfolding MAXLINE_Suc line_of_Nil .
    then show ?thesis using True by (subst echo_client.simps) simp
  next
    case False
    let ?r = "avail rp' rs'"
    have d: "drop (length ?l) stdin = ?r" using R(4) append_eq_conv_conj [of ?l ?r stdin] by metis
    have "set stdin = set ?l \<union> set ?r" using arg_cong [OF R(4), of set] by (simp only: set_append)
    then have nn: "NUL \<notin> set ?l" "NUL \<notin> set ?r" using less.prems(4) by blast+
    have "length ?r < length stdin" using False arg_cong [OF R(4), of length] by simp
    from less.hyps [OF this R(2,3) refl nn(2)] have "echo_client ?r rp' rs' [] (sent @ ?l) (screen @ ?l) = Some (sent @ ?l @ ?r, screen @ ?l @ ?r)" by simp
    moreover have "echo_client stdin rp rs [] sent screen = echo_client ?r rp' rs' [] (sent @ ?l) (screen @ ?l)"
      using R(1) False d c_str_no_NUL [OF nn(1)] by (subst echo_client.simps) (simp add: write_all Let_def)
    ultimately show ?thesis by (simp only: R(4) [symmetric])
  qed
qed

section \<open>The small shell\<close>

definition SX_MAXARGS :: nat where "SX_MAXARGS = 128"

abbreviation SPACE :: char where "SPACE \<equiv> CHR '' ''"

datatype sx_fault = ArgvOverflow | BeforeBuffer

text \<open>The loop of \<open>parseline\<close> over the words; \<open>argc\<close> entries are filled already.\<close>

function argv_loop :: "nat \<Rightarrow> string \<Rightarrow> sx_fault + string list" where
  "argv_loop argc bf =
     (if SPACE \<in> set bf then
        if argc \<ge> SX_MAXARGS then Inl ArgvOverflow
        else case argv_loop (argc + 1) (dropWhile (\<lambda>c. c = SPACE) (tl (dropWhile (\<lambda>c. c \<noteq> SPACE) bf))) of
            Inl e \<Rightarrow> Inl e
          | Inr ws \<Rightarrow> Inr (takeWhile (\<lambda>c. c \<noteq> SPACE) bf # ws)
      else if argc \<ge> SX_MAXARGS then Inl ArgvOverflow else Inr [])"
  by pat_completeness auto
termination
proof (relation "measure (\<lambda>(_, bf). length bf)", goal_cases)
  case (2 argc bf)
  have "dropWhile (\<lambda>c. c \<noteq> SPACE) bf \<noteq> []" using 2 by auto
  then have "length (tl (dropWhile (\<lambda>c. c \<noteq> SPACE) bf)) < length bf"
    using length_dropWhile_le [of "\<lambda>c. c \<noteq> SPACE" bf] by (cases "dropWhile (\<lambda>c. c \<noteq> SPACE) bf") auto
  then show ?case using length_dropWhile_le [of "\<lambda>c. c = SPACE" "tl (dropWhile (\<lambda>c. c \<noteq> SPACE) bf)"] by simp
qed simp

declare argv_loop.simps [simp del]

definition parseline :: "string \<Rightarrow> sx_fault + string list \<times> bool" where
  "parseline bf =
     (if bf = [] then Inl BeforeBuffer
      else case argv_loop 0 (dropWhile (\<lambda>c. c = SPACE) (butlast bf @ [SPACE])) of
          Inl e \<Rightarrow> Inl e
        | Inr argv \<Rightarrow>
            if argv = [] then Inr ([], True)
            else if at (last argv) = CHR ''&'' then Inr (butlast argv, True) else Inr (argv, False))"

text \<open>A command line goes on to the next one, ends the shell, replaces the process by the program, or faults.\<close>

datatype sx_end = NextLine | ShellExit | Replaced "string list" | SxFault sx_fault

definition sx_builtin :: "string list \<Rightarrow> sx_end option" where
  "sx_builtin argv = (if argv ! 0 = ''quit'' then Some ShellExit else if argv ! 0 = ''&'' then Some NextLine else None)"

text \<open>\<open>runs argv\<close> says whether \<^verbatim>\<open>execve\<close> succeeds; there is no \<^verbatim>\<open>fork\<close> before it.\<close>

definition sx_eval :: "(string list \<Rightarrow> bool) \<Rightarrow> string \<Rightarrow> sx_end" where
  "sx_eval runs cmdline =
     (case parseline cmdline of
        Inl e \<Rightarrow> SxFault e
      | Inr (argv, bg) \<Rightarrow>
          if argv = [] then NextLine
          else case sx_builtin argv of Some r \<Rightarrow> r | None \<Rightarrow> if runs argv then Replaced argv else ShellExit)"

text \<open>The loop of \<open>main\<close>: it ends when reading a line has met the end of the input.\<close>

function sx_main :: "(string list \<Rightarrow> bool) \<Rightarrow> string \<Rightarrow> sx_end" where
  "sx_main runs stdin =
     (let ln = line_of (MAXLINE - 1) stdin in
      if ln = [] \<or> last ln \<noteq> NEWLINE \<and> length ln < MAXLINE - 1 then ShellExit
      else case sx_eval runs (c_str ln) of NextLine \<Rightarrow> sx_main runs (drop (length ln) stdin) | r \<Rightarrow> r)"
  by pat_completeness auto
termination
proof (relation "measure (\<lambda>(_, s). length s)", goal_cases)
  case (2 runs stdin ln)
  then have "stdin \<noteq> []" unfolding MAXLINE_Suc using line_of_Nil by blast
  then show ?case using 2 by (cases ln) auto
qed simp

declare sx_main.simps [simp del]

text \<open>Words with one blank or more behind each are split into the words.\<close>

definition plain :: "string \<Rightarrow> bool" where "plain w \<longleftrightarrow> w \<noteq> [] \<and> SPACE \<notin> set w"

definition spread :: "(string \<times> nat) list \<Rightarrow> string" where
  "spread = concat \<circ> map (\<lambda>(w, n). w @ SPACE # replicate n SPACE)"

lemma spread_start: "list_all (plain \<circ> fst) ws \<Longrightarrow> dropWhile (\<lambda>c. c = SPACE) (spread ws) = spread ws"
proof (cases ws)
  case (Cons x xs)
  assume "list_all (plain \<circ> fst) ws"
  then obtain c w n where "x = (c # w, n)" "c \<noteq> SPACE" by (cases x; cases "fst x") (auto simp: Cons plain_def)
  then show ?thesis by (simp add: Cons spread_def)
qed (simp add: spread_def)

lemma argv_loop_spread:
  "\<lbrakk>list_all (plain \<circ> fst) ws; argc + length ws < SX_MAXARGS\<rbrakk> \<Longrightarrow> argv_loop argc (spread ws) = Inr (map fst ws)"
proof (induction ws arbitrary: argc)
  case Nil
  then show ?case by (subst argv_loop.simps) (simp add: spread_def)
next
  case (Cons x ws)
  obtain w n where x: "x = (w, n)" by (cases x)
  have s: "spread (x # ws) = w @ SPACE # (replicate n SPACE @ spread ws)" by (simp add: spread_def x)
  have w: "\<forall>c \<in> set w. c \<noteq> SPACE" using Cons.prems(1) by (auto simp: plain_def x)
  have "dropWhile (\<lambda>c. c = SPACE) (spread ws) = spread ws" using Cons.prems(1) by (intro spread_start) (simp add: comp_def)
  then have r: "dropWhile (\<lambda>c. c = SPACE) (replicate n SPACE @ spread ws) = spread ws" by (simp add: dropWhile_append)
  have "dropWhile (\<lambda>c. c \<noteq> SPACE) (spread (x # ws)) = SPACE # (replicate n SPACE @ spread ws)"
    "takeWhile (\<lambda>c. c \<noteq> SPACE) (spread (x # ws)) = w"
    unfolding s using w by (simp_all add: dropWhile_append takeWhile_append)
  moreover have "SPACE \<in> set (spread (x # ws))" by (simp add: s)
  moreover have "argv_loop (argc + 1) (spread ws) = Inr (map fst ws)" using Cons by simp
  ultimately show ?case using Cons.prems(2) r by (subst argv_loop.simps) (simp add: x)
qed

text \<open>A command line of blanks, words and a newline: \<open>parseline\<close> gives back the words; a last word that begins with an
  ampersand is dropped and puts the job in the background.\<close>

lemma parseline_words:
  assumes "list_all (plain \<circ> fst) ws" and "ws \<noteq> []" and "length ws < SX_MAXARGS"
  shows "parseline (replicate k SPACE @ butlast (spread ws) @ [NEWLINE])
    = Inr (if at (last (map fst ws)) = CHR ''&'' then (butlast (map fst ws), True) else (map fst ws, False))"
proof -
  have ne: "spread ws \<noteq> []" and "last (spread ws) = SPACE"
  proof -
    have "spread ws = spread (butlast ws) @ spread [last ws]"
      using append_butlast_last_id [OF assms(2)] by (metis (no_types, lifting) comp_apply concat_append map_append spread_def)
    moreover have "spread [last ws] \<noteq> [] \<and> last (spread [last ws]) = SPACE" by (cases "last ws") (simp add: spread_def last_replicate)
    ultimately show "spread ws \<noteq> []" "last (spread ws) = SPACE" by auto
  qed
  then have b: "butlast (spread ws) @ [SPACE] = spread ws" using append_butlast_last_id [OF ne] by simp
  have "dropWhile (\<lambda>c. c = SPACE) (spread ws) = spread ws" by (rule spread_start [OF assms(1)])
  then have d: "dropWhile (\<lambda>c. c = SPACE) (replicate k SPACE @ spread ws) = spread ws" by (simp add: dropWhile_append)
  have "argv_loop 0 (spread ws) = Inr (map fst ws)" using argv_loop_spread [OF assms(1), of 0] assms(3) by simp
  then show ?thesis using assms(2) d b by (simp add: parseline_def butlast_append)
qed

text \<open>The builtin \<open>&\<close> is never reached: a lone ampersand is taken for the mark of a background job.\<close>

lemma lone_ampersand: "sx_eval runs (''&'' @ [NEWLINE]) = NextLine"
  using parseline_words [of "[(''&'', 0)]" 0] by (simp add: plain_def spread_def SX_MAXARGS_def at_def sx_eval_def)

text \<open>The first command ends the shell, whatever lines follow: it replaces the shell, or the shell exits.\<close>

lemma one_command_only:
  assumes "list_all (plain \<circ> fst) ws" and "ws \<noteq> []" and "length ws < SX_MAXARGS" and "at (last (map fst ws)) \<noteq> CHR ''&''"
    and "fst (hd ws) \<notin> {''quit'', ''&''}" and "NEWLINE \<notin> set (spread ws)" and "NUL \<notin> set (spread ws)" and "length (spread ws) < MAXLINE - 1"
  shows "sx_main runs (butlast (spread ws) @ NEWLINE # rest) = (if runs (map fst ws) then Replaced (map fst ws) else ShellExit)"
proof -
  let ?l = "butlast (spread ws) @ [NEWLINE]"
  have nn: "NEWLINE \<notin> set (butlast (spread ws))" "NUL \<notin> set (butlast (spread ws))" using assms(6,7) by (auto dest: in_set_butlastD)
  have l: "line_of (MAXLINE - 1) (butlast (spread ws) @ NEWLINE # rest) = ?l" by (rule line_of_exact) (use nn assms(8) in auto)
  have "c_str ?l = ?l" using nn by (intro c_str_no_NUL) auto
  moreover have "parseline ?l = Inr (map fst ws, False)" using parseline_words [OF assms(1,2,3), of 0] assms(4) by simp
  moreover have "map fst ws ! 0 \<notin> {''quit'', ''&''}" using assms(2,5) by (cases ws) auto
  ultimately have "sx_eval runs (c_str ?l) = (if runs (map fst ws) then Replaced (map fst ws) else ShellExit)"
    using assms(2) by (simp add: sx_eval_def sx_builtin_def)
  then show ?thesis using l by (subst sx_main.simps) (simp add: Let_def)
qed

section \<open>The bomb\<close>

text \<open>The driver of \<^verbatim>\<open>CSE3030/bomb/bomb.c\<close> around the six phases, whose code is not in the repository: a phase is a
  parameter that accepts its line or explodes, and \<open>line k\<close> is the \<open>k\<close>-th line read.\<close>

datatype bomb_end = BombExit int | Exploded nat | Defused

fun run_phases :: "nat \<Rightarrow> (string \<Rightarrow> bool) list \<Rightarrow> (nat \<Rightarrow> string) \<Rightarrow> bomb_end" where
  "run_phases k [] line = Defused"
| "run_phases k (p # ps) line = (if p (line k) then run_phases (k + 1) ps line else Exploded (k + 1))"

definition bomb_main :: "nat \<Rightarrow> bool \<Rightarrow> (nat \<Rightarrow> string \<Rightarrow> bool) \<Rightarrow> (nat \<Rightarrow> string) \<Rightarrow> bomb_end" where
  "bomb_main argc opened phase line =
     (if argc = 1 \<or> argc = 2 \<and> opened then run_phases 0 [phase 1, phase 2, phase 3, phase 4, phase 5, phase 6] line
      else BombExit 8)"

lemma run_phases_Defused: "run_phases k ps line = Defused \<longleftrightarrow> (\<forall>i < length ps. (ps ! i) (line (k + i)))"
  by (induction ps arbitrary: k) (auto simp: nth_Cons' less_Suc_eq_0_disj)

text \<open>The bomb is defused exactly when all six lines are accepted.\<close>

lemma bomb_defused: "bomb_main 1 opened phase line = Defused \<longleftrightarrow> (\<forall>k \<in> {1..6}. phase k (line (k - 1)))"
proof -
  have "{1..6} = {1, 2, 3, 4, 5, 6 :: nat}" by auto
  then show ?thesis by (simp add: bomb_main_def eval_nat_numeral)
qed

end
