(* ===== verification/Sbuf_Threads.thy ===== *)
theory Sbuf_Threads
  imports Sbuf
begin

text \<open>
  Producers and consumers on the bounded buffer, interleaved at every semaphore operation and
  access of \<open>sbuf_insert\<close> and \<open>sbuf_remove\<close>.  The two logs record the items in the order in which
  they were written to and read from the ring.
\<close>

datatype 'a bpc = Idle | Ins0 'a | Ins1 'a | Ins2 'a | Ins3 | Ins4 | Rem0 | Rem1 | Rem2 | Rem3 'a | Rem4 'a

record 'a bstate =
  sb :: "'a sbuf"
  pcs :: "'a bpc list"
  log_in :: "'a list"
  log_out :: "'a list"

definition goto :: "nat \<Rightarrow> 'a bpc \<Rightarrow> 'a bstate \<Rightarrow> 'a bstate" where
  "goto t pc s = s\<lparr>pcs := (pcs s)[t := pc]\<rparr>"

text \<open>The step of thread \<open>t\<close>; a semaphore wait on 0 has no step.\<close>

inductive bstep :: "'a bstate \<Rightarrow> 'a bstate \<Rightarrow> bool" where
  call_insert: "\<lbrakk>t < length (pcs s); pcs s ! t = Idle\<rbrakk> \<Longrightarrow> bstep s (goto t (Ins0 x) s)"
| ins_wait_slot: "\<lbrakk>t < length (pcs s); pcs s ! t = Ins0 x; 0 < empty_slots (sb s)\<rbrakk> \<Longrightarrow>
    bstep s (goto t (Ins1 x) (s\<lparr>sb := (sb s)\<lparr>empty_slots := empty_slots (sb s) - 1\<rparr>\<rparr>))"
| ins_wait_mutex: "\<lbrakk>t < length (pcs s); pcs s ! t = Ins1 x; 0 < mutex (sb s)\<rbrakk> \<Longrightarrow>
    bstep s (goto t (Ins2 x) (s\<lparr>sb := (sb s)\<lparr>mutex := mutex (sb s) - 1\<rparr>\<rparr>))"
| ins_write: "\<lbrakk>t < length (pcs s); pcs s ! t = Ins2 x; rear (sb s) + 1 < 2 ^ 31\<rbrakk> \<Longrightarrow>
    bstep s (goto t Ins3 (s\<lparr>sb := sbuf_put x (sb s), log_in := log_in s @ [x]\<rparr>))"
| ins_post_mutex: "\<lbrakk>t < length (pcs s); pcs s ! t = Ins3\<rbrakk> \<Longrightarrow>
    bstep s (goto t Ins4 (s\<lparr>sb := (sb s)\<lparr>mutex := mutex (sb s) + 1\<rparr>\<rparr>))"
| ins_post_items: "\<lbrakk>t < length (pcs s); pcs s ! t = Ins4\<rbrakk> \<Longrightarrow>
    bstep s (goto t Idle (s\<lparr>sb := (sb s)\<lparr>items := items (sb s) + 1\<rparr>\<rparr>))"
| call_remove: "\<lbrakk>t < length (pcs s); pcs s ! t = Idle\<rbrakk> \<Longrightarrow> bstep s (goto t Rem0 s)"
| rem_wait_items: "\<lbrakk>t < length (pcs s); pcs s ! t = Rem0; 0 < items (sb s)\<rbrakk> \<Longrightarrow>
    bstep s (goto t Rem1 (s\<lparr>sb := (sb s)\<lparr>items := items (sb s) - 1\<rparr>\<rparr>))"
| rem_wait_mutex: "\<lbrakk>t < length (pcs s); pcs s ! t = Rem1; 0 < mutex (sb s)\<rbrakk> \<Longrightarrow>
    bstep s (goto t Rem2 (s\<lparr>sb := (sb s)\<lparr>mutex := mutex (sb s) - 1\<rparr>\<rparr>))"
| rem_read: "\<lbrakk>t < length (pcs s); pcs s ! t = Rem2; sbuf_get (sb s) = (x, b)\<rbrakk> \<Longrightarrow>
    bstep s (goto t (Rem3 x) (s\<lparr>sb := b, log_out := log_out s @ [x]\<rparr>))"
| rem_post_mutex: "\<lbrakk>t < length (pcs s); pcs s ! t = Rem3 x\<rbrakk> \<Longrightarrow>
    bstep s (goto t (Rem4 x) (s\<lparr>sb := (sb s)\<lparr>mutex := mutex (sb s) + 1\<rparr>\<rparr>))"
| rem_post_slot: "\<lbrakk>t < length (pcs s); pcs s ! t = Rem4 x\<rbrakk> \<Longrightarrow>
    bstep s (goto t Idle (s\<lparr>sb := (sb s)\<lparr>empty_slots := empty_slots (sb s) + 1\<rparr>\<rparr>))"

section \<open>The invariant\<close>

fun in_cs :: "'a bpc \<Rightarrow> bool" where
  "in_cs (Ins2 _) = True" | "in_cs Ins3 = True" | "in_cs Rem2 = True" | "in_cs (Rem3 _) = True" | "in_cs _ = False"

fun holds_slot :: "'a bpc \<Rightarrow> bool" where
  "holds_slot (Ins1 _) = True" | "holds_slot (Ins2 _) = True" | "holds_slot (Rem3 _) = True" | "holds_slot (Rem4 _) = True"
| "holds_slot _ = False"

fun holds_item :: "'a bpc \<Rightarrow> bool" where
  "holds_item Ins3 = True" | "holds_item Ins4 = True" | "holds_item Rem1 = True" | "holds_item Rem2 = True"
| "holds_item _ = False"

definition binv :: "'a bstate \<Rightarrow> bool" where
  "binv s \<longleftrightarrow> ring_ok (sb s) \<and> log_in s = log_out s @ queue_of (sb s)
     \<and> mutex (sb s) + count_if in_cs (pcs s) = 1
     \<and> int (empty_slots (sb s)) + int (count_if holds_slot (pcs s)) = bn (sb s) - (rear (sb s) - front (sb s))
     \<and> int (items (sb s)) + int (count_if holds_item (pcs s)) = rear (sb s) - front (sb s)"

lemma goto_fields [simp]:
  "sb (goto t pc s) = sb s" "log_in (goto t pc s) = log_in s" "log_out (goto t pc s) = log_out s"
  "pcs (goto t pc s) = (pcs s)[t := pc]"
  by (simp_all add: goto_def)

lemma sem_move:
  assumes "binv s" and t: "t < length (pcs s)"
    and "buf b = buf (sb s)" "bn b = bn (sb s)" "front b = front (sb s)" "rear b = rear (sb s)"
    and "mutex b + of_bool (in_cs pc) = mutex (sb s) + of_bool (in_cs (pcs s ! t))"
    and "empty_slots b + of_bool (holds_slot pc) = empty_slots (sb s) + of_bool (holds_slot (pcs s ! t))"
    and "items b + of_bool (holds_item pc) = items (sb s) + of_bool (holds_item (pcs s ! t))"
  shows "binv (goto t pc (s\<lparr>sb := b\<rparr>))"
proof -
  note C = cnt_update [OF t, of _ pc]
  have "ring_ok b = ring_ok (sb s)" "queue_of b = queue_of (sb s)"
    using assms(3-6) by (simp_all add: ring_ok_def queue_of_def)
  moreover have "mutex b + count_if in_cs ((pcs s)[t := pc]) = mutex (sb s) + count_if in_cs (pcs s)"
    "empty_slots b + count_if holds_slot ((pcs s)[t := pc]) = empty_slots (sb s) + count_if holds_slot (pcs s)"
    "items b + count_if holds_item ((pcs s)[t := pc]) = items (sb s) + count_if holds_item (pcs s)"
    using assms(7-9) C [of in_cs] C [of holds_slot] C [of holds_item] by (auto split: if_splits)
  ultimately show ?thesis using assms(1,3-6) unfolding binv_def by (simp flip: of_nat_add)
qed

lemma bstep_inv: "bstep s s' \<Longrightarrow> binv s \<Longrightarrow> binv s'"
proof (induction rule: bstep.induct)
  case (ins_write t s x)
  note C = cnt_update [OF ins_write(1), of _ Ins3]
  have pos: "0 < count_if holds_slot (pcs s)" by (rule cnt_pos [OF ins_write(1)]) (simp add: ins_write(2))
  then have room: "rear (sb s) - front (sb s) < bn (sb s)" using ins_write(4) by (simp add: binv_def)
  have Q: "ring_ok (sbuf_put x (sb s)) \<and> queue_of (sbuf_put x (sb s)) = queue_of (sb s) @ [x]"
    by (rule sbuf_put_queue) (use ins_write room in \<open>auto simp: binv_def\<close>)
  have "int32 (rear (sb s) + 1) = rear (sb s) + 1"
    using ins_write(3,4) by (simp add: binv_def ring_ok_def in_int32_def)
  then show ?case
    using ins_write(2,4) Q C [of in_cs] C [of holds_slot] C [of holds_item] by (simp add: binv_def)
next
  case (rem_read t s x b)
  note C = cnt_update [OF rem_read(1), of _ "Rem3 x"]
  have pos: "0 < count_if holds_item (pcs s)" by (rule cnt_pos [OF rem_read(1)]) (simp add: rem_read(2))
  then have ne: "front (sb s) < rear (sb s)" using rem_read(4) by (simp add: binv_def)
  obtain y b' where G: "sbuf_get (sb s) = (y, b')" "ring_ok b'" "queue_of (sb s) = y # queue_of b'"
    using sbuf_get_queue [OF _ ne] rem_read(4) by (auto simp: binv_def)
  have b: "b = (sb s)\<lparr>front := front (sb s) + 1\<rparr>" "b' = b" "y = x"
    using rem_read(3,4) G(1) ne by (auto simp: sbuf_get_def Let_def binv_def ring_ok_def in_int32_def)
  then show ?case
    using rem_read(2,4) G C [of in_cs] C [of holds_slot] C [of holds_item] by (simp add: binv_def)
next
  case (call_insert t s x)
  then show ?case using sem_move [of s t "sb s" "Ins0 x"] by simp
next
  case (call_remove t s)
  then show ?case using sem_move [of s t "sb s" Rem0] by simp
qed (rule sem_move; simp)+

inductive breach :: "'a bstate \<Rightarrow> 'a bstate \<Rightarrow> bool" for s0 where
  breach_start: "breach s0 s0"
| breach_step: "\<lbrakk>breach s0 s; bstep s s'\<rbrakk> \<Longrightarrow> breach s0 s'"

lemma breach_inv: "breach s0 s \<Longrightarrow> binv s0 \<Longrightarrow> binv s"
  by (induction rule: breach.induct) (auto intro: bstep_inv)

definition bstart :: "'a \<Rightarrow> nat \<Rightarrow> nat \<Rightarrow> 'a bstate" where
  "bstart zero n k = \<lparr>sb = mutex_init zero n, pcs = replicate k Idle, log_in = [], log_out = []\<rparr>"

lemma bstart_inv: "0 < n \<Longrightarrow> binv (bstart zero n k)"
  by (simp add: binv_def bstart_def mutex_init_def ring_ok_def queue_of_def)

section \<open>Properties\<close>

text \<open>Used one operation at a time, the ring is a bounded queue: inserting waits exactly when the
  queue is full and otherwise appends, removing waits exactly when it is empty and otherwise takes
  the oldest item.\<close>

theorem sbuf_is_queue:
  assumes "sbuf_ok s" and "rear s < 2 ^ 31 - 1"
  shows "(if length (queue_of s) = nat (bn s) then sbuf_insert s x = None
          else \<exists>s'. sbuf_insert s x = Some s' \<and> sbuf_ok s' \<and> queue_of s' = queue_of s @ [x])
     \<and> (case queue_of s of [] \<Rightarrow> sbuf_remove s = None
        | y # ys \<Rightarrow> \<exists>s'. sbuf_remove s = Some (y, s') \<and> sbuf_ok s' \<and> queue_of s' = ys)"
proof -
  have le: "length (queue_of s) \<le> nat (bn s)" and r: "0 < sbuf_room s"
    using assms by (auto simp: sbuf_ok_def ring_ok_def sbuf_room_def)
  have "\<exists>s'. sbuf_insert s x = Some s' \<and> sbuf_ok s' \<and> queue_of s' = queue_of s @ [x]"
    if "length (queue_of s) \<noteq> nat (bn s)" using sb.put_ok [OF assms(1) _ r, of x] le that by fastforce
  moreover have "sbuf_insert s x = None" if "length (queue_of s) = nat (bn s)"
    using sb.put_full [OF assms(1) that] .
  ultimately show ?thesis
    using sb.get_ok [OF assms(1)] sb.get_empty [OF assms(1)] by (auto split: list.splits)
qed

lemma mutex_init_ok: "0 < n \<Longrightarrow> sbuf_ok (mutex_init z n)" "queue_of (mutex_init z n) = []"
  by (simp_all add: sbuf_ok_def mutex_init_def ring_ok_def queue_of_def)

theorem sbuf_is_queue_witness:
  "\<exists>s'. sbuf_insert (mutex_init (0 :: int) 4) 7 = Some s' \<and> sbuf_ok s' \<and> queue_of s' = [7]"
proof -
  have "(0 :: nat) < 4" "rear (mutex_init (0 :: int) 4) < 2 ^ 31 - 1" "bn (mutex_init (0 :: int) 4) = 4"
    by (simp_all add: mutex_init_def)
  with sbuf_is_queue [OF mutex_init_ok(1) [OF this(1), of "0 :: int"] this(2), of 7] mutex_init_ok(2) [of "0 :: int" 4]
  show ?thesis by simp
qed



text \<open>The counters are never reset.  Behind \<open>2\<^sup>3\<^sup>1 - 1\<close> insertions \<^verbatim>\<open>rear\<close> overflows, and its
  remainder is negative from the second insertion on: the program writes in front of the array.\<close>

lemma sbuf_rear_overflow:
  assumes "rear s = 2 ^ 31 - 1" and "bn s = 4096"
  shows "c_mod (rear (sbuf_put y (sbuf_put x s))) (bn s) < 0"
  using assms by (simp add: int32_def c_mod_def c_div_def)

end
