(* ===== verification/Thread_Progress.thy ===== *)
theory Thread_Progress
  imports Thread_Sync
begin

text \<open>
  Progress of the threads of the stock server: the mutexes and the two busy-waiting loops on the reader and
  the writer count never lock each other out.  Each program counter has a rank, the number of steps to
  the end of its command; in every reachable state with a command under way some thread can take a step
  that lowers the sum of the ranks.
\<close>

definition idle :: "tpc \<Rightarrow> bool" where
  "idle pc \<longleftrightarrow> (case pc of Ready \<Rightarrow> True | Done _ \<Rightarrow> True | _ \<Rightarrow> False)"

fun rank :: "tpc \<Rightarrow> nat" where
  "rank Ready = 0" | "rank (Done _) = 0"
| "rank S0 = 8" | "rank S1 = 7" | "rank S2 = 6" | "rank S3 = 5" | "rank S4 = 4" | "rank (S5 _) = 3" | "rank (S6 _) = 2" | "rank (S7 _) = 1"
| "rank (T0 _ _) = 12" | "rank (T1 _ _) = 11" | "rank (T2 _ _) = 10" | "rank (T3 _ _) = 9" | "rank (T4 _ _) = 8" | "rank (T5 _ _) = 7"
| "rank (T6 _ _) = 6" | "rank (T7 _ _ _) = 5" | "rank (T8 _) = 4" | "rank (T9 _) = 3" | "rank (T10 _) = 2" | "rank (T11 _) = 1"

definition work :: "tstate \<Rightarrow> nat" where
  "work s = sum_list (map rank (tpcs s))"

text \<open>A thread inside \<open>modify\<close> works on a stock that exists.\<close>

definition targets_exist :: "tstate \<Rightarrow> bool" where
  "targets_exist s \<longleftrightarrow> (\<forall>t < length (tpcs s). \<forall>i d. tpcs s ! t = T5 i d \<or> tpcs s ! t = T6 i d \<longrightarrow> stock_find i (tree s) \<noteq> NullStock)"

lemma find_set_count: "stock_find j (set_count i v t) = NullStock \<longleftrightarrow> stock_find j t = NullStock"
  by (induction t) auto

lemma targets_step:
  assumes "targets_exist s" and "t < length (tpcs s)" and "tstep t s = Some s'"
  shows "targets_exist s'"
  using assms
  by (auto simp: targets_exist_def tstep_def move_def nth_list_update find_set_count split: tpc.splits if_splits stock.splits)

lemma targets_tsys: "tsys s s' \<Longrightarrow> targets_exist s \<Longrightarrow> targets_exist s'"
  by (induction rule: tsys.induct) (auto simp: targets_step, auto simp: targets_exist_def move_def nth_list_update)

lemma treach_targets: "treach (tstart c n) s \<Longrightarrow> targets_exist s"
proof (induction rule: treach.induct)
  case treach_start
  then show ?case by (simp add: targets_exist_def tstart_def)
qed (rule targets_tsys)

lemma tstep_length: "tstep t s = Some s' \<Longrightarrow> length (tpcs s') = length (tpcs s)"
  by (auto simp: tstep_def move_def split: tpc.splits if_splits stock.splits)

text \<open>A step is useful when it moves its thread on.\<close>

definition useful :: "nat \<Rightarrow> tstate \<Rightarrow> bool" where
  "useful t s \<longleftrightarrow> t < length (tpcs s) \<and> (\<exists>s'. tstep t s = Some s' \<and> tpcs s' = (tpcs s)[t := tpcs s' ! t] \<and> rank (tpcs s' ! t) < rank (tpcs s ! t))"

lemma sum_list_update_less: "t < length xs \<Longrightarrow> f x < f (xs ! t) \<Longrightarrow> sum_list (map f (xs[t := x])) < (sum_list (map f xs) :: nat)"
  by (induction xs arbitrary: t) (auto split: nat.splits)

lemma useful_step:
  assumes "useful t s"
  obtains s' where "tstep t s = Some s'" "work s' < work s" "length (tpcs s') = length (tpcs s)"
proof -
  obtain s' where s': "tstep t s = Some s'" "tpcs s' = (tpcs s)[t := tpcs s' ! t]" "rank (tpcs s' ! t) < rank (tpcs s ! t)" "t < length (tpcs s)"
    using assms by (auto simp: useful_def)
  have "work s' < work s" unfolding work_def using sum_list_update_less [of t "tpcs s" rank, OF s'(4,3)] s'(2) by simp
  then show thesis using that [OF s'(1)] s'(2) by (metis length_list_update)
qed

lemmas useful_simps = useful_def tstep_def move_def

text \<open>Threads that need nothing from the others.\<close>

lemma free_useful:
  assumes "t < length (tpcs s)" and "r_cs (tpcs s ! t) \<or> w_cs (tpcs s ! t)"
  shows "useful t s"
  using assms by (auto simp: useful_simps pc_classes split: tpc.splits)

lemma modifying_useful:
  assumes "targets_exist s" and "t < length (tpcs s)" and "m_cs i (tpcs s ! t)"
  shows "useful t s"
proof (cases "tpcs s ! t")
  case (T6 j d)
  then have "stock_find j (tree s) \<noteq> NullStock" using assms(1,2) by (auto simp: targets_exist_def)
  then show ?thesis using T6 assms(2) by (cases "stock_find j (tree s)") (simp_all add: useful_simps)
qed (use assms in \<open>auto simp: useful_simps m_cs_def\<close>)

lemma count_if_ex:
  assumes "0 < count_if P xs"
  shows "\<exists>t < length xs. P (xs ! t)"
proof -
  have "filter P xs \<noteq> []" using assms by (auto simp: count_if_def)
  then show ?thesis by (auto simp: filter_empty_conv in_set_conv_nth)
qed

lemma some_useful:
  assumes I: "tinv c0 s" and E: "targets_exist s" and t: "t < length (tpcs s)" and busy: "\<not> idle (tpcs s ! t)"
  shows "\<exists>t'. useful t' s"
proof -
  consider "0 < count_if r_cs (tpcs s)" | "0 < count_if w_cs (tpcs s)"
    | "count_if r_cs (tpcs s) = 0" "count_if w_cs (tpcs s) = 0" by blast
  then show ?thesis
  proof cases
    case 1
    then show ?thesis using count_if_ex free_useful by blast
  next
    case 2
    then show ?thesis using count_if_ex free_useful by blast
  next
    case 3
    then have free: "reader_n_mutex s = 1" "writer_n_mutex s = 1" using I by (auto simp: tinv_def)
    have no: "\<not> r_cs (tpcs s ! u)" "\<not> w_cs (tpcs s ! u)" if "u < length (tpcs s)" for u
      using cnt_pos [of u "tpcs s" r_cs] cnt_pos [of u "tpcs s" w_cs] 3 that by auto
    have stuck: "tpcs s ! u = S0 \<or> (\<exists>i d. tpcs s ! u = T3 i d) \<or> (\<exists>i d. tpcs s ! u = T5 i d) \<or> idle (tpcs s ! u) \<or> useful u s"
      if "u < length (tpcs s)" for u
      using that no [OF that] free modifying_useful [OF E that]
      by (cases "tpcs s ! u") (auto simp: useful_simps pc_classes idle_def split: stock.splits)
    show ?thesis
    proof (rule ccontr)
      assume none: "\<nexists>t'. useful t' s"
      have no5: "tpcs s ! u \<noteq> T5 i d" if u: "u < length (tpcs s)" for u i d
      proof
        assume pc: "tpcs s ! u = T5 i d"
        have "modify_mutex s i = 0" using none u pc by (rule_tac ccontr) (auto simp: useful_simps)
        moreover have "modify_mutex s i + count_if (m_cs i) (tpcs s) = 1" using I by (simp add: tinv_def)
        ultimately have "0 < count_if (m_cs i) (tpcs s)" by simp
        then show False using count_if_ex modifying_useful [OF E] none by blast
      qed
      have only: "tpcs s ! u = S0 \<or> (\<exists>i d. tpcs s ! u = T3 i d) \<or> idle (tpcs s ! u)" if "u < length (tpcs s)" for u
        using stuck [OF that] no5 [OF that] none by blast
      have "\<not> reading (tpcs s ! u)" if "u < length (tpcs s)" for u using only [OF that] by (auto simp: reading_def idle_def split: tpc.splits)
      then have "\<not> 0 < count_if reading (tpcs s)" using count_if_ex by blast
      moreover have "reader_n s = int (count_if reading (tpcs s))" using I by (simp add: tinv_def)
      ultimately have "reader_n s = 0" by simp
      then have no3: "tpcs s ! u \<noteq> T3 i d" if "u < length (tpcs s)" for u i d using none that by (auto simp: useful_simps)
      then have "\<not> writing (tpcs s ! u)" if "u < length (tpcs s)" for u
        using only [OF that] no3 [OF that] by (auto simp: writing_def idle_def split: tpc.splits)
      then have "\<not> 0 < count_if writing (tpcs s)" using count_if_ex by blast
      moreover have "writer_n s = int (count_if writing (tpcs s))" using I by (simp add: tinv_def)
      ultimately have "writer_n s = 0" by simp
      then have "tpcs s ! t \<noteq> S0" using none t by (auto simp: useful_simps)
      then show False using only [OF t] no3 [OF t] busy by blast
    qed
  qed
qed

lemma can_finish:
  assumes "tinv c0 s" and "targets_exist s"
  shows "\<exists>ts s'. tplay ts s = Some s' \<and> length ts \<le> work s \<and> (\<forall>t < length (tpcs s'). idle (tpcs s' ! t))"
  using assms
proof (induction "work s" arbitrary: s rule: less_induct)
  case less
  show ?case
  proof (cases "\<forall>t < length (tpcs s). idle (tpcs s ! t)")
    case True
    then show ?thesis by (intro exI [of _ "[]"] exI [of _ s]) simp
  next
    case False
    then obtain t' where u: "useful t' s" using some_useful [OF less.prems] by blast
    then have t': "t' < length (tpcs s)" by (simp add: useful_def)
    obtain s1 where s1: "tstep t' s = Some s1" "work s1 < work s" by (rule useful_step [OF u])
    obtain ts s' where "tplay ts s1 = Some s'" "length ts \<le> work s1" "\<forall>t < length (tpcs s'). idle (tpcs s' ! t)"
      using less.hyps [OF s1(2) tstep_inv [OF less.prems(1) t' s1(1)] targets_step [OF less.prems(2) t' s1(1)]] by blast
    then show ?thesis using s1 t' by (intro exI [of _ "t' # ts"] exI [of _ s']) simp
  qed
qed

text \<open>(C8) Nobody is locked out for good: from every state that the server's threads can reach, whatever shows and
  trades are under way and wherever the threads stand, the pending commands can all be completed, by a
  schedule no longer than the steps they still have to take; so there is no deadlock, and the two
  busy-waiting loops never wait for each other.\<close>

theorem threads_can_always_finish:
  assumes "treach (tstart c n) s"
  shows "\<exists>ts s'. tplay ts s = Some s' \<and> length ts \<le> 12 * n \<and> (\<forall>t < length (tpcs s'). idle (tpcs s' ! t))"
proof -
  have I: "tinv c s" by (rule treach_inv [OF assms tstart_inv])
  have "length (tpcs s) = n" using assms by (induction rule: treach.induct) (auto simp: tstart_def elim!: tsys.cases dest: tstep_length)
  moreover have "rank pc \<le> 12" for pc by (cases pc) auto
  ultimately have "work s \<le> 12 * n" unfolding work_def using sum_list_mono [of "tpcs s" rank "\<lambda>_. 12"] by (simp add: sum_list_triv mult.commute)
  then show ?thesis using can_finish [OF I treach_targets [OF assms]] by (meson order_trans)
qed

theorem threads_can_always_finish_witness:
  "\<exists>ts s'. tplay ts two_buyers = Some s' \<and> length ts \<le> 24 \<and> (\<forall>t < length (tpcs s'). idle (tpcs s' ! t))"
  using threads_can_always_finish [OF two_buyers_reach] by simp

end
