(* ===== verification/Buddy.thy ===== *)
theory Buddy
  imports Memlib
begin

text \<open>
  The page allocator of \<^verbatim>\<open>mymalloc_buddy/mm.c\<close>: 65536 pages of 256 bytes, one circular doubly linked
  free list and one bitmap per order, blocks split on allocation and merged on release.  The 32-bit
  build is modelled (\<^verbatim>\<open>unsigned long\<close> has four bytes); assertions are compiled in, so a failing one is
  the fault \<open>AssertFail\<close>.  A \<^verbatim>\<open>struct list_head *\<close> is a node: the head of the list of an order or the
  \<^verbatim>\<open>list\<close> member of a page descriptor; the two link fields are maps on nodes, \<open>None\<close> is the null
  pointer.  The bitmaps are bytes of the simulated heap.  Leaving the array of free areas or of page
  descriptors is the fault \<open>OutOfArea\<close>.
\<close>

datatype lnode = Head nat | Pg nat

datatype buddy_fault = AssertFail | NullDeref | OutOfArea | SbrkFailed

record buddy = memsys +
  free_area_area :: addr
  page_struct_area :: addr
  bitmap_area :: addr
  physical_memory_area :: addr
  endpoint :: addr
  phy_page_n :: nat
  free_phy_page_n :: nat
  lnext :: "lnode \<Rightarrow> lnode option"
  lprev :: "lnode \<Rightarrow> lnode option"
  page_order :: "nat \<Rightarrow> nat"
  physical_addr :: "nat \<Rightarrow> addr"
  area_bitmap :: "nat \<Rightarrow> addr"

definition PHYSICAL_MEMORY_SIZE :: nat where "PHYSICAL_MEMORY_SIZE = 2 ^ 24"
definition PAGE_SHIFT :: nat where "PAGE_SHIFT = 8"
definition PAGE_SIZE :: nat where "PAGE_SIZE = 2 ^ PAGE_SHIFT"
definition TOTAL_PAGES :: "nat \<Rightarrow> nat" where "TOTAL_PAGES memsize = memsize div 2 ^ PAGE_SHIFT"
definition MAX_ORDER :: nat where "MAX_ORDER = 24 - PAGE_SHIFT"
definition FREE_AREA_STRUCT_SIZE :: nat where "FREE_AREA_STRUCT_SIZE = 12"
definition PAGE_STRUCT_SIZE :: nat where "PAGE_STRUCT_SIZE = 16"
definition BITMAP_INDEX :: "nat \<Rightarrow> nat" where "BITMAP_INDEX pos = drop_bit 6 pos"

definition GET_PAGE_N :: "'a buddy_scheme \<Rightarrow> addr \<Rightarrow> nat" where
  "GET_PAGE_N s a = sub32 a (physical_memory_area s) div 2 ^ PAGE_SHIFT"

lemmas buddy_consts = PHYSICAL_MEMORY_SIZE_def PAGE_SHIFT_def PAGE_SIZE_def TOTAL_PAGES_def MAX_ORDER_def
  FREE_AREA_STRUCT_SIZE_def PAGE_STRUCT_SIZE_def

section \<open>The lists\<close>

definition list_add3 :: "lnode \<Rightarrow> lnode \<Rightarrow> lnode \<Rightarrow> buddy \<Rightarrow> buddy" where
  "list_add3 new pv nx s =
     s\<lparr>lprev := (lprev s)(nx \<mapsto> new, new \<mapsto> pv), lnext := (lnext s)(new \<mapsto> nx, pv \<mapsto> new)\<rparr>"

definition list_add :: "lnode \<Rightarrow> lnode \<Rightarrow> buddy \<Rightarrow> buddy_fault + buddy" where
  "list_add head new s =
     (case lnext s head of None \<Rightarrow> Inl NullDeref | Some nx \<Rightarrow> Inr (list_add3 new head nx s))"

text \<open>\<open>list_unlink pv nx\<close> is what \<open>list_del\<close> does to the neighbours, given the two link fields of the
  structure it is called on; \<open>mm_free\<close> calls it on a local copy of a page descriptor.\<close>

definition list_unlink :: "lnode option \<Rightarrow> lnode option \<Rightarrow> buddy \<Rightarrow> buddy_fault + buddy" where
  "list_unlink pv nx s =
     (case (pv, nx) of
        (Some p, Some n) \<Rightarrow> Inr (s\<lparr>lnext := (lnext s)(p \<mapsto> n), lprev := (lprev s)(n \<mapsto> p)\<rparr>)
      | _ \<Rightarrow> Inl NullDeref)"

definition list_del :: "lnode \<Rightarrow> buddy \<Rightarrow> buddy_fault + buddy" where
  "list_del l s =
     (case list_unlink (lprev s l) (lnext s l) s of
        Inl e \<Rightarrow> Inl e
      | Inr s1 \<Rightarrow> Inr (s1\<lparr>lnext := (lnext s1)(l := None), lprev := (lprev s1)(l := None)\<rparr>))"

section \<open>The bitmaps\<close>

definition bitmap_get :: "bytes \<Rightarrow> addr \<Rightarrow> nat \<Rightarrow> bool" where
  "bitmap_get m bm pos \<longleftrightarrow> get32 m (bm + 4 * BITMAP_INDEX pos) AND push_bit (pos mod 32) 1 \<noteq> 0"

definition bitmap_set :: "bytes \<Rightarrow> addr \<Rightarrow> nat \<Rightarrow> bool \<Rightarrow> bool \<times> bytes" where
  "bitmap_set m bm pos b =
     (let a = bm + 4 * BITMAP_INDEX pos;
          old = bitmap_get m bm pos
      in (old, if b then put32 m a (get32 m a OR push_bit (pos mod 32) 1)
               else put32 m a (get32 m a AND (NOT 0 XOR push_bit (pos mod 32) 1))))"

definition bitmap_switch :: "bytes \<Rightarrow> addr \<Rightarrow> nat \<Rightarrow> bool \<times> bytes" where
  "bitmap_switch m bm pos = (let old = bitmap_get m bm pos in (old, snd (bitmap_set m bm pos (\<not> old))))"

definition MARK_USED :: "nat \<Rightarrow> nat \<Rightarrow> buddy \<Rightarrow> buddy" where
  "MARK_USED idx ord s = s\<lparr>heap := snd (bitmap_switch (heap s) (area_bitmap s ord) (drop_bit (1 + ord) idx))\<rparr>"

section \<open>Initialisation\<close>

fun physical_loop :: "nat \<Rightarrow> nat \<Rightarrow> addr \<Rightarrow> (nat \<Rightarrow> addr) \<Rightarrow> (nat \<Rightarrow> addr) \<times> addr" where
  "physical_loop 0 i off pa = (pa, off)"
| "physical_loop (Suc n) i off pa = physical_loop n (Suc i) (off + PAGE_SIZE) (pa(i := off))"

definition mapping_physical :: "buddy \<Rightarrow> buddy_fault + buddy" where
  "mapping_physical s =
     (case physical_loop (phy_page_n s) 0 (physical_memory_area s) (physical_addr s) of
        (pa, off) \<Rightarrow>
          if \<not> list_all (\<lambda>i. pa i \<noteq> NULL) [0..<phy_page_n s] \<or> off \<noteq> endpoint s then Inl AssertFail
          else Inr (s\<lparr>physical_addr := pa\<rparr>))"

fun bitmap_loop :: "nat \<Rightarrow> nat \<Rightarrow> addr \<Rightarrow> nat \<Rightarrow> (nat \<Rightarrow> addr) \<Rightarrow> bytes \<Rightarrow> (nat \<Rightarrow> addr) \<times> bytes \<times> addr" where
  "bitmap_loop 0 i off bs bm m = (bm, m, off)"
| "bitmap_loop (Suc n) i off bs bm m =
     bitmap_loop n (Suc i) (off + bs) (if bs > 1 then drop_bit 1 bs else bs) (bm(i := off)) (memset m off 0 (bs OR 1))"

definition mapping_bitmap :: "buddy \<Rightarrow> buddy_fault + buddy" where
  "mapping_bitmap s =
     (if bitmap_area s \<noteq> page_struct_area s + PAGE_STRUCT_SIZE * phy_page_n s then Inl AssertFail
      else case bitmap_loop MAX_ORDER 0 (bitmap_area s) (drop_bit 3 (drop_bit 1 (phy_page_n s))) (area_bitmap s) (heap s) of
          (bm, m, off) \<Rightarrow>
            if \<not> list_all (\<lambda>i. bm i \<noteq> NULL) [0..<MAX_ORDER] \<or> \<not> off < physical_memory_area s then Inl AssertFail
            else Inr (s\<lparr>area_bitmap := bm, heap := m\<rparr>))"

fun empty_lists :: "nat \<Rightarrow> nat \<Rightarrow> buddy \<Rightarrow> buddy" where
  "empty_lists 0 i s = s"
| "empty_lists (Suc n) i s =
     empty_lists n (Suc i) (s\<lparr>lnext := (lnext s)(Head i \<mapsto> Head i), lprev := (lprev s)(Head i \<mapsto> Head i)\<rparr>)"

definition init_buddy :: "buddy \<Rightarrow> buddy_fault + buddy" where
  "init_buddy s =
     (let s1 = empty_lists MAX_ORDER 0 s;
          top = MAX_ORDER - 1;
          p1 = 2 * 2 ^ (MAX_ORDER - 2)
      in if \<not> list_all (\<lambda>i. area_bitmap s i \<noteq> NULL) [0..<MAX_ORDER] then Inl AssertFail
         else case list_add (Head top) (Pg 0) s1 of
            Inl e \<Rightarrow> Inl e
          | Inr s2 \<Rightarrow>
              case list_add (Head top) (Pg p1) s2 of
                Inl e \<Rightarrow> Inl e
              | Inr s3 \<Rightarrow>
                  if lnext s3 (Pg 0) = None \<or> lprev s3 (Pg 0) = None \<or> lnext s3 (Pg p1) = None \<or> lprev s3 (Pg p1) = None
                     \<or> lnext s3 (Head top) = Some (Head top) then Inl AssertFail
                  else Inr (s3\<lparr>heap := snd (bitmap_set (heap s3) (area_bitmap s3 top) 0 True)\<rparr>))"

text \<open>\<open>p\<close> is the area the C library gives to \<open>mem_init\<close>.  \<open>sbrk\<close> is the call of \<open>mem_sbrk\<close> whose result
  the source does not check; after \<open>mem_init\<close> it cannot fail.\<close>

definition sbrk :: "nat \<Rightarrow> buddy \<Rightarrow> (addr \<Rightarrow> buddy \<Rightarrow> buddy_fault + buddy) \<Rightarrow> buddy_fault + buddy" where
  "sbrk n s k = (case mem_sbrk (int n) s of (None, _) \<Rightarrow> Inl SbrkFailed | (Some a, s1) \<Rightarrow> k a s1)"

definition bd_mm_init :: "addr \<Rightarrow> buddy \<Rightarrow> buddy_fault + buddy" where
  "bd_mm_init p s0 =
     (case mem_init p s0 of
        None \<Rightarrow> Inl SbrkFailed
      | Some s1 \<Rightarrow>
          let n = TOTAL_PAGES PHYSICAL_MEMORY_SIZE;
              s2 = s1\<lparr>phy_page_n := n, free_phy_page_n := n\<rparr>;
              page_struct_area_size = PAGE_STRUCT_SIZE * n;
              bitmap_area_size = n div 8 + 4;
              free_area_area_size = FREE_AREA_STRUCT_SIZE * MAX_ORDER
          in sbrk free_area_area_size s2 (\<lambda>fa s3.
             sbrk page_struct_area_size s3 (\<lambda>pa s4.
             sbrk bitmap_area_size s4 (\<lambda>ba s5.
             sbrk (7 - (ba + bitmap_area_size) mod 8 + 1) s5 (\<lambda>_ s6.
             sbrk PHYSICAL_MEMORY_SIZE s6 (\<lambda>ph s7.
               let s8 = s7\<lparr>free_area_area := fa, page_struct_area := pa, bitmap_area := ba,
                           physical_memory_area := ph, endpoint := ph + PHYSICAL_MEMORY_SIZE\<rparr>
               in if fa + FREE_AREA_STRUCT_SIZE * MAX_ORDER \<noteq> pa \<or> pa + PAGE_STRUCT_SIZE * n \<noteq> ba then Inl AssertFail
                  else case mapping_physical s8 of
                      Inl e \<Rightarrow> Inl e
                    | Inr s9 \<Rightarrow> (case mapping_bitmap s9 of Inl e \<Rightarrow> Inl e | Inr s10 \<Rightarrow> init_buddy s10)))))))"

section \<open>Allocation\<close>

fun order_loop :: "nat \<Rightarrow> nat \<Rightarrow> nat \<Rightarrow> int" where
  "order_loop 0 i memsize = - 1"
| "order_loop (Suc n) i memsize = (if memsize \<le> push_bit i PAGE_SIZE then int i else order_loop n (Suc i) memsize)"

definition memsize_to_order :: "nat \<Rightarrow> int" where
  "memsize_to_order memsize = order_loop (MAX_ORDER + 1) 0 memsize"

text \<open>The loop of \<open>expand\<close>; \<open>sz\<close> is \<open>1 << high_order\<close> on entry.\<close>

fun expand_loop :: "nat \<Rightarrow> nat \<Rightarrow> nat \<Rightarrow> nat \<Rightarrow> nat \<Rightarrow> buddy \<Rightarrow> buddy_fault + nat \<times> buddy" where
  "expand_loop page page_n sz 0 low s = Inr (page, s)"
| "expand_loop page page_n sz (Suc high) low s =
     (if Suc high > low then
        if phy_page_n s \<le> page then Inl OutOfArea
        else case list_add (Head high) (Pg page) s of
            Inl e \<Rightarrow> Inl e
          | Inr s1 \<Rightarrow>
              if lnext s1 (Pg page) = None \<or> lprev s1 (Pg page) = None then Inl AssertFail
              else let sz' = drop_bit 1 sz
                   in expand_loop (page + sz') (page_n + sz') sz' high low (MARK_USED page_n high s1)
      else Inr (page, s))"

definition expand :: "nat \<Rightarrow> nat \<Rightarrow> nat \<Rightarrow> nat \<Rightarrow> buddy \<Rightarrow> buddy_fault + nat \<times> buddy" where
  "expand page page_n high_order low_order s = expand_loop page page_n (2 ^ high_order) high_order low_order s"

definition take_page :: "nat \<Rightarrow> nat \<Rightarrow> nat \<Rightarrow> buddy \<Rightarrow> buddy_fault + addr \<times> buddy" where
  "take_page ord cur page s =
     (if phy_page_n s \<le> page then Inl OutOfArea
      else if physical_addr s page = NULL then Inl AssertFail
      else case list_del (Pg page) s of
          Inl e \<Rightarrow> Inl e
        | Inr s1 \<Rightarrow>
            if lnext s1 (Head cur) = Some (Pg page) then Inl AssertFail
            else
              let page_n = GET_PAGE_N s1 (physical_addr s1 page);
                  s2 = (if cur \<noteq> MAX_ORDER - 1 then MARK_USED page_n cur s1 else s1);
                  s3 = s2\<lparr>free_phy_page_n := sub32 (free_phy_page_n s2) (2 ^ ord)\<rparr>
              in case expand page page_n cur ord s3 of
                  Inl e \<Rightarrow> Inl e
                | Inr (page', s4) \<Rightarrow>
                    if phy_page_n s4 \<le> page' then Inl OutOfArea
                    else
                      let s5 = s4\<lparr>page_order := (page_order s4)(page' := ord),
                                  free_phy_page_n := sub32 (free_phy_page_n s4) (2 ^ ord)\<rparr>
                      in if \<not> GET_PAGE_N s5 (physical_addr s5 page') < 65537 then Inl AssertFail
                         else Inr (physical_addr s5 page', s5))"

text \<open>The search for a non-empty list, upwards from the requested order.\<close>

function alloc_loop :: "nat \<Rightarrow> nat \<Rightarrow> buddy \<Rightarrow> buddy_fault + addr \<times> buddy" where
  "alloc_loop ord cur s =
     (if MAX_ORDER \<le> cur then Inl OutOfArea
      else case lnext s (Head cur) of
          None \<Rightarrow> Inl AssertFail
        | Some (Pg page) \<Rightarrow> take_page ord cur page s
        | Some (Head j) \<Rightarrow>
            if j \<noteq> cur then Inl OutOfArea
            else if cur + 1 < MAX_ORDER then alloc_loop ord (cur + 1) s else Inr (NULL, s))"
  by pat_completeness auto
termination by (relation "measure (\<lambda>(ord, cur, s). MAX_ORDER - cur)") auto

declare alloc_loop.simps [simp del]

definition alloc_pages :: "int \<Rightarrow> buddy \<Rightarrow> buddy_fault + addr \<times> buddy" where
  "alloc_pages ord s = (if ord = - 1 then Inr (NULL, s) else alloc_loop (nat ord) (nat ord) s)"

definition bd_mm_malloc :: "nat \<Rightarrow> buddy \<Rightarrow> buddy_fault + addr \<times> buddy" where
  "bd_mm_malloc sz s = alloc_pages (memsize_to_order sz) s"

section \<open>Release\<close>

text \<open>The loop of \<open>mm_free\<close>: \<open>buddy\<close> is a copy of the buddy's descriptor, so only the neighbours of
  the list node change.\<close>

function free_loop :: "nat \<Rightarrow> nat \<Rightarrow> nat \<Rightarrow> buddy \<Rightarrow> buddy_fault + buddy" where
  "free_loop page_n ord bit_index s =
     (if MAX_ORDER \<le> ord then Inl OutOfArea
      else
        let (old, m) = bitmap_switch (heap s) (area_bitmap s ord) bit_index;
            s1 = s\<lparr>heap := m\<rparr>
        in if \<not> old then list_add (Head ord) (Pg page_n) s1
           else
             let buddy_idx = page_n XOR 2 ^ ord;
                 nx = lnext s1 (Pg buddy_idx);
                 pv = lprev s1 (Pg buddy_idx)
             in if nx = Some (Head ord) \<or> pv = Some (Head ord) \<or> nx = None \<or> pv = None then Inl AssertFail
                else case list_unlink pv nx s1 of
                    Inl e \<Rightarrow> Inl e
                  | Inr s2 \<Rightarrow> free_loop (push_bit (ord + 1) (drop_bit (ord + 1) page_n)) (ord + 1) (drop_bit 1 bit_index) s2)"
  by pat_completeness auto
termination by (relation "measure (\<lambda>(p, ord, b, s). MAX_ORDER - ord)") auto

declare free_loop.simps [simp del]

definition bd_mm_free :: "addr \<Rightarrow> buddy \<Rightarrow> buddy_fault + buddy" where
  "bd_mm_free ptr s =
     (let page_n = GET_PAGE_N s ptr
      in if phy_page_n s \<le> page_n then Inl OutOfArea
         else
           let ord = page_order s page_n
           in free_loop page_n ord (drop_bit (1 + ord) page_n) s)"

definition bd_mm_realloc :: "addr \<Rightarrow> nat \<Rightarrow> buddy \<Rightarrow> buddy_fault + addr \<times> buddy" where
  "bd_mm_realloc ptr sz s =
     (case bd_mm_malloc sz s of
        Inl e \<Rightarrow> Inl e
      | Inr (new, s1) \<Rightarrow>
          if new = NULL \<and> sz > 0 then Inl NullDeref
          else case bd_mm_free ptr (s1\<lparr>heap := memcpy (heap s1) new ptr sz\<rparr>) of
              Inl e \<Rightarrow> Inl e
            | Inr s2 \<Rightarrow> Inr (new, s2))"

section \<open>Circular lists\<close>

text \<open>The nodes \<open>xs\<close> are linked one after the other from \<open>a\<close> to \<open>b\<close>, in both directions.\<close>

fun linked :: "(lnode \<Rightarrow> lnode option) \<Rightarrow> (lnode \<Rightarrow> lnode option) \<Rightarrow> lnode \<Rightarrow> lnode list \<Rightarrow> lnode \<Rightarrow> bool" where
  "linked nx pv a [] b = (nx a = Some b \<and> pv b = Some a)"
| "linked nx pv a (x # xs) b = (nx a = Some x \<and> pv x = Some a \<and> linked nx pv x xs b)"

lemma linked_frame:
  "linked nx pv a xs b \<Longrightarrow> (\<And>n. n \<in> insert a (set xs) \<Longrightarrow> nx' n = nx n) \<Longrightarrow> (\<And>n. n \<in> insert b (set xs) \<Longrightarrow> pv' n = pv n)
    \<Longrightarrow> linked nx' pv' a xs b"
  by (induction xs arbitrary: a) auto

lemma linked_append: "linked nx pv a (xs @ x # ys) b \<longleftrightarrow> linked nx pv a xs x \<and> linked nx pv x ys b"
  by (induction xs arbitrary: a) auto

lemma linked_last: "linked nx pv a xs b \<Longrightarrow> pv b = Some (last (a # xs)) \<and> nx (last (a # xs)) = Some b"
  by (induction xs arbitrary: a) (auto split: if_splits)

lemma linked_hd: "linked nx pv a xs b \<Longrightarrow> nx a = Some (hd (xs @ [b])) \<and> pv (hd (xs @ [b])) = Some a"
  by (cases xs) auto

lemma linked_redirect:
  "linked nx pv a xs x \<Longrightarrow> distinct (a # xs) \<Longrightarrow> n \<notin> set xs \<Longrightarrow>
     linked (nx(last (a # xs) \<mapsto> n)) (pv(n \<mapsto> last (a # xs))) a xs n"
proof (induction xs arbitrary: a)
  case (Cons y ys)
  then have "linked (nx(last (y # ys) \<mapsto> n)) (pv(n \<mapsto> last (y # ys))) y ys n"
    by (intro Cons.IH) (use Cons.prems in auto)
  moreover have "last (y # ys) \<noteq> a" using Cons.prems(2) by (metis distinct.simps(2) last_in_set list.discI)
  ultimately show ?case using Cons.prems by (auto simp: fun_upd_def)
qed simp

lemma linked_unlink:
  assumes "linked nx pv a (ys @ x # zs) b" and "distinct (a # ys @ x # zs)" and "b \<notin> set (ys @ x # zs)"
  shows "linked (nx(last (a # ys) \<mapsto> hd (zs @ [b]))) (pv(hd (zs @ [b]) \<mapsto> last (a # ys))) a (ys @ zs) b"
proof -
  let ?p = "last (a # ys)" and ?n = "hd (zs @ [b])"
  have L: "linked nx pv a ys x" "linked nx pv x zs b" using assms(1) by (auto simp: linked_append)
  have n: "?n \<notin> set ys" using assms(2,3) by (cases zs) auto
  have F: "linked (nx(?p \<mapsto> ?n)) (pv(?n \<mapsto> ?p)) a ys ?n" by (rule linked_redirect [OF L(1) _ n]) (use assms(2) in auto)
  show ?thesis
  proof (cases zs)
    case Nil
    then show ?thesis using F by simp
  next
    case (Cons z zs')
    have p: "?p \<in> set (a # ys)" by (rule last_in_set) simp
    have "linked nx pv z zs' b" using L(2) Cons by simp
    then have "linked (nx(?p \<mapsto> z)) (pv(z \<mapsto> ?p)) z zs' b"
      by (rule linked_frame) (use p assms(2,3) Cons in auto)
    then show ?thesis using F Cons by (simp add: linked_append)
  qed
qed

lemma linked_push:
  assumes "linked nx pv h xs h" and "n \<noteq> h" and "n \<notin> set xs" and "distinct (h # xs)" and "nx h = Some f"
  shows "linked (nx(n \<mapsto> f, h \<mapsto> n)) (pv(f \<mapsto> n, n \<mapsto> h)) h (n # xs) h"
proof (cases xs)
  case Nil
  then show ?thesis using assms by auto
next
  case (Cons y ys)
  have "linked nx pv y ys h" using assms(1) Cons by simp
  then have "linked (nx(n \<mapsto> y, h \<mapsto> n)) (pv(y \<mapsto> n, n \<mapsto> h)) y ys h"
    by (rule linked_frame) (use assms Cons in auto)
  then show ?thesis using assms Cons by auto
qed

section \<open>Bits of the bitmap area\<close>

text \<open>The bit with number \<open>a\<close> of the memory.\<close>

definition abit :: "bytes \<Rightarrow> nat \<Rightarrow> bool" where
  "abit m a = bit (m (a div 8)) (a mod 8)"

lemma bit_nat_div: "bit (n :: nat) k \<longleftrightarrow> odd (n div 2 ^ k)"
  by (simp add: bit_iff_odd)

lemma bit_unat: "bit (w :: 'a :: len word) k \<longleftrightarrow> bit (unat w) k"
  by (simp add: bit_unsigned_iff)

lemma byte_bit: "k < 8 \<Longrightarrow> bit (word_of_nat n :: byte) k \<longleftrightarrow> bit n k"
  by (simp add: bit_of_nat_iff)

lemma bit_get32:
  assumes "k < 32"
  shows "bit (get32 m p) k \<longleftrightarrow> abit m (8 * p + k)"
proof -
  let ?i = "k div 8"
  have "put32 m p (get32 m p) (p + ?i) = word_of_nat (unat (get32 m p) div 256 ^ ?i)"
    unfolding put32_def using assms by (simp add: less_mult_imp_div_less)
  then have "m (p + ?i) = word_of_nat (unat (get32 m p) div 256 ^ ?i)" by simp
  then have "bit (m (p + ?i)) (k mod 8) \<longleftrightarrow> bit (unat (get32 m p) div 256 ^ ?i) (k mod 8)" by (simp add: byte_bit)
  also have "\<dots> \<longleftrightarrow> bit (unat (get32 m p)) (8 * ?i + k mod 8)"
  proof -
    have "(256 :: nat) ^ ?i = 2 ^ (8 * ?i)" by (simp add: power_mult)
    then show ?thesis by (simp only: bit_nat_div div_mult2_eq power_add)
  qed
  finally show ?thesis by (simp add: abit_def bit_unat)
qed

lemma abit_put32:
  "abit (put32 m p v) a = (if 8 * p \<le> a \<and> a < 8 * p + 32 then bit v (a - 8 * p) else abit m a)"
proof (cases "8 * p \<le> a \<and> a < 8 * p + 32")
  case True
  then obtain k where k: "a = 8 * p + k" "k < 32" by (metis le_Suc_ex nat_add_left_cancel_less)
  have "abit (put32 m p v) a = bit (get32 (put32 m p v) p) k" using bit_get32 [OF k(2), of "put32 m p v" p] k(1) by simp
  with k show ?thesis by simp
next
  case False
  then have "a div 8 < p \<or> p + 4 \<le> a div 8" by auto
  with False show ?thesis by (auto simp: abit_def put32_outside)
qed

definition bit_addr :: "addr \<Rightarrow> nat \<Rightarrow> nat" where
  "bit_addr bm pos = 8 * (bm + 4 * (pos div 64)) + pos mod 32"

lemma BITMAP_INDEX_div: "BITMAP_INDEX pos = pos div 64"
  by (simp add: BITMAP_INDEX_def drop_bit_eq_div)

lemma and_bit_zero: "k < 32 \<Longrightarrow> (w :: u32) AND push_bit k 1 = 0 \<longleftrightarrow> \<not> bit w k"
proof -
  assume k: "k < 32"
  have "w AND push_bit k 1 = (if bit w k then push_bit k 1 else 0)"
    by (rule bit_eqI) (auto simp: bit_and_iff bit_exp_iff)
  moreover have "push_bit k (1 :: u32) \<noteq> 0" using k by (simp add: push_bit_eq_mult)
  ultimately show ?thesis by simp
qed

lemma bitmap_get_abit: "bitmap_get m bm pos = abit m (bit_addr bm pos)"
  using and_bit_zero [of "pos mod 32"] bit_get32 [of "pos mod 32" m "bm + 4 * (pos div 64)"]
  by (simp add: bitmap_get_def BITMAP_INDEX_div bit_addr_def)

lemma abit_bitmap_set: "abit (snd (bitmap_set m bm pos b)) a = (if a = bit_addr bm pos then b else abit m a)"
proof -
  let ?p = "bm + 4 * (pos div 64)" and ?k = "pos mod 32"
  let ?v = "if b then get32 m ?p OR push_bit ?k 1 else get32 m ?p AND (NOT 0 XOR push_bit ?k 1)"
  have s: "snd (bitmap_set m bm pos b) = put32 m ?p ?v"
    by (simp add: bitmap_set_def Let_def BITMAP_INDEX_div)
  have v: "bit ?v j = (if j = ?k then b else bit (get32 m ?p) j)" if "j < 32" for j
    using that by (auto simp: bit_or_iff bit_and_iff bit_xor_iff bit_not_iff bit_exp_iff)
  show ?thesis
  proof (cases "8 * ?p \<le> a \<and> a < 8 * ?p + 32")
    case True
    then obtain j where j: "a = 8 * ?p + j" "j < 32" by (metis le_Suc_ex nat_add_left_cancel_less)
    then show ?thesis using v [OF j(2)] bit_get32 [OF j(2), of m ?p] unfolding s abit_put32 by (simp add: bit_addr_def)
  next
    case False
    then show ?thesis unfolding s abit_put32 by (auto simp: bit_addr_def)
  qed
qed

lemma bitmap_switch_abit:
  "fst (bitmap_switch m bm pos) = abit m (bit_addr bm pos)"
  "abit (snd (bitmap_switch m bm pos)) a = (if a = bit_addr bm pos then \<not> abit m a else abit m a)"
  by (auto simp: bitmap_switch_def Let_def bitmap_get_abit abit_bitmap_set)

section \<open>Blocks and free lists\<close>

definition span :: "nat \<times> nat \<Rightarrow> nat set" where
  "span = (\<lambda>(i, k). {i ..< i + 2 ^ k})"

definition free_blocks :: "(nat \<Rightarrow> nat list) \<Rightarrow> (nat \<times> nat) set" where
  "free_blocks fl = {(i, k). k < MAX_ORDER \<and> i \<in> set (fl k)}"

text \<open>A set of aligned blocks that covers the pages without overlap.\<close>

definition tiles :: "(nat \<times> nat) set \<Rightarrow> bool" where
  "tiles B \<longleftrightarrow> (\<forall>(i, k) \<in> B. k < MAX_ORDER \<and> 2 ^ k dvd i \<and> i + 2 ^ k \<le> 65536)
     \<and> (\<forall>b \<in> B. \<forall>c \<in> B. b \<noteq> c \<longrightarrow> span b \<inter> span c = {}) \<and> \<Union> (span ` B) = {..<65536}"

definition rings_ok :: "(lnode \<Rightarrow> lnode option) \<Rightarrow> (lnode \<Rightarrow> lnode option) \<Rightarrow> (nat \<Rightarrow> nat list) \<Rightarrow> bool" where
  "rings_ok nx pv fl \<longleftrightarrow> (\<forall>k < MAX_ORDER. distinct (fl k) \<and> linked nx pv (Head k) (map Pg (fl k)) (Head k))"

text \<open>Where \<open>mapping_bitmap\<close> puts the bitmap of an order: each is half as long as the one before, down to
  one byte.\<close>

definition bitmap_off :: "nat \<Rightarrow> nat" where
  "bitmap_off k = (if k \<le> 13 then 8192 - 2 ^ (13 - k) else 8178 + k)"

definition layout_ok :: "buddy \<Rightarrow> bool" where
  "layout_ok s \<longleftrightarrow> phy_page_n s = 65536 \<and> 0 < physical_memory_area s \<and> 8 dvd physical_memory_area s
     \<and> physical_memory_area s + 2 ^ 24 < 2 ^ 32 \<and> (\<forall>i < 65536. physical_addr s i = physical_memory_area s + i * 256)
     \<and> bitmap_area s + 8197 \<le> physical_memory_area s \<and> (\<forall>k < MAX_ORDER. area_bitmap s k = bitmap_area s + bitmap_off k)"

text \<open>The state between the operations on the lists: \<open>L\<close> are the blocks in use, \<open>E\<close> the blocks that are
  neither in use nor in a list (at most one, the block in hand).\<close>

definition buddy_mid :: "buddy \<Rightarrow> (nat \<Rightarrow> nat list) \<Rightarrow> (nat \<times> nat) set \<Rightarrow> (nat \<times> nat) set \<Rightarrow> bool" where
  "buddy_mid s fl L E \<longleftrightarrow> layout_ok s \<and> rings_ok (lnext s) (lprev s) fl
     \<and> tiles (free_blocks fl \<union> L \<union> E) \<and> free_blocks fl \<inter> L = {} \<and> (free_blocks fl \<union> L) \<inter> E = {}
     \<and> (\<forall>b \<in> L. page_order s (fst b) = snd b)"

definition buddy_ok :: "buddy \<Rightarrow> (nat \<Rightarrow> nat list) \<Rightarrow> (nat \<times> nat) set \<Rightarrow> bool" where
  "buddy_ok s fl L \<longleftrightarrow> buddy_mid s fl L {}"

lemma span_simp [simp]: "span (i, k) = {i ..< i + 2 ^ k}"
  by (simp add: span_def)

lemma span_nonempty: "i \<in> span (i, k)"
  by simp

lemma tilesD: "tiles B \<Longrightarrow> (i, k) \<in> B \<Longrightarrow> k < MAX_ORDER \<and> 2 ^ k dvd i \<and> i + 2 ^ k \<le> 65536"
  by (auto simp: tiles_def)

lemma tiles_disjoint: "tiles B \<Longrightarrow> b \<in> B \<Longrightarrow> c \<in> B \<Longrightarrow> x \<in> span b \<Longrightarrow> x \<in> span c \<Longrightarrow> b = c"
  unfolding tiles_def by (metis IntI empty_iff)

lemma tiles_fst: "tiles B \<Longrightarrow> (i, k) \<in> B \<Longrightarrow> (i, j) \<in> B \<Longrightarrow> k = j"
  using tiles_disjoint [of B "(i, k)" "(i, j)" i] by simp

text \<open>Replacing blocks by others with the same pages.\<close>

lemma tiles_replace:
  assumes T: "tiles (B \<union> C)" and d: "B \<inter> C = {}"
    and ok: "\<And>i k. (i, k) \<in> D \<Longrightarrow> k < MAX_ORDER \<and> 2 ^ k dvd i \<and> i + 2 ^ k \<le> 65536"
    and dis: "\<And>b c. b \<in> D \<Longrightarrow> c \<in> D \<Longrightarrow> b \<noteq> c \<Longrightarrow> span b \<inter> span c = {}"
    and eq: "\<Union> (span ` D) = \<Union> (span ` C)"
  shows "tiles (B \<union> D) \<and> B \<inter> D = {}"
proof -
  have BC: "span b \<inter> \<Union> (span ` C) = {}" if "b \<in> B" for b
  proof (rule ccontr)
    assume "span b \<inter> \<Union> (span ` C) \<noteq> {}"
    then obtain x c where "c \<in> C" "x \<in> span b" "x \<in> span c" by blast
    then show False using tiles_disjoint [OF T, of b c x] that d by blast
  qed
  have BD: "span b \<inter> span c = {}" if "b \<in> B" "c \<in> D" for b c
    using BC [OF that(1)] that(2) unfolding eq [symmetric] by blast
  have T1: "\<forall>(i, k) \<in> B. k < MAX_ORDER \<and> 2 ^ k dvd i \<and> i + 2 ^ k \<le> 65536"
    using T by (simp add: tiles_def)
  have T2: "span b \<inter> span c = {}" if "b \<in> B" "c \<in> B" "b \<noteq> c" for b c
    using T that by (simp add: tiles_def)
  have T3: "\<Union> (span ` B) \<union> \<Union> (span ` C) = {..<65536}"
    using T by (simp add: tiles_def image_Un)
  have "span b \<inter> span c = {}" if "b \<in> B \<union> D" "c \<in> B \<union> D" "b \<noteq> c" for b c
    using that T2 [of b c] dis [of b c] BD [of b c] BD [of c b] by (auto simp: Int_commute)
  moreover have "\<Union> (span ` (B \<union> D)) = {..<65536}" using T3 unfolding eq [symmetric] by (simp add: image_Un)
  moreover have "\<forall>(i, k) \<in> B \<union> D. k < MAX_ORDER \<and> 2 ^ k dvd i \<and> i + 2 ^ k \<le> 65536" using T1 ok by blast
  ultimately have "tiles (B \<union> D)" unfolding tiles_def by blast
  moreover have "B \<inter> D = {}"
  proof (rule ccontr)
    assume "B \<inter> D \<noteq> {}"
    then obtain i k where "(i, k) \<in> B" "(i, k) \<in> D" by auto
    then show False using BD [of "(i, k)" "(i, k)"] by auto
  qed
  ultimately show ?thesis by simp
qed

lemma split_span: "span (i, Suc k) = span (i, k) \<union> span (i + 2 ^ k, k)"
  by auto

lemma tiles_split:
  assumes "tiles (B \<union> {(i, Suc k)})" and "B \<inter> {(i, Suc k)} = {}"
  shows "tiles (B \<union> {(i, k), (i + 2 ^ k, k)}) \<and> B \<inter> {(i, k), (i + 2 ^ k, k)} = {}"
proof (rule tiles_replace [OF assms])
  have D: "Suc k < MAX_ORDER" "2 ^ Suc k dvd i" "i + 2 ^ Suc k \<le> 65536"
    using tilesD [OF assms(1), of i "Suc k"] by auto
  show "l < MAX_ORDER \<and> 2 ^ l dvd j \<and> j + 2 ^ l \<le> 65536" if "(j, l) \<in> {(i, k), (i + 2 ^ k, k)}" for j l
  proof -
    have "2 ^ k dvd i" using D(2) by (metis dvd_trans le_imp_power_dvd lessI less_imp_le)
    then show ?thesis using that D by auto
  qed
  show "\<Union> (span ` {(i, k), (i + 2 ^ k, k)}) = \<Union> (span ` {(i, Suc k)})" using split_span [of i k] by simp
qed auto

lemma tiles_merge:
  assumes "tiles (B \<union> {(i, k), (i + 2 ^ k, k)})" and "B \<inter> {(i, k), (i + 2 ^ k, k)} = {}"
    and "Suc k < MAX_ORDER" and "2 ^ Suc k dvd i"
  shows "tiles (B \<union> {(i, Suc k)}) \<and> B \<inter> {(i, Suc k)} = {}"
proof (rule tiles_replace [OF assms(1,2)])
  show "l < MAX_ORDER \<and> 2 ^ l dvd j \<and> j + 2 ^ l \<le> 65536" if "(j, l) \<in> {(i, Suc k)}" for j l
    using that assms(3,4) tilesD [OF assms(1), of "i + 2 ^ k" k] by auto
  show "\<Union> (span ` {(i, Suc k)}) = \<Union> (span ` {(i, k), (i + 2 ^ k, k)})" using split_span [of i k] by simp
qed auto

end
