(* ===== verification/Buddy_Correct.thy ===== *)
theory Buddy_Correct
  imports Buddy
begin

text \<open>
  What the buddy allocator guarantees: allocation keeps the pages tiled by the free lists and the
  blocks in use, and yields a block that is disjoint from all others.  Release is correct or stops at
  an assertion, and it stops there right away after the first allocation.
\<close>

section \<open>The lists of the free areas\<close>

lemma MAX_ORDER_16 [simp]: "MAX_ORDER = 16"
  by (simp add: MAX_ORDER_def PAGE_SHIFT_def)

definition apart :: "(nat \<Rightarrow> nat list) \<Rightarrow> bool" where
  "apart fl \<longleftrightarrow> (\<forall>j < 16. \<forall>k < 16. j \<noteq> k \<longrightarrow> set (fl j) \<inter> set (fl k) = {})"

lemma distinct_ring: "distinct xs \<Longrightarrow> distinct (Head k # map Pg xs)"
  by (auto simp: distinct_map inj_on_def)

lemma rings_push:
  assumes R: "rings_ok nx pv fl" and A: "apart fl" and k: "k < 16" and n: "\<And>j. j < 16 \<Longrightarrow> n \<notin> set (fl j)"
    and f: "nx (Head k) = Some f"
  shows "rings_ok (nx(Pg n \<mapsto> f, Head k \<mapsto> Pg n)) (pv(f \<mapsto> Pg n, Pg n \<mapsto> Head k)) (fl(k := n # fl k))"
proof -
  have L: "distinct (fl j)" "linked nx pv (Head j) (map Pg (fl j)) (Head j)" if "j < 16" for j
    using R that by (auto simp: rings_ok_def)
  have fk: "f = hd (map Pg (fl k) @ [Head k])" using linked_hd [OF L(2) [OF k]] f by simp
  then have f': "f = Head k \<or> (\<exists>x \<in> set (fl k). f = Pg x)" by (cases "fl k") auto
  have "distinct ((fl(k := n # fl k)) j)
      \<and> linked (nx(Pg n \<mapsto> f, Head k \<mapsto> Pg n)) (pv(f \<mapsto> Pg n, Pg n \<mapsto> Head k)) (Head j) (map Pg ((fl(k := n # fl k)) j)) (Head j)"
    if j: "j < 16" for j
  proof (cases "j = k")
    case True
    have "linked (nx(Pg n \<mapsto> f, Head k \<mapsto> Pg n)) (pv(f \<mapsto> Pg n, Pg n \<mapsto> Head k)) (Head k) (Pg n # map Pg (fl k)) (Head k)"
      by (rule linked_push [OF L(2) [OF k] _ _ distinct_ring f]) (use n [OF k] L(1) [OF k] in auto)
    then show ?thesis using True n [OF k] L(1) [OF k] by simp
  next
    case False
    have d: "set (fl j) \<inter> set (fl k) = {}" using A False j k unfolding apart_def by blast
    have "linked (nx(Pg n \<mapsto> f, Head k \<mapsto> Pg n)) (pv(f \<mapsto> Pg n, Pg n \<mapsto> Head k)) (Head j) (map Pg (fl j)) (Head j)"
      by (rule linked_frame [OF L(2) [OF j]]) (use False n [OF j] d f' in auto)
    then show ?thesis using False L(1) [OF j] by simp
  qed
  then show ?thesis unfolding rings_ok_def by simp
qed

lemma rings_remove:
  assumes R: "rings_ok nx pv fl" and A: "apart fl" and k: "k < 16" and x: "fl k = ys @ x # zs"
  defines "p \<equiv> last (Head k # map Pg ys)" and "n \<equiv> hd (map Pg zs @ [Head k])"
  shows "rings_ok (nx(p \<mapsto> n)) (pv(n \<mapsto> p)) (fl(k := ys @ zs))" and "nx (Pg x) = Some n" and "pv (Pg x) = Some p"
proof -
  have L: "distinct (fl j)" "linked nx pv (Head j) (map Pg (fl j)) (Head j)" if "j < 16" for j
    using R that by (auto simp: rings_ok_def)
  have X: "linked nx pv (Head k) (map Pg ys @ Pg x # map Pg zs) (Head k)" using L(2) [OF k] x by simp
  have dis: "distinct (Head k # map Pg ys @ Pg x # map Pg zs)" using distinct_ring [OF L(1) [OF k], of k] x by simp
  show "nx (Pg x) = Some n" "pv (Pg x) = Some p"
    using X linked_hd linked_last unfolding linked_append p_def n_def by blast+
  have p': "p = Head k \<or> (\<exists>y \<in> set (fl k). p = Pg y)" unfolding p_def using x by (cases ys rule: rev_cases) auto
  have n': "n = Head k \<or> (\<exists>y \<in> set (fl k). n = Pg y)" unfolding n_def using x by (cases zs) auto
  have "distinct ((fl(k := ys @ zs)) j) \<and> linked (nx(p \<mapsto> n)) (pv(n \<mapsto> p)) (Head j) (map Pg ((fl(k := ys @ zs)) j)) (Head j)"
    if j: "j < 16" for j
  proof (cases "j = k")
    case True
    have "linked (nx(p \<mapsto> n)) (pv(n \<mapsto> p)) (Head k) (map Pg ys @ map Pg zs) (Head k)"
      unfolding p_def n_def by (rule linked_unlink [OF X dis]) auto
    then show ?thesis using True L(1) [OF k] x by simp
  next
    case False
    have d: "set (fl j) \<inter> set (fl k) = {}" using A False j k unfolding apart_def by blast
    have "linked (nx(p \<mapsto> n)) (pv(n \<mapsto> p)) (Head j) (map Pg (fl j)) (Head j)"
      by (rule linked_frame [OF L(2) [OF j]]) (use False d p' n' in auto)
    then show ?thesis using False L(1) [OF j] by simp
  qed
  then show "rings_ok (nx(p \<mapsto> n)) (pv(n \<mapsto> p)) (fl(k := ys @ zs))" unfolding rings_ok_def by simp
qed

lemma rings_clear:
  assumes "rings_ok nx pv fl" and "\<And>j. j < 16 \<Longrightarrow> x \<notin> set (fl j)"
  shows "rings_ok (nx(Pg x := None)) (pv(Pg x := None)) fl"
proof -
  have "linked (nx(Pg x := None)) (pv(Pg x := None)) (Head j) (map Pg (fl j)) (Head j)" if "j < 16" for j
    by (rule linked_frame [of nx pv]) (use assms that in \<open>auto simp: rings_ok_def\<close>)
  then show ?thesis using assms(1) by (simp add: rings_ok_def)
qed

section \<open>Steps on a state with a block in hand\<close>

lemma buddy_midD:
  assumes "buddy_mid s fl L E"
  shows "tiles (free_blocks fl \<union> L \<union> E)" "rings_ok (lnext s) (lprev s) fl" "layout_ok s" "free_blocks fl \<inter> L = {}"
    "(free_blocks fl \<union> L) \<inter> E = {}" "\<forall>b \<in> L. page_order s (fst b) = snd b"
  using assms by (auto simp only: buddy_mid_def)

lemma ringD: "buddy_mid s fl L E \<Longrightarrow> k < 16 \<Longrightarrow> linked (lnext s) (lprev s) (Head k) (map Pg (fl k)) (Head k)"
  using buddy_midD(2) [of s fl L E] by (simp add: rings_ok_def)

lemma mid_apart:
  assumes "buddy_mid s fl L E"
  shows "apart fl" unfolding apart_def
proof (intro allI impI, rule ccontr)
  fix j k assume jk: "j < 16" "k < 16" "j \<noteq> k" "set (fl j) \<inter> set (fl k) \<noteq> {}"
  then obtain i where "i \<in> set (fl j)" "i \<in> set (fl k)" by auto
  then have "(i, j) \<in> free_blocks fl \<union> L \<union> E" "(i, k) \<in> free_blocks fl \<union> L \<union> E" using jk by (auto simp: free_blocks_def)
  with jk(3) assms show False unfolding buddy_mid_def using tiles_fst by blast
qed

lemma mid_hand_not_free:
  assumes "buddy_mid s fl L E" and "(i, k) \<in> E" and "j < 16"
  shows "i \<notin> set (fl j)"
proof
  assume "i \<in> set (fl j)"
  then have f: "(i, j) \<in> free_blocks fl" using assms(3) by (simp add: free_blocks_def)
  then have "j = k" using assms tiles_fst [of "free_blocks fl \<union> L \<union> E" i j k] unfolding buddy_mid_def by blast
  with f assms show False unfolding buddy_mid_def by blast
qed

lemma free_blocks_push: "k < 16 \<Longrightarrow> free_blocks (fl(k := n # fl k)) = insert (n, k) (free_blocks fl)"
  by (auto simp: free_blocks_def split: if_splits)

lemma free_blocks_remove:
  "k < 16 \<Longrightarrow> distinct (fl k) \<Longrightarrow> fl k = ys @ x # zs \<Longrightarrow> free_blocks (fl(k := ys @ zs)) = free_blocks fl - {(x, k)}"
  by (auto simp: free_blocks_def split: if_splits)

lemma mid_update [simp]:
  "buddy_mid (s\<lparr>heap := m\<rparr>) fl L E = buddy_mid s fl L E"
  "buddy_mid (s\<lparr>free_phy_page_n := n\<rparr>) fl L E = buddy_mid s fl L E"
  "buddy_mid (MARK_USED a b s) fl L E = buddy_mid s fl L E"
  by (simp_all add: buddy_mid_def layout_ok_def MARK_USED_def)

lemma list_add_mid:
  assumes M: "buddy_mid s fl L (insert (i, k) E)" and nE: "(i, k) \<notin> E"
  obtains f where "list_add (Head k) (Pg i) s = Inr (list_add3 (Pg i) (Head k) f s)" "k < 16"
    "buddy_mid (list_add3 (Pg i) (Head k) f s) (fl(k := i # fl k)) L E"
proof -
  note T = buddy_midD(1) [OF M] and R = buddy_midD(2) [OF M] and lay = buddy_midD(3) [OF M]
    and D = buddy_midD(4,5) [OF M] and P = buddy_midD(6) [OF M]
  have k: "k < 16" using tilesD [OF T, of i k] by simp
  have "linked (lnext s) (lprev s) (Head k) (map Pg (fl k)) (Head k)" using R k by (simp add: rings_ok_def)
  then obtain f where f: "lnext s (Head k) = Some f" using linked_hd by blast
  let ?s = "list_add3 (Pg i) (Head k) f s"
  have n: "i \<notin> set (fl j)" if "j < 16" for j using mid_hand_not_free [OF M _ that] by blast
  have R': "rings_ok (lnext ?s) (lprev ?s) (fl(k := i # fl k))"
    unfolding list_add3_def using rings_push [OF R mid_apart [OF M] k n f] by simp
  have F: "free_blocks (fl(k := i # fl k)) = insert (i, k) (free_blocks fl)" using free_blocks_push [OF k] by simp
  have "buddy_mid ?s (fl(k := i # fl k)) L E"
    unfolding buddy_mid_def F
    using T R' lay D P nE by (simp add: list_add3_def layout_ok_def insert_commute Un_insert_left)
  then show ?thesis using that f k by (simp add: list_add_def)
qed

lemma list_unlink_mid:
  assumes M: "buddy_mid s fl L E" and k: "k < 16" and x: "fl k = ys @ x # zs"
  defines "p \<equiv> last (Head k # map Pg ys)" and "n \<equiv> hd (map Pg zs @ [Head k])"
  shows "buddy_mid (s\<lparr>lnext := (lnext s)(p \<mapsto> n), lprev := (lprev s)(n \<mapsto> p)\<rparr>) (fl(k := ys @ zs)) L (insert (x, k) E)"
    and "lnext s (Pg x) = Some n" and "lprev s (Pg x) = Some p" and "(x, k) \<notin> E"
proof -
  note T = buddy_midD(1) [OF M] and R = buddy_midD(2) [OF M] and lay = buddy_midD(3) [OF M]
    and D = buddy_midD(4,5) [OF M] and P = buddy_midD(6) [OF M]
  note RR = rings_remove [OF R mid_apart [OF M] k x, folded p_def n_def]
  show "lnext s (Pg x) = Some n" "lprev s (Pg x) = Some p" using RR by auto
  have in_f: "(x, k) \<in> free_blocks fl" using k x by (simp add: free_blocks_def)
  then show "(x, k) \<notin> E" using D by blast
  have F: "free_blocks (fl(k := ys @ zs)) = free_blocks fl - {(x, k)}"
  proof (rule free_blocks_remove)
    show "distinct (fl k)" using R k by (simp add: rings_ok_def)
  qed (fact k x)+
  have T': "free_blocks fl - {(x, k)} \<union> L \<union> insert (x, k) E = free_blocks fl \<union> L \<union> E" using in_f by blast
  show "buddy_mid (s\<lparr>lnext := (lnext s)(p \<mapsto> n), lprev := (lprev s)(n \<mapsto> p)\<rparr>) (fl(k := ys @ zs)) L (insert (x, k) E)"
    unfolding buddy_mid_def F T' using T RR(1) lay D P in_f by (simp add: layout_ok_def) blast
qed

section \<open>Allocation\<close>

text \<open>The lists after \<open>expand\<close> has split the block \<open>(i, high)\<close> down to the order \<open>low\<close>.\<close>

definition expand_lists :: "nat \<Rightarrow> nat \<Rightarrow> nat \<Rightarrow> (nat \<Rightarrow> nat list) \<Rightarrow> (nat \<Rightarrow> nat list)" where
  "expand_lists i high low fl = (\<lambda>j. if low \<le> j \<and> j < high then (i + 2 ^ high - 2 ^ Suc j) # fl j else fl j)"

lemma expand_lists_step:
  assumes "low < Suc h"
  shows "expand_lists (i + 2 ^ h) h low (fl(h := i # fl h)) = expand_lists i (Suc h) low fl"
  using assms by (auto simp: expand_lists_def fun_eq_iff)

lemma expand_lists_same [simp]: "expand_lists i k k fl = fl"
  by (auto simp: expand_lists_def)

lemma list_add3_fields [simp]:
  "heap (list_add3 a b c s) = heap s" "page_order (list_add3 a b c s) = page_order s" "phy_page_n (list_add3 a b c s) = phy_page_n s"
  "area_bitmap (list_add3 a b c s) = area_bitmap s" "physical_addr (list_add3 a b c s) = physical_addr s"
  "physical_memory_area (list_add3 a b c s) = physical_memory_area s" "bitmap_area (list_add3 a b c s) = bitmap_area s"
  "free_phy_page_n (list_add3 a b c s) = free_phy_page_n s" "lnext (list_add3 a b c s) a \<noteq> None" "lprev (list_add3 a b c s) a \<noteq> None"
  by (simp_all add: list_add3_def)

lemma MARK_USED_fields [simp]:
  "lnext (MARK_USED a b s) = lnext s" "lprev (MARK_USED a b s) = lprev s" "page_order (MARK_USED a b s) = page_order s"
  "phy_page_n (MARK_USED a b s) = phy_page_n s" "area_bitmap (MARK_USED a b s) = area_bitmap s"
  "physical_addr (MARK_USED a b s) = physical_addr s" "physical_memory_area (MARK_USED a b s) = physical_memory_area s"
  "bitmap_area (MARK_USED a b s) = bitmap_area s" "free_phy_page_n (MARK_USED a b s) = free_phy_page_n s"
  by (simp_all add: MARK_USED_def)

text \<open>The bit of a block and its buddy.\<close>

definition pair_bit :: "buddy \<Rightarrow> nat \<Rightarrow> nat \<Rightarrow> nat" where
  "pair_bit s k i = bit_addr (area_bitmap s k) (drop_bit (1 + k) i)"

lemma MARK_USED_bits: "abit (heap (MARK_USED i k s)) a = (if a = pair_bit s k i then \<not> abit (heap s) a else abit (heap s) a)"
  by (simp add: MARK_USED_def pair_bit_def bitmap_switch_abit)

definition same_frame :: "buddy \<Rightarrow> buddy \<Rightarrow> bool" where
  "same_frame s s' \<longleftrightarrow> area_bitmap s' = area_bitmap s \<and> physical_addr s' = physical_addr s
     \<and> physical_memory_area s' = physical_memory_area s \<and> phy_page_n s' = phy_page_n s \<and> bitmap_area s' = bitmap_area s"

lemma pair_bit_frame: "same_frame s s' \<Longrightarrow> pair_bit s' k i = pair_bit s k i"
  by (simp add: pair_bit_def same_frame_def)

text \<open>The bits after one more turn of \<open>expand\<close>: \<open>pos j\<close> is the bit that the turn for order \<open>j\<close> flips.\<close>

lemma expand_bits_step:
  assumes low: "low \<le> h" and S: "\<And>a. abit h1 a = (if a = pos h then \<not> abit h0 a else abit h0 a)"
    and K: "\<forall>a. (\<forall>j. low \<le> j \<and> j < h \<longrightarrow> a \<noteq> pos j) \<longrightarrow> abit h2 a = abit h1 a"
    and F: "\<forall>a. low < h \<and> a = pos low \<and> (\<forall>j. low < j \<and> j < h \<longrightarrow> a \<noteq> pos j) \<longrightarrow> abit h2 a = (\<not> abit h1 a)"
  shows "\<forall>a. (\<forall>j. low \<le> j \<and> j < Suc h \<longrightarrow> a \<noteq> pos j) \<longrightarrow> abit h2 a = abit h0 a"
    and "\<forall>a. low < Suc h \<and> a = pos low \<and> (\<forall>j. low < j \<and> j < Suc h \<longrightarrow> a \<noteq> pos j) \<longrightarrow> abit h2 a = (\<not> abit h0 a)"
proof -
  show "\<forall>a. (\<forall>j. low \<le> j \<and> j < Suc h \<longrightarrow> a \<noteq> pos j) \<longrightarrow> abit h2 a = abit h0 a" using low S K by auto
  show "\<forall>a. low < Suc h \<and> a = pos low \<and> (\<forall>j. low < j \<and> j < Suc h \<longrightarrow> a \<noteq> pos j) \<longrightarrow> abit h2 a = (\<not> abit h0 a)"
  proof (cases "low = h")
    case True
    then show ?thesis using K S by auto
  next
    case False
    then show ?thesis using F S low by auto
  qed
qed

lemma expand_loop_correct:
  "buddy_mid s fl L {(i, high)} \<Longrightarrow> low \<le> high \<Longrightarrow>
    \<exists>s'. expand_loop i i (2 ^ high) high low s = Inr (i + 2 ^ high - 2 ^ low, s')
      \<and> buddy_mid s' (expand_lists i high low fl) L {(i + 2 ^ high - 2 ^ low, low)}
      \<and> page_order s' = page_order s \<and> free_phy_page_n s' = free_phy_page_n s \<and> same_frame s s'
      \<and> (\<forall>a. (\<forall>j. low \<le> j \<and> j < high \<longrightarrow> a \<noteq> pair_bit s j (i + 2 ^ high - 2 ^ Suc j)) \<longrightarrow> abit (heap s') a = abit (heap s) a)
      \<and> (\<forall>a. low < high \<and> a = pair_bit s low (i + 2 ^ high - 2 ^ Suc low)
            \<and> (\<forall>j. low < j \<and> j < high \<longrightarrow> a \<noteq> pair_bit s j (i + 2 ^ high - 2 ^ Suc j)) \<longrightarrow> abit (heap s') a = (\<not> abit (heap s) a))"
proof (induction high arbitrary: s fl i)
  case 0
  then show ?case by (simp add: same_frame_def)
next
  case (Suc h)
  show ?case
  proof (cases "low = Suc h")
    case True
    then show ?thesis using Suc.prems by (auto simp: same_frame_def)
  next
    case False
    then have low: "low \<le> h" using Suc.prems by simp
    note D = buddy_midD [OF Suc.prems(1)]
    have B: "Suc h < 16" "i + 2 ^ Suc h \<le> 65536" using tilesD [OF D(1), of i "Suc h"] by auto
    have i: "i < phy_page_n s"
      using B D(3) less_le_trans [of i "i + 2 ^ Suc h" 65536] by (simp add: layout_ok_def)
    have "tiles (free_blocks fl \<union> L \<union> {(i, h), (i + 2 ^ h, h)}) \<and> (free_blocks fl \<union> L) \<inter> {(i, h), (i + 2 ^ h, h)} = {}"
      by (rule tiles_split) (use D in auto)
    then have "buddy_mid s fl L (insert (i, h) {(i + 2 ^ h, h)})" using D unfolding buddy_mid_def by blast
    then obtain f where f: "list_add (Head h) (Pg i) s = Inr (list_add3 (Pg i) (Head h) f s)"
      "buddy_mid (list_add3 (Pg i) (Head h) f s) (fl(h := i # fl h)) L {(i + 2 ^ h, h)}"
      by (rule list_add_mid) auto
    let ?s = "MARK_USED i h (list_add3 (Pg i) (Head h) f s)"
    have pb: "pair_bit ?s = pair_bit s" by (simp add: pair_bit_def fun_eq_iff)
    have M: "buddy_mid ?s (fl(h := i # fl h)) L {(i + 2 ^ h, h)}" using f(2) by simp
    have e: "i + 2 ^ h + 2 ^ h = i + 2 ^ Suc h" by simp
    obtain s' where s': "expand_loop (i + 2 ^ h) (i + 2 ^ h) (2 ^ h) h low ?s = Inr (i + 2 ^ Suc h - 2 ^ low, s')"
      "buddy_mid s' (expand_lists (i + 2 ^ h) h low (fl(h := i # fl h))) L {(i + 2 ^ Suc h - 2 ^ low, low)}"
      "page_order s' = page_order ?s" "free_phy_page_n s' = free_phy_page_n ?s" "same_frame ?s s'"
      and K: "\<forall>a. (\<forall>j. low \<le> j \<and> j < h \<longrightarrow> a \<noteq> pair_bit s j (i + 2 ^ Suc h - 2 ^ Suc j)) \<longrightarrow> abit (heap s') a = abit (heap ?s) a"
      and F: "\<forall>a. low < h \<and> a = pair_bit s low (i + 2 ^ Suc h - 2 ^ Suc low)
            \<and> (\<forall>j. low < j \<and> j < h \<longrightarrow> a \<noteq> pair_bit s j (i + 2 ^ Suc h - 2 ^ Suc j)) \<longrightarrow> abit (heap s') a = (\<not> abit (heap ?s) a)"
      using Suc.IH [OF M low] unfolding e pb by blast
    have run: "expand_loop i i (2 ^ Suc h) (Suc h) low s = Inr (i + 2 ^ Suc h - 2 ^ low, s')"
      using False Suc.prems(2) i f(1) s'(1) by (simp add: Let_def drop_bit_eq_div)
    have S: "abit (heap ?s) a = (if a = pair_bit s h i then \<not> abit (heap s) a else abit (heap s) a)" for a
      using MARK_USED_bits [of i h "list_add3 (Pg i) (Head h) f s" a] by (simp add: pair_bit_def)
    have fr: "same_frame s s'" using s'(5) by (simp add: same_frame_def)
    note bits = expand_bits_step [of low h "heap ?s" "\<lambda>j. pair_bit s j (i + 2 ^ Suc h - 2 ^ Suc j)" "heap s" "heap s'", unfolded add_diff_cancel_right', OF low S K F]
    show ?thesis
      using run s'(2,3,4) fr bits expand_lists_step [of low h i fl] low by auto
  qed
qed

section \<open>Where the bits are\<close>

lemma bitmap_off_step:
  assumes "j < 15"
  shows "8 * bitmap_off j + 2 ^ (15 - j) \<le> 8 * bitmap_off (Suc j)"
proof (cases "j \<le> 12")
  case True
  then obtain d where d: "12 - j = d" "13 - j = Suc d" "15 - j = Suc (Suc (Suc d))" "d \<le> 12" by auto
  have "(2 :: nat) ^ d \<le> 2 ^ 12" by (rule power_increasing) (use d in auto)
  moreover have "13 - Suc j = d" using d(1) by simp
  ultimately show ?thesis using True d by (simp add: bitmap_off_def)
next
  case False
  then have "j = 13 \<or> j = 14" using assms by auto
  then show ?thesis by (auto simp: bitmap_off_def)
qed

lemma bitmap_off_less: "j < k \<Longrightarrow> k < 16 \<Longrightarrow> 8 * bitmap_off j + 2 ^ (15 - j) \<le> 8 * bitmap_off k"
proof (induction k)
  case (Suc k)
  show ?case
  proof (cases "j = k")
    case True
    then show ?thesis using bitmap_off_step [of j] Suc.prems by simp
  next
    case False
    then have "8 * bitmap_off j + 2 ^ (15 - j) \<le> 8 * bitmap_off k" using Suc by simp
    also have "\<dots> \<le> 8 * bitmap_off (Suc k)" using bitmap_off_step [of k] Suc.prems by simp
    finally show ?thesis .
  qed
qed simp

lemma pair_pos_less: "k < 16 \<Longrightarrow> i < 65536 \<Longrightarrow> drop_bit (1 + k) i < (2 :: nat) ^ (15 - k)"
proof -
  assume k: "k < 16" and i: "i < 65536"
  have "(2 :: nat) ^ (15 - k) * 2 ^ (1 + k) = 2 ^ 16" using k unfolding power_add [symmetric] by simp
  then have "2 ^ (15 - k) * 2 ^ (1 + k) = (65536 :: nat)" by (rule trans) simp
  then have "i < 2 ^ (15 - k) * 2 ^ (1 + k)" using i by (simp only:)
  then show ?thesis unfolding drop_bit_eq_div by (rule less_mult_imp_div_less)
qed

lemma pair_bit_bounds:
  assumes "layout_ok s" "k < 16" "i < 65536"
  shows "8 * (bitmap_area s + bitmap_off k) \<le> pair_bit s k i"
    and "pair_bit s k i < 8 * (bitmap_area s + bitmap_off k) + 2 ^ (15 - k)"
proof -
  let ?q = "drop_bit (1 + k) i"
  have b: "pair_bit s k i = 8 * (bitmap_area s + bitmap_off k) + (32 * (?q div 64) + ?q mod 32)"
    using assms(1,2) by (simp add: pair_bit_def bit_addr_def layout_ok_def algebra_simps)
  have "?q mod 32 \<le> ?q mod 64" using mod_mod_cancel [of 32 64 ?q] mod_less_eq_dividend [of "?q mod 64" 32] by simp
  then have "32 * (?q div 64) + ?q mod 32 \<le> ?q" using mult_div_mod_eq [of 64 ?q] by linarith
  then show "8 * (bitmap_area s + bitmap_off k) \<le> pair_bit s k i"
    "pair_bit s k i < 8 * (bitmap_area s + bitmap_off k) + 2 ^ (15 - k)"
    using b pair_pos_less [OF assms(2,3)] by linarith+
qed

lemma pair_bit_order:
  assumes "layout_ok s" "j < k" "k < 16" "i < 65536" "i' < 65536"
  shows "pair_bit s j i < pair_bit s k i'"
  using pair_bit_bounds [OF assms(1) _ assms(4), of j] pair_bit_bounds(1) [OF assms(1,3,5)]
    bitmap_off_less [OF assms(2,3)] assms(2,3) by simp

lemma pair_bit_inj:
  "layout_ok s \<Longrightarrow> pair_bit s j i = pair_bit s k i' \<Longrightarrow> j < 16 \<Longrightarrow> k < 16 \<Longrightarrow> i < 65536 \<Longrightarrow> i' < 65536 \<Longrightarrow> j = k"
  by (metis nat_neq_iff pair_bit_order)

lemma pair_bit_below:
  assumes "layout_ok s" "k < 16" "i < 65536"
  shows "pair_bit s k i < 8 * physical_memory_area s"
proof -
  have "8 * bitmap_off k + 2 ^ (15 - k) \<le> 8 * 8197"
  proof (cases "k = 15")
    case False
    then have "8 * bitmap_off k + 2 ^ (15 - k) \<le> 8 * bitmap_off 15" using bitmap_off_less [of k 15] assms(2) by simp
    then show ?thesis by (simp add: bitmap_off_def)
  qed (simp add: bitmap_off_def)
  then show ?thesis using pair_bit_bounds(2) [OF assms] assms(1) by (simp add: layout_ok_def)
qed

lemma bytes_of_bits: "(\<And>k. k < 8 \<Longrightarrow> abit m (8 * a + k) = abit m' (8 * a + k)) \<Longrightarrow> m a = m' a"
  by (rule bit_word_eqI) (simp add: abit_def)

lemma same_pair:
  assumes "2 ^ Suc k dvd j"
  shows "drop_bit (Suc k) (j + 2 ^ k) = drop_bit (Suc k) (j :: nat)"
  using assms by (auto simp: drop_bit_eq_div elim!: dvdE)

lemma GET_PAGE_N_addr:
  assumes "layout_ok s" "i < 65536"
  shows "GET_PAGE_N s (physical_memory_area s + i * 256) = i" and "physical_addr s i = physical_memory_area s + i * 256"
  using assms by (simp_all add: GET_PAGE_N_def layout_ok_def sub32_id PAGE_SHIFT_def)

section \<open>Taking a block\<close>

lemma list_del_first:
  assumes M: "buddy_mid s fl L E" and k: "k < 16" and x: "fl k = x # xs"
  obtains s1 where "list_del (Pg x) s = Inr s1" "buddy_mid s1 (fl(k := xs)) L (insert (x, k) E)" "(x, k) \<notin> E"
    "lnext s1 (Head k) \<noteq> Some (Pg x)" "heap s1 = heap s" "page_order s1 = page_order s" "same_frame s s1"
    "free_phy_page_n s1 = free_phy_page_n s"
proof -
  let ?p = "Head k" and ?n = "hd (map Pg xs @ [Head k])"
  let ?u = "s\<lparr>lnext := (lnext s)(?p \<mapsto> ?n), lprev := (lprev s)(?n \<mapsto> ?p)\<rparr>"
  let ?s = "?u\<lparr>lnext := (lnext ?u)(Pg x := None), lprev := (lprev ?u)(Pg x := None)\<rparr>"
  have x': "fl k = [] @ x # xs" using x by simp
  note U = list_unlink_mid [OF M k x', simplified]
  have run: "list_del (Pg x) s = Inr ?s" using U(2,3) by (simp add: list_del_def list_unlink_def)
  have no: "x \<notin> set ((fl(k := xs)) j)" if "j < 16" for j
    using mid_hand_not_free [OF U(1), of x k j] that by simp
  have "rings_ok ((lnext ?u)(Pg x := None)) ((lprev ?u)(Pg x := None)) (fl(k := xs))"
    by (rule rings_clear [OF buddy_midD(2) [OF U(1)] no])
  then have mid: "buddy_mid ?s (fl(k := xs)) L (insert (x, k) E)"
    using buddy_midD [OF U(1)] unfolding buddy_mid_def by (simp add: layout_ok_def)
  have "?n \<noteq> Pg x" using no [OF k] by (cases xs) auto
  then show ?thesis using that [OF run mid U(4)] by (simp add: same_frame_def)
qed

lemma layout_frame: "same_frame s s' \<Longrightarrow> layout_ok s' = layout_ok s"
  by (simp add: same_frame_def layout_ok_def)

lemma same_frame_trans: "same_frame a b \<Longrightarrow> same_frame b c \<Longrightarrow> same_frame a c"
  by (simp add: same_frame_def)

lemma same_frame_simps [simp]:
  "same_frame s (MARK_USED i k s') = same_frame s s'" "same_frame s (s'\<lparr>free_phy_page_n := n\<rparr>) = same_frame s s'"
  "same_frame s (s'\<lparr>page_order := f\<rparr>) = same_frame s s'"
  by (simp_all add: same_frame_def)

lemma pair_bit_update [simp]: "pair_bit (s\<lparr>free_phy_page_n := n\<rparr>) = pair_bit s"
  by (simp add: pair_bit_def fun_eq_iff)

lemma mid_to_live:
  assumes "buddy_mid s fl L {(i, k)}"
  shows "buddy_mid (s\<lparr>page_order := (page_order s)(i := k), free_phy_page_n := n\<rparr>) fl (insert (i, k) L) {}" and "(i, k) \<notin> L"
proof -
  note D = buddy_midD [OF assms]
  show "(i, k) \<notin> L" using D(5) by blast
  have o: "\<forall>b \<in> insert (i, k) L. ((page_order s)(i := k)) (fst b) = snd b"
  proof
    fix b assume b: "b \<in> insert (i, k) L"
    show "((page_order s)(i := k)) (fst b) = snd b"
    proof (cases "fst b = i")
      case True
      then have "snd b = k" using tiles_fst [OF D(1), of i "snd b" k] b by (cases b) auto
      with True show ?thesis by simp
    next
      case False
      then show ?thesis using D(6) b by auto
    qed
  qed
  show "buddy_mid (s\<lparr>page_order := (page_order s)(i := k), free_phy_page_n := n\<rparr>) fl (insert (i, k) L) {}"
    unfolding buddy_mid_def using D o by (simp add: layout_ok_def)
qed

lemma top_half:
  assumes "2 ^ high dvd (x :: nat)" and "low < high"
  shows "drop_bit (Suc low) (x + 2 ^ high - 2 ^ low) = drop_bit (Suc low) (x + 2 ^ high - 2 ^ Suc low)"
proof -
  have le: "(2 :: nat) ^ Suc low \<le> 2 ^ high" by (rule power_increasing) (use assms in auto)
  have "2 ^ Suc low dvd x + 2 ^ high - (2 :: nat) ^ Suc low"
    by (intro dvd_diff_nat dvd_add le_imp_power_dvd dvd_trans [OF le_imp_power_dvd assms(1)]) (use assms in auto)
  then have "drop_bit (Suc low) (x + 2 ^ high - 2 ^ Suc low + 2 ^ low) = drop_bit (Suc low) (x + 2 ^ high - 2 ^ Suc low)"
    by (rule same_pair)
  moreover have "x + 2 ^ high - 2 ^ Suc low + 2 ^ low = x + 2 ^ high - 2 ^ low" using le by simp
  ultimately show ?thesis by simp
qed

text \<open>What marking the taken block and splitting it down does to the bitmap: nothing at or above the managed area
  changes, and the pair bit of the page handed out is flipped.\<close>

lemma split_bits:
  assumes lay: "layout_ok s" and cur: "cur < 16" and ord: "ord \<le> cur" and B: "2 ^ cur dvd x" "x + 2 ^ cur \<le> 65536"
    and h1: "\<And>a. abit h1 a = (if cur \<noteq> 15 \<and> a = pair_bit s cur x then \<not> abit (heap s) a else abit (heap s) a)"
    and K: "\<And>a. \<forall>j. ord \<le> j \<and> j < cur \<longrightarrow> a \<noteq> pair_bit s j (x + 2 ^ cur - 2 ^ Suc j) \<Longrightarrow> abit h2 a = abit h1 a"
    and F: "\<And>a. ord < cur \<Longrightarrow> a = pair_bit s ord (x + 2 ^ cur - 2 ^ Suc ord) \<Longrightarrow>
            \<forall>j. ord < j \<and> j < cur \<longrightarrow> a \<noteq> pair_bit s j (x + 2 ^ cur - 2 ^ Suc j) \<Longrightarrow> abit h2 a = (\<not> abit h1 a)"
  defines "pg \<equiv> x + 2 ^ cur - 2 ^ ord"
  shows "\<And>a. a \<ge> physical_memory_area s \<Longrightarrow> h2 a = heap s a"
    and "ord < cur \<or> cur \<noteq> 15 \<Longrightarrow> abit h2 (pair_bit s ord pg) = (\<not> abit (heap s) (pair_bit s ord pg))"
    and "ord = cur \<and> cur = 15 \<Longrightarrow> abit h2 = abit (heap s)"
proof -
  have x_less: "x < 65536" using less_le_trans [OF _ B(2), of x] by simp
  have pg: "pg < 65536" using B(2) zero_less_power [of "2 :: nat" ord] unfolding pg_def by linarith
  have bnd: "x + 2 ^ cur - 2 ^ Suc j < 65536" for j using B(2) zero_less_power [of "2 :: nat" "Suc j"] by linarith
  show "h2 a = heap s a" if a: "a \<ge> physical_memory_area s" for a
  proof (rule bytes_of_bits)
    fix k :: nat
    have ne: "8 * a + k \<noteq> pair_bit s j i" if "j < 16" "i < 65536" for j i
      using pair_bit_below [OF lay that] a by linarith
    have "\<forall>j. ord \<le> j \<and> j < cur \<longrightarrow> 8 * a + k \<noteq> pair_bit s j (x + 2 ^ cur - 2 ^ Suc j)"
      by (intro allI impI ne bnd) (use cur in auto)
    then show "abit h2 (8 * a + k) = abit (heap s) (8 * a + k)" using K h1 ne [OF cur x_less] by simp
  qed
  show "abit h2 (pair_bit s ord pg) = (\<not> abit (heap s) (pair_bit s ord pg))" if "ord < cur \<or> cur \<noteq> 15"
  proof (cases "ord < cur")
    case False
    then have "ord = cur" "pg = x" using ord by (auto simp: pg_def)
    then show ?thesis using K [of "pair_bit s ord pg"] h1 [of "pair_bit s ord pg"] that False by simp
  next
    case less: True
    have e: "pair_bit s ord pg = pair_bit s ord (x + 2 ^ cur - 2 ^ Suc ord)"
      using top_half [OF B(1) less] by (simp add: pair_bit_def pg_def)
    have "pair_bit s ord pg \<noteq> pair_bit s j (x + 2 ^ cur - 2 ^ Suc j)" if "ord < j" "j < cur" for j
      using pair_bit_order [OF lay that(1) _ pg bnd] that(2) cur by force
    moreover have "pair_bit s ord pg \<noteq> pair_bit s cur x" using pair_bit_order [OF lay less cur pg x_less] by simp
    ultimately show ?thesis using F [OF less e] h1 [of "pair_bit s ord pg"] by auto
  qed
  show "abit h2 = abit (heap s)" if "ord = cur \<and> cur = 15" using K h1 that by (auto simp: fun_eq_iff)
qed

lemma take_page_correct:
  assumes OK: "buddy_ok s fl L" and cur: "cur < 16" and ord: "ord \<le> cur" and x: "fl cur = x # xs"
  defines "pg \<equiv> x + 2 ^ cur - 2 ^ ord"
  shows "\<exists>s'. take_page ord cur x s = Inr (physical_memory_area s + pg * 256, s')
    \<and> buddy_ok s' (expand_lists x cur ord (fl(cur := xs))) (insert (pg, ord) L) \<and> (pg, ord) \<notin> L \<and> same_frame s s'
    \<and> free_phy_page_n s' = sub32 (sub32 (free_phy_page_n s) (2 ^ ord)) (2 ^ ord)
    \<and> (\<forall>a \<ge> physical_memory_area s. heap s' a = heap s a)
    \<and> (ord < cur \<or> cur \<noteq> 15 \<longrightarrow> abit (heap s') (pair_bit s ord pg) = (\<not> abit (heap s) (pair_bit s ord pg)))
    \<and> (ord = cur \<and> cur = 15 \<longrightarrow> abit (heap s') = abit (heap s))"
proof -
  have M: "buddy_mid s fl L {}" using OK by (simp add: buddy_ok_def)
  note D = buddy_midD [OF M]
  have "(x, cur) \<in> free_blocks fl \<union> L \<union> {}" using cur x by (simp add: free_blocks_def)
  then have B: "2 ^ cur dvd x" "x + 2 ^ cur \<le> 65536" using tilesD [OF D(1)] by auto
  have x_less: "x < 65536" using less_le_trans [OF _ B(2), of x] by simp
  have pg: "pg < 65536" using B(2) zero_less_power [of "2 :: nat" ord] unfolding pg_def by linarith
  obtain s1 where s1: "list_del (Pg x) s = Inr s1" "buddy_mid s1 (fl(cur := xs)) L {(x, cur)}"
    "lnext s1 (Head cur) \<noteq> Some (Pg x)" "heap s1 = heap s" "same_frame s s1" "free_phy_page_n s1 = free_phy_page_n s"
    using list_del_first [OF M cur x] by metis
  have lay1: "layout_ok s1" by (rule buddy_midD(3) [OF s1(2)])
  define s2 where "s2 = (if cur \<noteq> MAX_ORDER - 1 then MARK_USED x cur s1 else s1)"
  define s3 where "s3 = s2\<lparr>free_phy_page_n := sub32 (free_phy_page_n s2) (2 ^ ord)\<rparr>"
  have f3: "same_frame s s3" and m3: "buddy_mid s3 (fl(cur := xs)) L {(x, cur)}" using s1 by (auto simp: s3_def s2_def)
  have h3: "abit (heap s3) a = (if cur \<noteq> 15 \<and> a = pair_bit s cur x then \<not> abit (heap s) a else abit (heap s) a)" for a
    using MARK_USED_bits [of x cur s1 a] pair_bit_frame [OF s1(5)] s1(4) by (auto simp: s3_def s2_def)
  obtain s4 where s4: "expand_loop x x (2 ^ cur) cur ord s3 = Inr (pg, s4)"
    "buddy_mid s4 (expand_lists x cur ord (fl(cur := xs))) L {(pg, ord)}" "same_frame s3 s4" "free_phy_page_n s4 = free_phy_page_n s3"
    and K: "\<And>a. \<forall>j. ord \<le> j \<and> j < cur \<longrightarrow> a \<noteq> pair_bit s3 j (x + 2 ^ cur - 2 ^ Suc j) \<Longrightarrow> abit (heap s4) a = abit (heap s3) a"
    and F: "\<And>a. ord < cur \<Longrightarrow> a = pair_bit s3 ord (x + 2 ^ cur - 2 ^ Suc ord) \<Longrightarrow>
            \<forall>j. ord < j \<and> j < cur \<longrightarrow> a \<noteq> pair_bit s3 j (x + 2 ^ cur - 2 ^ Suc j) \<Longrightarrow> abit (heap s4) a = (\<not> abit (heap s3) a)"
    using expand_loop_correct [OF m3 ord] unfolding pg_def by blast
  have f4: "same_frame s s4" by (rule same_frame_trans [OF f3 s4(3)])
  have lay: "layout_ok s" "layout_ok s4" using D(3) layout_frame [OF f4] by auto
  define s5 where "s5 = s4\<lparr>page_order := (page_order s4)(pg := ord), free_phy_page_n := sub32 (free_phy_page_n s4) (2 ^ ord)\<rparr>"
  have ok5: "buddy_ok s5 (expand_lists x cur ord (fl(cur := xs))) (insert (pg, ord) L)" "(pg, ord) \<notin> L"
    using mid_to_live [OF s4(2)] by (simp_all add: s5_def buddy_ok_def)
  have f5: "same_frame s s5" using f4 by (simp add: s5_def)
  have ph: "physical_addr s1 x = physical_memory_area s1 + x * 256" "GET_PAGE_N s1 (physical_memory_area s1 + x * 256) = x"
    "physical_addr s5 pg = physical_memory_area s + pg * 256" "GET_PAGE_N s5 (physical_memory_area s + pg * 256) = pg"
    using GET_PAGE_N_addr [OF lay1 x_less] GET_PAGE_N_addr [OF buddy_midD(3) [OF ok5(1) [unfolded buddy_ok_def]] pg] f5
    by (simp_all add: same_frame_def)
  have run: "take_page ord cur x s = Inr (physical_memory_area s + pg * 256, s5)"
  proof -
    have "phy_page_n s = 65536" "phy_page_n s4 = 65536" "physical_addr s x \<noteq> 0" using lay x_less by (auto simp: layout_ok_def)
    then show ?thesis using x_less pg s1(1,3) s4(1) ph unfolding s3_def s2_def s5_def
      by (cases "cur = 15") (simp_all add: take_page_def expand_def)
  qed
  have heap5: "heap s5 = heap s4" and pb: "pair_bit s3 = pair_bit s"
    using pair_bit_frame [OF f3] by (simp_all add: s5_def fun_eq_iff)
  note bits = split_bits [OF lay(1) cur ord B, of "heap s3" "heap s5", OF h3, folded pg_def]
  have fp: "free_phy_page_n s5 = sub32 (sub32 (free_phy_page_n s) (2 ^ ord)) (2 ^ ord)"
    using s1(6) by (simp add: s5_def s4(4) s3_def s2_def)
  show ?thesis using run ok5 f5 fp bits [OF K [unfolded pb, folded heap5] F [unfolded pb, folded heap5]] by blast
qed

lemma alloc_loop_skip:
  assumes "buddy_ok s fl L" and "cur \<le> k" and "k < 16" and "\<forall>j. cur \<le> j \<and> j < k \<longrightarrow> fl j = []"
  shows "alloc_loop ord cur s = alloc_loop ord k s"
  using assms(2,4)
proof (induction "k - cur" arbitrary: cur)
  case (Suc d)
  then have c: "cur < k" "fl cur = []" by auto
  have "linked (lnext s) (lprev s) (Head cur) (map Pg (fl cur)) (Head cur)"
    using ringD assms(1,3) c unfolding buddy_ok_def by (meson less_trans)
  then have "lnext s (Head cur) = Some (Head cur)" using c by simp
  then have "alloc_loop ord cur s = alloc_loop ord (cur + 1) s"
    using c assms(3) by (subst alloc_loop.simps) simp
  also have "\<dots> = alloc_loop ord k s" by (rule Suc.hyps(1)) (use Suc c in auto)
  finally show ?case .
qed simp

lemma alloc_loop_take:
  assumes "buddy_ok s fl L" and "k < 16" and "fl k = x # xs"
  shows "alloc_loop ord k s = take_page ord k x s"
proof -
  have "linked (lnext s) (lprev s) (Head k) (map Pg (fl k)) (Head k)"
    using ringD assms unfolding buddy_ok_def by blast
  then have "lnext s (Head k) = Some (Pg x)" using assms(3) by simp
  then show ?thesis using assms(2) by (subst alloc_loop.simps) simp
qed

lemma alloc_loop_none:
  assumes "buddy_ok s fl L" and "cur < 16" and "\<forall>j. cur \<le> j \<and> j < 16 \<longrightarrow> fl j = []"
  shows "alloc_loop ord cur s = Inr (NULL, s)"
proof -
  have "alloc_loop ord cur s = alloc_loop ord 15 s" by (rule alloc_loop_skip [OF assms(1)]) (use assms in auto)
  moreover have "linked (lnext s) (lprev s) (Head 15) (map Pg (fl 15)) (Head 15)"
    using ringD assms(1) unfolding buddy_ok_def by force
  ultimately show ?thesis using assms by (simp add: alloc_loop.simps [of ord 15])
qed

section \<open>The order of a request\<close>

lemma order_loop_cases:
  "order_loop n i memsize = - 1 \<and> (\<forall>j. i \<le> j \<and> j < i + n \<longrightarrow> 256 * 2 ^ j < memsize)
   \<or> (\<exists>k. i \<le> k \<and> k < i + n \<and> order_loop n i memsize = int k \<and> memsize \<le> 256 * 2 ^ k
        \<and> (\<forall>j. i \<le> j \<and> j < k \<longrightarrow> 256 * 2 ^ j < memsize))"
proof (induction n arbitrary: i)
  case (Suc n)
  show ?case
  proof (cases "memsize \<le> 256 * 2 ^ i")
    case True
    then show ?thesis by (auto simp: PAGE_SIZE_def PAGE_SHIFT_def push_bit_eq_mult mult.commute)
  next
    case False
    then have o: "order_loop (Suc n) i memsize = order_loop n (Suc i) memsize"
      by (simp add: PAGE_SIZE_def PAGE_SHIFT_def push_bit_eq_mult mult.commute)
    have c: "256 * 2 ^ j < memsize" if "i \<le> j" "Suc i \<le> j \<Longrightarrow> 256 * 2 ^ j < memsize" for j
      using that False by (cases "j = i") auto
    consider "order_loop n (Suc i) memsize = - 1" "\<forall>j. Suc i \<le> j \<and> j < Suc i + n \<longrightarrow> 256 * 2 ^ j < memsize"
      | k where "Suc i \<le> k" "k < Suc i + n" "order_loop n (Suc i) memsize = int k" "memsize \<le> 256 * 2 ^ k"
          "\<forall>j. Suc i \<le> j \<and> j < k \<longrightarrow> 256 * 2 ^ j < memsize" using Suc.IH [of "Suc i"] by blast
    then show ?thesis
    proof cases
      case 1
      have "\<forall>j. i \<le> j \<and> j < i + Suc n \<longrightarrow> 256 * 2 ^ j < memsize" by (intro allI impI, rule c) (use 1 in auto)
      then show ?thesis unfolding o using 1(1) by blast
    next
      case 2
      then have "i \<le> k \<and> k < i + Suc n \<and> order_loop n (Suc i) memsize = int k \<and> memsize \<le> 256 * 2 ^ k
        \<and> (\<forall>j. i \<le> j \<and> j < k \<longrightarrow> 256 * 2 ^ j < memsize)" by (auto intro: c)
      then show ?thesis unfolding o by blast
    qed
  qed
qed simp

lemma memsize_to_order_cases:
  obtains k where "memsize \<le> 2 ^ 24" "k \<le> 16" "memsize_to_order memsize = int k" "memsize \<le> 256 * 2 ^ k"
    "\<forall>j < k. 256 * 2 ^ j < memsize"
  | "2 ^ 24 < memsize" "memsize_to_order memsize = - 1"
proof -
  consider "memsize_to_order memsize = - 1" "\<forall>j < 17. 256 * 2 ^ j < memsize"
    | k where "k < 17" "memsize_to_order memsize = int k" "memsize \<le> 256 * 2 ^ k" "\<forall>j < k. 256 * 2 ^ j < memsize"
    using order_loop_cases [of 17 0 memsize] by (auto simp: memsize_to_order_def)
  then show ?thesis
  proof cases
    case 1
    have "256 * 2 ^ 16 < memsize" using 1(2) [rule_format, of 16] by simp
    then show ?thesis using that(2) 1(1) by simp
  next
    case 2
    have "(2 :: nat) ^ k \<le> 2 ^ 16" by (rule power_increasing) (use 2 in auto)
    then have "memsize \<le> 2 ^ 24" using 2(3) by simp
    then show ?thesis using that(1) [OF _ _ 2(2,3,4)] 2(1) by simp
  qed
qed

section \<open>Initialisation\<close>

lemma physical_loop_result:
  "physical_loop n i off pa = (\<lambda>j. if i \<le> j \<and> j < i + n then off + (j - i) * PAGE_SIZE else pa j, off + n * PAGE_SIZE)"
proof (induction n arbitrary: i off pa)
  case (Suc n)
  have "(\<lambda>j. if Suc i \<le> j \<and> j < Suc i + n then off + PAGE_SIZE + (j - Suc i) * PAGE_SIZE else (pa(i := off)) j)
      = (\<lambda>j. if i \<le> j \<and> j < i + Suc n then off + (j - i) * PAGE_SIZE else pa j)"
  proof
    fix j
    consider "j < i" | "j = i" | "Suc i \<le> j" by linarith
    then show "(if Suc i \<le> j \<and> j < Suc i + n then off + PAGE_SIZE + (j - Suc i) * PAGE_SIZE else (pa(i := off)) j)
      = (if i \<le> j \<and> j < i + Suc n then off + (j - i) * PAGE_SIZE else pa j)"
    proof cases
      case 3
      then have "(j - i) * PAGE_SIZE = PAGE_SIZE + (j - Suc i) * PAGE_SIZE" by (simp add: Suc_diff_Suc flip: mult_Suc)
      with 3 show ?thesis by auto
    qed auto
  qed
  then show ?case using Suc by simp
qed (auto simp: fun_eq_iff)

lemma bitmap_off_Suc: "bitmap_off (Suc i) = bitmap_off i + 2 ^ (12 - i)"
proof (cases "i \<le> 12")
  case True
  then have e: "13 - i = Suc (12 - i)" "13 - Suc i = 12 - i" by auto
  have "(2 :: nat) ^ (12 - i) \<le> 2 ^ 12" by (rule power_increasing) auto
  then show ?thesis using True e by (simp add: bitmap_off_def)
qed (auto simp: bitmap_off_def)

lemma half_size: "(if (2 :: nat) ^ (12 - i) > 1 then drop_bit 1 (2 ^ (12 - i)) else 2 ^ (12 - i)) = (2 :: nat) ^ (12 - Suc i)"
proof (cases "i < 12")
  case True
  then have e: "12 - i = Suc (12 - Suc i)" by simp
  have "(1 :: nat) < 2 ^ Suc (12 - Suc i)" by (rule one_less_power) auto
  then show ?thesis unfolding e by (simp add: drop_bit_eq_div del: One_nat_def)
qed simp

lemma bitmap_loop_layout:
  "bitmap_loop n i (base + bitmap_off i) (2 ^ (12 - i)) bm m = (bm', m', e) \<Longrightarrow>
     e = base + bitmap_off (i + n) \<and> (\<forall>j. i \<le> j \<and> j < i + n \<longrightarrow> bm' j = base + bitmap_off j) \<and> (\<forall>j < i. bm' j = bm j)"
proof (induction n arbitrary: i bm m)
  case (Suc n)
  have "bitmap_loop n (Suc i) (base + bitmap_off (Suc i)) (2 ^ (12 - Suc i)) (bm(i := base + bitmap_off i))
      (memset m (base + bitmap_off i) 0 (2 ^ (12 - i) OR 1)) = (bm', m', e)"
    using Suc.prems by (simp add: half_size bitmap_off_Suc add.assoc del: One_nat_def)
  from Suc.IH [OF this] have I: "e = base + bitmap_off (Suc i + n)"
    "\<And>j. Suc i \<le> j \<Longrightarrow> j < Suc i + n \<Longrightarrow> bm' j = base + bitmap_off j" "\<And>j. j < Suc i \<Longrightarrow> bm' j = (bm(i := base + bitmap_off i)) j"
    by auto
  have "bm' j = base + bitmap_off j" if "i \<le> j" "j < i + Suc n" for j
    using I(2) [of j] I(3) [of i] that by (cases "j = i") auto
  with I show ?case by auto
qed simp

lemma bitmap_loop_zero:
  "bitmap_loop n i off bs bm m = (bm', m', e) \<Longrightarrow>
     off \<le> e \<and> (\<forall>a. off \<le> a \<and> a < e \<longrightarrow> m' a = 0) \<and> (\<forall>a < off. m' a = m a)"
proof (induction n arbitrary: i off bs bm m)
  case (Suc n)
  let ?m = "memset m off 0 (bs OR 1)"
  have "bs \<le> bs OR 1" by (simp add: or_nat_def zle_int [symmetric] or_greater_eq)
  then have m: "?m a = 0" if "off \<le> a" "a < off + bs" for a using that by (simp add: memset_def)
  have I: "off + bs \<le> e" "\<And>a. off + bs \<le> a \<Longrightarrow> a < e \<Longrightarrow> m' a = 0" "\<And>a. a < off + bs \<Longrightarrow> m' a = ?m a"
    using Suc.IH Suc.prems by fastforce+
  have "m' a = 0" if "off \<le> a" "a < e" for a using that I(2,3) [of a] m [of a] by (cases "a < off + bs") auto
  then show ?case using I(1) I(3) by (auto simp: memset_def)
qed auto

lemma empty_lists_result:
  "empty_lists n i s = s\<lparr>lnext := (\<lambda>x. case x of Head k \<Rightarrow> if i \<le> k \<and> k < i + n then Some (Head k) else lnext s x | Pg _ \<Rightarrow> lnext s x),
      lprev := (\<lambda>x. case x of Head k \<Rightarrow> if i \<le> k \<and> k < i + n then Some (Head k) else lprev s x | Pg _ \<Rightarrow> lprev s x)\<rparr>"
proof (induction n arbitrary: i s)
  case 0
  show ?case by (intro buddy.equality) (auto simp: fun_eq_iff split: lnode.splits)
next
  case (Suc n)
  show ?case unfolding empty_lists.simps Suc
    by (intro buddy.equality) (auto simp: fun_eq_iff split: lnode.splits)
qed

definition init_lists :: "nat \<Rightarrow> nat list" where
  "init_lists k = (if k = 15 then [32768, 0] else [])"

lemma init_tiles: "tiles {(0, 15), (32768, 15)}"
proof -
  have "{32768 ..< 65536} \<union> {0 ..< 32768} = {..<65536 :: nat}" by auto
  then show ?thesis by (auto simp: tiles_def)
qed

lemma init_lists_eq: "(\<lambda>_. [])(15 := [32768, 0]) = init_lists"
  by (auto simp: init_lists_def)

lemma init_buddy_correct:
  assumes lay: "layout_ok s" and z: "\<And>a. bitmap_area s \<le> a \<Longrightarrow> a < bitmap_area s + 8194 \<Longrightarrow> heap s a = 0" and b: "0 < bitmap_area s"
  shows "\<exists>s'. init_buddy s = Inr s' \<and> buddy_ok s' init_lists {} \<and> same_frame s s' \<and> free_phy_page_n s' = free_phy_page_n s
    \<and> (\<forall>k < 16. \<forall>i < 65536. abit (heap s') (pair_bit s' k i) = (k = 15))"
proof -
  let ?s1 = "empty_lists MAX_ORDER 0 s"
  have f1: "same_frame s ?s1" "heap ?s1 = heap s" "free_phy_page_n ?s1 = free_phy_page_n s" by (simp_all add: empty_lists_result same_frame_def)
  have "rings_ok (lnext ?s1) (lprev ?s1) (\<lambda>_. [])" by (simp add: rings_ok_def empty_lists_result)
  moreover have "free_blocks (\<lambda>_. []) = {}" by (simp add: free_blocks_def)
  ultimately have m1: "buddy_mid ?s1 (\<lambda>_. []) {} (insert (0, 15) {(32768, 15)})"
    using layout_frame [OF f1(1)] lay init_tiles by (simp add: buddy_mid_def)
  obtain f where a1: "list_add (Head 15) (Pg 0) ?s1 = Inr (list_add3 (Pg 0) (Head 15) f ?s1)"
    and m2: "buddy_mid (list_add3 (Pg 0) (Head 15) f ?s1) ((\<lambda>_. [])(15 := [0])) {} (insert (32768, 15) {})"
    by (rule list_add_mid [OF m1]) auto
  let ?s2 = "list_add3 (Pg 0) (Head 15) f ?s1"
  obtain g where a2: "list_add (Head 15) (Pg 32768) ?s2 = Inr (list_add3 (Pg 32768) (Head 15) g ?s2)"
    and m3: "buddy_mid (list_add3 (Pg 32768) (Head 15) g ?s2) init_lists {} {}"
    by (rule list_add_mid [OF m2]) (auto simp: init_lists_eq)
  let ?s3 = "list_add3 (Pg 32768) (Head 15) g ?s2"
  let ?s4 = "?s3\<lparr>heap := snd (bitmap_set (heap ?s3) (area_bitmap ?s3 15) 0 True)\<rparr>"
  have f4: "same_frame s ?s4" using f1(1) by (simp add: same_frame_def)
  have lay3: "linked (lnext ?s3) (lprev ?s3) (Head 15) [Pg 32768, Pg 0] (Head 15)"
    using ringD [OF m3, of 15] by (simp add: init_lists_def)
  have bm: "\<forall>i < 16. area_bitmap s i \<noteq> 0" using lay b by (simp add: layout_ok_def)
  have run: "init_buddy s = Inr ?s4"
    using a1 a2 lay3 bm by (auto simp: init_buddy_def Let_def list_all_iff)
  have ok: "buddy_ok ?s4 init_lists {}" using m3 by (simp add: buddy_ok_def)
  have top: "pair_bit ?s4 15 i = bit_addr (area_bitmap ?s3 15) 0" if "i < 65536" for i
    using pair_pos_less [of 15 i] that by (simp add: pair_bit_def)
  have zero: "\<not> abit (heap s) (pair_bit s k i)" if ki: "k < 16" "i < 65536" for k i
  proof -
    obtain c :: nat where c: "c = 2 ^ (15 - k)" by simp
    have "8 * bitmap_off k + c \<le> 65552"
      unfolding c using bitmap_off_less [of k 15] ki(1) by (cases "k = 15") (auto simp: bitmap_off_def)
    then have b: "8 * bitmap_area s \<le> pair_bit s k i" "pair_bit s k i < (bitmap_area s + 8194) * 8"
      using pair_bit_bounds [OF lay ki] unfolding c [symmetric] by simp_all
    have "bitmap_area s \<le> pair_bit s k i div 8" using div_le_mono [OF b(1), of 8] by simp
    moreover have "pair_bit s k i div 8 < bitmap_area s + 8194" by (rule less_mult_imp_div_less [OF b(2)])
    ultimately show ?thesis using z by (simp add: abit_def)
  qed
  have "abit (heap ?s4) (pair_bit ?s4 k i) = (k = 15)" if "k < 16" "i < 65536" for k i
  proof -
    have "pair_bit ?s4 k i = bit_addr (area_bitmap ?s3 15) 0 \<longleftrightarrow> k = 15"
      using top that pair_bit_inj [OF layout_frame [OF f4, THEN iffD2, OF lay], of k i 15 0] by auto
    then show ?thesis using zero [OF that] pair_bit_frame [OF f4, of k i] f1(2) by (simp add: abit_bitmap_set)
  qed
  then show ?thesis using run ok f4 f1(3) by (intro exI [of _ ?s4]) simp
qed

lemma sbrk_room: "mem_brk s + n \<le> mem_max_addr s \<Longrightarrow> sbrk n s k = k (mem_brk s) (s\<lparr>mem_brk := mem_brk s + n\<rparr>)"
  by (simp add: sbrk_def mem_sbrk_def nat_add_distrib)

lemma bd_mm_init_correct:
  assumes p: "0 < p" "p + MAX_HEAP < 2 ^ 32"
  shows "\<exists>s. bd_mm_init p s0 = Inr s \<and> buddy_ok s init_lists {} \<and> free_phy_page_n s = 65536
    \<and> (\<forall>k < 16. \<forall>i < 65536. abit (heap s) (pair_bit s k i) = (k = 15))"
proof -
  define ba where "ba = p + 192 + 1048576"
  define ph where "ph = ba + 8196 + (7 - (ba + 8196) mod 8 + 1)"
  have ph: "ph \<le> p + 1056972" "8 dvd ph" "ba + 8197 \<le> ph" using p(1) unfolding ph_def ba_def by presburger+
  define s where "s = s0\<lparr>mem_start_brk := p, mem_max_addr := p + MAX_HEAP,
    phy_page_n := 65536, free_phy_page_n := 65536, mem_brk := ph + 2 ^ 24, free_area_area := p, page_struct_area := p + 192, bitmap_area := ba,
    physical_memory_area := ph, endpoint := ph + 2 ^ 24\<rparr>"
  let ?pa = "\<lambda>j. if j < 65536 then ph + j * 256 else physical_addr s0 j"
  have mp: "mapping_physical s = Inr (s\<lparr>physical_addr := ?pa\<rparr>)"
  proof -
    have "physical_loop 65536 0 ph (physical_addr s0) = (?pa, ph + 2 ^ 24)"
      using physical_loop_result [of 65536 0 ph "physical_addr s0"] by (auto simp: PAGE_SIZE_def PAGE_SHIFT_def fun_eq_iff)
    moreover have "0 < ph" using ph(3) by simp
    ultimately show ?thesis by (simp add: mapping_physical_def s_def list_all_iff)
  qed
  obtain bm m e where bl: "bitmap_loop 16 0 ba 4096 (area_bitmap s0) (heap s0) = (bm, m, e)" by (metis prod_cases3)
  have bm: "e = ba + 8194" "\<And>k. k < 16 \<Longrightarrow> bm k = ba + bitmap_off k"
    using bitmap_loop_layout [of 16 0 ba "area_bitmap s0" "heap s0" bm m e] bl by (auto simp: bitmap_off_def)
  have m: "m a = 0" if "ba \<le> a" "a < ba + 8194" for a
    using bitmap_loop_zero [OF bl] that bm(1) by auto
  let ?s = "s\<lparr>physical_addr := ?pa, area_bitmap := bm, heap := m\<rparr>"
  have mb: "mapping_bitmap (s\<lparr>physical_addr := ?pa\<rparr>) = Inr ?s"
    using bl bm ph(3) by (simp add: mapping_bitmap_def s_def ba_def drop_bit_eq_div list_all_iff PAGE_STRUCT_SIZE_def)
  have lay: "layout_ok ?s" using p ph bm(2) by (simp add: layout_ok_def s_def MAX_HEAP_def)
  obtain s' where s': "init_buddy ?s = Inr s'" "buddy_ok s' init_lists {}" "free_phy_page_n s' = 65536"
    "\<forall>k < 16. \<forall>i < 65536. abit (heap s') (pair_bit s' k i) = (k = 15)"
    using init_buddy_correct [OF lay] m by (auto simp: s_def ba_def)
  have "bd_mm_init p s0 = init_buddy ?s"
    using p ph(1) mp mb
    by (simp add: bd_mm_init_def mem_init_def sbrk_room Let_def buddy_consts MAX_HEAP_def s_def ba_def ph_def)
  then show ?thesis using s' by auto
qed

section \<open>Allocation is correct\<close>

definition payload :: "buddy \<Rightarrow> nat \<times> nat \<Rightarrow> addr set" where
  "payload s b = {physical_memory_area s + fst b * 256 ..< physical_memory_area s + (fst b + 2 ^ snd b) * 256}"

lemma payload_disjoint:
  assumes "buddy_ok s fl L" and "b \<in> L" and "c \<in> L" and "b \<noteq> c"
  shows "payload s b \<inter> payload s c = {}"
proof (rule ccontr)
  obtain i k where b: "b = (i, k)" by (cases b)
  obtain j l where c: "c = (j, l)" by (cases c)
  assume "payload s b \<inter> payload s c \<noteq> {}"
  then obtain a where "a \<in> payload s b" "a \<in> payload s c" by blast
  then have "(a - physical_memory_area s) div 256 \<in> span b" "(a - physical_memory_area s) div 256 \<in> span c"
    unfolding payload_def b c by (auto simp: div_le_dividend less_mult_imp_div_less less_eq_div_iff_mult_less_eq)
  then show False
    using tiles_disjoint [OF buddy_midD(1) [OF assms(1) [unfolded buddy_ok_def]], of b c] assms(2-4) by blast
qed

lemma alloc_correct:
  assumes OK: "buddy_ok s fl L" and k: "k < 16" and ne: "\<exists>j. k \<le> j \<and> j < 16 \<and> fl j \<noteq> []"
  shows "\<exists>x xs j s'. k \<le> j \<and> j < 16 \<and> fl j = x # xs \<and> (\<forall>i. k \<le> i \<and> i < j \<longrightarrow> fl i = [])
    \<and> alloc_loop k k s = Inr (physical_memory_area s + (x + 2 ^ j - 2 ^ k) * 256, s')
    \<and> buddy_ok s' (expand_lists x j k (fl(j := xs))) (insert (x + 2 ^ j - 2 ^ k, k) L) \<and> (x + 2 ^ j - 2 ^ k, k) \<notin> L \<and> same_frame s s'
    \<and> free_phy_page_n s' = sub32 (sub32 (free_phy_page_n s) (2 ^ k)) (2 ^ k)
    \<and> (\<forall>a \<ge> physical_memory_area s. heap s' a = heap s a)
    \<and> (k < j \<or> j \<noteq> 15 \<longrightarrow> abit (heap s') (pair_bit s k (x + 2 ^ j - 2 ^ k)) = (\<not> abit (heap s) (pair_bit s k (x + 2 ^ j - 2 ^ k))))
    \<and> (k = j \<and> j = 15 \<longrightarrow> abit (heap s') = abit (heap s))"
proof -
  define j where "j = (LEAST j. k \<le> j \<and> j < 16 \<and> fl j \<noteq> [])"
  have j: "k \<le> j \<and> j < 16 \<and> fl j \<noteq> []" unfolding j_def using ne by (rule LeastI_ex)
  have least: "\<forall>i. k \<le> i \<and> i < j \<longrightarrow> fl i = []"
  proof (intro allI impI)
    fix i assume "k \<le> i \<and> i < j"
    then show "fl i = []" using not_less_Least [of i "\<lambda>j. k \<le> j \<and> j < 16 \<and> fl j \<noteq> []"] j by (auto simp flip: j_def)
  qed
  obtain x xs where x: "fl j = x # xs" using j by (cases "fl j") auto
  have "alloc_loop k k s = take_page k j x s"
    using alloc_loop_skip [OF OK _ _ least] alloc_loop_take [OF OK _ x] j by simp
  then show ?thesis using take_page_correct [OF OK _ _ x, of k] j x least
    by (intro exI [of _ x] exI [of _ xs] exI [of _ j]) simp
qed


text \<open>A fresh allocator, and what the theorem gives for a request of 1000 bytes.\<close>

definition blank :: buddy where
  "blank = \<lparr>mem_start_brk = 0, mem_brk = 0, mem_max_addr = 0, heap = (\<lambda>_. 0), free_area_area = 0, page_struct_area = 0,
     bitmap_area = 0, physical_memory_area = 0, endpoint = 0, phy_page_n = 0, free_phy_page_n = 0, lnext = (\<lambda>_. None),
     lprev = (\<lambda>_. None), page_order = (\<lambda>_. 0), physical_addr = (\<lambda>_. 0), area_bitmap = (\<lambda>_. 0)\<rparr>"


section \<open>Release\<close>

lemma buddy_of:
  assumes "2 ^ Suc k dvd (m :: nat)"
  shows "m XOR 2 ^ k = m + 2 ^ k" and "(m + 2 ^ k) XOR 2 ^ k = m"
proof -
  have nb: "\<not> bit m k" using assms by (auto simp: bit_nat_div elim!: dvdE)
  then have "m AND 2 ^ k = 0" by (intro bit_eqI) (auto simp: bit_and_iff bit_exp_iff)
  then have o: "m + 2 ^ k = m OR 2 ^ k" by (rule disjunctive_add_eq_or)
  show "m XOR 2 ^ k = m + 2 ^ k" unfolding o using nb by (intro bit_eqI) (auto simp: bit_xor_iff bit_or_iff bit_exp_iff)
  show "(m + 2 ^ k) XOR 2 ^ k = m" unfolding o using nb by (intro bit_eqI) (auto simp: bit_xor_iff bit_or_iff bit_exp_iff)
qed

lemma pair_cases:
  assumes "2 ^ k dvd (i :: nat)"
  obtains (low) "i = push_bit (Suc k) (drop_bit (Suc k) i)" "i XOR 2 ^ k = push_bit (Suc k) (drop_bit (Suc k) i) + 2 ^ k"
  | (high) "i = push_bit (Suc k) (drop_bit (Suc k) i) + 2 ^ k" "i XOR 2 ^ k = push_bit (Suc k) (drop_bit (Suc k) i)"
proof -
  let ?m = "push_bit (Suc k) (drop_bit (Suc k) i)"
  have m: "?m = i - i mod 2 ^ Suc k" "2 ^ Suc k dvd ?m"
    by (simp_all add: push_bit_eq_mult drop_bit_eq_div minus_mod_eq_div_mult [symmetric])
  obtain q where q: "i = 2 ^ k * q" using assms by (elim dvdE)
  have "i mod 2 ^ Suc k = 2 ^ k * (q mod 2)" unfolding q power_Suc2 by (rule mult_mod_right [symmetric])
  then consider "i mod 2 ^ Suc k = 0" | "i mod 2 ^ Suc k = 2 ^ k" by (cases "even q") (auto simp: odd_iff_mod_2_eq_one)
  then show thesis
  proof cases
    case 1
    then show thesis using low buddy_of(1) [OF m(2)] m(1) by simp
  next
    case 2
    then have "i = ?m + 2 ^ k" using m(1) mod_less_eq_dividend [of i "2 ^ Suc k"] by simp
    then show thesis using high buddy_of(2) [OF m(2)] by metis
  qed
qed

lemma bd_first_free_bits:
  assumes "k < 15"
  shows "32768 + 2 ^ 15 - 2 ^ k = 65536 - 2 ^ Suc k + (2 :: nat) ^ k" and "2 ^ Suc k dvd 65536 - (2 :: nat) ^ Suc k"
proof -
  have "(2 :: nat) ^ Suc k \<le> 2 ^ 15" by (rule power_increasing) (use assms in auto)
  then show "32768 + 2 ^ 15 - 2 ^ k = 65536 - 2 ^ Suc k + (2 :: nat) ^ k" by simp
  have "(2 :: nat) ^ Suc k dvd 2 ^ 16" by (rule le_imp_power_dvd) (use assms in auto)
  then show "2 ^ Suc k dvd 65536 - (2 :: nat) ^ Suc k" by simp
qed

text \<open>(C33) The first release always stops at an assertion: after initialisation every request of up to eight
  megabytes succeeds, and freeing the block it returned fails the check that the buddy is not next to
  the head of its list, because the buddy is the only entry of that list.\<close>

theorem bd_first_free_aborts:
  assumes "0 < p" and "p + MAX_HEAP < 2 ^ 32" and "n \<le> 2 ^ 23"
  shows "\<exists>s a s'. bd_mm_init p s0 = Inr s \<and> bd_mm_malloc n s = Inr (a, s') \<and> a \<noteq> NULL \<and> bd_mm_free a s' = Inl AssertFail"
proof -
  obtain s where s: "bd_mm_init p s0 = Inr s" "buddy_ok s init_lists {}"
    "\<And>k i. k < 16 \<Longrightarrow> i < 65536 \<Longrightarrow> abit (heap s) (pair_bit s k i) = (k = 15)"
    using bd_mm_init_correct [OF assms(1,2)] by blast
  obtain k where k: "k \<le> 16" "memsize_to_order n = int k" "\<forall>j < k. 256 * 2 ^ j < n"
    using assms(3) by (cases n rule: memsize_to_order_cases) auto
  have "k \<noteq> 16" using k(3) [rule_format, of 15] assms(3) by auto
  then have k16: "k < 16" using k(1) by simp
  have "\<exists>j. k \<le> j \<and> j < 16 \<and> init_lists j \<noteq> []" using k16 by (intro exI [of _ 15]) (simp add: init_lists_def)
  then obtain x xs j s' where A: "k \<le> j" "j < 16" "init_lists j = x # xs"
    "alloc_loop k k s = Inr (physical_memory_area s + (x + 2 ^ j - 2 ^ k) * 256, s')"
    "buddy_ok s' (expand_lists x j k (init_lists(j := xs))) {(x + 2 ^ j - 2 ^ k, k)}" "same_frame s s'"
    "k < j \<or> j \<noteq> 15 \<longrightarrow> abit (heap s') (pair_bit s k (x + 2 ^ j - 2 ^ k)) = (\<not> abit (heap s) (pair_bit s k (x + 2 ^ j - 2 ^ k)))"
    "k = j \<and> j = 15 \<longrightarrow> abit (heap s') = abit (heap s)"
    using alloc_correct [OF s(2) k16] by blast
  have j: "j = 15" "x = 32768" "xs = [0]" using A(3) by (auto simp: init_lists_def split: if_splits)
  define pg where "pg = 32768 + 2 ^ 15 - (2 :: nat) ^ k"
  have "(2 :: nat) ^ k \<le> 2 ^ 15" by (rule power_increasing) (use k16 in auto)
  moreover have "(0 :: nat) < 2 ^ k" by simp
  ultimately have pg: "pg < 65536" unfolding pg_def by simp
  note A = A [unfolded j, folded pg_def]
  have M: "buddy_mid s' (expand_lists 32768 15 k (init_lists(15 := [0]))) {(pg, k)} {}" using A(5) by (simp add: buddy_ok_def)
  have lay: "layout_ok s'" by (rule buddy_midD(3) [OF M])
  have pgn: "GET_PAGE_N s' (physical_memory_area s + pg * 256) = pg"
    using GET_PAGE_N_addr(1) [OF lay pg] A(6) by (simp add: same_frame_def)
  have ord: "page_order s' pg = k" using buddy_midD(6) [OF M] by simp
  have old: "abit (heap s') (pair_bit s' k pg)"
    using A(7,8) s(3) [OF k16 pg] k16 pair_bit_frame [OF A(6), of k pg] by (cases "k = 15") auto
  have bud: "expand_lists 32768 15 k (init_lists(15 := [0])) k = [pg XOR 2 ^ k]"
  proof (cases "k = 15")
    case True
    then show ?thesis by (simp add: expand_lists_def pg_def)
  next
    case False
    then have k15: "k < 15" using k16 by simp
    have "pg XOR 2 ^ k = 65536 - 2 ^ Suc k"
      unfolding pg_def bd_first_free_bits(1) [OF k15] by (rule buddy_of(2) [OF bd_first_free_bits(2) [OF k15]])
    then show ?thesis using k15 by (simp add: expand_lists_def init_lists_def)
  qed
  have "lnext s' (Pg (pg XOR 2 ^ k)) = Some (Head k)" using ringD [OF M k16] bud by simp
  moreover have "phy_page_n s' = 65536" using lay by (simp add: layout_ok_def)
  ultimately have "bd_mm_free (physical_memory_area s + pg * 256) s' = Inl AssertFail"
    using pgn ord old k16 pg
    by (simp add: bd_mm_free_def Let_def free_loop.simps [of pg] bitmap_switch_abit(1) pair_bit_def case_prod_unfold)
  moreover have "bd_mm_malloc n s = Inr (physical_memory_area s + pg * 256, s')"
    using A(4) k(2) by (simp add: bd_mm_malloc_def alloc_pages_def)
  moreover have "0 < physical_memory_area s" using lay A(6) by (simp add: layout_ok_def same_frame_def)
  ultimately show ?thesis using s(1) by auto
qed

theorem bd_first_free_aborts_witness:
  "\<exists>s a s'. bd_mm_init 4096 blank = Inr s \<and> bd_mm_malloc 1 s = Inr (a, s') \<and> a \<noteq> NULL \<and> bd_mm_free a s' = Inl AssertFail"
  using bd_first_free_aborts [of 4096 1 blank] by (simp add: MAX_HEAP_def)

text \<open>One turn of the release loop, in terms of the bit of the pair.\<close>

lemma free_loop_step:
  assumes "k < 16"
  shows "free_loop i k (drop_bit (1 + k) i) s =
    (let s1 = s\<lparr>heap := snd (bitmap_switch (heap s) (area_bitmap s k) (drop_bit (1 + k) i))\<rparr>;
         nx = lnext s (Pg (i XOR 2 ^ k)); pv = lprev s (Pg (i XOR 2 ^ k))
     in if \<not> abit (heap s) (pair_bit s k i) then list_add (Head k) (Pg i) s1
        else if nx = Some (Head k) \<or> pv = Some (Head k) \<or> nx = None \<or> pv = None then Inl AssertFail
        else case list_unlink pv nx s1 of
            Inl e \<Rightarrow> Inl e
          | Inr s2 \<Rightarrow> free_loop (push_bit (Suc k) (drop_bit (Suc k) i)) (Suc k) (drop_bit (Suc (Suc k)) i) s2)"
proof -
  have "drop_bit 1 (drop_bit (1 + k) i) = drop_bit (Suc (Suc k)) i" by (simp add: drop_bit_drop_bit)
  then show ?thesis using assms
    by (subst free_loop.simps) (simp add: Let_def case_prod_unfold bitmap_switch_abit(1) pair_bit_def split: sum.split)
qed

lemma drop_merged: "k \<le> j \<Longrightarrow> drop_bit j (push_bit k (drop_bit k i)) = drop_bit j (i :: nat)"
  by (rule bit_eqI) (auto simp: bit_drop_bit_eq bit_push_bit_iff)

lemma no_third_top_block:
  assumes "buddy_mid s fl L E" and "fl 15 = ys @ b # zs" and "ys \<noteq> []" and "zs \<noteq> []"
  shows False
proof -
  have in_01: "x = 0 \<or> x = 32768" if "x \<in> set (fl 15)" for x
  proof -
    have "(x, 15) \<in> free_blocks fl \<union> L \<union> E" using that by (simp add: free_blocks_def)
    then have "32768 dvd x" "x + 32768 \<le> 65536" using tilesD [OF buddy_midD(1) [OF assms(1)], of x 15] by auto
    then show ?thesis by (elim dvdE) auto
  qed
  have d: "distinct (fl 15)" using buddy_midD(2) [OF assms(1)] by (simp add: rings_ok_def)
  have "set (fl 15) \<subseteq> {0, 32768}" using in_01 by blast
  then have "card (set (fl 15)) \<le> card {0, 32768 :: nat}" by (rule card_mono [rotated]) simp
  then have "length (fl 15) \<le> 2" using d by (simp add: distinct_card)
  then show False using assms(2-4) by (cases ys; cases zs) auto
qed

text \<open>The buddy of the order-\<open>j\<close> block around page \<open>i\<close> is the first or the last entry of its list.\<close>

definition at_end :: "(nat \<Rightarrow> nat list) \<Rightarrow> nat \<Rightarrow> nat \<Rightarrow> bool" where
  "at_end fl j i \<longleftrightarrow> fl j \<noteq> [] \<and> push_bit j (drop_bit j i) XOR 2 ^ j \<in> {hd (fl j), last (fl j)}"

text \<open>One round of the merging loop whose buddy stands between two other blocks of its list: the loop goes on with
  the block of twice the size.\<close>

lemma free_merge_step:
  assumes M: "buddy_mid s fl L {(i, k)}" and bit: "abit (heap s) (pair_bit s k i)"
    and H: "\<And>j. k \<le> j \<Longrightarrow> j < 16 \<Longrightarrow> abit (heap s) (pair_bit s j i) \<Longrightarrow> push_bit j (drop_bit j i) XOR 2 ^ j \<in> set (fl j)"
    and x: "fl k = ys @ (i XOR 2 ^ k) # zs" and mid: "ys \<noteq> []" "zs \<noteq> []"
  defines "m \<equiv> push_bit (Suc k) (drop_bit (Suc k) i)"
  obtains s2 where "free_loop i k (drop_bit (1 + k) i) s = free_loop m (Suc k) (drop_bit (1 + Suc k) m) s2"
    "buddy_mid s2 (fl(k := ys @ zs)) L {(m, Suc k)}"
    "\<And>j. Suc k \<le> j \<Longrightarrow> j < 16 \<Longrightarrow> abit (heap s2) (pair_bit s2 j m)
       \<Longrightarrow> push_bit j (drop_bit j m) XOR 2 ^ j \<in> set ((fl(k := ys @ zs)) j)"
proof -
  have B: "k < 16" "2 ^ k dvd i" "i + 2 ^ k \<le> 65536" using tilesD [OF buddy_midD(1) [OF M], of i k] by auto
  have i_less: "i < 65536" using less_le_trans [OF _ B(3), of i] by simp
  let ?s1 = "s\<lparr>heap := snd (bitmap_switch (heap s) (area_bitmap s k) (drop_bit (1 + k) i))\<rparr>"
  have M1: "buddy_mid ?s1 fl L (insert (i, k) {})" using M by simp
  note U = list_unlink_mid [OF M1 B(1) x]
  let ?b = "i XOR 2 ^ k" and ?p = "last (Head k # map Pg ys)" and ?n = "hd (map Pg zs @ [Head k])"
  let ?s2 = "?s1\<lparr>lnext := (lnext ?s1)(?p \<mapsto> ?n), lprev := (lprev ?s1)(?n \<mapsto> ?p)\<rparr>"
  have l: "lnext s (Pg ?b) = Some ?n" "lprev s (Pg ?b) = Some ?p" using U(2,3) by simp_all
  have k15: "Suc k < 16" using no_third_top_block [OF M, of ys ?b zs] x mid B(1) by (cases "k = 15") auto
  have ends: "?n \<noteq> Head k" "?p \<noteq> Head k" using mid by (auto simp: hd_append hd_map last_map)
  have run: "free_loop i k (drop_bit (1 + k) i) s = free_loop m (Suc k) (drop_bit (1 + Suc k) m) ?s2"
    using free_loop_step [OF B(1), of i s] l ends bit drop_merged [of "Suc k" "Suc (Suc k)" i]
    by (simp add: Let_def list_unlink_def m_def)
  have pair: "{(?b, k), (i, k)} = {(m, k), (m + 2 ^ k, k)}" unfolding m_def using B(2) by (cases rule: pair_cases) auto
  have m: "2 ^ Suc k dvd m" by (simp add: m_def push_bit_eq_mult)
  note D = buddy_midD [OF U(1), unfolded pair]
  have "tiles (free_blocks (fl(k := ys @ zs)) \<union> L \<union> {(m, Suc k)}) \<and> (free_blocks (fl(k := ys @ zs)) \<union> L) \<inter> {(m, Suc k)} = {}"
    by (rule tiles_merge [OF D(1,5) _ m]) (use k15 in simp)
  then have M2: "buddy_mid ?s2 (fl(k := ys @ zs)) L {(m, Suc k)}" using D unfolding buddy_mid_def by blast
  have H2: "push_bit j (drop_bit j m) XOR 2 ^ j \<in> set ((fl(k := ys @ zs)) j)"
    if j: "Suc k \<le> j" "j < 16" and bj: "abit (heap ?s2) (pair_bit ?s2 j m)" for j
  proof -
    have e: "pair_bit ?s2 j m = pair_bit s j i" using drop_merged [of "Suc k" "Suc j" i] j(1) by (simp add: pair_bit_def m_def)
    have "pair_bit s j i \<noteq> pair_bit s k i" using pair_bit_order [OF buddy_midD(3) [OF M], of k j i i] j i_less by simp
    then have "abit (heap s) (pair_bit s j i)" using bj unfolding e by (simp add: bitmap_switch_abit(2) pair_bit_def)
    then show ?thesis using H [of j] j drop_merged [of "Suc k" j i] by (simp add: m_def)
  qed
  show ?thesis by (rule that [OF run M2 H2])
qed

lemma free_loop_correct:
  assumes "buddy_mid s fl L {(i, k)}"
    and "\<And>j. k \<le> j \<Longrightarrow> j < 16 \<Longrightarrow> abit (heap s) (pair_bit s j i) \<Longrightarrow> push_bit j (drop_bit j i) XOR 2 ^ j \<in> set (fl j)"
  shows "(free_loop i k (drop_bit (1 + k) i) s = Inl AssertFail \<and> (\<exists>j. k \<le> j \<and> j < 16 \<and> at_end fl j i)) \<or>
    (\<exists>s' fl' i' k'. free_loop i k (drop_bit (1 + k) i) s = Inr s' \<and> buddy_ok s' fl' L \<and> k' < 16 \<and> i' \<in> set (fl' k')
       \<and> span (i, k) \<subseteq> span (i', k'))"
  using assms
proof (induction "16 - k" arbitrary: s fl i k)
  case 0
  then show ?case using tilesD [OF buddy_midD(1) [OF 0(2)], of i k] by simp
next
  case (Suc d)
  note M = Suc.prems(1) and H = Suc.prems(2)
  have B: "k < 16" "2 ^ k dvd i" using tilesD [OF buddy_midD(1) [OF M], of i k] by auto
  let ?s1 = "s\<lparr>heap := snd (bitmap_switch (heap s) (area_bitmap s k) (drop_bit (1 + k) i))\<rparr>"
  have M1: "buddy_mid ?s1 fl L (insert (i, k) {})" using M by simp
  have low: "push_bit k (drop_bit k i) = i" using B(2) by (simp add: push_bit_eq_mult drop_bit_eq_div)
  show ?case
  proof (cases "abit (heap s) (pair_bit s k i)")
    case False
    obtain f where "list_add (Head k) (Pg i) ?s1 = Inr (list_add3 (Pg i) (Head k) f ?s1)"
      "buddy_mid (list_add3 (Pg i) (Head k) f ?s1) (fl(k := i # fl k)) L {}" by (rule list_add_mid [OF M1]) auto
    then have "free_loop i k (drop_bit (1 + k) i) s = Inr (list_add3 (Pg i) (Head k) f ?s1)
      \<and> buddy_ok (list_add3 (Pg i) (Head k) f ?s1) (fl(k := i # fl k)) L \<and> k < 16 \<and> i \<in> set ((fl(k := i # fl k)) k)
      \<and> span (i, k) \<subseteq> span (i, k)"
      using False B(1) free_loop_step [OF B(1), of i s] by (simp add: Let_def buddy_ok_def)
    then show ?thesis by blast
  next
    case True
    let ?b = "i XOR 2 ^ k" and ?m = "push_bit (Suc k) (drop_bit (Suc k) i)"
    have "?b \<in> set (fl k)" using H [of k] True B(1) low by simp
    then obtain ys zs where x: "fl k = ys @ ?b # zs" by (meson split_list)
    note U = list_unlink_mid [OF M1 B(1) x]
    let ?p = "last (Head k # map Pg ys)" and ?n = "hd (map Pg zs @ [Head k])"
    have l: "lnext s (Pg ?b) = Some ?n" "lprev s (Pg ?b) = Some ?p" using U(2,3) by simp_all
    show ?thesis
    proof (cases "ys = [] \<or> zs = []")
      case True
      then have "?n = Head k \<or> ?p = Head k" by auto
      moreover have "at_end fl k i" unfolding at_end_def low x using True by auto
      ultimately show ?thesis using free_loop_step [OF B(1), of i s] l \<open>abit _ _\<close> B(1) by (auto simp: Let_def)
    next
      case False
      obtain s2 where run: "free_loop i k (drop_bit (1 + k) i) s = free_loop ?m (Suc k) (drop_bit (1 + Suc k) ?m) s2"
        and M2: "buddy_mid s2 (fl(k := ys @ zs)) L {(?m, Suc k)}"
        and H2: "\<And>j. Suc k \<le> j \<Longrightarrow> j < 16 \<Longrightarrow> abit (heap s2) (pair_bit s2 j ?m)
          \<Longrightarrow> push_bit j (drop_bit j ?m) XOR 2 ^ j \<in> set ((fl(k := ys @ zs)) j)"
        using free_merge_step [OF M True H x] False by blast
      have sub: "span (i, k) \<subseteq> span (?m, Suc k)" using B(2) by (cases rule: pair_cases) auto
      have "(free_loop ?m (Suc k) (drop_bit (1 + Suc k) ?m) s2 = Inl AssertFail
          \<and> (\<exists>j. Suc k \<le> j \<and> j < 16 \<and> at_end (fl(k := ys @ zs)) j ?m)) \<or>
        (\<exists>s' fl' i' k'. free_loop ?m (Suc k) (drop_bit (1 + Suc k) ?m) s2 = Inr s' \<and> buddy_ok s' fl' L \<and> k' < 16 \<and> i' \<in> set (fl' k')
           \<and> span (?m, Suc k) \<subseteq> span (i', k'))"
        by (rule Suc.hyps(1) [OF _ M2 H2]) (use Suc.hyps(2) in auto)
      moreover have "at_end fl j i" if "Suc k \<le> j" "at_end (fl(k := ys @ zs)) j ?m" for j
        using that drop_merged [of "Suc k" j i] by (simp add: at_end_def)
      ultimately show ?thesis unfolding run using sub by (meson Suc_leD subset_trans)
    qed
  qed
qed


text \<open>Two one-byte requests after initialisation; the second block can be released.\<close>

definition two_lists :: "nat \<Rightarrow> nat list" where
  "two_lists j = (if j = 0 then [] else if j < 15 then [65536 - 2 ^ Suc j] else if j = 15 then [0] else [])"

lemma two_blocks:
  obtains s where "buddy_ok s two_lists {(65534, 0), (65535, 0)}" "\<not> abit (heap s) (pair_bit s 0 65534)"
    "\<exists>s0 s1 a b. bd_mm_init 4096 blank = Inr s0 \<and> bd_mm_malloc 1 s0 = Inr (a, s1) \<and> bd_mm_malloc 1 s1 = Inr (b, s)"
proof -
  obtain s where s: "bd_mm_init 4096 blank = Inr s" "buddy_ok s init_lists {}"
    "\<And>k i. k < 16 \<Longrightarrow> i < 65536 \<Longrightarrow> abit (heap s) (pair_bit s k i) = (k = 15)"
    using bd_mm_init_correct [of 4096 blank] by (auto simp: MAX_HEAP_def)
  have o1: "memsize_to_order 1 = 0" by (cases "1 :: nat" rule: memsize_to_order_cases) (auto simp: gr0_conv_Suc)
  have "\<exists>j. 0 \<le> j \<and> j < 16 \<and> init_lists j \<noteq> []" by (intro exI [of _ 15]) (simp add: init_lists_def)
  then obtain x xs j s1 where A: "j < 16" "init_lists j = x # xs"
    "alloc_loop 0 0 s = Inr (physical_memory_area s + (x + 2 ^ j - 2 ^ 0) * 256, s1)"
    "buddy_ok s1 (expand_lists x j 0 (init_lists(j := xs))) {(x + 2 ^ j - 2 ^ 0, 0)}" "same_frame s s1"
    "0 < j \<or> j \<noteq> 15 \<longrightarrow> abit (heap s1) (pair_bit s 0 (x + 2 ^ j - 2 ^ 0)) = (\<not> abit (heap s) (pair_bit s 0 (x + 2 ^ j - 2 ^ 0)))"
    using alloc_correct [OF s(2), of 0] by auto
  have j: "j = 15" "x = 32768" "xs = [0]" using A(2) by (auto simp: init_lists_def split: if_splits)
  let ?fl = "expand_lists 32768 15 0 (init_lists(15 := [0]))"
  have ok1: "buddy_ok s1 ?fl {(65535, 0)}" using A(4) j by simp
  have bit1: "abit (heap s1) (pair_bit s1 0 65535)" using A(6) j s(3) [of 0 65535] pair_bit_frame [OF A(5)] by simp
  have f0: "?fl 0 = [65534]" by (simp add: expand_lists_def init_lists_def)
  have "\<exists>j. 0 \<le> j \<and> j < 16 \<and> ?fl j \<noteq> []" using f0 by (intro exI [of _ 0]) simp
  then obtain y ys l s2 where C: "l < 16" "?fl l = y # ys" "\<forall>i. i < l \<longrightarrow> ?fl i = []"
    "alloc_loop 0 0 s1 = Inr (physical_memory_area s1 + (y + 2 ^ l - 2 ^ 0) * 256, s2)"
    "buddy_ok s2 (expand_lists y l 0 (?fl(l := ys))) (insert (y + 2 ^ l - 2 ^ 0, 0) {(65535, 0)})" "same_frame s1 s2"
    "0 < l \<or> l \<noteq> 15 \<longrightarrow> abit (heap s2) (pair_bit s1 0 (y + 2 ^ l - 2 ^ 0)) = (\<not> abit (heap s1) (pair_bit s1 0 (y + 2 ^ l - 2 ^ 0)))"
    using alloc_correct [OF ok1, of 0] by auto
  have l: "l = 0" using C(3) f0 by (metis not_gr_zero list.discI)
  have y: "y = 65534" "ys = []" using C(2) f0 l by auto
  have fl2: "?fl(0 := []) = two_lists" by (auto simp: expand_lists_def init_lists_def two_lists_def)
  have "buddy_ok s2 two_lists {(65534, 0), (65535, 0)}" using C(5) l y fl2 by simp
  moreover have "pair_bit s1 0 65534 = pair_bit s1 0 65535" by (simp add: pair_bit_def drop_bit_eq_div)
  then have "\<not> abit (heap s2) (pair_bit s2 0 65534)" using C(7) l y bit1 pair_bit_frame [OF C(6)] by simp
  moreover have "bd_mm_malloc 1 s = Inr (physical_memory_area s + (x + 2 ^ j - 2 ^ 0) * 256, s1)"
    "bd_mm_malloc 1 s1 = Inr (physical_memory_area s1 + (y + 2 ^ l - 2 ^ 0) * 256, s2)"
    using A(3) C(4) o1 by (simp_all add: bd_mm_malloc_def alloc_pages_def)
  ultimately show ?thesis using that [of s2] s(1) by blast
qed

lemma two_lists_buddy:
  assumes "0 < j" "j < 16"
  shows "push_bit j (drop_bit j (65534 :: nat)) XOR 2 ^ j \<in> set (two_lists j)"
proof -
  have "(2 :: nat) ^ j dvd 2 ^ 16" by (rule le_imp_power_dvd) (use assms in auto)
  then obtain q where q: "(65536 :: nat) = 2 ^ j * q" by (elim dvdE) simp
  have "(2 :: nat) ^ 1 \<le> 2 ^ j" by (rule power_increasing) (use assms in auto)
  have q0: "0 < q" using q by (cases q) auto
  have "65534 div 2 ^ j = q - 1"
  proof (rule div_nat_eqI)
    show "2 ^ j * (q - 1) \<le> 65534" using q q0 \<open>2 ^ 1 \<le> 2 ^ j\<close> by (simp add: diff_mult_distrib2)
    show "65534 < 2 ^ j * Suc (q - 1)" using q q0 by simp
  qed
  then have d: "push_bit j (drop_bit j (65534 :: nat)) = 65536 - 2 ^ j"
    using q by (simp add: push_bit_eq_mult drop_bit_eq_div diff_mult_distrib mult.commute)
  show ?thesis
  proof (cases "j = 15")
    case True
    then show ?thesis unfolding d by (simp add: two_lists_def)
  next
    case False
    then have j: "j < 15" using assms by simp
    have e: "65536 - 2 ^ j = 65536 - 2 ^ Suc j + (2 :: nat) ^ j"
      by (rule trans [OF _ bd_first_free_bits(1) [OF j]]) simp
    have "push_bit j (drop_bit j (65534 :: nat)) XOR 2 ^ j = 65536 - 2 ^ Suc j"
      unfolding d by (subst e) (rule buddy_of(2) [OF bd_first_free_bits(2) [OF j]])
    then show ?thesis using assms j by (simp only: two_lists_def) simp
  qed
qed


end
