(* ===== verification/Calc64.thy ===== *)
theory Calc64
  imports Prelude
begin

text \<open>
  The 64-bit calculator of \<^verbatim>\<open>CSE3030/calculator/hw1.c\<close>: two's-complement numbers as two 32-bit
  halves, added bit by bit with a carry.  A \<^verbatim>\<open>char\<close> is a byte; the flag \<^verbatim>\<open>g_overflow\<close> is passed
  through.  The result structure of \<open>add64\<close> is not initialised in C: what it holds before the loop is
  the argument \<open>junk\<close>.
\<close>

section \<open>The program\<close>

record int64 =
  hp :: u32
  lp :: u32

definition getBit :: "int64 \<Rightarrow> nat \<Rightarrow> byte" where
  "getBit a ind =
     (if ind < 32 then ucast (drop_bit ind (lp a AND push_bit ind 1))
      else ucast (drop_bit (ind - 32) (hp a AND push_bit (ind - 32) 1)))"

definition setBit :: "int64 \<Rightarrow> byte \<Rightarrow> nat \<Rightarrow> int64" where
  "setBit a b i =
     (let bit4 = ucast b :: u32 in
      if i < 32 then a\<lparr>lp := (lp a AND NOT (push_bit i 1)) OR push_bit i bit4\<rparr>
      else a\<lparr>hp := (hp a AND NOT (push_bit (i - 32) 1)) OR push_bit (i - 32) bit4\<rparr>)"

definition c_not :: "byte \<Rightarrow> byte" where
  "c_not b = (if b = 0 then 1 else 0)"

text \<open>The loop of \<open>add64\<close>: \<open>n\<close> rounds are left, the next bit is \<open>i\<close>.\<close>

fun add_loop :: "nat \<Rightarrow> nat \<Rightarrow> int64 \<Rightarrow> int64 \<Rightarrow> byte \<Rightarrow> int64 \<Rightarrow> int64" where
  "add_loop 0 i x y carry_bit_in result = result"
| "add_loop (Suc n) i x y carry_bit_in result =
     (let a_bit_i = getBit x i;
          b_bit_i = getBit y i;
          carry_bit_out = (carry_bit_in AND (a_bit_i XOR b_bit_i)) OR (a_bit_i AND b_bit_i);
          sum_bit = (a_bit_i XOR b_bit_i) XOR carry_bit_in
      in add_loop n (Suc i) x y carry_bit_out (setBit result sum_bit i))"

definition add64 :: "int64 \<Rightarrow> int64 \<Rightarrow> int64 \<Rightarrow> byte \<Rightarrow> int64 \<times> byte" where
  "add64 junk x y g_overflow =
     (let sign_a = getBit x 63;
          sign_b = getBit y 63;
          result = add_loop 64 0 x y 0 junk;
          sign_c = getBit result 63
      in (result,
          if (sign_a AND sign_b AND c_not sign_c) \<noteq> 0 \<or> (c_not sign_a AND c_not sign_b AND sign_c) \<noteq> 0
          then 1 else g_overflow))"

fun print_loop :: "nat \<Rightarrow> int64 \<Rightarrow> string" where
  "print_loop 0 x = []"
| "print_loop (Suc i) x =
     (if Suc i mod 8 = 0 then '' '' else []) @ (if getBit x i \<noteq> 0 then ''1'' else ''0'') @ print_loop i x"

definition printBinaryRepresentation :: "int64 \<Rightarrow> string" where
  "printBinaryRepresentation x = print_loop 64 x @ [CHR 0x0A]"

definition complement64 :: "int64 \<Rightarrow> int64 \<Rightarrow> byte \<Rightarrow> int64 \<times> byte" where
  "complement64 junk x g_overflow = add64 junk \<lparr>hp = NOT (hp x), lp = NOT (lp x)\<rparr> \<lparr>hp = 0, lp = 1\<rparr> g_overflow"

definition sub64 :: "int64 \<Rightarrow> int64 \<Rightarrow> int64 \<Rightarrow> byte \<Rightarrow> int64 \<times> byte" where
  "sub64 junk x y g_overflow =
     (case complement64 junk y g_overflow of (complement_y, g1) \<Rightarrow> add64 junk x complement_y g1)"

text \<open>What \<open>main\<close> prints once the two operands are read.\<close>

definition calc_line :: "string \<Rightarrow> int64 \<times> byte \<Rightarrow> string" where
  "calc_line tag r = tag @ (if snd r \<noteq> 0 then ''overflow!'' @ [CHR 0x0A] else printBinaryRepresentation (fst r))"

definition calc_main :: "int64 \<Rightarrow> int64 \<Rightarrow> int64 \<Rightarrow> string" where
  "calc_main junk op1 op2 =
     ''A:'' @ [CHR 0x09] @ printBinaryRepresentation op1 @ ''B:'' @ [CHR 0x09] @ printBinaryRepresentation op2
     @ calc_line (''ADD64:'' @ [CHR 0x09]) (add64 junk op1 op2 0)
     @ calc_line (''COMP64:'' @ [CHR 0x09]) (complement64 junk op2 0)
     @ calc_line (''SUB64:'' @ [CHR 0x09]) (sub64 junk op1 op2 0)"

section \<open>The number a pair of halves stands for\<close>

definition word64 :: "int64 \<Rightarrow> 64 word" where
  "word64 a = push_bit 32 (ucast (hp a)) OR ucast (lp a)"

abbreviation val64 :: "int64 \<Rightarrow> int" where
  "val64 a \<equiv> sint (word64 a)"

lemma bit_word64: "i < 64 \<Longrightarrow> bit (word64 a) i = (if i < 32 then bit (lp a) i else bit (hp a) (i - 32))"
  by (auto simp: word64_def bit_or_iff bit_push_bit_iff bit_ucast_iff dest: bit_imp_le_length)

lemma word64_inj: "word64 a = word64 b \<Longrightarrow> a = b"
proof -
  assume e: "word64 a = word64 b"
  have "lp a = lp b"
  proof (rule bit_word_eqI)
    fix n assume "n < LENGTH(32)"
    then show "bit (lp a) n = bit (lp b) n" using bit_word64 [of n a] bit_word64 [of n b] e by simp
  qed
  moreover have "hp a = hp b"
  proof (rule bit_word_eqI)
    fix n assume "n < LENGTH(32)"
    then show "bit (hp a) n = bit (hp b) n" using bit_word64 [of "n + 32" a] bit_word64 [of "n + 32" b] e by simp
  qed
  ultimately show "a = b" by simp
qed

lemma single_bit: "i < 32 \<Longrightarrow> ucast (drop_bit i ((w :: u32) AND push_bit i 1)) = (of_bool (bit w i) :: byte)"
proof -
  assume i: "i < 32"
  have "drop_bit i (w AND push_bit i 1) = of_bool (bit w i)"
  proof (rule bit_word_eqI)
    fix n
    show "bit (drop_bit i (w AND push_bit i 1)) n = bit (of_bool (bit w i) :: u32) n"
      using i by (cases "n = 0") (auto simp: bit_drop_bit_eq bit_and_iff bit_exp_iff bit_1_iff)
  qed
  then show ?thesis by simp
qed

lemma getBit_bit: "i < 64 \<Longrightarrow> getBit a i = of_bool (bit (word64 a) i)"
  using single_bit [of i "lp a"] single_bit [of "i - 32" "hp a"] by (auto simp: getBit_def bit_word64)

lemma bit_setBit:
  assumes "i < 64" "j < 64"
  shows "bit (word64 (setBit a (of_bool b) i)) j = (if j = i then b else bit (word64 a) j)"
  using assms
  by (auto simp: bit_word64 setBit_def Let_def bit_or_iff bit_and_iff bit_not_iff bit_push_bit_iff bit_exp_iff bit_1_iff)

section \<open>Adding with a carry\<close>

definition carry :: "nat \<Rightarrow> nat \<Rightarrow> nat \<Rightarrow> nat" where
  "carry i X Y = (X mod 2 ^ i + Y mod 2 ^ i) div 2 ^ i"

lemma nat_bit_sum: "bit (X + Y) i \<longleftrightarrow> odd (X div 2 ^ i + Y div 2 ^ i + carry i X Y)" for X Y :: nat
  unfolding bit_iff_odd carry_def by (subst div_add1_eq) simp

lemma mod_Suc_power: "(X :: nat) mod 2 ^ Suc i = X mod 2 ^ i + 2 ^ i * of_bool (bit X i)"
proof -
  have "X mod (2 ^ i * 2) = 2 ^ i * (X div 2 ^ i mod 2) + X mod 2 ^ i" by (rule mod_mult2_eq)
  then show ?thesis by (simp add: bit_iff_odd mult.commute mod_2_eq_odd)
qed

lemma carry_le: "carry i X Y \<le> 1"
proof -
  have "X mod 2 ^ i < 2 ^ i" "Y mod 2 ^ i < 2 ^ i" by simp_all
  then have "X mod 2 ^ i + Y mod 2 ^ i < 2 ^ i * 2" by linarith
  then have "carry i X Y < 2" unfolding carry_def by (intro less_mult_imp_div_less) (simp only: mult.commute)
  then show ?thesis by simp
qed

lemma carry_Suc: "carry (Suc i) X Y = (of_bool (bit X i) + of_bool (bit Y i) + carry i X Y) div 2"
proof -
  have "X mod 2 ^ Suc i + Y mod 2 ^ Suc i = (X mod 2 ^ i + Y mod 2 ^ i) + 2 ^ i * (of_bool (bit X i) + of_bool (bit Y i))"
    unfolding mod_Suc_power by (simp add: algebra_simps)
  then have "carry (Suc i) X Y = (X mod 2 ^ i + Y mod 2 ^ i + 2 ^ i * (of_bool (bit X i) + of_bool (bit Y i))) div 2 ^ i div 2"
    by (simp only: carry_def power_Suc2 div_mult2_eq)
  moreover have "(A + 2 ^ i * B) div 2 ^ i = B + A div 2 ^ i" for A B :: nat by simp
  ultimately show ?thesis by (simp only: carry_def)
qed

lemma add_loop_bits:
  assumes "n + i = 64" and "c = of_bool (carry i (unat (word64 x)) (unat (word64 y)) = 1)"
    and "\<And>j. j < i \<Longrightarrow> bit (word64 r) j = bit (unat (word64 x) + unat (word64 y)) j"
  shows "\<forall>j < 64. bit (word64 (add_loop n i x y c r)) j = bit (unat (word64 x) + unat (word64 y)) j"
  using assms
proof (induction n arbitrary: i c r)
  case (Suc n)
  let ?X = "unat (word64 x)" and ?Y = "unat (word64 y)"
  define ca where "ca = (carry i ?X ?Y = 1)"
  have i: "i < 64" using Suc.prems(1) by simp
  have bx: "bit ?X i = bit (word64 x) i" "bit ?Y i = bit (word64 y) i" by (simp_all add: bit_unsigned_iff)
  have g: "getBit x i = of_bool (bit ?X i)" "getBit y i = of_bool (bit ?Y i)" using getBit_bit [OF i] bx by simp_all
  have cc: "carry i ?X ?Y = of_bool ca" using carry_le [of i ?X ?Y] by (auto simp: ca_def)
  have s: "bit (?X + ?Y) i = (bit ?X i \<noteq> (bit ?Y i \<noteq> ca))"
    unfolding nat_bit_sum cc by (auto simp: bit_iff_odd)
  have out: "(c AND (getBit x i XOR getBit y i)) OR (getBit x i AND getBit y i) = of_bool (carry (Suc i) ?X ?Y = 1)"
    unfolding g carry_Suc cc Suc.prems(2) ca_def [symmetric] by (auto split: if_splits)
  have sum: "(getBit x i XOR getBit y i) XOR c = of_bool (bit (?X + ?Y) i)"
    unfolding g s Suc.prems(2) ca_def [symmetric] by auto
  have p: "bit (word64 (setBit r (of_bool (bit (?X + ?Y) i)) i)) j = bit (?X + ?Y) j" if "j < Suc i" for j
    using that i Suc.prems(3) bit_setBit [OF i, of j r "bit (?X + ?Y) i"] by (cases "j = i") simp_all
  show ?case unfolding add_loop.simps Let_def out sum
    by (rule Suc.IH [OF _ refl p]) (use Suc.prems(1) in auto)
qed simp

lemma word64_add: "word64 (add_loop 64 0 x y 0 junk) = word64 x + word64 y"
proof (rule bit_word_eqI)
  fix n assume n: "n < LENGTH(64)"
  have "carry 0 X Y \<noteq> 1" for X Y by (simp add: carry_def)
  then have "bit (word64 (add_loop 64 0 x y 0 junk)) n = bit (unat (word64 x) + unat (word64 y)) n"
    using add_loop_bits [of 64 0 0 x y junk] n by simp
  also have "\<dots> = bit (word_of_nat (unat (word64 x) + unat (word64 y)) :: 64 word) n"
    using n by (simp add: bit_of_nat_iff del: of_nat_add)
  finally show "bit (word64 (add_loop 64 0 x y 0 junk)) n = bit (word64 x + word64 y) n" by simp
qed

section \<open>Signed overflow\<close>

lemma u64: "0 \<le> uint (w :: 64 word)" "uint w < 18446744073709551616"
  using unsigned_less [of w] by simp_all

lemma sint64: "sint (w :: 64 word) = uint w - 2 ^ 64 * of_bool (bit w 63)" and bit63: "bit (w :: 64 word) 63 \<longleftrightarrow> 2 ^ 63 \<le> uint w"
proof -
  have "sint w = signed_take_bit 63 (uint w)" by (simp add: sint_uint)
  also have "\<dots> = take_bit 64 (uint w) - 2 ^ 64 * of_bool (bit (uint w) 63)"
    using signed_take_bit_eq_take_bit_minus [of 63 "uint w"] by simp
  finally show "sint w = uint w - 2 ^ 64 * of_bool (bit w 63)" using u64 [of w] by (simp add: bit_uint_iff take_bit_int_eq_self)
  have r: "0 \<le> uint w" "uint w < 2 ^ 64" using u64 [of w] by simp_all
  have "bit (uint w) 63 \<longleftrightarrow> odd (uint w div 2 ^ 63)" by (rule bit_iff_odd)
  then have "bit w 63 \<longleftrightarrow> odd (uint w div 2 ^ 63)" by (simp add: bit_uint_iff)
  moreover have "uint w div 2 ^ 63 = (if 2 ^ 63 \<le> uint w then 1 else 0)"
  proof (cases "2 ^ 63 \<le> uint w")
    case True
    then show ?thesis using r by (intro trans [OF div_pos_geq]) (simp_all add: div_pos_pos_trivial)
  qed (use r in \<open>simp add: div_pos_pos_trivial\<close>)
  ultimately show "bit w 63 \<longleftrightarrow> 2 ^ 63 \<le> uint w" by simp
qed

lemma uint_add64: "uint (a + b :: 64 word) = (if uint a + uint b < 2 ^ 64 then uint a + uint b else uint a + uint b - 2 ^ 64)"
  using u64 [of a] u64 [of b] by (simp add: uint_plus_if')

lemma sint_range: "- (2 ^ 63) \<le> sint (w :: 64 word)" "sint w < 2 ^ 63"
  using sint_ge [of w] sint_lt [of w] by simp_all

lemma sint_not: "sint (NOT w :: 64 word) = - sint w - 1"
proof -
  have "sint (NOT w) = signed_take_bit 64 (- sint w - 1)" by (simp add: signed_not_eq not_int_def)
  also have "\<dots> = - sint w - 1" by (rule signed_take_bit_int_eq_self) (use sint_range [of w] in simp_all)
  finally show ?thesis .
qed

lemma sign_cases:
  fixes A B :: int
  assumes "0 \<le> A" "A < 2 ^ 64" "0 \<le> B" "B < 2 ^ 64"
  defines "C \<equiv> if A + B < 2 ^ 64 then A + B else A + B - 2 ^ 64" and "sg \<equiv> \<lambda>X. X - 2 ^ 64 * of_bool (2 ^ 63 \<le> X)"
  shows "2 ^ 63 \<le> A \<and> 2 ^ 63 \<le> B \<and> \<not> 2 ^ 63 \<le> C \<or> \<not> 2 ^ 63 \<le> A \<and> \<not> 2 ^ 63 \<le> B \<and> 2 ^ 63 \<le> C
      \<longleftrightarrow> sg A + sg B \<notin> {- (2 ^ 63) ..< 2 ^ 63}"
    and "sg A + sg B \<in> {- (2 ^ 63) ..< 2 ^ 63} \<Longrightarrow> sg C = sg A + sg B"
  using assms(1-4) unfolding C_def sg_def
  by (cases "2 ^ 63 \<le> A"; cases "2 ^ 63 \<le> B"; cases "A + B < 2 ^ 64"; simp; linarith)+

text \<open>The sign test of \<open>add64\<close> is signed overflow.\<close>

lemma sign_overflow:
  "bit a 63 \<and> bit b 63 \<and> \<not> bit (a + b) 63 \<or> \<not> bit a 63 \<and> \<not> bit b 63 \<and> bit (a + b) 63
    \<longleftrightarrow> sint a + sint b \<notin> {- (2 ^ 63) ..< 2 ^ 63}" for a b :: "64 word"
  using u64 [of a] u64 [of b] sign_cases(1) [of "uint a" "uint b"] unfolding sint64 bit63 uint_add64 by simp

lemma sint_add64:
  "sint a + sint b \<in> {- (2 ^ 63) ..< 2 ^ 63} \<Longrightarrow> sint (a + b) = sint a + sint b" for a b :: "64 word"
  using u64 [of a] u64 [of b] sign_cases(2) [of "uint a" "uint b"] unfolding sint64 bit63 uint_add64 by simp

lemma add64_result:
  "word64 (fst (add64 junk x y g)) = word64 x + word64 y"
  "snd (add64 junk x y g) = (if val64 x + val64 y \<notin> {- (2 ^ 63) ..< 2 ^ 63} then 1 else g)"
proof -
  show w: "word64 (fst (add64 junk x y g)) = word64 x + word64 y" by (simp add: add64_def Let_def word64_add)
  have s: "getBit z 63 = of_bool (bit (word64 z) 63)" for z by (rule getBit_bit) simp
  have "snd (add64 junk x y g) =
    (if bit (word64 x) 63 \<and> bit (word64 y) 63 \<and> \<not> bit (word64 x + word64 y) 63
        \<or> \<not> bit (word64 x) 63 \<and> \<not> bit (word64 y) 63 \<and> bit (word64 x + word64 y) 63 then 1 else g)"
    by (simp add: add64_def Let_def s word64_add c_not_def)
  then show "snd (add64 junk x y g) = (if val64 x + val64 y \<notin> {- (2 ^ 63) ..< 2 ^ 63} then 1 else g)"
    unfolding sign_overflow .
qed

lemma complement64_result:
  "word64 (fst (complement64 junk y g)) = - word64 y"
  "snd (complement64 junk y g) = (if val64 y = - (2 ^ 63) then 1 else g)"
proof -
  have n: "word64 \<lparr>hp = NOT (hp y), lp = NOT (lp y)\<rparr> = NOT (word64 y)"
    by (rule bit_word_eqI) (auto simp: bit_word64 bit_not_iff)
  have one: "word64 \<lparr>hp = 0, lp = 1\<rparr> = 1" by (simp add: word64_def)
  show "word64 (fst (complement64 junk y g)) = - word64 y"
    by (simp add: complement64_def add64_result(1) n one minus_eq_not_plus_1)
  have "val64 \<lparr>hp = NOT (hp y), lp = NOT (lp y)\<rparr> = - val64 y - 1" unfolding n by (rule sint_not)
  moreover have "val64 \<lparr>hp = 0, lp = 1\<rparr> = 1" unfolding one by simp
  ultimately show "snd (complement64 junk y g) = (if val64 y = - (2 ^ 63) then 1 else g)"
    using sint_range [of "word64 y"] by (auto simp: complement64_def add64_result(2))
qed

section \<open>Properties\<close>

text \<open>(C25) \<open>add64\<close>, whatever the uninitialised result structure held, computes the sum modulo two to the 64th,
  and raises the overflow flag exactly when the signed sum does not fit; where it fits, the result is
  the signed sum.\<close>

theorem add64_correct:
  "word64 (fst (add64 junk x y 0)) = word64 x + word64 y
   \<and> (snd (add64 junk x y 0) \<noteq> 0 \<longleftrightarrow> val64 x + val64 y \<notin> {- (2 ^ 63) ..< 2 ^ 63})
   \<and> (snd (add64 junk x y 0) = 0 \<longrightarrow> val64 (fst (add64 junk x y 0)) = val64 x + val64 y)"
  using add64_result [of junk x y 0] sint_add64 [of "word64 x" "word64 y"] by auto

definition halves :: "u32 \<Rightarrow> u32 \<Rightarrow> int64" where
  "halves h l = \<lparr>hp = h, lp = l\<rparr>"

theorem add64_correct_witness:
  "snd (add64 (halves 7 9) (halves 0x7FFFFFFF 0xFFFFFFFF) (halves 0 1) 0) \<noteq> 0"
proof -
  have "val64 (halves 0x7FFFFFFF 0xFFFFFFFF) = 2 ^ 63 - 1" "val64 (halves 0 1) = 1" by (simp_all add: halves_def word64_def)
  then show ?thesis using add64_correct [of "halves 7 9" "halves 0x7FFFFFFF 0xFFFFFFFF" "halves 0 1"] by simp
qed

text \<open>\<open>sub64\<close> computes the difference modulo two to the 64th.  Its overflow flag is raised when the signed
  difference does not fit, and also whenever the subtrahend is the least number, where the
  complement overflows on the way: for a negative minuend the difference then fits and is still
  reported as an overflow.\<close>

theorem sub64_overflow:
  "word64 (fst (sub64 junk x y 0)) = word64 x - word64 y
   \<and> (snd (sub64 junk x y 0) \<noteq> 0 \<longleftrightarrow> val64 x - val64 y \<notin> {- (2 ^ 63) ..< 2 ^ 63} \<or> val64 y = - (2 ^ 63))"
proof -
  obtain c g where c: "complement64 junk y 0 = (c, g)" by (cases "complement64 junk y 0")
  have w: "word64 c = - word64 y" and g: "g = (if val64 y = - (2 ^ 63) then 1 else 0)"
    using complement64_result [of junk y 0] c by auto
  have r: "sub64 junk x y 0 = add64 junk x c g" by (simp add: sub64_def c)
  have "val64 c = - val64 y" if "val64 y \<noteq> - (2 ^ 63)"
  proof -
    have "sint (NOT (word64 y) + 1) = sint (NOT (word64 y)) + sint (1 :: 64 word)"
      by (rule sint_add64) (use that sint_range [of "word64 y"] in \<open>auto simp: sint_not\<close>)
    then show ?thesis unfolding w by (simp add: sint_not minus_eq_not_plus_1 [of "word64 y"])
  qed
  then show ?thesis unfolding r using add64_result [of junk x c g] w g by auto
qed

theorem sub64_overflow_witness:
  "snd (sub64 (halves 7 9) (halves 0xFFFFFFFF 0xFFFFFFFF) (halves 0x80000000 0) 0) \<noteq> 0
   \<and> val64 (halves 0xFFFFFFFF 0xFFFFFFFF) - val64 (halves 0x80000000 0) = 2 ^ 63 - 1"
proof -
  have "val64 (halves 0xFFFFFFFF 0xFFFFFFFF) = - 1" "val64 (halves 0x80000000 0) = - (2 ^ 63)"
    by (simp_all add: halves_def word64_def)
  then show ?thesis using sub64_overflow [of "halves 7 9" "halves 0xFFFFFFFF 0xFFFFFFFF" "halves 0x80000000 0"] by simp
qed

end
