(* ===== verification/Shell_Parser.thy ===== *)
theory Shell_Parser
  imports C_Strings
begin

text \<open>
  The command line of the shell (\<^verbatim>\<open>myshell/interpreter.c\<close>, the table of \<^verbatim>\<open>builtin.c\<close>): finding the
  command word by binary search, splitting the arguments, and chaining the commands of a pipeline.
  The argument \<open>s\<close> of an operation is the line buffer from the current position to its end; running
  off it is the fault \<open>LineOverrun\<close>.  A string that the code stores in a fresh block is a pair of its
  characters and the number of bytes that were allocated for it.  The chain of commands that the
  fields \<^verbatim>\<open>redirectto\<close> and \<^verbatim>\<open>redirectfrom\<close> link in both directions is a list.
\<close>

section \<open>Data\<close>

datatype sh_status = OK | BUFFERING | SYNTAXERR | NOCOMMANDERR
datatype sh_mode = BACKGROUND | FOREGROUND
datatype cmd_flag = ABSOLUTE | FUNCTION | RELATIVE
datatype builtin_fp = bg_fp | change_directory_fp | exit_fp | fg_fp | print_jobs_fp | kill_job_fp
datatype sh_fault = LineOverrun | ArgOverflow

record shcmd =
  sh_argc :: nat
  sh_arguments :: "(string \<times> nat) option list"
  sh_flag :: cmd_flag
  sh_name :: "string \<times> nat"
  sh_fp :: "builtin_fp option"

definition MAXARGS :: nat where "MAXARGS = 16"

definition num_command :: int where "num_command = 29"

definition sh_commands :: "(cmd_flag \<times> string \<times> builtin_fp option) list" where
  "sh_commands =
     [(FUNCTION, ''bg'', Some bg_fp), (ABSOLUTE, ''cat'', None), (FUNCTION, ''cd'', Some change_directory_fp),
      (ABSOLUTE, ''clear'', None), (ABSOLUTE, ''code'', None), (ABSOLUTE, ''echo'', None),
      (FUNCTION, ''exit'', Some exit_fp), (FUNCTION, ''fg'', Some fg_fp), (ABSOLUTE, ''gcc'', None),
      (ABSOLUTE, ''git'', None), (ABSOLUTE, ''grep'', None), (FUNCTION, ''jobs'', Some print_jobs_fp),
      (FUNCTION, ''kill'', Some kill_job_fp), (ABSOLUTE, ''less'', None), (ABSOLUTE, ''ls'', None),
      (ABSOLUTE, ''make'', None), (ABSOLUTE, ''mkdir'', None), (ABSOLUTE, ''more'', None),
      (ABSOLUTE, ''printenv'', None), (ABSOLUTE, ''ps'', None), (ABSOLUTE, ''pwd'', None), (ABSOLUTE, ''rmdir'', None),
      (ABSOLUTE, ''scp'', None), (ABSOLUTE, ''sleep'', None), (ABSOLUTE, ''sort'', None), (ABSOLUTE, ''ssh'', None),
      (ABSOLUTE, ''tar'', None), (ABSOLUTE, ''touch'', None), (ABSOLUTE, ''vi'', None), (ABSOLUTE, ''whereis'', None)]"

definition PIPE :: char where "PIPE = CHR ''|''"
definition AMPERSAND :: char where "AMPERSAND = CHR ''&''"
definition DAPOSTROPHE :: char where "DAPOSTROPHE = CHR 0x22"

definition sh_white :: "char \<Rightarrow> bool" where
  "sh_white c \<longleftrightarrow> c = CHR '' '' \<or> c = CHR 0x09"

text \<open>The value of a (signed) \<^verbatim>\<open>char\<close>.\<close>

definition schar :: "char \<Rightarrow> int" where
  "schar c = (let n = int (of_char c) in if n < 128 then n else n - 256)"

section \<open>Finding the command\<close>

abbreviation cmd_name :: "int \<Rightarrow> string" where
  "cmd_name i \<equiv> fst (snd (sh_commands ! nat i))"

lemma mid_bounds: "0 \<le> low \<Longrightarrow> low \<le> high \<Longrightarrow> low \<le> c_div (low + high) 2 \<and> c_div (low + high) 2 \<le> high"
  by (cases "low + high = 0") (auto simp: c_div_def)

lemma mid_bounds_neg: "low \<le> high \<Longrightarrow> low \<le> c_div (low + high) 2 \<and> c_div (low + high) 2 \<le> high"
  by (cases "low + high" "0 :: int" rule: linorder_cases) (auto simp: c_div_def sgn_if)

function cmd_search :: "string \<Rightarrow> int \<Rightarrow> int \<Rightarrow> int option" where
  "cmd_search s low high =
     (if low \<le> high then
        let mid = c_div (low + high) 2;
            c = schar (at s) - schar (cmd_name mid ! 0)
        in if c = 0 then
             if strncmp_eq s (cmd_name mid) (length (cmd_name mid)) then Some mid
             else if schar (at (tl s)) - schar (cmd_name mid ! 1) > 0 then cmd_search s (mid + 1) high
             else cmd_search s low (mid - 1)
           else if c > 0 then cmd_search s (mid + 1) high
           else cmd_search s low (mid - 1)
      else None)"
  by pat_completeness auto
termination
  by (relation "measure (\<lambda>(s, low, high). nat (high - low + 1))") (use mid_bounds_neg in \<open>force+\<close>)

declare cmd_search.simps [simp del]

definition rel_char :: "char \<Rightarrow> bool" where
  "rel_char c \<longleftrightarrow> \<not> sh_white c \<and> c \<noteq> NEWLINE \<and> c \<noteq> PIPE"

text \<open>The size of a pointer is what the code allocates for the copy of a name of the table.\<close>

definition find_shell_command :: "string \<Rightarrow> sh_fault + sh_status \<times> shcmd option \<times> string" where
  "find_shell_command s =
     (if at s = CHR ''.'' then
        case skip rel_char s of
          None \<Rightarrow> Inl LineOverrun
        | Some n \<Rightarrow>
            Inr (OK, Some \<lparr>sh_argc = 0, sh_arguments = [], sh_flag = RELATIVE, sh_name = (c_str (take n s), n), sh_fp = None\<rparr>,
                 drop n s)
      else case cmd_search s 0 num_command of
          None \<Rightarrow> Inr (NOCOMMANDERR, None, s)
        | Some mid \<Rightarrow>
            let (fl, nm, fp) = sh_commands ! nat mid
            in Inr (OK, Some \<lparr>sh_argc = 0, sh_arguments = [], sh_flag = fl, sh_name = (nm, 8),
                              sh_fp = (if fl = FUNCTION then fp else None)\<rparr>, drop (length nm) s))"

section \<open>Splitting the arguments\<close>

definition word_char :: "char \<Rightarrow> bool" where
  "word_char c \<longleftrightarrow> \<not> sh_white c \<and> c \<noteq> NEWLINE \<and> c \<noteq> PIPE \<and> c \<noteq> AMPERSAND"

definition quoted_char :: "char \<Rightarrow> bool" where
  "quoted_char c \<longleftrightarrow> c \<noteq> DAPOSTROPHE \<and> c \<noteq> PIPE \<and> c \<noteq> NEWLINE"

text \<open>One argument at the current position: its block and the rest of the line; no block when there is
  no argument left.\<close>

definition next_argument :: "string \<Rightarrow> sh_fault + (string \<times> nat) option \<times> string" where
  "next_argument s =
     (if at s = DAPOSTROPHE then
        case skip quoted_char (tl s) of
          None \<Rightarrow> Inl LineOverrun
        | Some k \<Rightarrow>
            if tl s ! k = DAPOSTROPHE then Inr (Some (c_str (take k (tl s)), k), drop (k + 1) (tl s))
            else Inr (Some ([DAPOSTROPHE], 2), tl s)
      else
        case skip word_char s of
          None \<Rightarrow> Inl LineOverrun
        | Some k \<Rightarrow> Inr (if k = 0 then None else Some (c_str (take k s), k), drop k s))"

text \<open>The loop over the arguments; \<open>n\<close> entries of the array are left.\<close>

fun arg_loop :: "nat \<Rightarrow> nat \<Rightarrow> string \<Rightarrow> shcmd \<Rightarrow> sh_fault + shcmd \<times> string" where
  "arg_loop 0 argc s cmd = Inl ArgOverflow"
| "arg_loop (Suc n) argc s cmd =
     (if s = [] then Inl LineOverrun
      else if at s = AMPERSAND then Inr (cmd, s)
      else case next_argument s of
          Inl e \<Rightarrow> Inl e
        | Inr (None, s1) \<Rightarrow> Inr (cmd\<lparr>sh_arguments := (sh_arguments cmd)[argc := None], sh_argc := argc\<rparr>, s1)
        | Inr (Some a, s1) \<Rightarrow>
            (case skip sh_white s1 of
               None \<Rightarrow> Inl LineOverrun
             | Some w \<Rightarrow> arg_loop n (argc + 1) (drop w s1) (cmd\<lparr>sh_arguments := (sh_arguments cmd)[argc := Some a]\<rparr>)))"

definition find_arguments :: "shcmd \<Rightarrow> string \<Rightarrow> sh_fault + shcmd \<times> string" where
  "find_arguments cmd s =
     (let nm = fst (sh_name cmd);
          cmd1 = cmd\<lparr>sh_arguments := (replicate MAXARGS None)[0 := Some (nm, length nm)]\<rparr>
      in arg_loop (MAXARGS - 1) 1 s cmd1)"

section \<open>The parser\<close>

lemma skip_le: "skip P s = Some n \<Longrightarrow> n \<le> length s"
  by (induction s arbitrary: n) (auto split: if_splits)

lemma skip_pos: "skip P s = Some n \<Longrightarrow> P (at s) \<Longrightarrow> s \<noteq> [] \<Longrightarrow> 0 < n"
  by (cases s) (auto simp: at_def)

lemma next_argument_le: "next_argument s = Inr (a, s1) \<Longrightarrow> length s1 \<le> length s"
  by (auto simp: next_argument_def split: if_splits option.splits)

lemma arg_loop_le: "arg_loop n argc s cmd = Inr (cmd', s') \<Longrightarrow> length s' \<le> length s"
proof (induction n argc s cmd rule: arg_loop.induct)
  case (2 n argc s cmd)
  show ?case
  proof (cases "at s = AMPERSAND \<or> s = []")
    case True
    then show ?thesis using 2(2) by (auto split: if_splits)
  next
    case False
    obtain a s1 where a: "next_argument s = Inr (a, s1)" using 2(2) False by (auto split: sum.splits)
    show ?thesis
    proof (cases a)
      case None
      then show ?thesis using 2(2) False a next_argument_le [OF a] by auto
    next
      case (Some b)
      then obtain w where w: "skip sh_white s1 = Some w" using 2(2) False a by (auto split: option.splits)
      then have "length s' \<le> length (drop w s1)" using 2 False a Some by (auto split: option.splits)
      then show ?thesis using next_argument_le [OF a] by simp
    qed
  qed
qed simp

lemma names_nonempty: "0 \<le> i \<Longrightarrow> i < 30 \<Longrightarrow> 2 \<le> length (cmd_name i)"
proof -
  have "list_all (\<lambda>e. 2 \<le> length (fst (snd e))) sh_commands" "length sh_commands = 30" by (simp_all add: sh_commands_def)
  then show "0 \<le> i \<Longrightarrow> i < 30 \<Longrightarrow> 2 \<le> length (cmd_name i)" by (simp add: list_all_length)
qed

lemma cmd_search_sound:
  "cmd_search s low high = Some i \<Longrightarrow> low \<le> i \<and> i \<le> high \<and> strncmp_eq s (cmd_name i) (length (cmd_name i))"
proof (induction s low high rule: cmd_search.induct)
  case (1 s low high)
  have le: "low \<le> high" using 1(5) by (subst (asm) cmd_search.simps) (auto split: if_splits)
  note IH = 1(1-4) [OF le refl refl]
  define mid where "mid = c_div (low + high) 2"
  have "low \<le> mid" "mid \<le> high" using mid_bounds_neg [OF le] by (auto simp: mid_def)
  moreover note 1(5) [unfolded cmd_search.simps [of s low high] Let_def if_P [OF le]]
  ultimately show ?case using IH unfolding mid_def [symmetric] by (force split: if_splits)
qed

text \<open>Two entries of the table differ in their first two letters, and the table is sorted by them.\<close>

definition key :: "string \<Rightarrow> int \<times> int" where
  "key s = (schar (at s), schar (at (tl s)))"

definition key_less :: "int \<times> int \<Rightarrow> int \<times> int \<Rightarrow> bool" where
  "key_less a b \<longleftrightarrow> fst a < fst b \<or> fst a = fst b \<and> snd a < snd b"

lemma table_sorted: "0 \<le> i \<Longrightarrow> i < j \<Longrightarrow> j < 30 \<Longrightarrow> key_less (key (cmd_name i)) (key (cmd_name j))"
proof -
  have "sorted_wrt (\<lambda>a b. key_less (key (fst (snd a))) (key (fst (snd b)))) sh_commands" "length sh_commands = 30"
    by (simp_all add: sh_commands_def key_def key_less_def at_def schar_def)
  then show "0 \<le> i \<Longrightarrow> i < j \<Longrightarrow> j < 30 \<Longrightarrow> ?thesis" by (simp add: sorted_wrt_iff_nth_less)
qed

lemma table_chars: "0 \<le> i \<Longrightarrow> i < 30 \<Longrightarrow> NUL \<notin> set (cmd_name i)"
proof -
  have "list_all (\<lambda>e. NUL \<notin> set (fst (snd e))) sh_commands" "length sh_commands = 30" by (simp_all add: sh_commands_def)
  then show "0 \<le> i \<Longrightarrow> i < 30 \<Longrightarrow> NUL \<notin> set (cmd_name i)" by (simp add: list_all_length)
qed

lemma name_key: "0 \<le> i \<Longrightarrow> i < 30 \<Longrightarrow> key (cmd_name i) = (schar (cmd_name i ! 0), schar (cmd_name i ! 1))"
  using names_nonempty [of i] by (cases "cmd_name i"; cases "tl (cmd_name i)") (auto simp: key_def at_def)

lemma strncmp_key:
  assumes "strncmp_eq s nm (length nm)" and "2 \<le> length nm" and "NUL \<notin> set nm"
  shows "key s = key nm"
proof -
  obtain a b r where nm: "nm = a # b # r" using assms(2) by (cases nm; cases "tl nm") auto
  then show ?thesis using assms(1,3) by (auto simp: key_def at_def)
qed

lemma cmd_search_complete:
  "0 \<le> low \<Longrightarrow> high < 30 \<Longrightarrow> low \<le> i \<Longrightarrow> i \<le> high \<Longrightarrow> strncmp_eq s (cmd_name i) (length (cmd_name i)) \<Longrightarrow> cmd_search s low high = Some i"
proof (induction s low high rule: cmd_search.induct)
  case (1 s low high)
  note P = 1(5-9)
  have le: "low \<le> high" using P by simp
  note IH = 1(1-4) [OF le refl refl]
  define mid where "mid = c_div (low + high) 2"
  have mid: "low \<le> mid" "mid \<le> high" using mid_bounds_neg [OF le] by (auto simp: mid_def)
  have i: "0 \<le> i" "i < 30" and m: "0 \<le> mid" "mid < 30" using 1(5-8) mid by auto
  have k: "(schar (at s), schar (at (tl s))) = key (cmd_name i)"
    using strncmp_key [OF 1(9) names_nonempty [OF i] table_chars [OF i]] by (simp add: key_def)
  note run = cmd_search.simps [of s low high, unfolded Let_def if_P [OF le], folded mid_def]
  note IH = IH [folded mid_def]
  consider "i = mid" | "i < mid" | "mid < i" by linarith
  then show ?case
  proof cases
    case 1
    then have "schar (at s) = schar (cmd_name mid ! 0)" using k name_key [OF m] by simp
    then show ?thesis using run \<open>strncmp_eq s (cmd_name i) _\<close> 1 by simp
  next
    case 2
    have no: "\<not> strncmp_eq s (cmd_name mid) (length (cmd_name mid))"
      using strncmp_key [OF _ names_nonempty [OF m] table_chars [OF m], of s] k table_sorted [OF i(1) 2 m(2)]
      by (auto simp: key_def key_less_def)
    have "key_less (schar (at s), schar (at (tl s))) (schar (cmd_name mid ! 0), schar (cmd_name mid ! 1))"
      using table_sorted [OF i(1) 2 m(2)] k name_key [OF m] by simp
    then show ?thesis using run no IH(2,4) 2 P m by (auto simp: key_less_def)
  next
    case 3
    have no: "\<not> strncmp_eq s (cmd_name mid) (length (cmd_name mid))"
      using strncmp_key [OF _ names_nonempty [OF m] table_chars [OF m], of s] k table_sorted [OF m(1) 3 i(2)]
      by (auto simp: key_def key_less_def)
    have "key_less (schar (cmd_name mid ! 0), schar (cmd_name mid ! 1)) (schar (at s), schar (at (tl s)))"
      using table_sorted [OF m(1) 3 i(2)] k name_key [OF m] by simp
    then show ?thesis using run no IH(1,3) 3 P m by (auto simp: key_less_def)
  qed
qed

lemma strncmp_take: "strncmp_eq s nm (length nm) \<Longrightarrow> NUL \<notin> set nm \<Longrightarrow> take (length nm) s = nm"
proof (induction nm arbitrary: s)
  case (Cons c nm)
  then show ?case by (cases s) (auto simp: at_def)
qed simp

lemma take_strncmp: "take (length nm) s = nm \<Longrightarrow> strncmp_eq s nm (length nm)"
proof (induction nm arbitrary: s)
  case (Cons c nm)
  then show ?case by (cases s) (auto simp: at_def)
qed simp

lemma search_range: "cmd_search s 0 num_command = Some i \<Longrightarrow> 0 \<le> i \<and> i < 30 \<and> take (length (cmd_name i)) s = cmd_name i"
  using cmd_search_sound [of s 0 num_command i] strncmp_take [of s "cmd_name i"] table_chars [of i]
  by (auto simp: num_command_def)

lemma find_shell_command_less:
  assumes "find_shell_command s = Inr (st, Some cmd, s')" and "s \<noteq> []"
  shows "length s' < length s"
proof (cases "at s = CHR ''.''")
  case True
  then obtain n where n: "skip rel_char s = Some n" "s' = drop n s" using assms(1) by (auto simp: find_shell_command_def split: option.splits)
  have "rel_char (at s)" by (simp add: True rel_char_def sh_white_def PIPE_def)
  then show ?thesis using skip_pos [OF n(1)] n(2) assms(2) by simp
next
  case False
  then obtain i where i: "cmd_search s 0 num_command = Some i" "s' = drop (length (cmd_name i)) s"
    using assms(1) by (auto simp: find_shell_command_def case_prod_unfold Let_def split: option.splits)
  then show ?thesis using search_range [OF i(1)] names_nonempty [of i] assms(2) by (auto intro!: diff_less)
qed

lemma find_arguments_le: "find_arguments cmd s = Inr (cmd', s') \<Longrightarrow> length s' \<le> length s"
  using arg_loop_le by (auto simp: find_arguments_def Let_def)

lemma skip_nonempty: "skip P s = Some n \<Longrightarrow> drop n s \<noteq> [] \<and> \<not> P (at (drop n s))"
  by (induction s arbitrary: n) (auto simp: at_def split: if_splits)

lemma parse_step_less:
  assumes "skip sh_white s = Some w0" "find_shell_command (drop w0 s) = Inr (st1, Some cbuf, s1)"
    "find_arguments cbuf (drop w1 s1) = Inr (c', s2)"
  shows "length (drop w2 s2) < length s"
proof -
  have "length s1 < length (drop w0 s)" using find_shell_command_less [OF assms(2)] skip_nonempty [OF assms(1)] by blast
  then show ?thesis using find_arguments_le [OF assms(3)] by auto
qed

text \<open>\<open>st\<close> is the variable \<^verbatim>\<open>status\<close>, which has no initial value in C; \<open>cmds\<close> is the chain built so far.\<close>

function parse_loop :: "sh_status \<Rightarrow> string \<Rightarrow> shcmd list \<Rightarrow> sh_mode \<Rightarrow> sh_fault + sh_status \<times> shcmd list \<times> sh_mode" where
  "parse_loop st s cmds mode =
     (if s = [] then Inl LineOverrun
      else if at s = NEWLINE then Inr (st, cmds, mode)
      else case skip sh_white s of
          None \<Rightarrow> Inl LineOverrun
        | Some w0 \<Rightarrow>
            let s0 = drop w0 s in
            if at s0 = NEWLINE then Inr (st, cmds, mode)
            else case find_shell_command s0 of
                Inl e \<Rightarrow> Inl e
              | Inr (st1, None, _) \<Rightarrow> Inr (st1, cmds, mode)
              | Inr (st1, Some cbuf, s1) \<Rightarrow>
                  (case skip sh_white s1 of
                     None \<Rightarrow> Inl LineOverrun
                   | Some w1 \<Rightarrow>
                       case find_arguments cbuf (drop w1 s1) of
                         Inl e \<Rightarrow> Inl e
                       | Inr (cbuf', s2) \<Rightarrow>
                           case skip sh_white s2 of
                             None \<Rightarrow> Inl LineOverrun
                           | Some w2 \<Rightarrow>
                               let s3 = drop w2 s2; cmds' = cmds @ [cbuf'] in
                               if at s3 = AMPERSAND then
                                 case skip sh_white (tl s3) of
                                   None \<Rightarrow> Inl LineOverrun
                                 | Some w3 \<Rightarrow> Inr (if at (drop w3 (tl s3)) \<noteq> NEWLINE then SYNTAXERR else OK, cmds', BACKGROUND)
                               else if at s3 = PIPE then parse_loop BUFFERING (tl s3) cmds' mode
                               else parse_loop OK s3 cmds' mode))"
  by pat_completeness auto
termination
proof (relation "measure (\<lambda>(st, s, cmds, mode). length s)", goal_cases)
  case (2 st s cmds mode w0 s0 x st1 r opt s1 cbuf w1 y c' s2 w2 s3 cmds')
  then show ?case using parse_step_less [of s w0 st1 cbuf s1 w1 c' s2 w2] by auto
next
  case (3 st s cmds mode w0 s0 x st1 r opt s1 cbuf w1 y c' s2 w2 s3 cmds')
  then show ?case using parse_step_less [of s w0 st1 cbuf s1 w1 c' s2 w2] by auto
qed simp

declare parse_loop.simps [simp del]

definition sh_parser :: "sh_status \<Rightarrow> string \<Rightarrow> sh_fault + sh_status \<times> shcmd list \<times> sh_mode" where
  "sh_parser junk cmdline = parse_loop junk cmdline [] FOREGROUND"

section \<open>Printed lines\<close>

definition arg_word :: "string \<Rightarrow> bool" where
  "arg_word a \<longleftrightarrow> a \<noteq> [] \<and> hd a \<noteq> DAPOSTROPHE \<and> list_all (\<lambda>c. word_char c \<and> c \<noteq> NUL) a"

fun join_words :: "string list \<Rightarrow> string" where
  "join_words [] = []"
| "join_words [a] = a"
| "join_words (a # b # as) = a @ CHR '' '' # join_words (b # as)"

fun print_pipeline :: "string list list \<Rightarrow> string" where
  "print_pipeline [] = []"
| "print_pipeline [c] = join_words c"
| "print_pipeline (c # d # cs) = join_words c @ '' | '' @ print_pipeline (d # cs)"

text \<open>The command that a list of words (the command and its arguments) is parsed into.\<close>

definition table_entry :: "string \<Rightarrow> cmd_flag \<times> string \<times> builtin_fp option" where
  "table_entry nm = the (List.find (\<lambda>e. fst (snd e) = nm) sh_commands)"

definition cmd_of :: "string list \<Rightarrow> shcmd" where
  "cmd_of ws = \<lparr>sh_argc = length ws,
     sh_arguments = map (\<lambda>a. Some (a, length a)) ws @ replicate (MAXARGS - length ws) None,
     sh_flag = fst (table_entry (hd ws)), sh_name = (hd ws, 8), sh_fp = snd (snd (table_entry (hd ws)))\<rparr>"

definition cmd_words :: "string list \<Rightarrow> bool" where
  "cmd_words ws \<longleftrightarrow> ws \<noteq> [] \<and> hd ws \<in> set (map (fst \<circ> snd) sh_commands) \<and> list_all arg_word ws \<and> length ws \<le> 15"

definition stopper :: "char \<Rightarrow> bool" where
  "stopper d \<longleftrightarrow> d = PIPE \<or> d = NEWLINE"

lemmas char_consts = PIPE_def AMPERSAND_def DAPOSTROPHE_def sh_white_def word_char_def quoted_char_def stopper_def

lemma special_chars [simp]: "\<not> sh_white PIPE" "\<not> sh_white NEWLINE" "PIPE \<noteq> NEWLINE" "NEWLINE \<noteq> PIPE" "PIPE \<noteq> AMPERSAND" "NEWLINE \<noteq> AMPERSAND"
  by (simp_all add: char_consts)

lemma arg_word_chars:
  assumes "arg_word a"
  shows "c_str a = a" and "at (a @ s) \<noteq> AMPERSAND" and "at (a @ s) \<noteq> DAPOSTROPHE" and "\<not> sh_white (at (a @ s))"
    and "at (a @ s) \<noteq> NEWLINE" and "at (a @ s) \<noteq> PIPE"
proof -
  obtain c a' where a: "a = c # a'" using assms by (cases a) (auto simp: arg_word_def)
  show "c_str a = a" using assms by (auto simp: c_str_def arg_word_def list_all_iff takeWhile_eq_all_conv)
  show "at (a @ s) \<noteq> AMPERSAND" "at (a @ s) \<noteq> DAPOSTROPHE" "\<not> sh_white (at (a @ s))" "at (a @ s) \<noteq> NEWLINE" "at (a @ s) \<noteq> PIPE"
    using assms a by (auto simp: arg_word_def at_def word_char_def)
qed

lemma next_argument_word:
  assumes "arg_word a" and "\<not> word_char d"
  shows "next_argument (a @ d # s) = Inr (Some (a, length a), d # s)"
proof -
  have "skip word_char (a @ d # s) = Some (length a)"
    by (rule skip_append) (use assms in \<open>auto simp: arg_word_def list_all_iff\<close>)
  moreover have "a \<noteq> []" using assms by (simp add: arg_word_def)
  ultimately show ?thesis using arg_word_chars [OF assms(1)] by (simp add: next_argument_def)
qed

lemma next_argument_stop: "stopper d \<Longrightarrow> next_argument (d # s) = Inr (None, d # s)"
  by (auto simp: next_argument_def char_consts at_def)

fun put_args :: "nat \<Rightarrow> string list \<Rightarrow> shcmd \<Rightarrow> shcmd" where
  "put_args argc [] cmd = cmd\<lparr>sh_arguments := (sh_arguments cmd)[argc := None], sh_argc := argc\<rparr>"
| "put_args argc (a # as) cmd = put_args (argc + 1) as (cmd\<lparr>sh_arguments := (sh_arguments cmd)[argc := Some (a, length a)]\<rparr>)"

lemma arg_loop_words:
  assumes "list_all arg_word as" and "length as < n" and "stopper d" and "list_all sh_white b" and "as = [] \<Longrightarrow> b = []"
  shows "arg_loop n argc (join_words as @ b @ d # s) cmd = Inr (put_args argc as cmd, d # s)"
  using assms
proof (induction as arbitrary: n argc cmd rule: join_words.induct)
  case 1
  then obtain m where "n = Suc m" by (cases n) auto
  then show ?case using 1 next_argument_stop [of d s] by (auto simp: char_consts at_def)
next
  case (2 a)
  then obtain m where m: "n = Suc (Suc m)" by (cases n; cases "n - 1") auto
  have a: "arg_word a" using 2 by simp
  have nx: "next_argument (a @ b @ d # s) = Inr (Some (a, length a), b @ d # s)"
    using next_argument_word [OF a, of d s] next_argument_word [OF a] 2(3,4) by (cases b) (auto simp: char_consts)
  have sk: "skip sh_white (b @ d # s) = Some (length b)"
    by (rule skip_append) (use 2 in \<open>auto simp: list_all_iff char_consts\<close>)
  have ne: "a @ b @ d # s \<noteq> []" by simp
  show ?case unfolding m using nx sk ne arg_word_chars(2) [OF a, of "b @ d # s"] next_argument_stop [OF 2(3), of s] 2(3)
    by (auto simp: at_def char_consts)
next
  case (3 a c as)
  then obtain m where m: "n = Suc m" by (cases n) auto
  have a: "arg_word a" and c: "arg_word c" using 3(2) by auto
  let ?t = "join_words (c # as) @ b @ d # s"
  have nx: "next_argument (a @ CHR '' '' # ?t) = Inr (Some (a, length a), CHR '' '' # ?t)"
    by (rule next_argument_word [OF a]) (simp add: char_consts)
  have tc: "?t = c @ (drop (length c) ?t)" by (cases as) auto
  have sk: "skip sh_white (CHR '' '' # ?t) = Some 1"
    using arg_word_chars(4) [OF c, of "drop (length c) ?t"] tc by (cases ?t) (auto simp: at_def sh_white_def)
  have amp: "at (a @ CHR '' '' # ?t) \<noteq> AMPERSAND" by (rule arg_word_chars(2) [OF a])
  have "arg_loop m (argc + 1) ?t (cmd\<lparr>sh_arguments := (sh_arguments cmd)[argc := Some (a, length a)]\<rparr>)
    = Inr (put_args (argc + 1) (c # as) (cmd\<lparr>sh_arguments := (sh_arguments cmd)[argc := Some (a, length a)]\<rparr>), d # s)"
    by (rule 3(1)) (use 3 m in auto)
  then show ?case unfolding m using nx sk amp by simp
qed

lemma put_args_result:
  "argc + length as < length (sh_arguments cmd) \<Longrightarrow> put_args argc as cmd =
     cmd\<lparr>sh_arguments := take argc (sh_arguments cmd) @ map (\<lambda>a. Some (a, length a)) as @ None # drop (argc + length as + 1) (sh_arguments cmd),
         sh_argc := argc + length as\<rparr>"
proof (induction as arbitrary: argc cmd)
  case Nil
  then show ?case by (simp add: upd_conv_take_nth_drop)
next
  case (Cons a as)
  have "take (Suc argc) ((sh_arguments cmd)[argc := Some (a, length a)]) = take argc (sh_arguments cmd) @ [Some (a, length a)]"
    using Cons.prems by (simp add: take_Suc_conv_app_nth)
  then show ?case using Cons by simp
qed

lemma table_letters:
  assumes "0 \<le> i" "i < 30"
  shows "cmd_name i ! 0 \<noteq> CHR ''.''" and "fst (sh_commands ! nat i) \<noteq> FUNCTION \<Longrightarrow> snd (snd (sh_commands ! nat i)) = None"
proof -
  have "list_all (\<lambda>e. fst (snd e) ! 0 \<noteq> CHR ''.'' \<and> (fst e \<noteq> FUNCTION \<longrightarrow> snd (snd e) = None)) sh_commands" "length sh_commands = 30"
    by (simp_all add: sh_commands_def)
  then show "cmd_name i ! 0 \<noteq> CHR ''.''" "fst (sh_commands ! nat i) \<noteq> FUNCTION \<Longrightarrow> snd (snd (sh_commands ! nat i)) = None"
    using assms by (simp_all add: list_all_length)
qed

lemma at_Cons: "at (c # s) = c"
  by (simp add: at_def)

lemma names_unique: "0 \<le> i \<Longrightarrow> i < 30 \<Longrightarrow> 0 \<le> j \<Longrightarrow> j < 30 \<Longrightarrow> cmd_name i = cmd_name j \<Longrightarrow> i = j"
  using table_sorted [of i j] table_sorted [of j i] by (cases i j rule: linorder_cases) (auto simp: key_less_def)

lemma table_entry_nth:
  assumes "0 \<le> i" "i < 30"
  shows "table_entry (cmd_name i) = sh_commands ! nat i"
proof -
  have len: "length sh_commands = 30" by (simp add: sh_commands_def)
  have "List.find (\<lambda>e. fst (snd e) = cmd_name i) sh_commands = Some (sh_commands ! nat i)"
    unfolding find_Some_iff
  proof (intro exI [of _ "nat i"] conjI allI impI)
    fix j assume j: "j < nat i"
    show "fst (snd (sh_commands ! j)) \<noteq> cmd_name i"
    proof
      assume "fst (snd (sh_commands ! j)) = cmd_name i"
      then have "int j = i" by (intro names_unique) (use j assms in auto)
      with j show False by simp
    qed
  qed (use assms len in auto)
  then show ?thesis by (simp add: table_entry_def)
qed

text \<open>The binary search finds exactly the entry of the table that the line starts with.\<close>

lemma find_shell_command_name:
  assumes "nm \<in> set (map (fst \<circ> snd) sh_commands)"
  shows "find_shell_command (nm @ s) = Inr (OK, Some \<lparr>sh_argc = 0, sh_arguments = [], sh_flag = fst (table_entry nm), sh_name = (nm, 8),
     sh_fp = snd (snd (table_entry nm))\<rparr>, s)"
proof -
  have len: "length sh_commands = 30" by (simp add: sh_commands_def)
  obtain k where k: "k < 30" "nm = fst (snd (sh_commands ! k))" using assms len by (auto simp: in_set_conv_nth)
  define i where "i = int k"
  have i: "0 \<le> i" "i < 30" "nm = cmd_name i" using k by (auto simp: i_def)
  have search: "cmd_search (nm @ s) 0 num_command = Some i"
    by (rule cmd_search_complete) (use i in \<open>auto simp: num_command_def intro: take_strncmp\<close>)
  have "nm \<noteq> []" using names_nonempty [of i] i by auto
  then have "at (nm @ s) = nm ! 0" by (cases nm) (simp_all add: at_def)
  then have dot: "at (nm @ s) \<noteq> CHR ''.''" using table_letters(1) [of i] i by simp
  have e: "table_entry nm = sh_commands ! nat i" using table_entry_nth [of i] i by simp
  obtain fl fp where f: "sh_commands ! nat i = (fl, nm, fp)" using i(3) by (cases "sh_commands ! nat i") auto
  have "fl \<noteq> FUNCTION \<Longrightarrow> fp = None" using table_letters(2) [OF i(1,2)] f by simp
  then show ?thesis using search dot unfolding e f by (simp add: find_shell_command_def f)
qed

lemma cmd_of_put_args:
  assumes "length as \<le> 14" and "ws = nm # as"
  shows "put_args 1 as \<lparr>sh_argc = 0, sh_arguments = (replicate MAXARGS None)[0 := Some (nm, length nm)], sh_flag = fst (table_entry nm),
    sh_name = (nm, 8), sh_fp = snd (snd (table_entry nm))\<rparr> = cmd_of ws"
proof -
  have r: "replicate 16 x = x # replicate 15 x" for x :: "(string \<times> nat) option" by (simp add: numeral_eq_Suc)
  have "None # replicate (14 - length as) None = replicate (15 - length as) (None :: (string \<times> nat) option)"
    using assms(1) by (simp add: Suc_diff_le flip: replicate_Suc)
  then show ?thesis using assms by (subst put_args_result) (auto simp: cmd_of_def MAXARGS_def r)
qed

lemma find_arguments_words:
  assumes "list_all arg_word as" and "length as \<le> 14" and "stopper d" and "list_all sh_white b" and "as = [] \<Longrightarrow> b = []"
  shows "find_arguments \<lparr>sh_argc = 0, sh_arguments = [], sh_flag = fst (table_entry nm), sh_name = (nm, 8), sh_fp = snd (snd (table_entry nm))\<rparr>
    (join_words as @ b @ d # s) = Inr (cmd_of (nm # as), d # s)"
  using arg_loop_words [OF assms(1) _ assms(3-5), of 15 1 s] assms(2) cmd_of_put_args [OF assms(2) refl, of nm]
  by (simp add: find_arguments_def Let_def MAXARGS_def)

lemma parse_one:
  assumes ws: "cmd_words ws" and d: "stopper d" and b: "list_all sh_white b" and w: "list_all sh_white w"
  shows "parse_loop st (w @ join_words ws @ b @ d # s) cmds mode =
    (if d = PIPE then parse_loop BUFFERING s (cmds @ [cmd_of ws]) mode else Inr (OK, cmds @ [cmd_of ws], mode))"
proof -
  obtain nm as where n: "ws = nm # as" using ws by (cases ws) (auto simp: cmd_words_def)
  have nm: "nm \<in> set (map (fst \<circ> snd) sh_commands)" "arg_word nm" "list_all arg_word as" "length as \<le> 14"
    using ws n by (auto simp: cmd_words_def)
  define tx where "tx = (if as = [] then b else CHR '' '' # join_words as @ b) @ d # s"
  have join: "join_words ws @ b @ d # s = nm @ tx" unfolding n tx_def by (cases as) auto
  obtain c0 c' where c0: "nm = c0 # c'" "\<not> sh_white c0" "c0 \<noteq> NEWLINE" using arg_word_chars(4,5) [OF nm(2), of "[]"] nm(2)
    by (cases nm) (auto simp: at_def arg_word_def)
  have sk0: "skip sh_white (w @ nm @ tx) = Some (length w)"
    using skip_append [of sh_white w c0 "c' @ tx"] w c0 by simp
  have not_nl: "at (w @ nm @ tx) \<noteq> NEWLINE" using w c0 by (cases w) (auto simp: at_def sh_white_def)
  have nl0: "at (nm @ tx) \<noteq> NEWLINE" using c0 by (simp add: at_def)
  define b' where "b' = (if as = [] then [] else b)"
  have dw: "\<not> sh_white d" using d by (auto simp: char_consts)
  obtain w1 where sk1: "skip sh_white tx = Some w1" "drop w1 tx = join_words as @ b' @ d # s"
  proof (cases as)
    case Nil
    then have "skip sh_white tx = Some (length b)" unfolding tx_def using skip_append [OF b dw, of s] by simp
    then show ?thesis using that Nil by (simp add: tx_def b'_def)
  next
    case (Cons a r)
    then obtain a0 t where a0: "join_words as @ b @ d # s = a0 # t" "\<not> sh_white a0"
      using nm(3) arg_word_chars(4) [of a "[]"] by (cases a; cases r) (auto simp: at_def arg_word_def)
    have "tx = CHR '' '' # a0 # t" unfolding tx_def using Cons a0(1) by simp
    then have "skip sh_white tx = Some 1" using a0(2) by (simp add: sh_white_def)
    then show ?thesis using that [of 1] Cons by (simp add: tx_def b'_def)
  qed
  have fa: "find_arguments \<lparr>sh_argc = 0, sh_arguments = [], sh_flag = fst (table_entry nm), sh_name = (nm, 8),
      sh_fp = snd (snd (table_entry nm))\<rparr> (drop w1 tx) = Inr (cmd_of ws, d # s)"
    unfolding sk1(2) n by (rule find_arguments_words [OF nm(3,4) d]) (use b in \<open>auto simp: b'_def\<close>)
  have sk2: "skip sh_white (d # s) = Some 0" using dw by simp
  have amp: "d \<noteq> AMPERSAND" using d by (auto simp: char_consts)
  have "nm \<noteq> []" using c0 by simp
  then have "parse_loop st (w @ nm @ tx) cmds mode =
    (if d = PIPE then parse_loop BUFFERING s (cmds @ [cmd_of ws]) mode else parse_loop OK (d # s) (cmds @ [cmd_of ws]) mode)"
    using sk0 not_nl nl0 find_shell_command_name [OF nm(1), of tx] sk1(1) fa dw amp
    by (cases "d = PIPE") (simp_all add: parse_loop.simps [of st "w @ nm @ tx"] Let_def at_Cons)
  moreover have "d = NEWLINE" if "d \<noteq> PIPE" using d that by (auto simp: stopper_def)
  ultimately show ?thesis unfolding join by (auto simp: parse_loop.simps [of OK "NEWLINE # s"] at_def)
qed

lemma parse_pipeline:
  "cs \<noteq> [] \<Longrightarrow> list_all cmd_words cs \<Longrightarrow> list_all sh_white w \<Longrightarrow>
    parse_loop st (w @ print_pipeline cs @ NEWLINE # s) cmds mode = Inr (OK, cmds @ map cmd_of cs, mode)"
proof (induction cs arbitrary: st w cmds rule: print_pipeline.induct)
  case (2 c)
  then show ?case using parse_one [of c NEWLINE "[]" w st s cmds mode] by (simp add: stopper_def)
next
  case (3 c d cs)
  have "parse_loop st (w @ join_words c @ '' '' @ PIPE # ('' '' @ print_pipeline (d # cs) @ NEWLINE # s)) cmds mode
    = parse_loop BUFFERING ('' '' @ print_pipeline (d # cs) @ NEWLINE # s) (cmds @ [cmd_of c]) mode"
    using parse_one [of c PIPE "'' ''" w st "'' '' @ print_pipeline (d # cs) @ NEWLINE # s" cmds mode] 3(3,4)
    by (simp add: stopper_def sh_white_def)
  also have "\<dots> = Inr (OK, (cmds @ [cmd_of c]) @ map cmd_of (d # cs), mode)"
    by (rule 3(1)) (use 3 in \<open>auto simp: sh_white_def\<close>)
  finally show ?case by (simp add: PIPE_def)
qed simp

lemma arg_loop_overflow:
  assumes "list_all arg_word as" and "n \<le> length as" and "stopper d" and "list_all sh_white b"
  shows "arg_loop n argc (join_words as @ b @ d # s) cmd = Inl ArgOverflow"
  using assms
proof (induction as arbitrary: n argc cmd rule: join_words.induct)
  case (2 a)
  show ?case
  proof (cases n)
    case (Suc m)
    then have m: "m = 0" using 2 by simp
    have a: "arg_word a" using 2 by simp
    have nx: "next_argument (a @ b @ d # s) = Inr (Some (a, length a), b @ d # s)"
      using next_argument_word [OF a, of d s] next_argument_word [OF a] 2(3,4) by (cases b) (auto simp: char_consts)
    have sk: "skip sh_white (b @ d # s) = Some (length b)"
      by (rule skip_append) (use 2 in \<open>auto simp: list_all_iff char_consts\<close>)
    show ?thesis using nx sk arg_word_chars(2) [OF a, of "b @ d # s"] by (simp add: Suc m)
  qed simp
next
  case (3 a c as)
  show ?case
  proof (cases n)
    case (Suc m)
    have a: "arg_word a" and c: "arg_word c" using 3(2) by auto
    let ?t = "join_words (c # as) @ b @ d # s"
    have nx: "next_argument (a @ CHR '' '' # ?t) = Inr (Some (a, length a), CHR '' '' # ?t)"
      by (rule next_argument_word [OF a]) (simp add: char_consts)
    have tc: "?t = c @ (drop (length c) ?t)" by (cases as) auto
    have sk: "skip sh_white (CHR '' '' # ?t) = Some 1"
      using arg_word_chars(4) [OF c, of "drop (length c) ?t"] tc by (cases ?t) (auto simp: at_def sh_white_def)
    have amp: "at (a @ CHR '' '' # ?t) \<noteq> AMPERSAND" by (rule arg_word_chars(2) [OF a])
    have "arg_loop m (argc + 1) ?t (cmd\<lparr>sh_arguments := (sh_arguments cmd)[argc := Some (a, length a)]\<rparr>) = Inl ArgOverflow"
      by (rule 3(1)) (use 3 Suc in auto)
    then show ?thesis unfolding Suc using nx sk amp by simp
  qed simp
qed simp

section \<open>Properties\<close>

text \<open>(C30) The binary search over the table of commands is equivalent to a linear search for an entry that the
  rest of the line starts with: it finds such an entry whenever there is one, and it always ends.\<close>

theorem shell_lookup_linear:
  "cmd_search s 0 num_command = List.find (\<lambda>i. take (length (cmd_name i)) s = cmd_name i) [0..num_command]"
proof (cases "cmd_search s 0 num_command")
  case None
  have "take (length (cmd_name i)) s \<noteq> cmd_name i" if "0 \<le> i" "i \<le> num_command" for i
    using cmd_search_complete [of 0 num_command i s] take_strncmp [of "cmd_name i" s] that None by (auto simp: num_command_def)
  then have "List.find (\<lambda>i. take (length (cmd_name i)) s = cmd_name i) [0..num_command] = None"
    unfolding find_None_iff by auto
  then show ?thesis using None by simp
next
  case (Some i)
  note i = search_range [OF Some]
  have uniq: "j = i" if "0 \<le> j" "j \<le> num_command" "take (length (cmd_name j)) s = cmd_name j" for j
    using cmd_search_complete [of 0 num_command j s] take_strncmp [OF that(3)] that Some by (auto simp: num_command_def)
  have "List.find (\<lambda>i. take (length (cmd_name i)) s = cmd_name i) [0..num_command] = Some i"
  proof (cases "List.find (\<lambda>i. take (length (cmd_name i)) s = cmd_name i) [0..num_command]")
    case None
    then show ?thesis using i by (auto simp: find_None_iff num_command_def)
  next
    case (Some j)
    then have "j \<in> set [0..num_command]" "take (length (cmd_name j)) s = cmd_name j" by (auto simp: find_Some_iff)
    then show ?thesis using Some uniq [of j] by simp
  qed
  with Some show ?thesis by simp
qed



text \<open>The argument array has 16 entries and no room for a 16th: a command with 15 or more arguments makes
  the parser write the terminating null pointer behind its end.\<close>

theorem shell_argument_overflow:
  assumes "list_all arg_word as" and "15 \<le> length as" and "stopper d"
  shows "find_arguments cmd (join_words as @ d # s) = Inl ArgOverflow"
  using arg_loop_overflow [OF assms(1) _ assms(3), of 15 "[]" 1 s] assms(2) by (simp add: find_arguments_def Let_def MAXARGS_def)

theorem shell_argument_overflow_witness:
  "find_arguments (cmd_of [''ls'']) (join_words (replicate 15 ''x'') @ [NEWLINE]) = Inl ArgOverflow"
proof -
  have "list_all arg_word (replicate 15 ''x'')" by (simp add: arg_word_def char_consts list_all_iff)
  then show ?thesis by (rule shell_argument_overflow) (simp_all add: stopper_def)
qed

end
