(* ===== verification/Shell_Exec.thy ===== *)
theory Shell_Exec
  imports Shell_Parser
begin

text \<open>
  Running a pipeline in the shell (\<^verbatim>\<open>myshell/execute.c\<close>): one pipe per command is opened ahead, a child
  is forked per command and connects its standard streams, and the parent closes ends of the pipes.
  A descriptor table is a list of open file objects; \<open>pipe\<close> takes the lowest free descriptors, as the
  system call does.  That \<^verbatim>\<open>pipe\<close>, \<^verbatim>\<open>fork\<close> and \<^verbatim>\<open>dup2\<close> succeed on valid arguments is part of the
  model; closing a descriptor that is not open has no effect.
\<close>

section \<open>Descriptors\<close>

datatype fdobj = Std nat | PR nat | PW nat

type_synonym fdtable = "fdobj option list"

fun lowest_free :: "fdtable \<Rightarrow> nat" where
  "lowest_free [] = 0"
| "lowest_free (None # t) = 0"
| "lowest_free (Some x # t) = Suc (lowest_free t)"

definition fd_get :: "fdtable \<Rightarrow> nat \<Rightarrow> fdobj option" where
  "fd_get t n = (if n < length t then t ! n else None)"

definition fd_set :: "fdtable \<Rightarrow> nat \<Rightarrow> fdobj option \<Rightarrow> fdtable" where
  "fd_set t n x = (if n < length t then t[n := x] else t @ replicate (n - length t) None @ [x])"

definition sys_close :: "nat \<Rightarrow> fdtable \<Rightarrow> fdtable" where
  "sys_close n t = (if n < length t then t[n := None] else t)"

definition sys_dup2 :: "nat \<Rightarrow> nat \<Rightarrow> fdtable \<Rightarrow> fdtable" where
  "sys_dup2 old new t = (case fd_get t old of None \<Rightarrow> t | Some x \<Rightarrow> fd_set t new (Some x))"

text \<open>The \<open>p\<close>-th pipe of the run.\<close>

definition sys_pipe :: "nat \<Rightarrow> fdtable \<Rightarrow> (nat \<times> nat) \<times> fdtable" where
  "sys_pipe p t =
     (let r = lowest_free t; t1 = fd_set t r (Some (PR p)); w = lowest_free t1
      in ((r, w), fd_set t1 w (Some (PW p))))"

section \<open>The program\<close>

definition MAXCMD :: nat where "MAXCMD = 16"

text \<open>What the child for the command with number \<open>i\<close> does before it runs it; \<open>a\<close> is \<^verbatim>\<open>fds[i]\<close> and \<open>b\<close> is
  \<^verbatim>\<open>fds[i+1]\<close>, read end first.\<close>

definition child_table :: "bool \<Rightarrow> bool \<Rightarrow> nat \<times> nat \<Rightarrow> nat \<times> nat \<Rightarrow> fdtable \<Rightarrow> fdtable" where
  "child_table redirectfrom redirectto a b t =
     (let t1 = (if redirectfrom then sys_dup2 (fst a) 0 t else t);
          t2 = (if redirectto then sys_dup2 (snd b) 1 t1 else t1)
      in sys_close (snd b) (sys_close (fst b) (sys_close (snd a) (sys_close (fst a) t2))))"

definition parent_table :: "nat \<times> nat \<Rightarrow> nat \<times> nat \<Rightarrow> fdtable \<Rightarrow> fdtable" where
  "parent_table a b t = sys_close (snd a) (sys_close (snd b) (sys_close (fst a) t))"

text \<open>The loop: \<open>a\<close> is \<^verbatim>\<open>fds[i]\<close>; the result lists each command with the descriptor table it starts with.
  \<open>None\<close> is the write behind the end of \<^verbatim>\<open>fds\<close>.\<close>

fun exec_loop :: "nat \<Rightarrow> bool \<Rightarrow> nat \<times> nat \<Rightarrow> 'c list \<Rightarrow> fdtable \<Rightarrow> ('c \<times> fdtable) list option" where
  "exec_loop i redirectfrom a [] t = Some []"
| "exec_loop i redirectfrom a (cmd # cmds) t =
     (if MAXCMD \<le> i + 1 then None
      else case sys_pipe (i + 1) t of
          (b, t1) \<Rightarrow>
            (case exec_loop (i + 1) True b cmds (parent_table a b t1) of
               None \<Rightarrow> None
             | Some rest \<Rightarrow> Some ((cmd, child_table redirectfrom (cmds \<noteq> []) a b t1) # rest)))"

definition execute_commands :: "'c list \<Rightarrow> fdtable \<Rightarrow> ('c \<times> fdtable) list option" where
  "execute_commands cmds t = (if cmds = [] then Some [] else case sys_pipe 0 t of (a, t1) \<Rightarrow> exec_loop 0 False a cmds t1)"

text \<open>What a child runs: \<open>execv\<close> tells whether the system call succeeds for a path.\<close>

datatype action = RunBuiltin "builtin_fp option" "(string \<times> nat) option list" | Exec string "(string \<times> nat) option list" | ExecFailed string

definition execute_function_command :: "shcmd \<Rightarrow> action" where
  "execute_function_command cmd = RunBuiltin (sh_fp cmd) (sh_arguments cmd)"

definition switch_case_cmd :: "(string \<Rightarrow> bool) \<Rightarrow> shcmd \<Rightarrow> action" where
  "switch_case_cmd execv cmd =
     (let nm = fst (sh_name cmd) in
      case sh_flag cmd of
        FUNCTION \<Rightarrow> execute_function_command cmd
      | ABSOLUTE \<Rightarrow>
          if execv (''/bin/'' @ nm) then Exec (''/bin/'' @ nm) (sh_arguments cmd)
          else if execv (''/usr/bin/'' @ nm) then Exec (''/usr/bin/'' @ nm) (sh_arguments cmd)
          else ExecFailed (''Executing falied'' @ [NEWLINE])
      | RELATIVE \<Rightarrow>
          if execv nm then Exec nm (sh_arguments cmd)
          else ExecFailed (''MYSHELL: '' @ nm @ '' : No such executable file''))"

section \<open>Wiring\<close>

text \<open>Each command writes to the pipe that the next one reads; the first reads and the last writes the
  terminal, and nothing else is left open.\<close>

definition wired :: "('c \<times> fdtable) list \<Rightarrow> bool" where
  "wired ch \<longleftrightarrow>
     fd_get (snd (hd ch)) 0 = Some (Std 0) \<and> fd_get (snd (last ch)) 1 = Some (Std 1)
     \<and> (\<forall>j < length ch - 1. \<exists>p. fd_get (snd (ch ! j)) 1 = Some (PW p) \<and> fd_get (snd (ch ! Suc j)) 0 = Some (PR p))
     \<and> list_all (\<lambda>c. list_all (\<lambda>x. x = None) (drop 3 (snd c))) ch"

definition terminal :: fdtable where
  "terminal = [Some (Std 0), Some (Std 1), Some (Std 2)]"

lemmas exec_simps = execute_commands_def terminal_def sys_pipe_def fd_set_def MAXCMD_def parent_table_def child_table_def sys_close_def
  sys_dup2_def fd_get_def Let_def

text \<open>The first four turns of the loop; \<open>out\<close> is where the last command of the turn writes.\<close>

definition std3 :: fdtable where
  "std3 = [Some (Std 0), Some (Std 1), Some (Std 2)]"

definition kid :: "fdobj \<Rightarrow> fdobj \<Rightarrow> fdtable" where
  "kid i out = [Some i, Some out, Some (Std 2), None, None, None, None]"

definition out_to :: "nat \<Rightarrow> 'c list \<Rightarrow> fdobj" where
  "out_to p r = (if r = [] then Std 1 else PW p)"

lemma turn_start: "cmds \<noteq> [] \<Longrightarrow> execute_commands cmds terminal = exec_loop 0 False (3, 4) cmds (std3 @ [Some (PR 0), Some (PW 0)])"
  by (simp add: exec_simps std3_def eval_nat_numeral)

lemma turn0:
  "exec_loop 0 False (3, 4) (c # r) (std3 @ [Some (PR 0), Some (PW 0)])
     = map_option ((#) (c, kid (Std 0) (out_to 1 r))) (exec_loop 1 True (5, 6) r (std3 @ [None, None, Some (PR 1), None]))"
  by (simp add: exec_simps std3_def kid_def out_to_def eval_nat_numeral split: option.split)

lemma turn1:
  "exec_loop (Suc 0) True (5, 6) (c # r) (std3 @ [None, None, Some (PR (Suc 0)), None])
     = map_option ((#) (c, kid (PR (Suc 0)) (out_to 2 r))) (exec_loop 2 True (3, 4) r (std3 @ [Some (PR 2), None, None, None]))"
  by (simp add: exec_simps std3_def kid_def out_to_def eval_nat_numeral split: option.split)

lemma turn2:
  "exec_loop 2 True (3, 4) (c # r) (std3 @ [Some (PR 2), None, None, None])
     = map_option ((#) (c, kid (PR 2) (out_to 3 r))) (exec_loop 3 True (4, 5) r (std3 @ [None, None, None, None]))"
  by (simp add: exec_simps std3_def kid_def out_to_def eval_nat_numeral split: option.split)

text \<open>By now the parent has closed descriptor 4, once too often: it had been reused for the read end of the
  pipe that the next command needs.\<close>

lemma turn3:
  "exec_loop 3 True (4, 5) (c # r) (std3 @ [None, None, None, None])
     = map_option ((#) (c, kid (PW 4) (out_to 4 r))) (exec_loop 4 True (3, 4) r (std3 @ [Some (PR 4), None, None, None]))"
  by (simp add: exec_simps std3_def kid_def out_to_def eval_nat_numeral split: option.split)

lemmas turns = turn0 turn1 turn2 turn3

declare exec_loop.simps(2) [simp del]

lemma wired_upto_three:
  assumes "cmds \<noteq> []" and "length cmds \<le> 3"
  shows "\<exists>ch. execute_commands cmds terminal = Some ch \<and> map fst ch = cmds \<and> wired ch"
proof -
  consider a where "cmds = [a]" | a b where "cmds = [a, b]" | a b c where "cmds = [a, b, c]"
    using assms by (cases cmds; cases "tl cmds"; cases "tl (tl cmds)") auto
  then show ?thesis
  proof cases
    case 1
    then show ?thesis using turn_start [of cmds] by (simp add: turns wired_def kid_def out_to_def fd_get_def)
  next
    case 2
    then show ?thesis using turn_start [of cmds] by (simp add: turns wired_def kid_def out_to_def fd_get_def)
  next
    case 3
    then show ?thesis using turn_start [of cmds] by (simp add: turns wired_def kid_def out_to_def fd_get_def less_Suc_eq)
  qed
qed

section \<open>Properties\<close>

text \<open>(C28) A pipeline of up to three commands is connected as meant: the first command reads the terminal, each
  further one reads the pipe its predecessor writes, the last one writes the terminal, and no end of a
  pipe stays open in a child.\<close>

theorem shell_pipeline_wired:
  assumes "cmds \<noteq> []" and "length cmds \<le> 3"
  shows "\<exists>ch. execute_commands cmds terminal = Some ch \<and> map fst ch = cmds \<and> wired ch"
  by (rule wired_upto_three [OF assms])

theorem shell_pipeline_wired_witness:
  "\<exists>ch. execute_commands [''cat'', ''sort'', ''less''] terminal = Some ch \<and> map fst ch = [''cat'', ''sort'', ''less''] \<and> wired ch"
  by (rule shell_pipeline_wired) simp_all

text \<open>From the fourth command on the pipeline is broken: the parent closes the write end of a pipe a second
  time, by a number that by then belongs to the read end of the next pipe, and the fourth command gets
  the write end of a fresh pipe as its standard input.\<close>

theorem shell_fourth_command_cut_off:
  assumes "4 \<le> length cmds" and "execute_commands cmds terminal = Some ch"
  shows "fd_get (snd (ch ! 2)) 1 = Some (PW 3) \<and> fd_get (snd (ch ! 3)) 0 = Some (PW 4) \<and> \<not> wired ch"
proof -
  obtain a b c d r where cmds: "cmds = a # b # c # d # r"
    using assms(1) by (cases cmds; cases "tl cmds"; cases "tl (tl cmds)"; cases "tl (tl (tl cmds))") auto
  obtain rest where ch: "ch = (a, kid (Std 0) (PW 1)) # (b, kid (PR 1) (PW 2)) # (c, kid (PR 2) (PW 3)) # (d, kid (PW 4) (out_to 4 r)) # rest"
    using assms(2) turn_start [of cmds] unfolding cmds by (auto simp: turns out_to_def)
  have in4: "fd_get (snd (ch ! 3)) 0 = Some (PW 4)" and out3: "fd_get (snd (ch ! 2)) 1 = Some (PW 3)"
    by (simp_all add: ch kid_def fd_get_def)
  have "2 < length ch - 1" "Suc 2 = 3" by (simp_all add: ch)
  then have "\<not> wired ch" unfolding wired_def using in4 by (metis fdobj.distinct(5) option.inject)
  with in4 out3 show ?thesis by simp
qed

theorem shell_fourth_command_cut_off_witness:
  "\<exists>ch. execute_commands [1, 2, 3, 4 :: nat] terminal = Some ch \<and> fd_get (snd (ch ! 3)) 0 = Some (PW 4) \<and> \<not> wired ch"
proof -
  obtain ch where ch: "execute_commands [1, 2, 3, 4 :: nat] terminal = Some ch"
    using turn_start [of "[1, 2, 3, 4 :: nat]"] by (simp add: turns)
  with shell_fourth_command_cut_off [of "[1, 2, 3, 4 :: nat]" ch] show ?thesis by auto
qed

end
