(* ===== verification/Shell_Jobs.thy ===== *)
theory Shell_Jobs
  imports Shell_Exec
begin

text \<open>
  Job control of the shell (\<^verbatim>\<open>myshell/module/jobs.c\<close>, \<^verbatim>\<open>exit.c\<close>, \<^verbatim>\<open>cd.c\<close>, \<^verbatim>\<open>sig.c\<close>, and the turn of
  \<^verbatim>\<open>interpreter.c\<close> that drives them).  The table of jobs is an array of pointers to heap objects: an
  entry is null, points to a live job, or dangles after the job was freed; reading through the last
  two, or outside the array, is a fault.  What the kernel answers (\<^verbatim>\<open>waitpid\<close>, \<^verbatim>\<open>fork\<close>, \<^verbatim>\<open>fgets\<close>, \<^verbatim>\<open>chdir\<close>)
  is an argument of the operations, and what the shell does to the outside (printing, sending signals,
  moving the terminal) is a log of events.  Signal handlers run while the shell waits for a line or for
  a child.
\<close>

section \<open>Data\<close>

datatype STATE = RUNNING | SUSPENDED | TERMINATED

record JOB =
  pgid :: int
  job_state :: STATE
  job_cmdline :: string

datatype jptr = NullJob | Live JOB | Freed

datatype job_fault = NullJobDeref | FreedJobUse | JobIndex | ParseFault sh_fault

datatype sh_signal = SIGCONT | SIGUSR1 | SIGUSR2 | SIGKILL | SIGSTOP

datatype sh_event = Out string | Err string | Kill int sh_signal | Tcsetpgrp int int

record jobsys =
  jobs_front :: nat
  jobs_rear :: nat
  jobs_n :: int
  jobs_list :: "nat \<Rightarrow> jptr"
  jobs_done :: "nat \<Rightarrow> nat"
  child_pid :: int
  parent_pid :: int
  grand_pid :: int
  sh_buf :: string
  events :: "sh_event list"

definition MAXJOBS :: nat where "MAXJOBS = 1024"

definition STDIN_FILENO :: int where "STDIN_FILENO = 0"
definition STDOUT_FILENO :: int where "STDOUT_FILENO = 1"

definition emit :: "sh_event list \<Rightarrow> jobsys \<Rightarrow> jobsys" where
  "emit es s = s\<lparr>events := events s @ es\<rparr>"

text \<open>Reading the job behind an entry of the table.\<close>

definition job_at :: "jobsys \<Rightarrow> int \<Rightarrow> job_fault + JOB" where
  "job_at s i =
     (if i < 0 \<or> int MAXJOBS \<le> i then Inl JobIndex
      else case jobs_list s (nat i) of NullJob \<Rightarrow> Inl NullJobDeref | Freed \<Rightarrow> Inl FreedJobUse | Live j \<Rightarrow> Inr j)"

definition put_job :: "nat \<Rightarrow> jptr \<Rightarrow> jobsys \<Rightarrow> jobsys" where
  "put_job i p s = s\<lparr>jobs_list := (jobs_list s)(i := p)\<rparr>"

section \<open>The table\<close>

definition insert_jobs :: "int \<Rightarrow> string \<Rightarrow> STATE \<Rightarrow> jobsys \<Rightarrow> job_fault + jobsys" where
  "insert_jobs pg line st s =
     (if MAXJOBS \<le> jobs_rear s then Inl JobIndex
      else Inr ((put_job (jobs_rear s) (Live \<lparr>pgid = pg, job_state = st, job_cmdline = line\<rparr>) s)
                  \<lparr>jobs_n := jobs_n s + 1, jobs_rear := jobs_rear s + 1\<rparr>))"

definition state_text :: "STATE \<Rightarrow> string" where
  "state_text st = (case st of RUNNING \<Rightarrow> ''RUNNING   '' | SUSPENDED \<Rightarrow> ''SUSPENDED '' | TERMINATED \<Rightarrow> ''TERMINATED '')"

definition job_line :: "nat \<Rightarrow> JOB \<Rightarrow> string" where
  "job_line i j = ''['' @ show_nat i @ ''] '' @ state_text (job_state j) @ job_cmdline j"

fun jobs_loop :: "nat \<Rightarrow> nat \<Rightarrow> jobsys \<Rightarrow> job_fault + jobsys" where
  "jobs_loop 0 i s = Inr s"
| "jobs_loop (Suc k) i s =
     (case job_at s (int i) of
        Inl e \<Rightarrow> Inl e
      | Inr j \<Rightarrow> jobs_loop k (i + 1) (emit [Out (job_line i j)] s))"

definition print_jobs :: "jobsys \<Rightarrow> job_fault + jobsys" where
  "print_jobs s = jobs_loop (jobs_rear s - jobs_front s) (jobs_front s) s"

definition done_line :: "nat \<Rightarrow> JOB \<Rightarrow> string" where
  "done_line i j = ''['' @ show_nat i @ ''] Done '' @ job_cmdline j"

fun done_loop :: "nat \<Rightarrow> nat \<Rightarrow> jobsys \<Rightarrow> job_fault + jobsys" where
  "done_loop 0 i s = Inl JobIndex"
| "done_loop (Suc k) i s =
     (let d = jobs_done s i in
      if d = 0 then Inr s
      else case job_at s (int d) of
          Inl e \<Rightarrow> Inl e
        | Inr j \<Rightarrow> done_loop k (i + 1)
            ((put_job d Freed (emit [Out (done_line d j)] s))\<lparr>jobs_done := (jobs_done s)(i := 0), jobs_n := jobs_n s - 1\<rparr>))"

definition print_done_jobs :: "jobsys \<Rightarrow> job_fault + jobsys" where
  "print_done_jobs s = done_loop MAXJOBS 0 s"

fun reap_loop :: "nat \<Rightarrow> nat \<Rightarrow> nat \<Rightarrow> jobsys \<Rightarrow> job_fault + jobsys" where
  "reap_loop 0 i j s = Inr s"
| "reap_loop (Suc k) i j s =
     (case job_at s (int i) of
        Inl e \<Rightarrow> Inl e
      | Inr jb \<Rightarrow>
          if job_state jb = TERMINATED
          then if MAXJOBS \<le> j then Inl JobIndex
               else reap_loop k (i + 1) (j + 1) (s\<lparr>jobs_done := (jobs_done s)(j := i)\<rparr>)
          else reap_loop k (i + 1) j s)"

definition reap_dead_jobs :: "jobsys \<Rightarrow> job_fault + jobsys" where
  "reap_dead_jobs s =
     (case reap_loop (jobs_rear s - jobs_front s) (jobs_front s) 0 s of
        Inl e \<Rightarrow> Inl e
      | Inr s1 \<Rightarrow> Inr (if jobs_n s1 = 0 then s1\<lparr>jobs_front := 1, jobs_rear := 1\<rparr> else s1))"

text \<open>The loop over null entries ends at the first other one; \<open>None\<close> when it leaves the array.\<close>

fun null_loop :: "nat \<Rightarrow> nat \<Rightarrow> jobsys \<Rightarrow> nat option" where
  "null_loop 0 i s = None"
| "null_loop (Suc k) i s = (if jobs_list s i = NullJob then null_loop k (i + 1) s else Some i)"

fun pid_loop :: "nat \<Rightarrow> nat \<Rightarrow> int \<Rightarrow> jobsys \<Rightarrow> job_fault + int" where
  "pid_loop 0 i pid s = Inr (- 1)"
| "pid_loop (Suc k) i pid s =
     (case job_at s (int i) of
        Inl e \<Rightarrow> Inl e
      | Inr j \<Rightarrow> if pgid j = pid then Inr (int i) else pid_loop k (i + 1) pid s)"

definition find_jobs_by_pid :: "int \<Rightarrow> jobsys \<Rightarrow> job_fault + int \<times> jobsys" where
  "find_jobs_by_pid pid s =
     (case null_loop (MAXJOBS - jobs_front s) (jobs_front s) s of
        None \<Rightarrow> Inl JobIndex
      | Some i \<Rightarrow>
          let s1 = s\<lparr>jobs_front := i\<rparr> in
          case pid_loop (jobs_rear s - i) i pid s1 of Inl e \<Rightarrow> Inl e | Inr r \<Rightarrow> Inr (r, s1))"

definition set_job_state :: "int \<Rightarrow> STATE \<Rightarrow> jobsys \<Rightarrow> job_fault + jobsys" where
  "set_job_state i st s =
     (case job_at s i of Inl e \<Rightarrow> Inl e | Inr j \<Rightarrow> Inr (put_job (nat i) (Live (j\<lparr>job_state := st\<rparr>)) s))"

section \<open>Signal handlers\<close>

datatype wait_status = Stopped | Exited | Signalled

text \<open>A job is entered for the stopped foreground group; also used where \<^verbatim>\<open>waitpid\<close> reports the stop.\<close>

definition stopped_job :: "jobsys \<Rightarrow> job_fault + jobsys" where
  "stopped_job s =
     (case insert_jobs (child_pid s) (sh_buf s) SUSPENDED s of
        Inl e \<Rightarrow> Inl e
      | Inr s1 \<Rightarrow> Inr (emit [Out (''['' @ show_nat (jobs_rear s1 - 1) @ ''] Stopped '' @ sh_buf s1)] s1))"

definition child_event :: "int \<Rightarrow> wait_status \<Rightarrow> jobsys \<Rightarrow> job_fault + jobsys" where
  "child_event pid st s =
     (case st of
        Stopped \<Rightarrow> (case stopped_job s of Inl e \<Rightarrow> Inl e | Inr s1 \<Rightarrow> Inr (emit [Kill (parent_pid s1) SIGCONT] s1))
      | Exited \<Rightarrow>
          if pid = child_pid s then Inr (emit [Kill (parent_pid s) SIGCONT] (s\<lparr>child_pid := 0\<rparr>))
          else (case find_jobs_by_pid pid s of
                  Inl e \<Rightarrow> Inl e
                | Inr (i, s1) \<Rightarrow> if i \<noteq> - 1 then set_job_state i TERMINATED s1 else Inr s1)
      | Signalled \<Rightarrow> Inr s)"

text \<open>The handler; the list holds what the successive calls of \<^verbatim>\<open>waitpid\<close> return, up to the first that returns
  no child.\<close>

fun wait_loop :: "(int \<times> wait_status) list \<Rightarrow> jobsys \<Rightarrow> job_fault + jobsys" where
  "wait_loop [] s = Inr s"
| "wait_loop ((pid, st) # ws) s = (case child_event pid st s of Inl e \<Rightarrow> Inl e | Inr s1 \<Rightarrow> wait_loop ws s1)"

definition terminal_back :: "jobsys \<Rightarrow> jobsys" where
  "terminal_back s = emit [Tcsetpgrp STDIN_FILENO (parent_pid s), Tcsetpgrp STDOUT_FILENO (parent_pid s)] s"

definition sigchild_handler :: "(int \<times> wait_status) list \<Rightarrow> jobsys \<Rightarrow> job_fault + jobsys" where
  "sigchild_handler ws s = (case wait_loop ws s of Inl e \<Rightarrow> Inl e | Inr s1 \<Rightarrow> Inr (terminal_back s1))"

definition sigtstp_handler :: "jobsys \<Rightarrow> jobsys" where
  "sigtstp_handler s = (terminal_back s)\<lparr>child_pid := 0\<rparr>"

text \<open>The handlers of the child that leads a pipeline; \<open>pid_list\<close> holds the processes it started and \<open>me\<close>
  its own number.\<close>

fun sigchild_handler_child :: "int \<Rightarrow> wait_status list \<Rightarrow> sh_event list" where
  "sigchild_handler_child me [] = []"
| "sigchild_handler_child me (st # sts) = (if st = Stopped then [Kill me SIGSTOP] else []) @ sigchild_handler_child me sts"

fun signal_all :: "sh_signal \<Rightarrow> int list \<Rightarrow> sh_event list option" where
  "signal_all sig [] = None"
| "signal_all sig (p # ps) = (if p = 0 then Some [] else map_option ((#) (Kill p sig)) (signal_all sig ps))"

definition sigusr1_handler :: "int \<Rightarrow> int list \<Rightarrow> sh_event list option" where
  "sigusr1_handler me pid_list =
     map_option (\<lambda>es. es @ [Tcsetpgrp STDIN_FILENO me, Tcsetpgrp STDOUT_FILENO me]) (signal_all SIGCONT pid_list)"

definition sigusr2_handler :: "int list \<Rightarrow> sh_event list option" where
  "sigusr2_handler pid_list = signal_all SIGKILL pid_list"

fun sigchilds :: "(int \<times> wait_status) list list \<Rightarrow> jobsys \<Rightarrow> job_fault + jobsys" where
  "sigchilds [] s = Inr s"
| "sigchilds (ws # wss) s = (case sigchild_handler ws s of Inl e \<Rightarrow> Inl e | Inr s1 \<Rightarrow> sigchilds wss s1)"

text \<open>Waiting for a child: the handlers that run meanwhile, and whether the status says that the child was
  stopped.\<close>

type_synonym waiting = "(int \<times> wait_status) list list \<times> bool"

definition wait_child :: "waiting \<Rightarrow> jobsys \<Rightarrow> job_fault + jobsys" where
  "wait_child w s =
     (case sigchilds (fst w) s of Inl e \<Rightarrow> Inl e | Inr s1 \<Rightarrow> if snd w then stopped_job s1 else Inr s1)"

section \<open>Commands on jobs\<close>

type_synonym argv = "string option list"

definition arg :: "argv \<Rightarrow> nat \<Rightarrow> string option" where
  "arg argv i = (if i < length argv then argv ! i else None)"

definition job_index_parser :: "string \<Rightarrow> int" where
  "job_index_parser a = (let i = atoi a in if show_int i \<noteq> a then - 1 else i)"

fun command_loop :: "nat \<Rightarrow> nat \<Rightarrow> string \<Rightarrow> jobsys \<Rightarrow> job_fault + int" where
  "command_loop 0 i a s = Inr (- 1)"
| "command_loop (Suc k) i a s =
     (if jobs_list s i = NullJob then command_loop k (i + 1) a s
      else case job_at s (int i) of
          Inl e \<Rightarrow> Inl e
        | Inr j \<Rightarrow> if a = job_cmdline j then Inr (int i) else command_loop k (i + 1) a s)"

definition find_job_by_command :: "string \<Rightarrow> jobsys \<Rightarrow> job_fault + int" where
  "find_job_by_command a s = command_loop (jobs_rear s) 0 a s"

text \<open>What \<^verbatim>\<open>fg\<close>, \<^verbatim>\<open>bg\<close> and \<^verbatim>\<open>kill\<close> have in common: the job that the argument names, with its index, or a message
  and nothing more.\<close>

definition usage :: "argv \<Rightarrow> string" where
  "usage argv = ''Usage : '' @ (case arg argv 0 of None \<Rightarrow> ''(null)'' | Some a \<Rightarrow> a) @ '' %<job spec>''"

definition spec_index :: "argv \<Rightarrow> string \<Rightarrow> jobsys \<Rightarrow> job_fault + int \<times> jobsys" where
  "spec_index argv a s =
     (let i = job_index_parser (tl a) in
      if i = 0 then (case find_job_by_command a s of Inl e \<Rightarrow> Inl e | Inr i' \<Rightarrow> Inr (i', s))
      else Inr (i, if at a \<noteq> CHR ''%'' then emit [Err (usage argv)] s else s))"

definition job_target :: "argv \<Rightarrow> jobsys \<Rightarrow> job_fault + (int \<times> JOB) option \<times> jobsys" where
  "job_target argv s =
     (case arg argv 1 of
        None \<Rightarrow> Inr (None, emit [Err (usage argv @ [NEWLINE])] s)
      | Some a \<Rightarrow>
          if at (tl a) = NUL then Inr (None, emit [Err (usage argv @ [NEWLINE])] s)
          else case spec_index argv a s of
              Inl e \<Rightarrow> Inl e
            | Inr (i, s1) \<Rightarrow>
                (case job_at s1 i of
                   Inl NullJobDeref \<Rightarrow> Inr (None, emit [Err (''No Such job'' @ [NEWLINE])] s1)
                 | Inl e \<Rightarrow> Inl e
                 | Inr j \<Rightarrow>
                     if job_state j = TERMINATED
                     then Inr (None, emit [Err (''['' @ show_int i @ ''] Already Terminated job'' @ [NEWLINE])] s1)
                     else Inr (Some (i, j), s1)))"

definition fg :: "waiting \<Rightarrow> argv \<Rightarrow> jobsys \<Rightarrow> job_fault + jobsys" where
  "fg w argv s =
     (case job_target argv s of
        Inl e \<Rightarrow> Inl e
      | Inr (None, s1) \<Rightarrow> Inr s1
      | Inr (Some (i, j), s1) \<Rightarrow>
          wait_child w
            (emit [Tcsetpgrp (pgid j) STDIN_FILENO, Tcsetpgrp (pgid j) STDOUT_FILENO, Kill (pgid j) SIGCONT, Kill (pgid j) SIGUSR1]
              ((put_job (nat i) Freed
                 (emit [Out (''Resumed ['' @ show_int i @ ''] '' @ job_cmdline j)] (s1\<lparr>child_pid := pgid j\<rparr>)))
               \<lparr>sh_buf := job_cmdline j, jobs_n := jobs_n s1 - 1\<rparr>)))"

definition bg :: "argv \<Rightarrow> jobsys \<Rightarrow> job_fault + jobsys" where
  "bg argv s =
     (case job_target argv s of
        Inl e \<Rightarrow> Inl e
      | Inr (None, s1) \<Rightarrow> Inr s1
      | Inr (Some (i, j), s1) \<Rightarrow>
          Inr (emit [Out (''['' @ show_int i @ ''] '' @ job_cmdline j), Kill (pgid j) SIGCONT, Kill (pgid j) SIGUSR1]
                (put_job (nat i) (Live (j\<lparr>job_state := RUNNING\<rparr>)) s1)))"

definition kill_job :: "argv \<Rightarrow> jobsys \<Rightarrow> job_fault + jobsys" where
  "kill_job argv s =
     (case job_target argv s of
        Inl e \<Rightarrow> Inl e
      | Inr (None, s1) \<Rightarrow> Inr s1
      | Inr (Some (i, j), s1) \<Rightarrow> Inr (emit [Kill (pgid j) SIGUSR2] (put_job (nat i) (Live (j\<lparr>job_state := TERMINATED\<rparr>)) s1)))"

text \<open>The other builtins; \<open>chdir\<close> tells whether the system call succeeds.\<close>

fun exit_loop :: "nat \<Rightarrow> nat \<Rightarrow> jobsys \<Rightarrow> job_fault + jobsys" where
  "exit_loop 0 i s = Inr s"
| "exit_loop (Suc k) i s =
     (case job_at s (int i) of Inl e \<Rightarrow> Inl e | Inr j \<Rightarrow> exit_loop k (i + 1) (emit [Kill (pgid j) SIGUSR2] s))"

definition exit_cmd :: "jobsys \<Rightarrow> job_fault + jobsys" where
  "exit_cmd s = exit_loop (jobs_rear s - jobs_front s) (jobs_front s) s"

definition change_directory :: "(string option \<Rightarrow> bool) \<Rightarrow> argv \<Rightarrow> jobsys \<Rightarrow> jobsys" where
  "change_directory chdir argv s = (if chdir (arg argv 1) then s else emit [Err (''No Such Directory'' @ [NEWLINE])] s)"

section \<open>A turn of the shell\<close>

text \<open>What the outside contributes to a turn: handlers that run while the shell waits for the line, the
  line (with the rest of the buffer), whether the input has ended, the number of the forked child and
  the two waits.  \<open>junk\<close> is the uninitialised status of the parser.\<close>

record turn =
  cwd :: string
  line_sigs :: "(int \<times> wait_status) list list"
  line :: string
  stale :: string
  at_eof :: bool
  junk :: sh_status
  chdir_ok :: "string option \<Rightarrow> bool"
  fg_wait :: waiting
  fork_pid :: int
  fork_wait :: waiting

datatype outcome = Cont jobsys | Ended jobsys

definition call_builtin :: "turn \<Rightarrow> builtin_fp \<Rightarrow> argv \<Rightarrow> jobsys \<Rightarrow> job_fault + outcome" where
  "call_builtin t fp argv s =
     (case fp of
        bg_fp \<Rightarrow> map_sum id Cont (bg argv s)
      | fg_fp \<Rightarrow> map_sum id Cont (fg (fg_wait t) argv s)
      | kill_job_fp \<Rightarrow> map_sum id Cont (kill_job argv s)
      | print_jobs_fp \<Rightarrow> map_sum id Cont (print_jobs s)
      | change_directory_fp \<Rightarrow> Inr (Cont (change_directory (chdir_ok t) argv s))
      | exit_fp \<Rightarrow> map_sum id Ended (exit_cmd s))"

definition runs_in_shell :: "shcmd list \<Rightarrow> sh_mode \<Rightarrow> bool" where
  "runs_in_shell cmds mode \<longleftrightarrow> cmds \<noteq> [] \<and> sh_flag (hd cmds) = FUNCTION \<and> mode = FOREGROUND \<and> tl cmds = []"

definition builtin_turn :: "turn \<Rightarrow> shcmd list \<Rightarrow> sh_mode \<Rightarrow> jobsys \<Rightarrow> job_fault + outcome" where
  "builtin_turn t cmds mode s =
     (if runs_in_shell cmds mode then
        case sh_fp (hd cmds) of
          None \<Rightarrow> Inr (Cont s)
        | Some fp \<Rightarrow>
            (case call_builtin t fp (map (map_option fst) (sh_arguments (hd cmds))) s of
               Inr (Cont s1) \<Rightarrow> Inr (Cont (emit [Kill (grand_pid s1) SIGCONT] s1))
             | r \<Rightarrow> r)
      else Inr (Cont s))"

definition parent_turn :: "turn \<Rightarrow> sh_mode \<Rightarrow> jobsys \<Rightarrow> job_fault + jobsys" where
  "parent_turn t mode s =
     (case mode of
        FOREGROUND \<Rightarrow>
          (case reap_dead_jobs (s\<lparr>child_pid := fork_pid t\<rparr>) of
             Inl e \<Rightarrow> Inl e
           | Inr s1 \<Rightarrow> wait_child (fork_wait t) s1)
      | BACKGROUND \<Rightarrow>
          insert_jobs (fork_pid t) (sh_buf s) RUNNING (emit [Out (''['' @ show_nat (jobs_rear s) @ ''] : '' @ sh_buf s)] s))"

definition interpreter :: "turn \<Rightarrow> jobsys \<Rightarrow> job_fault + outcome" where
  "interpreter t s =
     (case sigchilds (line_sigs t) (emit [Out (cwd t @ ''>'')] (s\<lparr>sh_buf := cwd t\<rparr>)) of
        Inl e \<Rightarrow> Inl e
      | Inr s0 \<Rightarrow>
          if at_eof t then Inr (Ended s0)
          else case (if jobs_done s0 0 \<noteq> 0 then print_done_jobs s0 else Inr s0) of
              Inl e \<Rightarrow> Inl e
            | Inr s1 \<Rightarrow>
                (case sh_parser (junk t) (line t @ NUL # stale t) of
                   Inl e \<Rightarrow> Inl (ParseFault e)
                 | Inr (st, cmds, mode) \<Rightarrow>
                     (case builtin_turn t cmds mode (s1\<lparr>sh_buf := line t\<rparr>) of
                        Inl e \<Rightarrow> Inl e
                      | Inr (Ended s2) \<Rightarrow> Inr (Ended s2)
                      | Inr (Cont s2) \<Rightarrow> map_sum id Cont (parent_turn t mode s2))))"

text \<open>The forked child: what it prints and does to the terminal, and the pipeline it starts, if any.\<close>

definition child_turn :: "int \<Rightarrow> sh_status \<Rightarrow> shcmd list \<Rightarrow> sh_mode \<Rightarrow> fdtable \<Rightarrow> sh_event list \<times> (shcmd \<times> fdtable) list option" where
  "child_turn pid st cmds mode tbl =
     (if cmds = [] then (if st = NOCOMMANDERR then [Out (''No Command Error'' @ [NEWLINE, NUL])] else [], Some [])
      else let es = (if mode = FOREGROUND then [Tcsetpgrp STDOUT_FILENO pid, Tcsetpgrp STDIN_FILENO pid] else [])
           in case st of
                OK \<Rightarrow> (es, execute_commands cmds tbl)
              | BUFFERING \<Rightarrow> (es, Some [])
              | SYNTAXERR \<Rightarrow> (es @ [Out (''Syntax Error'' @ [NEWLINE, NUL])], Some [])
              | NOCOMMANDERR \<Rightarrow> (es @ [Out (''No Command Error'' @ [NEWLINE, NUL])], Some []))"

definition initialize :: "int \<Rightarrow> int \<Rightarrow> jobsys" where
  "initialize pid ppid =
     \<lparr>jobs_front = 1, jobs_rear = 1, jobs_n = 0, jobs_list = (\<lambda>_. NullJob), jobs_done = (\<lambda>_. 0), child_pid = 0,
      parent_pid = pid, grand_pid = ppid, sh_buf = [], events = []\<rparr>"

fun myshell :: "turn list \<Rightarrow> jobsys \<Rightarrow> job_fault + outcome" where
  "myshell [] s = Inr (Cont s)"
| "myshell (t # ts) s =
     (case interpreter t s of Inl e \<Rightarrow> Inl e | Inr (Ended s1) \<Rightarrow> Inr (Ended s1) | Inr (Cont s1) \<Rightarrow> myshell ts s1)"

text \<open>Releasing a chain of commands: the blocks in the order they are freed, by the command's position.\<close>

datatype block = ArgBlock nat nat | ArgsBlock nat | BuiltinBlock nat | CmdBlock nat | NullBlock

definition free_command :: "nat \<Rightarrow> shcmd \<Rightarrow> block list" where
  "free_command p cmd =
     map (\<lambda>i. if sh_arguments cmd ! i = None then NullBlock else ArgBlock p i) [0..<sh_argc cmd]
     @ [ArgsBlock p, BuiltinBlock p, CmdBlock p]"

fun free_command_list :: "nat \<Rightarrow> shcmd list \<Rightarrow> block list" where
  "free_command_list p [] = []"
| "free_command_list p (cmd # cmds) = free_command_list (p + 1) cmds @ free_command p cmd"

end
