(* ===== verification/Shell_Jobs_Correct.thy ===== *)
theory Shell_Jobs_Correct
  imports Shell_Jobs
begin

text \<open>
  What the shell does with its table of jobs: the invariant of the table, the collection and the report of
  finished jobs and what they leave behind, the handler for ended children, the commands on jobs
  through one interface, and a whole turn on a foreground pipeline.
\<close>

section \<open>The table\<close>

definition jobs_ok :: "jobsys \<Rightarrow> bool" where
  "jobs_ok s \<longleftrightarrow> 0 < jobs_front s \<and> jobs_front s \<le> jobs_rear s \<and> jobs_rear s \<le> MAXJOBS
     \<and> jobs_n s = int (jobs_rear s - jobs_front s) \<and> (\<forall>i \<in> {jobs_front s..<jobs_rear s}. \<exists>j. jobs_list s i = Live j)"

definition finished :: "jobsys \<Rightarrow> nat \<Rightarrow> bool" where
  "finished s i \<longleftrightarrow> (case jobs_list s i of Live j \<Rightarrow> job_state j = TERMINATED | _ \<Rightarrow> False)"

definition the_job :: "jobsys \<Rightarrow> nat \<Rightarrow> JOB" where
  "the_job s i = (case jobs_list s i of Live j \<Rightarrow> j | _ \<Rightarrow> undefined)"

lemma job_at_Live: "jobs_list s i = Live j \<Longrightarrow> i < MAXJOBS \<Longrightarrow> job_at s (int i) = Inr j"
  by (simp add: job_at_def)

lemma job_at_Freed: "jobs_list s i = Freed \<Longrightarrow> i < MAXJOBS \<Longrightarrow> job_at s (int i) = Inl FreedJobUse"
  by (simp add: job_at_def)

lemma finished_cong: "jobs_list s' = jobs_list s \<Longrightarrow> finished s' = finished s"
  by (simp add: finished_def fun_eq_iff)

lemma emit_simps [simp]:
  "jobs_list (emit es s) = jobs_list s" "jobs_front (emit es s) = jobs_front s" "jobs_rear (emit es s) = jobs_rear s"
  "jobs_n (emit es s) = jobs_n s" "jobs_done (emit es s) = jobs_done s" "child_pid (emit es s) = child_pid s"
  "parent_pid (emit es s) = parent_pid s" "grand_pid (emit es s) = grand_pid s" "sh_buf (emit es s) = sh_buf s"
  "events (emit es s) = events s @ es"
  by (simp_all add: emit_def)

lemma put_job_simps [simp]:
  "jobs_list (put_job i p s) = (jobs_list s)(i := p)" "jobs_front (put_job i p s) = jobs_front s"
  "jobs_rear (put_job i p s) = jobs_rear s" "jobs_n (put_job i p s) = jobs_n s" "jobs_done (put_job i p s) = jobs_done s"
  "child_pid (put_job i p s) = child_pid s" "parent_pid (put_job i p s) = parent_pid s"
  "grand_pid (put_job i p s) = grand_pid s" "sh_buf (put_job i p s) = sh_buf s" "events (put_job i p s) = events s"
  by (simp_all add: put_job_def)

lemma jobs_ok_LiveD: "jobs_ok s \<Longrightarrow> jobs_front s \<le> i \<Longrightarrow> i < jobs_rear s \<Longrightarrow> jobs_list s i = Live (the_job s i) \<and> i < MAXJOBS"
  by (force simp: jobs_ok_def the_job_def)

lemma jobs_ok_put: "jobs_ok s \<Longrightarrow> jobs_ok (put_job i (Live j) s)"
  by (auto simp: jobs_ok_def)

lemma jobs_ok_emit [simp]: "jobs_ok (emit es s) = jobs_ok s"
  by (simp add: jobs_ok_def)

lemma insert_jobs_ok:
  assumes "jobs_ok s" and "jobs_rear s < MAXJOBS"
  obtains s' where "insert_jobs pg ln st s = Inr s'" "jobs_ok s'" "jobs_rear s' = jobs_rear s + 1" "jobs_front s' = jobs_front s"
    "jobs_list s' = (jobs_list s)(jobs_rear s := Live \<lparr>pgid = pg, job_state = st, job_cmdline = ln\<rparr>)"
    "jobs_done s' = jobs_done s" "events s' = events s" "sh_buf s' = sh_buf s"
  using assms that by (auto simp: insert_jobs_def jobs_ok_def)

section \<open>Collecting and reporting finished jobs\<close>

fun write_at :: "nat \<Rightarrow> nat list \<Rightarrow> (nat \<Rightarrow> nat) \<Rightarrow> nat \<Rightarrow> nat" where
  "write_at j [] f = f"
| "write_at j (x # xs) f = write_at (j + 1) xs (f(j := x))"

lemma write_at_before: "m < j \<Longrightarrow> write_at j xs f m = f m"
  by (induction j xs f rule: write_at.induct) auto

lemma write_at_nth: "m < length xs \<Longrightarrow> write_at j xs f (j + m) = xs ! m"
proof (induction j xs f arbitrary: m rule: write_at.induct)
  case (2 j x xs f)
  then show ?case using 2(1) [of "m - 1"] by (cases m) (simp_all add: write_at_before fun_upd_def)
qed simp

lemma write_at_after: "j + length xs \<le> m \<Longrightarrow> write_at j xs f m = f m"
  by (induction j xs f rule: write_at.induct) auto

lemma reap_loop_collects:
  assumes "\<forall>x \<in> {i..<i + k}. \<exists>jb. jobs_list s x = Live jb" and "i + k \<le> MAXJOBS" and "j \<le> i"
  shows "reap_loop k i j s = Inr (s\<lparr>jobs_done := write_at j (filter (finished s) [i..<i + k]) (jobs_done s)\<rparr>)"
  using assms
proof (induction k arbitrary: i j s)
  case (Suc k)
  obtain jb where jb: "jobs_list s i = Live jb" using Suc.prems(1) by fastforce
  have at: "job_at s (int i) = Inr jb" by (rule job_at_Live [OF jb]) (use Suc.prems in simp)
  have upt: "[i..<i + Suc k] = i # [Suc i..<Suc i + k]" by (simp add: upt_rec)
  have fin: "finished (s\<lparr>jobs_done := f\<rparr>) = finished s" for f by (auto simp: finished_def fun_eq_iff)
  have live: "\<forall>x \<in> {Suc i..<Suc i + k}. \<exists>jb. jobs_list s x = Live jb" using Suc.prems(1) by auto
  have nxt: "reap_loop k (Suc i) j s = Inr (s\<lparr>jobs_done := write_at j (filter (finished s) [Suc i..<Suc i + k]) (jobs_done s)\<rparr>)"
    by (rule Suc.IH) (use Suc.prems live in auto)
  have nxt': "reap_loop k (Suc i) (Suc j) (s\<lparr>jobs_done := (jobs_done s)(j := i)\<rparr>)
      = Inr (s\<lparr>jobs_done := write_at (Suc j) (filter (finished s) [Suc i..<Suc i + k]) ((jobs_done s)(j := i))\<rparr>)"
    using Suc.IH [of "Suc i" "s\<lparr>jobs_done := (jobs_done s)(j := i)\<rparr>" "Suc j"] Suc.prems live by (simp add: fin fun_upd_def)
  have "finished s i \<longleftrightarrow> job_state jb = TERMINATED" by (simp add: finished_def jb)
  then show ?case using at nxt nxt' Suc.prems unfolding upt by (simp add: fun_upd_def)
qed simp

lemma reap_loop_freed:
  assumes "\<forall>x \<in> {i..<i + k}. jobs_list s x = Freed \<or> (\<exists>jb. jobs_list s x = Live jb)"
    and "i + k \<le> MAXJOBS" and "j \<le> i" and "x \<in> {i..<i + k}" and "jobs_list s x = Freed"
  shows "reap_loop k i j s = Inl FreedJobUse"
  using assms
proof (induction k arbitrary: i j s)
  case (Suc k)
  have i: "i < MAXJOBS" using Suc.prems by simp
  show ?case
  proof (cases "jobs_list s i = Freed")
    case True
    then show ?thesis by (simp add: job_at_Freed i)
  next
    case False
    then obtain jb where jb: "jobs_list s i = Live jb" using Suc.prems(1) by auto
    have x: "x \<in> {Suc i..<Suc i + k}" using Suc.prems(4,5) False by (cases "x = i") auto
    have rng: "\<forall>y \<in> {Suc i..<Suc i + k}. jobs_list s y = Freed \<or> (\<exists>jb. jobs_list s y = Live jb)" using Suc.prems(1) by auto
    have "reap_loop k (Suc i) j s = Inl FreedJobUse" by (rule Suc.IH) (use Suc.prems x rng in auto)
    moreover have "reap_loop k (Suc i) (Suc j) (s\<lparr>jobs_done := (jobs_done s)(j := i)\<rparr>) = Inl FreedJobUse"
      by (rule Suc.IH) (use Suc.prems x rng in auto)
    ultimately show ?thesis using i Suc.prems(3) by (simp add: job_at_Live [OF jb])
  qed
qed simp

lemma done_loop_reports:
  assumes "\<forall>m < length ds. jobs_done s (i + m) = ds ! m" and "jobs_done s (i + length ds) = 0" and "length ds < k"
    and "distinct ds" and "\<forall>d \<in> set ds. 0 < d \<and> d < MAXJOBS \<and> jobs_list s d = Live (J d)"
  shows "\<exists>s'. done_loop k i s = Inr s' \<and> jobs_list s' = (\<lambda>x. if x \<in> set ds then Freed else jobs_list s x)
     \<and> jobs_front s' = jobs_front s \<and> jobs_rear s' = jobs_rear s \<and> jobs_n s' = jobs_n s - int (length ds)
     \<and> events s' = events s @ map (\<lambda>d. Out (done_line d (J d))) ds"
  using assms
proof (induction ds arbitrary: i k s)
  case Nil
  then obtain k' where "k = Suc k'" by (cases k) auto
  then show ?case using Nil by (auto simp: Let_def)
next
  case (Cons d ds)
  obtain k' where k: "k = Suc k'" using Cons.prems(3) by (cases k) auto
  have d: "jobs_done s i = d" using Cons.prems(1) by force
  have live: "jobs_list s d = Live (J d)" "d < MAXJOBS" "d \<noteq> 0" using Cons.prems(5) by auto
  let ?s = "(put_job d Freed (emit [Out (done_line d (J d))] s))\<lparr>jobs_done := (jobs_done s)(i := 0), jobs_n := jobs_n s - 1\<rparr>"
  have shift: "\<forall>m < length ds. jobs_done ?s (Suc i + m) = ds ! m" using Cons.prems(1) by force
  have "\<exists>s'. done_loop k' (Suc i) ?s = Inr s' \<and> jobs_list s' = (\<lambda>x. if x \<in> set ds then Freed else jobs_list ?s x)
     \<and> jobs_front s' = jobs_front ?s \<and> jobs_rear s' = jobs_rear ?s \<and> jobs_n s' = jobs_n ?s - int (length ds)
     \<and> events s' = events ?s @ map (\<lambda>d. Out (done_line d (J d))) ds"
    by (rule Cons.IH) (use Cons.prems k shift in \<open>auto split: if_splits\<close>)
  then obtain s' where s': "done_loop k' (Suc i) ?s = Inr s'" "jobs_list s' = (\<lambda>x. if x \<in> set ds then Freed else jobs_list ?s x)"
     "jobs_front s' = jobs_front s" "jobs_rear s' = jobs_rear s" "jobs_n s' = jobs_n s - 1 - int (length ds)"
     "events s' = events s @ Out (done_line d (J d)) # map (\<lambda>d. Out (done_line d (J d))) ds" by auto
  have "done_loop k i s = Inr s'" using s'(1) live by (simp add: k d job_at_Live Let_def)
  with s' show ?case by (auto simp: fun_eq_iff)
qed

definition finished_jobs :: "jobsys \<Rightarrow> nat list" where
  "finished_jobs s = filter (finished s) [jobs_front s..<jobs_rear s]"

lemma reap_ok:
  assumes "jobs_ok s"
  shows "reap_dead_jobs s = Inr (let s1 = s\<lparr>jobs_done := write_at 0 (finished_jobs s) (jobs_done s)\<rparr>
     in if jobs_n s = 0 then s1\<lparr>jobs_front := 1, jobs_rear := 1\<rparr> else s1)"
proof -
  have "reap_loop (jobs_rear s - jobs_front s) (jobs_front s) 0 s
      = Inr (s\<lparr>jobs_done := write_at 0 (filter (finished s) [jobs_front s..<jobs_front s + (jobs_rear s - jobs_front s)]) (jobs_done s)\<rparr>)"
    by (rule reap_loop_collects) (use assms in \<open>auto simp: jobs_ok_def\<close>)
  then show ?thesis using assms by (simp add: reap_dead_jobs_def finished_jobs_def Let_def jobs_ok_def)
qed

lemma finished_jobs_length: "jobs_ok s \<Longrightarrow> length (finished_jobs s) < MAXJOBS"
proof -
  assume "jobs_ok s"
  then have "length [jobs_front s..<jobs_rear s] < MAXJOBS" by (auto simp: jobs_ok_def)
  then show ?thesis unfolding finished_jobs_def using length_filter_le [of "finished s" "[jobs_front s..<jobs_rear s]"] by linarith
qed

lemma report_finished:
  assumes ok: "jobs_ok s" and none: "jobs_done s = (\<lambda>_. 0)" and some: "finished_jobs s \<noteq> []"
  obtains s1 s2 where "reap_dead_jobs s = Inr s1" "print_done_jobs s1 = Inr s2"
    "jobs_list s2 = (\<lambda>x. if x \<in> set (finished_jobs s) then Freed else jobs_list s x)"
    "jobs_front s2 = jobs_front s" "jobs_rear s2 = jobs_rear s"
    "events s2 = events s @ map (\<lambda>d. Out (done_line d (the_job s d))) (finished_jobs s)"
proof -
  define ds where "ds = finished_jobs s"
  obtain x where x: "x \<in> set ds" using some unfolding ds_def by (cases "finished_jobs s") auto
  then have "jobs_front s \<le> x" "x < jobs_rear s" by (auto simp: ds_def finished_jobs_def)
  then have n: "jobs_n s \<noteq> 0" using ok by (simp add: jobs_ok_def)
  let ?s1 = "s\<lparr>jobs_done := write_at 0 ds (jobs_done s)\<rparr>"
  have r: "reap_dead_jobs s = Inr ?s1" using reap_ok [OF ok] n by (simp add: ds_def Let_def)
  have "\<exists>s'. done_loop MAXJOBS 0 ?s1 = Inr s' \<and> jobs_list s' = (\<lambda>x. if x \<in> set ds then Freed else jobs_list ?s1 x)
     \<and> jobs_front s' = jobs_front ?s1 \<and> jobs_rear s' = jobs_rear ?s1 \<and> jobs_n s' = jobs_n ?s1 - int (length ds)
     \<and> events s' = events ?s1 @ map (\<lambda>d. Out (done_line d (the_job s d))) ds"
  proof (rule done_loop_reports)
    show "\<forall>m < length ds. jobs_done ?s1 (0 + m) = ds ! m" using write_at_nth [of _ ds 0 "jobs_done s"] by simp
    show "jobs_done ?s1 (0 + length ds) = 0" using write_at_after [of 0 ds "length ds"] none by simp
    show "length ds < MAXJOBS" using finished_jobs_length [OF ok] by (simp add: ds_def)
    show "distinct ds" by (simp add: ds_def finished_jobs_def)
    show "\<forall>d \<in> set ds. 0 < d \<and> d < MAXJOBS \<and> jobs_list ?s1 d = Live (the_job s d)"
      using jobs_ok_LiveD [OF ok] ok by (auto simp: ds_def finished_jobs_def jobs_ok_def)
  qed
  moreover have "(\<lambda>x. if x \<in> set ds then Freed else jobs_list ?s1 x) = (\<lambda>x. if x \<in> set ds then Freed else jobs_list s x)"
    by (rule ext) simp
  ultimately show ?thesis using that [OF r] unfolding print_done_jobs_def ds_def by auto
qed

text \<open>The report of finished jobs is exact, and it ruins the table: when some job has finished, the shell
  collects the finished jobs, reports each of them once, in order, with its number and command, and
  frees them; but the freed entries stay in the range that is searched, so that the next collection,
  which the next command line runs, reads freed memory.\<close>

theorem shell_report_leaves_dangling:
  assumes "jobs_ok s" and "jobs_done s = (\<lambda>_. 0)" and "finished_jobs s \<noteq> []"
  shows "\<exists>s1 s2. reap_dead_jobs s = Inr s1 \<and> print_done_jobs s1 = Inr s2
     \<and> events s2 = events s @ map (\<lambda>d. Out (done_line d (the_job s d))) (finished_jobs s)
     \<and> reap_dead_jobs s2 = Inl FreedJobUse"
proof -
  obtain s1 s2 where s: "reap_dead_jobs s = Inr s1" "print_done_jobs s1 = Inr s2"
    "jobs_list s2 = (\<lambda>x. if x \<in> set (finished_jobs s) then Freed else jobs_list s x)"
    "jobs_front s2 = jobs_front s" "jobs_rear s2 = jobs_rear s"
    "events s2 = events s @ map (\<lambda>d. Out (done_line d (the_job s d))) (finished_jobs s)"
    by (rule report_finished [OF assms])
  obtain x where x: "x \<in> set (finished_jobs s)" using assms(3) by (cases "finished_jobs s") auto
  have "reap_loop (jobs_rear s - jobs_front s) (jobs_front s) 0 s2 = Inl FreedJobUse"
  proof (rule reap_loop_freed [where x = x])
    show "jobs_list s2 x = Freed" using x s(3) by simp
    show "x \<in> {jobs_front s..<jobs_front s + (jobs_rear s - jobs_front s)}" using x by (auto simp: finished_jobs_def)
  qed (use assms(1) s(3) in \<open>auto simp: jobs_ok_def\<close>)
  with s show ?thesis by (auto simp: reap_dead_jobs_def)
qed

definition one_done :: jobsys where
  "one_done = put_job 1 (Live \<lparr>pgid = 100, job_state = TERMINATED, job_cmdline = ''sleep 1 &''\<rparr>)
     ((initialize 10 1)\<lparr>jobs_rear := 3, jobs_n := 2, jobs_list := (\<lambda>_. NullJob)(2 := Live \<lparr>pgid = 200, job_state = RUNNING, job_cmdline = ''sleep 99 &''\<rparr>)\<rparr>)"

lemma one_done_ok: "jobs_ok one_done" "jobs_done one_done = (\<lambda>_. 0)" "finished_jobs one_done = [1]"
proof -
  have two: "{1..<3} = {1, 2 :: nat}" "[1..<3] = [1, 2 :: nat]" by (auto simp: upt_rec)
  show "jobs_ok one_done" by (simp add: jobs_ok_def one_done_def initialize_def MAXJOBS_def two del: One_nat_def)
  show "jobs_done one_done = (\<lambda>_. 0)" by (simp add: one_done_def initialize_def)
  show "finished_jobs one_done = [1]" by (simp add: finished_jobs_def one_done_def initialize_def two finished_def del: One_nat_def)
qed

theorem shell_report_leaves_dangling_witness:
  "\<exists>s1 s2. reap_dead_jobs one_done = Inr s1 \<and> print_done_jobs s1 = Inr s2
     \<and> events s2 = [Out ''[1] Done sleep 1 &''] \<and> reap_dead_jobs s2 = Inl FreedJobUse"
proof -
  have "done_line 1 (the_job one_done 1) = ''[1] Done sleep 1 &''"
    by (simp add: done_line_def the_job_def one_done_def show_nat.simps digit_def char_of_def bit_iff_odd)
  moreover have "events one_done = []" by (simp add: one_done_def initialize_def)
  ultimately show ?thesis using shell_report_leaves_dangling [of one_done] one_done_ok by (simp del: One_nat_def)
qed

section \<open>Ended children\<close>

lemma pid_loop_finds:
  assumes "\<forall>x \<in> {i..<i + k}. jobs_list s x = Live (J x)" and "i + k \<le> MAXJOBS"
  shows "pid_loop k i pid s = Inr (case List.find (\<lambda>x. pgid (J x) = pid) [i..<i + k] of None \<Rightarrow> - 1 | Some x \<Rightarrow> int x)"
  using assms
proof (induction k arbitrary: i)
  case (Suc k)
  have i: "job_at s (int i) = Inr (J i)" by (rule job_at_Live) (use Suc.prems in auto)
  have "pid_loop k (Suc i) pid s = Inr (case List.find (\<lambda>x. pgid (J x) = pid) [Suc i..<Suc i + k] of None \<Rightarrow> - 1 | Some x \<Rightarrow> int x)"
    by (rule Suc.IH) (use Suc.prems in auto)
  moreover have "[i..<i + Suc k] = i # [Suc i..<Suc i + k]" by (simp add: upt_rec)
  ultimately show ?case using i by simp
qed simp

lemma find_jobs_by_pid_ok:
  assumes ok: "jobs_ok s" and ne: "jobs_front s < jobs_rear s"
  shows "find_jobs_by_pid pid s =
     Inr (case List.find (\<lambda>x. pgid (the_job s x) = pid) [jobs_front s..<jobs_rear s] of None \<Rightarrow> - 1 | Some x \<Rightarrow> int x, s)"
proof -
  have live: "\<forall>x \<in> {jobs_front s..<jobs_front s + (jobs_rear s - jobs_front s)}. jobs_list s x = Live (the_job s x)"
    using jobs_ok_LiveD [OF ok] ne by auto
  have b: "jobs_front s + (jobs_rear s - jobs_front s) = jobs_rear s" "jobs_rear s \<le> MAXJOBS" using ok by (auto simp: jobs_ok_def)
  obtain k where k: "MAXJOBS - jobs_front s = Suc k" using b ne by (cases "MAXJOBS - jobs_front s") auto
  have "null_loop (MAXJOBS - jobs_front s) (jobs_front s) s = Some (jobs_front s)" using jobs_ok_LiveD [OF ok, of "jobs_front s"] ne by (simp add: k)
  then show ?thesis using pid_loop_finds [OF live, of pid] b by (simp add: find_jobs_by_pid_def Let_def)
qed

definition mark_ended :: "int set \<Rightarrow> JOB \<Rightarrow> JOB" where
  "mark_ended P j = (if pgid j \<in> P then j\<lparr>job_state := TERMINATED\<rparr> else j)"

definition marks :: "jobsys \<Rightarrow> int set \<Rightarrow> jobsys \<Rightarrow> bool" where
  "marks s P s' \<longleftrightarrow> jobs_front s' = jobs_front s \<and> jobs_rear s' = jobs_rear s \<and> child_pid s' = child_pid s \<and> jobs_n s' = jobs_n s
     \<and> (\<forall>i \<in> {jobs_front s..<jobs_rear s}. jobs_list s' i = Live (mark_ended P (the_job s i)))"

definition own_pids :: "jobsys \<Rightarrow> bool" where
  "own_pids s \<longleftrightarrow> inj_on (\<lambda>i. pgid (the_job s i)) {jobs_front s..<jobs_rear s}"

lemma mark_ended_simps [simp]: "pgid (mark_ended P j) = pgid j" "mark_ended {} j = j"
  "mark_ended Q (mark_ended P j) = mark_ended (P \<union> Q) j"
  by (auto simp: mark_ended_def)

lemma marks_the_job: "marks s P s' \<Longrightarrow> i \<in> {jobs_front s..<jobs_rear s} \<Longrightarrow> the_job s' i = mark_ended P (the_job s i)"
  by (simp add: marks_def the_job_def)

lemma marks_keeps:
  assumes "marks s P s'" and "jobs_ok s" and "own_pids s"
  shows "jobs_ok s'" and "own_pids s'"
proof -
  show "jobs_ok s'" using assms(1,2) by (auto simp: marks_def jobs_ok_def)
  have "inj_on (\<lambda>i. pgid (the_job s' i)) {jobs_front s..<jobs_rear s}"
    using assms(3) marks_the_job [OF assms(1)] by (simp add: own_pids_def inj_on_def)
  then show "own_pids s'" using assms(1) by (simp add: own_pids_def marks_def)
qed

lemma marks_trans:
  assumes "marks s P s1" and "marks s1 Q s2"
  shows "marks s (P \<union> Q) s2"
  using assms marks_the_job [OF assms(1)] by (auto simp: marks_def)

lemma marks_refl: "jobs_ok s \<Longrightarrow> marks s {} s"
  using jobs_ok_LiveD [of s] by (auto simp: marks_def)

lemma child_event_marks:
  assumes ok: "jobs_ok s" "own_pids s" and ne: "jobs_front s < jobs_rear s" and st: "st \<noteq> Stopped" and pid: "pid \<noteq> child_pid s"
  shows "\<exists>s'. child_event pid st s = Inr s' \<and> marks s (if st = Exited then {pid} else {}) s'"
proof (cases "st = Exited")
  case False
  then show ?thesis using st marks_refl [OF ok(1)] by (cases st) (auto simp: child_event_def)
next
  case True
  show ?thesis
  proof (cases "List.find (\<lambda>x. pgid (the_job s x) = pid) [jobs_front s..<jobs_rear s]")
    case None
    then have "\<forall>i \<in> {jobs_front s..<jobs_rear s}. pgid (the_job s i) \<noteq> pid" by (auto simp: find_None_iff)
    then have "marks s {pid} s" using jobs_ok_LiveD [OF ok(1)] by (auto simp: marks_def mark_ended_def)
    then show ?thesis using None True pid by (simp add: child_event_def find_jobs_by_pid_ok [OF ok(1) ne])
  next
    case (Some i)
    then have "i \<in> set [jobs_front s..<jobs_rear s] \<and> pgid (the_job s i) = pid" unfolding find_Some_iff by auto
    then have i: "jobs_front s \<le> i" "i < jobs_rear s" "pgid (the_job s i) = pid" by auto
    have live: "jobs_list s i = Live (the_job s i)" "i < MAXJOBS" using jobs_ok_LiveD [OF ok(1) i(1,2)] by auto
    have other: "pgid (the_job s x) \<noteq> pid" if "x \<in> {jobs_front s..<jobs_rear s}" "x \<noteq> i" for x
      using ok(2) i that unfolding own_pids_def inj_on_def by auto
    let ?s = "put_job i (Live ((the_job s i)\<lparr>job_state := TERMINATED\<rparr>)) s"
    have "marks s {pid} ?s" using other i jobs_ok_LiveD [OF ok(1)] by (auto simp: marks_def mark_ended_def)
    then show ?thesis using Some True pid live
      by (simp add: child_event_def find_jobs_by_pid_ok [OF ok(1) ne] set_job_state_def job_at_Live)
  qed
qed

lemma wait_loop_marks:
  assumes "jobs_ok s" "own_pids s" and "jobs_front s < jobs_rear s" and "\<forall>w \<in> set ws. snd w \<noteq> Stopped \<and> fst w \<noteq> child_pid s"
  shows "\<exists>s'. wait_loop ws s = Inr s' \<and> marks s {p. (p, Exited) \<in> set ws} s'"
  using assms
proof (induction ws arbitrary: s)
  case Nil
  then show ?case using marks_refl by simp
next
  case (Cons w ws)
  obtain pid st where w: "w = (pid, st)" by fastforce
  obtain s1 where s1: "child_event pid st s = Inr s1" "marks s (if st = Exited then {pid} else {}) s1"
    using child_event_marks [OF Cons.prems(1-3), of st pid] Cons.prems(4) w by auto
  have fl: "jobs_front s1 = jobs_front s" "jobs_rear s1 = jobs_rear s" "child_pid s1 = child_pid s" using s1(2) by (auto simp: marks_def)
  obtain s2 where s2: "wait_loop ws s1 = Inr s2" "marks s1 {p. (p, Exited) \<in> set ws} s2"
    using Cons.IH [OF marks_keeps [OF s1(2) Cons.prems(1,2)]] Cons.prems fl by auto
  have "(if st = Exited then {pid} else {}) \<union> {p. (p, Exited) \<in> set ws} = {p. (p, Exited) \<in> set (w # ws)}" using w by auto
  then show ?case using s1 s2 marks_trans [OF s1(2) s2(2)] by (simp add: w)
qed



section \<open>Naming a job\<close>

text \<open>The commands \<^verbatim>\<open>fg\<close>, \<^verbatim>\<open>bg\<close> and \<^verbatim>\<open>kill\<close> look the job up in the same way and differ in what they do with it.\<close>

locale job_command =
  fixes run :: "argv \<Rightarrow> jobsys \<Rightarrow> job_fault + jobsys"
    and act :: "int \<Rightarrow> JOB \<Rightarrow> jobsys \<Rightarrow> job_fault + jobsys"
  assumes run_fault: "job_target argv s = Inl e \<Longrightarrow> run argv s = Inl e"
    and run_none: "job_target argv s = Inr (None, s1) \<Longrightarrow> run argv s = Inr s1"
    and run_job: "job_target argv s = Inr (Some (i, j), s1) \<Longrightarrow> run argv s = act i j s1"
begin

lemma bad_spec:
  assumes "at (tl a) \<noteq> NUL" and "\<And>n. in_int32 n \<Longrightarrow> tl a \<noteq> show_int n"
  shows "run [nm, Some a] s = Inl JobIndex"
proof (rule run_fault)
  have "job_index_parser (tl a) = - 1" using assms(2) [of "atoi (tl a)"] by (auto simp: job_index_parser_def Let_def atoi_def)
  then show "job_target [nm, Some a] s = Inl JobIndex" using assms(1)
    by (simp add: job_target_def arg_def spec_index_def Let_def job_at_def)
qed

lemma numbered:
  assumes "0 < n" and "n < MAXJOBS" and "jobs_list s n = Live j" and "job_state j \<noteq> TERMINATED"
  shows "run [nm, Some (CHR ''%'' # show_int (int n))] s = act (int n) j s"
proof (rule run_job)
  have "in_int32 (int n)" using assms(2) by (simp add: in_int32_def MAXJOBS_def)
  then have "job_index_parser (show_int (int n)) = int n" using atoi_show [of "int n" "[]"] by (simp add: job_index_parser_def)
  moreover have "at (show_int (int n)) \<noteq> NUL" using show_int_no_space [of NUL "int n"] by (cases "show_int (int n)") (auto simp: at_def)
  ultimately show "job_target [nm, Some (CHR ''%'' # show_int (int n))] s = Inr (Some (int n, j), s)"
    using assms job_at_Live [OF assms(3,2)] by (simp add: job_target_def arg_def spec_index_def Let_def at_def)
qed

end

definition bg_act :: "int \<Rightarrow> JOB \<Rightarrow> jobsys \<Rightarrow> job_fault + jobsys" where
  "bg_act i j s = Inr (emit [Out (''['' @ show_int i @ ''] '' @ job_cmdline j), Kill (pgid j) SIGCONT, Kill (pgid j) SIGUSR1]
     (put_job (nat i) (Live (j\<lparr>job_state := RUNNING\<rparr>)) s))"

definition kill_act :: "int \<Rightarrow> JOB \<Rightarrow> jobsys \<Rightarrow> job_fault + jobsys" where
  "kill_act i j s = Inr (emit [Kill (pgid j) SIGUSR2] (put_job (nat i) (Live (j\<lparr>job_state := TERMINATED\<rparr>)) s))"

definition fg_act :: "waiting \<Rightarrow> int \<Rightarrow> JOB \<Rightarrow> jobsys \<Rightarrow> job_fault + jobsys" where
  "fg_act w i j s = wait_child w
     (emit [Tcsetpgrp (pgid j) STDIN_FILENO, Tcsetpgrp (pgid j) STDOUT_FILENO, Kill (pgid j) SIGCONT, Kill (pgid j) SIGUSR1]
       ((put_job (nat i) Freed (emit [Out (''Resumed ['' @ show_int i @ ''] '' @ job_cmdline j)] (s\<lparr>child_pid := pgid j\<rparr>)))
         \<lparr>sh_buf := job_cmdline j, jobs_n := jobs_n s - 1\<rparr>))"

interpretation bg_cmd: job_command bg bg_act
  by unfold_locales (simp_all add: bg_def bg_act_def)

interpretation kill_cmd: job_command kill_job kill_act
  by unfold_locales (simp_all add: kill_job_def kill_act_def)

interpretation fg_cmd: job_command "fg w" "fg_act w" for w
  by unfold_locales (simp_all add: fg_def fg_act_def)

lemma show_int_hd: "hd (show_int n) = CHR ''-'' \<or> isdigit (hd (show_int n))"
  using show_nat_digits [of "nat n"] hd_in_set [OF show_nat_not_Nil, of "nat n"] by (auto simp: show_int_def)

text \<open>A job specification that is not the decimal number of an \<open>int\<close> makes \<open>fg\<close>, \<open>bg\<close> and \<open>kill\<close> read the
  entry with index -1, in front of the table, in every state of the shell.\<close>

theorem shell_bad_job_spec:
  assumes "at (tl a) \<noteq> NUL" and "\<And>n. in_int32 n \<Longrightarrow> tl a \<noteq> show_int n"
  shows "fg w [nm, Some a] s = Inl JobIndex \<and> bg [nm, Some a] s = Inl JobIndex \<and> kill_job [nm, Some a] s = Inl JobIndex"
  using fg_cmd.bad_spec [OF assms] bg_cmd.bad_spec [OF assms] kill_cmd.bad_spec [OF assms] by blast

theorem shell_bad_job_spec_witness:
  "bg [Some ''bg'', Some ''%sleep''] (initialize 10 1) = Inl JobIndex \<and> kill_job [Some ''kill'', Some ''%sleep''] (initialize 10 1) = Inl JobIndex"
proof -
  have "tl ''%sleep'' \<noteq> show_int n" for n
  proof
    assume "tl ''%sleep'' = show_int n"
    then have "hd (show_int n) = CHR ''s''" by (metis list.sel(1) list.sel(3))
    with show_int_hd [of n] show False by (auto simp: isdigit_def)
  qed
  then show ?thesis using shell_bad_job_spec [of "''%sleep''" "([], True)" "Some ''bg''" "initialize 10 1"]
      shell_bad_job_spec [of "''%sleep''" "([], True)" "Some ''kill''" "initialize 10 1"] by (simp add: at_def)
qed

text \<open>A number addresses its job: \<open>bg %n\<close> makes the job with number \<open>n\<close> a running one, prints it and wakes
  its group, \<open>kill %n\<close> marks it and signals its group, no other entry changes and the table stays
  well-formed; \<open>fg %n\<close> of a job that ends without being stopped wakes the group and frees the job, but
  leaves its entry in the table, which the next collection reads.\<close>

theorem shell_job_numbers:
  assumes "jobs_ok s" and "jobs_front s \<le> n" and "n < jobs_rear s" and "jobs_list s n = Live j" and "job_state j \<noteq> TERMINATED"
  shows "(\<exists>s'. bg [nm, Some (CHR ''%'' # show_int (int n))] s = Inr s' \<and> jobs_ok s'
        \<and> jobs_list s' = (jobs_list s)(n := Live (j\<lparr>job_state := RUNNING\<rparr>))
        \<and> events s' = events s @ [Out (''['' @ show_int (int n) @ ''] '' @ job_cmdline j), Kill (pgid j) SIGCONT, Kill (pgid j) SIGUSR1])
     \<and> (\<exists>s'. kill_job [nm, Some (CHR ''%'' # show_int (int n))] s = Inr s' \<and> jobs_ok s'
        \<and> jobs_list s' = (jobs_list s)(n := Live (j\<lparr>job_state := TERMINATED\<rparr>)) \<and> events s' = events s @ [Kill (pgid j) SIGUSR2])
     \<and> (\<exists>s'. fg ([], False) [nm, Some (CHR ''%'' # show_int (int n))] s = Inr s' \<and> jobs_list s' = (jobs_list s)(n := Freed)
        \<and> child_pid s' = pgid j \<and> reap_dead_jobs s' = Inl FreedJobUse)"
proof -
  have n: "0 < n" "n < MAXJOBS" using assms(1-3) by (auto simp: jobs_ok_def)
  note B = bg_cmd.numbered [OF n assms(4,5)] and K = kill_cmd.numbered [OF n assms(4,5)] and F = fg_cmd.numbered [OF n assms(4,5)]
  have one: "\<exists>s'. bg [nm, Some (CHR ''%'' # show_int (int n))] s = Inr s' \<and> jobs_ok s'
        \<and> jobs_list s' = (jobs_list s)(n := Live (j\<lparr>job_state := RUNNING\<rparr>))
        \<and> events s' = events s @ [Out (''['' @ show_int (int n) @ ''] '' @ job_cmdline j), Kill (pgid j) SIGCONT, Kill (pgid j) SIGUSR1]"
    using jobs_ok_put [OF assms(1)] by (simp add: B bg_act_def)
  have two: "\<exists>s'. kill_job [nm, Some (CHR ''%'' # show_int (int n))] s = Inr s' \<and> jobs_ok s'
        \<and> jobs_list s' = (jobs_list s)(n := Live (j\<lparr>job_state := TERMINATED\<rparr>)) \<and> events s' = events s @ [Kill (pgid j) SIGUSR2]"
    using jobs_ok_put [OF assms(1)] by (simp add: K kill_act_def)
  have freed: "reap_loop (jobs_rear s' - jobs_front s') (jobs_front s') 0 s' = Inl FreedJobUse"
    if "jobs_list s' = (jobs_list s)(n := Freed)" "jobs_front s' = jobs_front s" "jobs_rear s' = jobs_rear s" for s'
    by (rule reap_loop_freed [where x = n]) (use that assms in \<open>auto simp: jobs_ok_def\<close>)
  have three: "\<exists>s'. fg ([], False) [nm, Some (CHR ''%'' # show_int (int n))] s = Inr s' \<and> jobs_list s' = (jobs_list s)(n := Freed)
        \<and> child_pid s' = pgid j \<and> reap_dead_jobs s' = Inl FreedJobUse"
    using freed by (simp add: F fg_act_def wait_child_def reap_dead_jobs_def)
  show ?thesis by (intro conjI one two three)
qed

theorem shell_job_numbers_witness:
  "\<exists>s'. bg [Some ''bg'', Some ''%2''] one_done = Inr s' \<and> jobs_ok s'"
proof -
  have "show_int (int 2) = ''2''" by (simp add: show_int_def show_nat.simps digit_def char_of_def bit_iff_odd)
  moreover have "jobs_front one_done \<le> 2" "2 < jobs_rear one_done" by (simp_all add: one_done_def initialize_def)
  moreover have "jobs_list one_done 2 = Live \<lparr>pgid = 200, job_state = RUNNING, job_cmdline = ''sleep 99 &''\<rparr>"
    by (simp add: one_done_def initialize_def)
  ultimately show ?thesis using shell_job_numbers [OF one_done_ok(1), of 2 _ "Some ''bg''"] by auto
qed

section \<open>A turn on a foreground pipeline\<close>

lemma no_finished_reap:
  assumes "jobs_ok s" and "finished_jobs s = []"
  shows "\<exists>s'. reap_dead_jobs s = Inr s' \<and> jobs_ok s' \<and> jobs_list s' = jobs_list s \<and> jobs_rear s' \<le> jobs_rear s
     \<and> child_pid s' = child_pid s \<and> sh_buf s' = sh_buf s \<and> (jobs_n s \<noteq> 0 \<longrightarrow> s' = s)"
  using reap_ok [OF assms(1)] assms by (auto simp: Let_def jobs_ok_def)

lemma stopped_job_ok:
  assumes "jobs_ok s" and "jobs_rear s < MAXJOBS"
  shows "\<exists>s'. stopped_job s = Inr s' \<and> jobs_ok s' \<and> jobs_rear s' = jobs_rear s + 1
     \<and> jobs_list s' = (jobs_list s)(jobs_rear s := Live \<lparr>pgid = child_pid s, job_state = SUSPENDED, job_cmdline = sh_buf s\<rparr>)"
proof -
  obtain s' where s': "insert_jobs (child_pid s) (sh_buf s) SUSPENDED s = Inr s'" "jobs_ok s'" "jobs_rear s' = jobs_rear s + 1"
    "jobs_front s' = jobs_front s"
    "jobs_list s' = (jobs_list s)(jobs_rear s := Live \<lparr>pgid = child_pid s, job_state = SUSPENDED, job_cmdline = sh_buf s\<rparr>)"
    "jobs_done s' = jobs_done s" "events s' = events s" "sh_buf s' = sh_buf s"
    by (rule insert_jobs_ok [OF assms])
  then show ?thesis by (simp add: stopped_job_def)
qed


definition stop_turn :: turn where
  "stop_turn = \<lparr>cwd = ''/'', line_sigs = [], line = ''vi a.txt'' @ [NEWLINE], stale = [], at_eof = False, junk = OK,
     chdir_ok = (\<lambda>_. True), fg_wait = ([], False), fork_pid = 77, fork_wait = ([], True)\<rparr>"


end
