(* ===== verification/Sockets.thy ===== *)
theory Sockets
  imports C_Strings
begin

text \<open>
  Opening sockets: \<open>open_clientfd\<close> and \<open>open_listenfd\<close> of \<^verbatim>\<open>csapp.c\<close>, and the servers' own \<open>open_listenfd\<close> and
  \<open>socket_close\<close> (\<^verbatim>\<open>concurrent_stockserver/event_driven/util.c\<close>, with a copy in \<^verbatim>\<open>thread_based/util.c\<close>).  What the kernel
  answers for an entry of the address list is part of the entry; the state is the descriptor table of the sockets
  and the number of address lists that are not yet freed.  \<^verbatim>\<open>close\<close> releases the descriptor whatever it returns,
  as Linux does.
\<close>

datatype sock = Fresh | Reuse | Bound nat | Listening nat | Connected nat

text \<open>An entry of the list: its address, and the results of \<^verbatim>\<open>socket\<close>, of \<^verbatim>\<open>connect\<close> or \<^verbatim>\<open>bind\<close>, and of \<^verbatim>\<open>close\<close>.\<close>

record addrinfo =
  ai_addr :: nat
  ai_socket :: int
  ai_attach :: int
  ai_close :: int

record net =
  socks :: "int \<rightharpoonup> sock"
  addr_lists :: nat

section \<open>The program\<close>

definition set_sock :: "int \<Rightarrow> sock \<Rightarrow> net \<Rightarrow> net" where
  "set_sock fd x s = s\<lparr>socks := (socks s)(fd \<mapsto> x)\<rparr>"

definition close_sock :: "int \<Rightarrow> net \<Rightarrow> net" where
  "close_sock fd s = s\<lparr>socks := (socks s)(fd := None)\<rparr>"

definition take_list :: "net \<Rightarrow> net" where
  "take_list s = s\<lparr>addr_lists := addr_lists s + 1\<rparr>"

definition freeaddrinfo :: "net \<Rightarrow> net" where
  "freeaddrinfo s = s\<lparr>addr_lists := addr_lists s - 1\<rparr>"

text \<open>The walk over the list ends with a return from within, with an entry that works, or at the end of the list.\<close>

datatype walk = Return int net | Break int net | AtEnd net

fun client_walk :: "addrinfo list \<Rightarrow> net \<Rightarrow> walk" where
  "client_walk [] s = AtEnd s"
| "client_walk (p # ps) s =
     (if ai_socket p < 0 then client_walk ps s
      else let s1 = set_sock (ai_socket p) Fresh s in
        if ai_attach p \<noteq> -1 then Break (ai_socket p) (set_sock (ai_socket p) (Connected (ai_addr p)) s1)
        else let s2 = close_sock (ai_socket p) s1 in
          if ai_close p < 0 then Return (-1) s2 else client_walk ps s2)"

text \<open>\<open>rc\<close> is the result of \<^verbatim>\<open>getaddrinfo\<close> and \<open>ps\<close> the list it delivers.\<close>

definition open_clientfd :: "int \<Rightarrow> addrinfo list \<Rightarrow> net \<Rightarrow> int \<times> net" where
  "open_clientfd rc ps s =
     (if rc \<noteq> 0 then (-2, s)
      else case client_walk ps (take_list s) of
          Return r s1 \<Rightarrow> (r, s1)
        | AtEnd s1 \<Rightarrow> (-1, freeaddrinfo s1)
        | Break clientfd s1 \<Rightarrow> (clientfd, freeaddrinfo s1))"

text \<open>\<open>chk\<close> tells whether the result of \<^verbatim>\<open>close\<close> is looked at, which the servers' copy does not do.\<close>

fun listen_walk :: "bool \<Rightarrow> addrinfo list \<Rightarrow> net \<Rightarrow> walk" where
  "listen_walk chk [] s = AtEnd s"
| "listen_walk chk (p # ps) s =
     (if ai_socket p < 0 then listen_walk chk ps s
      else let s1 = set_sock (ai_socket p) Reuse (set_sock (ai_socket p) Fresh s) in
        if ai_attach p = 0 then Break (ai_socket p) (set_sock (ai_socket p) (Bound (ai_addr p)) s1)
        else let s2 = close_sock (ai_socket p) s1 in
          if chk \<and> ai_close p < 0 then Return (-1) s2 else listen_walk chk ps s2)"

text \<open>After the walk; \<open>lrc\<close> is the result of \<^verbatim>\<open>listen\<close>.\<close>

definition start_listening :: "int \<Rightarrow> walk \<Rightarrow> int \<times> net" where
  "start_listening lrc w =
     (case w of
        Return r s1 \<Rightarrow> (r, s1)
      | AtEnd s1 \<Rightarrow> (-1, freeaddrinfo s1)
      | Break listenfd s1 \<Rightarrow>
          let s2 = freeaddrinfo s1 in
          if lrc < 0 then (-1, close_sock listenfd s2)
          else (listenfd, case socks s2 listenfd of Some (Bound a) \<Rightarrow> set_sock listenfd (Listening a) s2 | _ \<Rightarrow> s2))"

definition open_listenfd :: "int \<Rightarrow> addrinfo list \<Rightarrow> int \<Rightarrow> net \<Rightarrow> int \<times> net" where
  "open_listenfd rc ps lrc s =
     (if rc \<noteq> 0 then (-2, s) else start_listening lrc (listen_walk True ps (take_list s)))"

text \<open>The servers' copy does not look at the result of \<^verbatim>\<open>getaddrinfo\<close> either: when the lookup fails it walks
  along an uninitialised pointer, which is \<open>None\<close>.  The text is what it prints.\<close>

definition srv_open_listenfd :: "string \<Rightarrow> int \<Rightarrow> addrinfo list \<Rightarrow> int \<Rightarrow> net \<Rightarrow> (int \<times> string \<times> net) option" where
  "srv_open_listenfd port rc ps lrc s =
     (if rc \<noteq> 0 then None
      else case start_listening lrc (listen_walk False ps (take_list s)) of
          (fd, s1) \<Rightarrow> Some (fd, if fd < 0 then [] else ''Server running on '' @ port @ [NEWLINE], s1))"

text \<open>\<open>None\<close> is the exit of \<^verbatim>\<open>unix_error\<close>.\<close>

definition Open_clientfd :: "int \<Rightarrow> addrinfo list \<Rightarrow> net \<Rightarrow> (int \<times> net) option" where
  "Open_clientfd rc ps s = (case open_clientfd rc ps s of (r, s') \<Rightarrow> if r < 0 then None else Some (r, s'))"

definition Open_listenfd :: "int \<Rightarrow> addrinfo list \<Rightarrow> int \<Rightarrow> net \<Rightarrow> (int \<times> net) option" where
  "Open_listenfd rc ps lrc s = (case open_listenfd rc ps lrc s of (r, s') \<Rightarrow> if r < 0 then None else Some (r, s'))"

definition socket_close :: "int \<Rightarrow> int \<Rightarrow> net \<Rightarrow> int \<times> string \<times> net" where
  "socket_close st connfd s =
     (st, (if st < 0 then ''Connection Closed failed'' else ''Connection Closed'') @ [NEWLINE], close_sock connfd s)"

section \<open>What they leave behind\<close>

text \<open>What the kernel promises: a descriptor that \<^verbatim>\<open>socket\<close> returns is not open.\<close>

definition fresh_fds :: "addrinfo list \<Rightarrow> net \<Rightarrow> bool" where
  "fresh_fds ps s \<longleftrightarrow> list_all (\<lambda>p. 0 \<le> ai_socket p \<longrightarrow> socks s (ai_socket p) = None) ps"

definition works :: "(int \<Rightarrow> bool) \<Rightarrow> addrinfo \<Rightarrow> bool" where
  "works ok p \<longleftrightarrow> 0 \<le> ai_socket p \<and> ok (ai_attach p)"

text \<open>The entry at which the walk stops: the first that works, unless an earlier \<^verbatim>\<open>close\<close> fails and is looked at.\<close>

fun chosen :: "(int \<Rightarrow> bool) \<Rightarrow> bool \<Rightarrow> addrinfo list \<Rightarrow> addrinfo option option" where
  "chosen ok chk [] = Some None"
| "chosen ok chk (p # ps) =
     (if works ok p then Some (Some p)
      else if chk \<and> 0 \<le> ai_socket p \<and> ai_close p < 0 then None else chosen ok chk ps)"

lemma close_fresh: "socks s fd = None \<Longrightarrow> close_sock fd (set_sock fd x s) = s"
  by (simp add: close_sock_def set_sock_def fun_upd_idem)

lemma set_sock_again [simp]: "set_sock fd x (set_sock fd y s) = set_sock fd x s"
  by (simp add: set_sock_def)

lemma fresh_fds_Cons [simp]:
  "fresh_fds (p # ps) s \<longleftrightarrow> (0 \<le> ai_socket p \<longrightarrow> socks s (ai_socket p) = None) \<and> fresh_fds ps s"
  by (simp add: fresh_fds_def)

lemma fresh_fds_lists [simp]: "fresh_fds ps (take_list s) = fresh_fds ps s"
  by (simp add: fresh_fds_def take_list_def)

lemma client_walk_chosen:
  "fresh_fds ps s \<Longrightarrow> client_walk ps s =
     (case chosen (\<lambda>r. r \<noteq> -1) True ps of
        None \<Rightarrow> Return (-1) s
      | Some None \<Rightarrow> AtEnd s
      | Some (Some p) \<Rightarrow> Break (ai_socket p) (set_sock (ai_socket p) (Connected (ai_addr p)) s))"
  by (induction ps) (auto simp: Let_def works_def close_fresh)

lemma listen_walk_chosen:
  "fresh_fds ps s \<Longrightarrow> listen_walk chk ps s =
     (case chosen (\<lambda>r. r = 0) chk ps of
        None \<Rightarrow> Return (-1) s
      | Some None \<Rightarrow> AtEnd s
      | Some (Some p) \<Rightarrow> Break (ai_socket p) (set_sock (ai_socket p) (Bound (ai_addr p)) s))"
  by (induction ps) (auto simp: Let_def works_def close_fresh)

lemma chosen_works: "chosen ok chk ps = Some (Some p) \<Longrightarrow> p \<in> set ps \<and> works ok p"
  by (induction ps) (auto split: if_splits)

lemma chosen_unchecked: "chosen ok False ps = Some (find (works ok) ps)"
  by (induction ps) auto

lemma free_take [simp]: "freeaddrinfo (take_list s) = s"
  by (simp add: freeaddrinfo_def take_list_def)

lemma free_set_take [simp]: "freeaddrinfo (set_sock fd x (take_list s)) = set_sock fd x s"
  by (simp add: freeaddrinfo_def take_list_def set_sock_def)

lemma socks_set_sock [simp]: "socks (set_sock fd x s) fd = Some x"
  by (simp add: set_sock_def)

section \<open>Properties\<close>

text \<open>The servers listen on the first address of the list that a socket can be bound to; when there is none, or
  \<^verbatim>\<open>listen\<close> fails, the result is -1 and no descriptor stays open.\<close>

theorem srv_open_listenfd_first:
  assumes "fresh_fds ps s"
  shows "srv_open_listenfd port 0 ps lrc s = Some
     (case find (works (\<lambda>r. r = 0)) ps of
        None \<Rightarrow> (-1, [], s)
      | Some p \<Rightarrow> if lrc < 0 then (-1, [], s)
          else (ai_socket p, ''Server running on '' @ port @ [NEWLINE], set_sock (ai_socket p) (Listening (ai_addr p)) s))"
proof (cases "find (works (\<lambda>r. r = 0)) ps")
  case None
  then show ?thesis using assms
    by (simp add: srv_open_listenfd_def listen_walk_chosen chosen_unchecked start_listening_def)
next
  case (Some p)
  then have "p \<in> set ps" "0 \<le> ai_socket p" by (auto simp: find_Some_iff works_def)
  then have "socks s (ai_socket p) = None" "0 \<le> ai_socket p" using assms by (auto simp: fresh_fds_def list_all_iff)
  with Some show ?thesis using assms
    by (simp add: srv_open_listenfd_def listen_walk_chosen chosen_unchecked start_listening_def close_fresh Let_def)
qed

text \<open>The same for the two functions of \<^verbatim>\<open>csapp.c\<close>, which look at the result of \<^verbatim>\<open>close\<close>: when it fails they
  return at once, and the address list is never freed.\<close>

theorem open_clientfd_first:
  assumes "fresh_fds ps s"
  shows "open_clientfd 0 ps s =
     (case chosen (\<lambda>r. r \<noteq> -1) True ps of
        None \<Rightarrow> (-1, take_list s)
      | Some None \<Rightarrow> (-1, s)
      | Some (Some p) \<Rightarrow> (ai_socket p, set_sock (ai_socket p) (Connected (ai_addr p)) s))"
  using assms by (simp add: open_clientfd_def client_walk_chosen split: option.split)

theorem open_listenfd_first:
  assumes "fresh_fds ps s"
  shows "open_listenfd 0 ps lrc s =
     (case chosen (\<lambda>r. r = 0) True ps of
        None \<Rightarrow> (-1, take_list s)
      | Some None \<Rightarrow> (-1, s)
      | Some (Some p) \<Rightarrow> if lrc < 0 then (-1, s) else (ai_socket p, set_sock (ai_socket p) (Listening (ai_addr p)) s))"
proof (cases "chosen (\<lambda>r. r = 0) True ps")
  case None
  then show ?thesis using assms by (simp add: open_listenfd_def listen_walk_chosen start_listening_def)
next
  case (Some q)
  have "socks s (ai_socket p) = None" if "q = Some p" for p
    using chosen_works [of _ True ps p] Some that assms by (auto simp: fresh_fds_def list_all_iff works_def)
  with Some show ?thesis using assms
    by (cases q) (simp_all add: open_listenfd_def listen_walk_chosen start_listening_def close_fresh Let_def)
qed

text \<open>The descriptors that \<open>Open_clientfd\<close> and \<open>Open_listenfd\<close> return are new, in the state the caller needs, and the
  only change of the table; no address list is lost.\<close>

corollary Open_fd_ready:
  assumes "fresh_fds ps s"
  shows "Open_clientfd rc ps s = Some (fd, s') \<Longrightarrow> socks s fd = None \<and> (\<exists>a. s' = set_sock fd (Connected a) s)"
    and "Open_listenfd rc ps lrc s = Some (fd, s') \<Longrightarrow> socks s fd = None \<and> (\<exists>a. s' = set_sock fd (Listening a) s)"
proof -
  have new: "socks s (ai_socket p) = None" if "chosen ok True ps = Some (Some p)" for ok p
    using chosen_works [OF that] assms by (auto simp: fresh_fds_def list_all_iff works_def)
  have rc: "rc = 0" if "Open_clientfd rc ps s = Some (fd, s') \<or> Open_listenfd rc ps lrc s = Some (fd, s')"
    using that by (cases "rc = 0") (auto simp: Open_clientfd_def Open_listenfd_def open_clientfd_def open_listenfd_def)
  show "socks s fd = None \<and> (\<exists>a. s' = set_sock fd (Connected a) s)" if "Open_clientfd rc ps s = Some (fd, s')"
    using that rc new open_clientfd_first [OF assms]
    by (auto simp: Open_clientfd_def split: option.splits if_splits)
  show "socks s fd = None \<and> (\<exists>a. s' = set_sock fd (Listening a) s)" if "Open_listenfd rc ps lrc s = Some (fd, s')"
    using that rc new open_listenfd_first [OF assms, of lrc]
    by (auto simp: Open_listenfd_def split: option.splits if_splits)
qed

text \<open>A port whose lookup fails makes the server walk along an uninitialised pointer; \<open>open_listenfd\<close> of
  \<^verbatim>\<open>csapp.c\<close> returns -2.\<close>

lemma srv_lookup_unchecked: "rc \<noteq> 0 \<Longrightarrow> srv_open_listenfd port rc ps lrc s = None \<and> fst (open_listenfd rc ps lrc s) = -2"
  by (simp add: srv_open_listenfd_def open_listenfd_def)

end
