(* ===== verification/Tiny.thy ===== *)
theory Tiny
  imports Rio
begin

text \<open>
  The iterative web server and its addition program (\<^verbatim>\<open>excode/11NetworkProgramming/tiny.c\<close> and \<^verbatim>\<open>adder.c\<close>): reading a
  request over the buffered reader, choosing the file or program, and the response.  The file system, and whether the
  owner may read or run a file, are arguments; so are the contents of uninitialised buffers.  A child that runs a
  program is an output of its own.
\<close>

definition TINY_MAXLINE :: nat where "TINY_MAXLINE = 8192"

definition CRLF :: string where "CRLF = [CHR 0x0D, NEWLINE]"

section \<open>The program\<close>

text \<open>\<^verbatim>\<open>strstr\<close>, as a test.\<close>

fun strstr :: "string \<Rightarrow> string \<Rightarrow> bool" where
  "strstr [] n = (n = [])"
| "strstr (c # s) n = (take (length n) (c # s) = n \<or> strstr s n)"

definition get_filetype :: "string \<Rightarrow> string" where
  "get_filetype filename =
     (if strstr filename ''html'' then ''text/html''
      else if strstr filename ''.gif'' then ''image/gif''
      else if strstr filename ''.png'' then ''image/png''
      else if strstr filename ''.jpg'' then ''image/jpeg''
      else ''text/plain'')"

text \<open>Whether the request is for a file, its name, and the arguments of a program.  \<open>None\<close> is a name that does not
  fit into its buffer, or the read in front of an empty one.\<close>

definition parse_uri :: "string \<Rightarrow> (bool \<times> string \<times> string) option" where
  "parse_uri uri =
     (let r = (if \<not> strstr uri ''cgi-bin'' then
                 if uri = [] then None
                 else Some (True, ''.'' @ uri @ (if last uri = CHR ''/'' then ''home.html'' else []), [])
               else
                 Some (False, ''.'' @ takeWhile (\<lambda>c. c \<noteq> CHR ''?'') uri, tl (dropWhile (\<lambda>c. c \<noteq> CHR ''?'') uri)))
      in case r of None \<Rightarrow> None | Some (st, filename, cgiargs) \<Rightarrow> if length filename < TINY_MAXLINE then r else None)"

datatype hdrs = HdrsRead rio "rd list" | HdrsExit

text \<open>The rest of the headers: \<open>buf\<close> is the last line read, which a read at the end of the input leaves alone.\<close>

partial_function (option) requesthdrs_loop :: "string \<Rightarrow> rio \<Rightarrow> rd list \<Rightarrow> hdrs option" where
  "requesthdrs_loop buf rp rs =
     (if c_str buf = CRLF then Some (HdrsRead rp rs)
      else case rio_readlineb rp TINY_MAXLINE rs of
          (rc, l, rp', rs') \<Rightarrow>
            if rc < 0 then Some HdrsExit else requesthdrs_loop (if rc = 0 then buf else l) rp' rs')"

definition read_requesthdrs :: "string \<Rightarrow> rio \<Rightarrow> rd list \<Rightarrow> hdrs option" where
  "read_requesthdrs junk rp rs =
     (case rio_readlineb rp TINY_MAXLINE rs of
        (rc, l, rp', rs') \<Rightarrow> if rc < 0 then Some HdrsExit else requesthdrs_loop (if rc = 0 then junk else l) rp' rs')"

text \<open>What goes to the client: text, and what a program prints that is given a query string.\<close>

datatype sent = Text string | Program string string

text \<open>What becomes of a request: a response, the exit of the server after what it had sent, or undefined
  behaviour.  A buffer that is printed onto itself with a suffix grows by the suffix.\<close>

datatype served = Response "sent list" | ServerExit "sent list" | TinyUndefined

text \<open>The third format of the body has three conversions and no argument; \<open>j\<close> is what they print.  A body that does
  not fit into its buffer is undefined.\<close>

definition clienterror :: "string \<times> string \<times> string \<Rightarrow> string \<Rightarrow> string \<Rightarrow> string \<Rightarrow> string \<Rightarrow> served" where
  "clienterror j cause errnum shortmsg longmsg =
     (let body3 = fst j @ fst (snd j) @ '': '' @ snd (snd j) @ CRLF;
          body4 = body3 @ ''<p>'' @ longmsg @ '': '' @ cause @ CRLF;
          body5 = body4 @ ''<hr><em>The Tiny Web Server </em>'' @ CRLF
      in if TINY_MAXLINE \<le> length body5 then TinyUndefined
         else Response
         [Text (''HTTP/1.0 '' @ errnum @ '' '' @ shortmsg @ CRLF),
          Text (''Content-type: text/html'' @ CRLF),
          Text (''Content-length: '' @ show_nat (length body5) @ CRLF @ CRLF),
          Text body5])"

text \<open>A file is mapped into memory, which fails for an empty one; \<^verbatim>\<open>Mmap\<close> then exits.\<close>

definition serve_static :: "string \<Rightarrow> string \<Rightarrow> served" where
  "serve_static filename contents =
     (let header = Text (''HTTP/1.0 200OK'' @ CRLF @ ''Server: Tiny Web Server'' @ CRLF @ ''Connection: close'' @ CRLF
            @ ''Content-type: '' @ get_filetype filename @ CRLF @ CRLF)
      in if contents = [] then ServerExit [header] else Response [header, Text contents])"

definition serve_dynamic :: "string \<Rightarrow> string \<Rightarrow> served" where
  "serve_dynamic filename cgiargs =
     Response [Text (''HTTP/1.0 200 OK'' @ CRLF), Text (''Server: Tiny Web Server'' @ CRLF), Program filename cgiargs]"

record tfile =
  st_reg :: bool
  st_rusr :: bool
  st_xusr :: bool
  st_data :: string

definition to_lower :: "char \<Rightarrow> char" where
  "to_lower c = (if 65 \<le> (of_char c :: nat) \<and> of_char c \<le> (90 :: nat) then char_of (of_char c + 32 :: nat) else c)"

text \<open>The part of \<open>doit\<close> behind the headers.\<close>

definition respond :: "(string \<rightharpoonup> tfile) \<Rightarrow> string \<times> string \<times> string \<Rightarrow> string \<Rightarrow> served" where
  "respond files j uri =
     (case parse_uri uri of
        None \<Rightarrow> TinyUndefined
      | Some (is_static, filename, cgiargs) \<Rightarrow>
          (case files filename of
             None \<Rightarrow> clienterror j filename ''404'' ''Not found'' ''Tiny couldnt find this file''
           | Some f \<Rightarrow>
               if is_static then
                 if \<not> st_reg f \<or> \<not> st_rusr f
                 then clienterror j filename ''403'' ''Forbidden'' ''Tiny couldnt read the file''
                 else serve_static filename (st_data f)
               else
                 if \<not> st_reg f \<or> \<not> st_xusr f
                 then clienterror j filename ''403'' ''Forbidden'' (''Tiny couldn'' @ [CHR 0x27] @ ''t run the CGI program'')
                 else serve_dynamic filename cgiargs))"

text \<open>The words of the request line are scanned with \<^verbatim>\<open>sscanf\<close>; a missing one leaves its buffer uninitialised.
  The outer \<open>None\<close> is a request that is never answered.\<close>

definition doit :: "(string \<rightharpoonup> tfile) \<Rightarrow> string \<times> string \<times> string \<Rightarrow> string \<Rightarrow> rio \<Rightarrow> int \<Rightarrow> rd list \<Rightarrow> served option" where
  "doit files j junk rp0 fd rs =
     (case rio_readlineb (rio_readinitb rp0 fd) TINY_MAXLINE rs of
        (rc, l, rp, rs1) \<Rightarrow>
          if rc < 0 then Some (ServerExit [])
          else if rc = 0 then Some TinyUndefined
          else case scan_word (c_str l) of
              None \<Rightarrow> Some TinyUndefined
            | Some (mthd, rest) \<Rightarrow>
                if map to_lower mthd \<noteq> ''get''
                then Some (clienterror j mthd ''501'' ''Not implemented'' ''Tiny does not implement this method'')
                else (case read_requesthdrs junk rp rs1 of
                    None \<Rightarrow> None
                  | Some HdrsExit \<Rightarrow> Some (ServerExit [])
                  | Some (HdrsRead rp2 rs2) \<Rightarrow>
                      (case scan_word rest of None \<Rightarrow> Some TinyUndefined | Some (uri, _) \<Rightarrow> Some (respond files j uri))))"

text \<open>The addition program: \<open>None\<close> where it stores through the null pointer that a query without an ampersand
  gives, or prints a missing query.\<close>

definition adder_content :: "int \<Rightarrow> int \<Rightarrow> string" where
  "adder_content n1 n2 =
     ''Welcome to add.com : '' @ ''The Internet addition portal.'' @ CRLF @ ''<p>'' @ ''The answer is '' @ show_int n1 @ '' + '' @ show_int n2
     @ '' = '' @ show_int (int32 (n1 + n2)) @ CRLF @ ''<p>'' @ ''Thanks for visiting!'' @ CRLF"

definition adder :: "string option \<Rightarrow> string option" where
  "adder query =
     (case query of
        None \<Rightarrow> None
      | Some buf \<Rightarrow>
          if CHR ''&'' \<notin> set buf then None
          else let content = adder_content (atoi (takeWhile (\<lambda>c. c \<noteq> CHR ''&'') buf)) (atoi (tl (dropWhile (\<lambda>c. c \<noteq> CHR ''&'') buf)))
            in Some (''Connection : close'' @ CRLF @ ''Content-length : '' @ show_nat (length content) @ CRLF
                 @ ''Content-type : text/html'' @ CRLF @ CRLF @ content))"

section \<open>Reading a request\<close>

lemma strstr_iff: "strstr s n \<longleftrightarrow> (\<exists>a b. s = a @ n @ b)"
proof (induction s)
  case (Cons c s)
  have "take (length n) (c # s) = n \<longleftrightarrow> (\<exists>b. c # s = n @ b)" by (metis append_eq_conv_conj append_take_drop_id)
  moreover have "(\<exists>a b. c # s = a @ n @ b) \<longleftrightarrow> (\<exists>b. c # s = n @ b) \<or> (\<exists>a b. s = a @ n @ b)"
    by (metis append_Cons append_Nil append_eq_Cons_conv)
  ultimately show ?case using Cons by simp
qed simp

lemma split_at_first:
  assumes "c \<notin> set xs"
  shows "takeWhile (\<lambda>x. x \<noteq> c) (xs @ c # ys) = xs" "dropWhile (\<lambda>x. x \<noteq> c) (xs @ c # ys) = c # ys"
  using assms by (induction xs) auto

text \<open>A header line on the wire, and the text of a request.\<close>

definition header_line :: "string \<Rightarrow> bool" where
  "header_line h \<longleftrightarrow> h \<noteq> [] \<and> NEWLINE \<notin> set h \<and> NUL \<notin> set h \<and> length h + 2 < TINY_MAXLINE"

definition header_text :: "string list \<Rightarrow> string" where
  "header_text hs = concat (map (\<lambda>h. h @ CRLF) hs) @ CRLF"

lemma c_str_id: "NUL \<notin> set s \<Longrightarrow> c_str s = s"
  by (auto simp: c_str_def takeWhile_eq_all_conv)

lemma tiny_readline:
  assumes "rio_ok rp" "clean rs" and a: "avail rp rs = h @ CRLF @ rest" and "NEWLINE \<notin> set h" "length h + 2 < TINY_MAXLINE"
  obtains rp' rs' where "rio_readlineb rp TINY_MAXLINE rs = (int (length h + 2), h @ CRLF, rp', rs')"
    "rio_ok rp'" "clean rs'" "avail rp' rs' = rest"
proof -
  have "line_of (TINY_MAXLINE - 1) (avail rp rs) = h @ CRLF"
    using line_of_exact [of "h @ [CHR 0x0D]" "TINY_MAXLINE - 1" rest] assms(4,5) unfolding a by (simp add: CRLF_def)
  then show thesis using rio_readlineb_spec [OF assms(1,2), of TINY_MAXLINE] that a by (auto simp: CRLF_def)
qed

text \<open>The headers are read to the empty line, whatever pieces they arrive in.\<close>

lemma requesthdrs_loop_reads:
  assumes "rio_ok rp" "clean rs" "avail rp rs = header_text hs @ rest" "list_all header_line hs" "c_str buf \<noteq> CRLF"
  shows "\<exists>rp' rs'. requesthdrs_loop buf rp rs = Some (HdrsRead rp' rs') \<and> rio_ok rp' \<and> clean rs' \<and> avail rp' rs' = rest"
  using assms
proof (induction hs arbitrary: buf rp rs)
  case Nil
  obtain rp' rs' where R: "rio_readlineb rp TINY_MAXLINE rs = (int (length ([] :: string) + 2), [] @ CRLF, rp', rs')"
    "rio_ok rp'" "clean rs'" "avail rp' rs' = rest"
    by (rule tiny_readline [OF Nil.prems(1,2), of "[]" rest]) (use Nil.prems(3) in \<open>auto simp: header_text_def TINY_MAXLINE_def\<close>)
  have "c_str CRLF = CRLF" by (simp add: CRLF_def c_str_def)
  then have "requesthdrs_loop CRLF rp' rs' = Some (HdrsRead rp' rs')" by (subst requesthdrs_loop.simps) simp
  then show ?case using R Nil.prems(5) by (subst requesthdrs_loop.simps) simp
next
  case (Cons h hs)
  have h: "h \<noteq> []" "NEWLINE \<notin> set h" "NUL \<notin> set h" "length h + 2 < TINY_MAXLINE" using Cons.prems(4) by (auto simp: header_line_def)
  obtain rp' rs' where R: "rio_readlineb rp TINY_MAXLINE rs = (int (length h + 2), h @ CRLF, rp', rs')"
    "rio_ok rp'" "clean rs'" "avail rp' rs' = header_text hs @ rest"
    by (rule tiny_readline [OF Cons.prems(1,2) _ h(2,4)]) (use Cons.prems(3) in \<open>auto simp: header_text_def\<close>)
  have "c_str (h @ CRLF) \<noteq> CRLF" using c_str_id [of "h @ CRLF"] h(1,3) by (auto simp: CRLF_def)
  then show ?case using Cons.IH [OF R(2-4)] Cons.prems(4,5) R(1) by (subst requesthdrs_loop.simps) simp
qed

text \<open>A client that closes the connection before the empty line makes the server read for ever.\<close>

lemma requesthdrs_loop_stuck:
  assumes "rio_ok rp" "clean rs" "avail rp rs = []" "c_str buf \<noteq> CRLF"
  shows "requesthdrs_loop buf rp rs = None"
proof -
  have "rio_ok rp \<longrightarrow> clean rs \<longrightarrow> avail rp rs = [] \<longrightarrow> c_str buf = CRLF" if "requesthdrs_loop buf rp rs = Some r" for r
  proof (rule requesthdrs_loop.raw_induct [OF _ that], intro impI)
    fix loop buf rp rs y
    assume IH: "\<And>buf rp rs y. loop buf rp rs = Some y \<Longrightarrow> rio_ok rp \<longrightarrow> clean rs \<longrightarrow> avail rp rs = [] \<longrightarrow> c_str buf = CRLF"
      and S: "(if c_str buf = CRLF then Some (HdrsRead rp rs)
        else case rio_readlineb rp TINY_MAXLINE rs of (rc, l, rp', rs') \<Rightarrow>
          if rc < 0 then Some HdrsExit else loop (if rc = 0 then buf else l) rp' rs') = Some y"
      and A: "rio_ok rp" "clean rs" "avail rp rs = []"
    from rio_readlineb_spec [OF A(1,2), of TINY_MAXLINE] A(3) obtain rp' rs' where
      R: "rio_readlineb rp TINY_MAXLINE rs = (0, [], rp', rs')" "rio_ok rp'" "clean rs'" "avail rp' rs' = []" by auto
    show "c_str buf = CRLF"
    proof (rule ccontr)
      assume "c_str buf \<noteq> CRLF"
      then have "loop buf rp' rs' = Some y" using S R(1) by simp
      then show False using IH R(2-4) \<open>c_str buf \<noteq> CRLF\<close> by blast
    qed
  qed
  then show ?thesis using assms by (cases "requesthdrs_loop buf rp rs") auto
qed

lemma read_requesthdrs_reads:
  assumes "rio_ok rp" "clean rs" "avail rp rs = header_text hs @ rest" "list_all header_line hs"
  shows "\<exists>rp' rs'. read_requesthdrs junk rp rs = Some (HdrsRead rp' rs') \<and> avail rp' rs' = rest"
proof -
  have "c_str [] \<noteq> CRLF" by (simp add: c_str_def CRLF_def)
  obtain rp' rs' where L: "requesthdrs_loop [] rp rs = Some (HdrsRead rp' rs')" "avail rp' rs' = rest"
    using requesthdrs_loop_reads [OF assms \<open>c_str [] \<noteq> CRLF\<close>] by blast
  let ?l = "line_of (TINY_MAXLINE - 1) (avail rp rs)"
  have "avail rp rs \<noteq> []" using assms(3) by (simp add: header_text_def CRLF_def)
  then have "?l \<noteq> []" by (cases "avail rp rs") (simp_all add: TINY_MAXLINE_def numeral_eq_Suc)
  moreover obtain rp1 rs1 where "rio_readlineb rp TINY_MAXLINE rs = (int (length ?l), ?l, rp1, rs1)"
    using rio_readlineb_spec [OF assms(1,2), of TINY_MAXLINE] by blast
  ultimately have "read_requesthdrs junk rp rs = requesthdrs_loop [] rp rs"
    using \<open>c_str [] \<noteq> CRLF\<close> by (subst requesthdrs_loop.simps) (simp add: read_requesthdrs_def)
  then show ?thesis using L by simp
qed

section \<open>Properties\<close>

definition plain_uri :: "string \<Rightarrow> bool" where
  "plain_uri uri \<longleftrightarrow> uri \<noteq> [] \<and> list_all (\<lambda>c. \<not> isspace c \<and> c \<noteq> NUL) uri \<and> length uri + 15 < TINY_MAXLINE"

text \<open>The request line of such a request, and what \<open>doit\<close> does once it has read it.\<close>

definition request_line :: "string \<Rightarrow> string" where
  "request_line uri = ''GET '' @ uri @ '' HTTP/1.0''"

lemma request_line_words:
  assumes "plain_uri uri"
  shows "scan_word (request_line uri @ CRLF) = Some (''GET'', CHR '' '' # uri @ CHR '' '' # ''HTTP/1.0'' @ CRLF)"
    and "scan_word (CHR '' '' # uri @ CHR '' '' # ''HTTP/1.0'' @ CRLF) = Some (uri, CHR '' '' # ''HTTP/1.0'' @ CRLF)"
proof -
  have sp: "isspace (CHR '' '')" by (simp add: isspace_def)
  have "request_line uri @ CRLF = ''GET'' @ CHR '' '' # uri @ CHR '' '' # ''HTTP/1.0'' @ CRLF" by (simp add: request_line_def)
  then show "scan_word (request_line uri @ CRLF) = Some (''GET'', CHR '' '' # uri @ CHR '' '' # ''HTTP/1.0'' @ CRLF)"
    using scan_word_append [of "''GET''" "CHR '' ''"] sp by (simp add: isspace_def)
  show "scan_word (CHR '' '' # uri @ CHR '' '' # ''HTTP/1.0'' @ CRLF) = Some (uri, CHR '' '' # ''HTTP/1.0'' @ CRLF)"
    unfolding scan_word_blank [OF sp] by (rule scan_word_append) (use assms sp in \<open>auto simp: plain_uri_def list_all_iff\<close>)
qed

lemma request_line_plain:
  assumes "plain_uri uri"
  shows "NEWLINE \<notin> set (request_line uri)" "NUL \<notin> set (request_line uri)" "length (request_line uri) + 2 < TINY_MAXLINE"
proof -
  have "isspace NEWLINE" by (simp add: isspace_def)
  then show "NEWLINE \<notin> set (request_line uri)" using assms by (auto simp: plain_uri_def list_all_iff request_line_def)
  show "NUL \<notin> set (request_line uri)" using assms by (auto simp: plain_uri_def list_all_iff request_line_def)
  show "length (request_line uri) + 2 < TINY_MAXLINE" using assms by (simp add: plain_uri_def request_line_def)
qed

lemma doit_get:
  assumes "clean rs" and "stream rs = request_line uri @ CRLF @ rest" and "plain_uri uri"
  obtains rp1 rs1 where "rio_ok rp1" "clean rs1" "avail rp1 rs1 = rest"
    "doit files j junk rp0 fd rs = (case read_requesthdrs junk rp1 rs1 of
        None \<Rightarrow> None
      | Some HdrsExit \<Rightarrow> Some (ServerExit [])
      | Some (HdrsRead rp2 rs2) \<Rightarrow> Some (respond files j uri))"
proof -
  note u = request_line_plain [OF assms(3)]
  obtain rp1 rs1 where R: "rio_readlineb (rio_readinitb rp0 fd) TINY_MAXLINE rs = (int (length (request_line uri) + 2), request_line uri @ CRLF, rp1, rs1)"
    "rio_ok rp1" "clean rs1" "avail rp1 rs1 = rest"
    by (rule tiny_readline [OF rio_ok_init(1) assms(1) _ u(1,3)]) (use assms(2) in \<open>auto simp: avail_def\<close>)
  have "c_str (request_line uri @ CRLF) = request_line uri @ CRLF" by (rule c_str_id) (use u(2) in \<open>auto simp: CRLF_def\<close>)
  then have w: "scan_word (c_str (request_line uri @ CRLF)) = Some (''GET'', CHR '' '' # uri @ CHR '' '' # ''HTTP/1.0'' @ CRLF)"
    using request_line_words(1) [OF assms(3)] by simp
  have g: "map to_lower ''GET'' = ''get''" by code_simp
  have n: "\<not> int (length (request_line uri) + 2) < 0" "int (length (request_line uri) + 2) \<noteq> 0" by simp_all
  show thesis
    by (rule that [OF R(2-4)])
       (simp only: doit_def R(1) prod.case n if_False w option.case g request_line_words(2) [OF assms(3)] not_True_eq_False simp_thms)
qed

text \<open>A complete request for a plain address is answered as \<open>respond\<close> says, whatever pieces it arrives in and whatever
  headers it has.\<close>

theorem tiny_get_answered:
  assumes "clean rs" and "stream rs = request_line uri @ CRLF @ header_text hs @ rest" and "plain_uri uri" and "list_all header_line hs"
  shows "doit files j junk rp0 fd rs = Some (respond files j uri)"
proof -
  obtain rp1 rs1 where R: "rio_ok rp1" "clean rs1" "avail rp1 rs1 = header_text hs @ rest"
    "doit files j junk rp0 fd rs = (case read_requesthdrs junk rp1 rs1 of None \<Rightarrow> None | Some HdrsExit \<Rightarrow> Some (ServerExit [])
      | Some (HdrsRead rp2 rs2) \<Rightarrow> Some (respond files j uri))"
    by (rule doit_get [OF assms(1,2,3)])
  then show ?thesis using read_requesthdrs_reads [OF R(1-3) assms(4), of junk] by auto
qed

text \<open>The three ways a request for a file ends, and the program named by one for a program.\<close>

lemma respond_static:
  assumes "\<not> strstr uri ''cgi-bin''" "uri \<noteq> []" "last uri \<noteq> CHR ''/''" "length uri + 1 < TINY_MAXLINE"
  shows "respond files j uri =
     (case files (''.'' @ uri) of
        None \<Rightarrow> clienterror j (''.'' @ uri) ''404'' ''Not found'' ''Tiny couldnt find this file''
      | Some f \<Rightarrow> if st_reg f \<and> st_rusr f then serve_static (''.'' @ uri) (st_data f)
                  else clienterror j (''.'' @ uri) ''403'' ''Forbidden'' ''Tiny couldnt read the file'')"
  using assms by (auto simp: respond_def parse_uri_def split: option.split)

lemma respond_program:
  assumes "strstr prog ''cgi-bin''" "CHR ''?'' \<notin> set prog" "length prog + 1 < TINY_MAXLINE"
    and "files (''.'' @ prog) = Some f" "st_reg f" "st_xusr f"
  shows "respond files j (prog @ CHR ''?'' # args) =
    Response [Text (''HTTP/1.0 200 OK'' @ CRLF), Text (''Server: Tiny Web Server'' @ CRLF), Program (''.'' @ prog) args]"
proof -
  have "strstr (prog @ CHR ''?'' # args) ''cgi-bin''" using assms(1) unfolding strstr_iff by (metis append.assoc)
  then show ?thesis using assms(3-) by (simp add: respond_def parse_uri_def serve_dynamic_def split_at_first [OF assms(2)])
qed

text \<open>The length that an error page announces is the length of its body.\<close>

lemma clienterror_length:
  assumes "clienterror j cause errnum shortmsg longmsg = Response outs"
  shows "\<exists>body. outs = [Text (''HTTP/1.0 '' @ errnum @ '' '' @ shortmsg @ CRLF), Text (''Content-type: text/html'' @ CRLF),
      Text (''Content-length: '' @ show_nat (length body) @ CRLF @ CRLF), Text body] \<and> length body < TINY_MAXLINE"
  using assms by (auto simp: clienterror_def Let_def split: if_splits)

text \<open>A request line whose client then closes the connection is never answered.\<close>

theorem tiny_hangs_on_close:
  assumes "clean rs" and "stream rs = request_line uri @ CRLF" and "plain_uri uri" and "c_str junk \<noteq> CRLF"
  shows "doit files j junk rp0 fd rs = None"
proof -
  have "stream rs = request_line uri @ CRLF @ []" using assms(2) by simp
  then obtain rp1 rs1 where R: "rio_ok rp1" "clean rs1" "avail rp1 rs1 = []"
    "doit files j junk rp0 fd rs = (case read_requesthdrs junk rp1 rs1 of None \<Rightarrow> None | Some HdrsExit \<Rightarrow> Some (ServerExit [])
      | Some (HdrsRead rp2 rs2) \<Rightarrow> Some (respond files j uri))"
    by (rule doit_get [OF assms(1) _ assms(3)])
  obtain rp2 rs2 where "rio_readlineb rp1 TINY_MAXLINE rs1 = (0, [], rp2, rs2)" "rio_ok rp2" "clean rs2" "avail rp2 rs2 = []"
    using rio_readlineb_spec [OF R(1,2), of TINY_MAXLINE] R(3) by auto
  then have "read_requesthdrs junk rp1 rs1 = None" using requesthdrs_loop_stuck assms(4) by (simp add: read_requesthdrs_def)
  then show ?thesis by (simp add: R(4))
qed

text \<open>The addition program prints the sum of the two numbers of its query, with the length of its page.\<close>

lemma adder_sum:
  assumes "in_int32 a" "in_int32 b"
  shows "adder (Some (show_int a @ CHR ''&'' # show_int b)) = Some (''Connection : close'' @ CRLF @ ''Content-length : ''
    @ show_nat (length (adder_content a b)) @ CRLF @ ''Content-type : text/html'' @ CRLF @ CRLF @ adder_content a b)"
proof -
  have "CHR ''&'' \<notin> set (show_int a)" using show_nat_digits by (fastforce simp: show_int_def isdigit_def split: if_splits)
  then show ?thesis using assms by (simp add: adder_def Let_def split_at_first)
qed

end
