(* ===== verification/Stock_Tests.thy ===== *)
theory Stock_Tests
  imports Stock_Tree Stock_Client
begin

text \<open>
  The tests of the stock server.  \<^verbatim>\<open>test/e_test/binary_tree_test.c\<close> drives the binary tree of the event-driven
  server: the results of \<^verbatim>\<open>rand\<close> are a sequence, a failed check or assertion and the use of a null node
  stop the run with a value of \<open>test_stop\<close>, and the loop that draws an unused identifier may not end.
  \<^verbatim>\<open>test/common_test/benchmark.c\<close> boots a server and runs the benchmark client three times,
  \<^verbatim>\<open>macro.c\<close> runs the benchmark over and over: what they execute is a list of argument vectors.
\<close>

section \<open>The test of the binary tree\<close>

definition MAXNODE :: nat where "MAXNODE = 100"

datatype test_stop = CheckFailed string | AssertFailed string | NullNode

record tree_test =
  tt_root :: stock
  tt_cur_node :: "int list"
  tt_info_arr :: "(int \<times> int \<times> int) list"
  tt_node_count :: nat
  tt_rands :: nat

text \<open>The static variables at the start of the program.\<close>

definition tree_test0 :: tree_test where
  "tree_test0 = \<lparr>tt_root = NullStock, tt_cur_node = replicate (MAXNODE + 1) 0,
     tt_info_arr = replicate MAXNODE (0, 0, 0), tt_node_count = 0, tt_rands = 0\<rparr>"

text \<open>A run of \<^verbatim>\<open>CheckConditon\<close>s: the first that fails aborts.\<close>

fun CheckConditon :: "(bool \<times> string) list \<Rightarrow> 'a \<Rightarrow> test_stop + 'a" where
  "CheckConditon [] x = Inr x"
| "CheckConditon ((c, txt) # cs) x = (if c then CheckConditon cs x else Inl (CheckFailed txt))"

definition check_then :: "test_stop + 'a \<Rightarrow> ('a \<Rightarrow> test_stop + 'b) \<Rightarrow> test_stop + 'b" where
  "check_then x f = (case x of Inl e \<Rightarrow> Inl e | Inr a \<Rightarrow> f a)"

text \<open>\<^verbatim>\<open>cur_node[id]=1\<close> and the three assignments to \<^verbatim>\<open>info_arr[node_count]\<close>.\<close>

definition note_row :: "int \<Rightarrow> int \<Rightarrow> int \<Rightarrow> tree_test \<Rightarrow> tree_test" where
  "note_row i c p t =
     t\<lparr>tt_cur_node := (tt_cur_node t)[nat i := 1], tt_info_arr := (tt_info_arr t)[tt_node_count t := (i, c, p)]\<rparr>"

definition node_count_incr :: "tree_test \<Rightarrow> tree_test" where
  "node_count_incr t = t\<lparr>tt_node_count := tt_node_count t + 1\<rparr>"

definition insert_at_root :: "int \<Rightarrow> int \<Rightarrow> int \<Rightarrow> tree_test \<Rightarrow> tree_test" where
  "insert_at_root i c p t = t\<lparr>tt_root := stock_insert (tt_root t) i c p\<rparr>"

definition check_node :: "stock \<Rightarrow> int \<Rightarrow> int \<Rightarrow> int \<Rightarrow> tree_test \<Rightarrow> test_stop + tree_test" where
  "check_node nd i c p t =
     (case nd of NullStock \<Rightarrow> Inl NullNode
      | Stock ni np nc _ _ \<Rightarrow> CheckConditon [(ni = i, ''id''), (nc = c, ''count''), (np = p, ''price'')] t)"

fun stock_left :: "stock \<Rightarrow> stock" where
  "stock_left NullStock = NullStock"
| "stock_left (Stock _ _ _ l _) = l"

fun stock_right :: "stock \<Rightarrow> stock" where
  "stock_right NullStock = NullStock"
| "stock_right (Stock _ _ _ _ r) = r"

definition phase_root :: "tree_test \<Rightarrow> test_stop + tree_test" where
  "phase_root t =
     (let t1 = node_count_incr (note_row 53 44 3000 (insert_at_root 53 44 3000 t)) in
      if tt_root t1 = NullStock then Inl (AssertFailed ''_root'')
      else check_node (tt_root t1) 53 44 3000 t1)"

definition phase_left_right :: "tree_test \<Rightarrow> test_stop + tree_test" where
  "phase_left_right t =
     (let t1 = node_count_incr (note_row 78 31 50000 (insert_at_root 78 31 50000 t)) in
      check_then (check_node (stock_right (tt_root t1)) 78 31 50000 t1) (\<lambda>t2.
      let t3 = node_count_incr (note_row 35 87 300 (insert_at_root 35 87 300 t2)) in
      check_node (stock_left (tt_root t3)) 35 87 300 t3))"

text \<open>The \<^verbatim>\<open>retry\<close> loop: the identifier and how many numbers are used up after it.\<close>

partial_function (option) draw_id :: "(nat \<Rightarrow> nat) \<Rightarrow> int list \<Rightarrow> nat \<Rightarrow> (int \<times> nat) option" where
  "draw_id rnd cur k =
     (let i = c_mod (int (rnd k)) (int MAXNODE) in
      if cur ! nat i \<noteq> 0 then draw_id rnd cur (k + 1) else Some (i, k + 1))"

text \<open>\<^verbatim>\<open>insert\<close> changes the tree in place; its result, the root again, is dropped.\<close>

definition insert_drop :: "int \<Rightarrow> int \<Rightarrow> int \<Rightarrow> tree_test \<Rightarrow> tree_test" where
  "insert_drop i c p t = (if tt_root t = NullStock then t else insert_at_root i c p t)"

definition random_row :: "(nat \<Rightarrow> nat) \<Rightarrow> tree_test \<Rightarrow> tree_test option" where
  "random_row rnd t =
     (case draw_id rnd (tt_cur_node t) (tt_rands t) of None \<Rightarrow> None
      | Some (i, k) \<Rightarrow>
          let c = c_mod (int (rnd k)) 100; p = c_mod (int (rnd (k + 1))) 1000000 in
          Some (node_count_incr (insert_drop i c p (note_row i c p (t\<lparr>tt_rands := k + 2\<rparr>)))))"

primrec fill_loop :: "nat \<Rightarrow> (nat \<Rightarrow> nat) \<Rightarrow> tree_test \<Rightarrow> tree_test option" where
  "fill_loop 0 rnd t = Some t"
| "fill_loop (Suc n) rnd t = (case random_row rnd t of None \<Rightarrow> None | Some t1 \<Rightarrow> fill_loop n rnd t1)"

primrec find_loop :: "nat list \<Rightarrow> tree_test \<Rightarrow> test_stop + tree_test" where
  "find_loop [] t = Inr t"
| "find_loop (n # ns) t =
     (case tt_info_arr t ! n of (i, c, p) \<Rightarrow>
      case stock_find i (tt_root t) of NullStock \<Rightarrow> Inl (AssertFailed ''node'')
      | Stock _ np nc _ _ \<Rightarrow>
          check_then (CheckConditon [(c = nc, ''info.count==node->count''), (p = np, ''info.price==node->price'')] t) (find_loop ns))"

text \<open>The arrays \<^verbatim>\<open>dx_arr\<close> and \<^verbatim>\<open>result\<close>, as pairs.\<close>

primrec plan_loop :: "(nat \<Rightarrow> nat) \<Rightarrow> nat list \<Rightarrow> (int \<times> int) list \<Rightarrow> tree_test \<Rightarrow> test_stop + ((int \<times> int) list \<times> tree_test)" where
  "plan_loop rnd [] acc t = Inr (acc, t)"
| "plan_loop rnd (n # ns) acc t =
     (let k = tt_rands t; dx = c_mod (int (rnd k)) 200 - c_mod (int (rnd (k + 1))) 200 in
      case stock_find (fst (tt_info_arr t ! n)) (tt_root t) of NullStock \<Rightarrow> Inl NullNode
      | Stock _ _ nc _ _ \<Rightarrow> plan_loop rnd ns (acc @ [(dx, int32 (nc + dx))]) (t\<lparr>tt_rands := k + 2\<rparr>))"

definition verify_one :: "nat \<Rightarrow> int \<times> int \<Rightarrow> tree_test \<Rightarrow> test_stop + tree_test" where
  "verify_one n plan t =
     (case plan of (dx, result) \<Rightarrow>
      case tt_info_arr t ! n of (i, c, p) \<Rightarrow>
      case modify i dx (tt_root t) of (st, rt) \<Rightarrow>
      let t1 = t\<lparr>tt_root := rt\<rparr> in
      case stock_find i rt of NullStock \<Rightarrow> Inl (AssertFailed ''node'')
      | Stock _ _ nc _ _ \<Rightarrow>
          if result \<ge> 0 then
            CheckConditon [(st = SUCCESS, ''st==SUCCESS''), (nc = result, ''node->count==result[node_count]'')]
              (t1\<lparr>tt_info_arr := (tt_info_arr t1)[n := (i, result, p)]\<rparr>)
          else
            CheckConditon [(st = NOTENOUGHERR, ''st==NOTENOUGHERR''), (nc \<noteq> result, ''node->count!=result[node_count]''),
              (nc = c, ''node->count==info_arr[node_count].count'')] t1)"

primrec verify_loop :: "nat list \<Rightarrow> (int \<times> int) list \<Rightarrow> tree_test \<Rightarrow> test_stop + tree_test" where
  "verify_loop [] plan t = Inr t"
| "verify_loop (n # ns) plan t = check_then (verify_one n (plan ! n) t) (verify_loop ns plan)"

definition phase_modify :: "(nat \<Rightarrow> nat) \<Rightarrow> tree_test \<Rightarrow> test_stop + tree_test" where
  "phase_modify rnd t =
     check_then (plan_loop rnd [0..<MAXNODE] [] t) (\<lambda>(plan, t1). verify_loop [0..<MAXNODE] plan t1)"

definition binary_tree_test :: "(nat \<Rightarrow> nat) \<Rightarrow> (test_stop + tree_test) option" where
  "binary_tree_test rnd =
     (case check_then (phase_root tree_test0) phase_left_right of
        Inl e \<Rightarrow> Some (Inl e)
      | Inr t \<Rightarrow>
          case fill_loop (MAXNODE - tt_node_count t) rnd t of None \<Rightarrow> None
          | Some t1 \<Rightarrow> Some (check_then (find_loop [0..<33] t1) (phase_modify rnd)))"


section \<open>The benchmark\<close>

text \<open>What the benchmark does to the world: it starts programs, prints (the time and, unless \<^verbatim>\<open>query_n\<close> is 0, the
  throughput), sends itself \<^verbatim>\<open>SIGCONT\<close> and kills the server.\<close>

datatype bench_act = Run "string list" | Timing int | Complain int | SelfCont | KillServer int

text \<open>\<^verbatim>\<open>execv\<close> takes the arguments up to the null pointer; without a process nothing is run.\<close>

definition exec_argv :: "string option list \<Rightarrow> string list" where
  "exec_argv argv = map the (takeWhile (\<lambda>a. a \<noteq> None) argv)"

definition fork_and_exec :: "int \<Rightarrow> string option list \<Rightarrow> bench_act list" where
  "fork_and_exec pid argv = (if pid < 0 then [] else [Run (exec_argv argv)])"

definition AF_INET :: nat where "AF_INET = 2"

text \<open>The interfaces as \<^verbatim>\<open>getifaddrs\<close> lists them, each with its family, if it has an address, and the address as text.
  The result is the copy and the size of the block it is copied into; without an address of the
  family the function ends without a result.\<close>

fun getserveripaddr :: "(nat option \<times> string) list \<Rightarrow> (string \<times> nat) option" where
  "getserveripaddr [] = None"
| "getserveripaddr ((fam, a) # ifs) = (if fam = Some AF_INET then Some (a, length a) else getserveripaddr ifs)"

definition WEXITSTATUS :: "nat \<Rightarrow> nat" where
  "WEXITSTATUS status = status div 256 mod 256"

text \<open>\<^verbatim>\<open>child_reaper\<close>: the results of \<^verbatim>\<open>waitpid\<close> in order; the second component tells that the process exited.\<close>

fun child_reaper :: "int \<Rightarrow> (int \<times> nat) list \<Rightarrow> bench_act list \<times> bool" where
  "child_reaper pid_client [] = ([], False)"
| "child_reaper pid_client ((p, status) # ws) =
     (if p > 0 then
        let a = (if p = pid_client then [SelfCont] else []); exitcode = WEXITSTATUS status in
        if exitcode \<noteq> 0 then (a @ [Complain (int exitcode)], True)
        else case child_reaper pid_client ws of (b, ended) \<Rightarrow> (a @ b, ended)
      else ([], False))"

datatype bench_signal = Sigchld "(int \<times> nat) list" | Sigendclock

definition handle :: "int \<Rightarrow> bench_signal \<Rightarrow> bench_act list \<times> bool" where
  "handle pid_client sg = (case sg of Sigchld ws \<Rightarrow> child_reaper pid_client ws | Sigendclock \<Rightarrow> ([SelfCont], False))"

text \<open>The argument vectors of the server and the client.  With another option the path of the server is not set.\<close>

definition bench_vectors :: "string list \<Rightarrow> string \<Rightarrow> (string option list \<times> string option list) option" where
  "bench_vectors argv ip =
     (let opt = argv ! 4;
          client = map Some [''../../client/multiclient_benchmark'', ip, argv ! 1, argv ! 2, argv ! 3] @ [None, None] in
      if opt = ''-e'' then Some ([Some ''../../event_driven/stockserver'', Some (argv ! 1), Some ''BENCHMARK'', None, None], client)
      else if take 2 opt = ''-t'' then
        Some ([Some ''../../thread_based/stockserver'', Some (argv ! 1), Some ''BENCHMARK'', Some (drop 2 opt), None], client)
      else None)"

text \<open>A phase: the program it starts, with the number that \<^verbatim>\<open>fork\<close> gave, the identifier the handler compares with,
  the number of queries it reports, and the signal that ends its \<^verbatim>\<open>sigsuspend\<close>.\<close>

fun bench_phases :: "(string option list \<times> int \<times> int \<times> int \<times> bench_signal) list \<Rightarrow> bench_act list \<times> bool" where
  "bench_phases [] = ([], False)"
| "bench_phases ((argv, pid, pid_client, query_n, sg) # ps) =
     (case handle pid_client sg of (a, ended) \<Rightarrow>
        if ended then (fork_and_exec pid argv @ a, True)
        else case bench_phases ps of (b, e) \<Rightarrow> (fork_and_exec pid argv @ a @ Timing query_n # b, e))"

datatype bench_end = BenchUsage | BenchUndefined | Bench "bench_act list"

definition benchmark_run :: "(nat \<Rightarrow> int) \<Rightarrow> (nat option \<times> string) list \<Rightarrow> (nat \<Rightarrow> bench_signal) \<Rightarrow> string list \<Rightarrow> bench_end" where
  "benchmark_run fork ifs sg argv =
     (if length argv < 5 then BenchUsage
      else case getserveripaddr ifs of None \<Rightarrow> BenchUndefined | Some (ip, _) \<Rightarrow>
        case bench_vectors argv ip of None \<Rightarrow> BenchUndefined | Some (server0, client0) \<Rightarrow>
          let n = atoi (argv ! 3);
              server1 = server0[4 := Some ''show''];
              server2 = server1[4 := Some ''modify''] in
          case bench_phases [(server0, fork 0, 0, 0, sg 0), (client0, fork 1, fork 1, n, sg 1),
              (client0, fork 2, fork 2, n, sg 2), (client0, fork 3, fork 3, n, sg 3)] of
            (acts, ended) \<Rightarrow> Bench (acts @ (if ended then [] else [KillServer (fork 0)])))"

section \<open>The series of benchmarks\<close>

definition macro_round :: "int \<Rightarrow> int \<Rightarrow> string list list" where
  "macro_round i j =
     [[''./benchmark'', show_int (1024 + j), ''64'', show_int i, ''-t32''],
      [''./benchmark'', show_int (4096 + j), ''64'', show_int i, ''-e'']]"

text \<open>The loop of \<^verbatim>\<open>macro.c\<close> with a bound on its rounds; the second component tells whether the loop's own
  condition ended it.  The multiplication and the increment wrap.\<close>

primrec macro_loop :: "nat \<Rightarrow> int \<Rightarrow> int \<Rightarrow> int \<Rightarrow> string list list \<times> bool" where
  "macro_loop 0 total_q i j = ([], False)"
| "macro_loop (Suc n) total_q i j =
     (if total_q \<le> 4194304 then
        case macro_loop n total_q (int32 (i * 4)) (int32 (j + 1)) of (runs, ended) \<Rightarrow> (macro_round i j @ runs, ended)
      else ([], True))"

definition macro_main :: "nat \<Rightarrow> string list list \<times> bool" where
  "macro_main n = (let total_q_integer = 1024 in macro_loop n total_q_integer total_q_integer 0)"

section \<open>The test passes\<close>

lemma check_then_simps [simp]: "check_then (Inr a) f = f a" "check_then (Inl e) f = Inl e"
  by (simp_all add: check_then_def)

lemma CheckConditon_all: "\<forall>x \<in> set cs. fst x \<Longrightarrow> CheckConditon cs t = Inr t"
  by (induction cs t rule: CheckConditon.induct) simp_all

text \<open>What the rows noted so far say of the tree: their identifiers are different and in range, they are those
  that are marked, and the tree is the table of the rows.\<close>

definition rows_of :: "tree_test \<Rightarrow> (int \<times> int \<times> int) list" where
  "rows_of t = take (tt_node_count t) (tt_info_arr t)"

definition test_row_ok :: "int \<times> int \<times> int \<Rightarrow> bool" where
  "test_row_ok = (\<lambda>(i, c, p). 0 \<le> i \<and> i < int MAXNODE \<and> 0 \<le> c \<and> c < 100)"

definition noted :: "tree_test \<Rightarrow> bool" where
  "noted t \<longleftrightarrow> tt_node_count t \<le> MAXNODE \<and> length (tt_info_arr t) = MAXNODE \<and> length (tt_cur_node t) = MAXNODE + 1
     \<and> list_all test_row_ok (rows_of t) \<and> distinct (map fst (rows_of t))
     \<and> (\<forall>i. 0 \<le> i \<and> i < int MAXNODE \<longrightarrow> (tt_cur_node t ! nat i \<noteq> 0) = (i \<in> fst ` set (rows_of t)))
     \<and> table_of (tt_root t) = map_of (rows_of t)"

lemma note_row_simps [simp]:
  "tt_root (note_row i c p t) = tt_root t" "tt_node_count (note_row i c p t) = tt_node_count t"
  "tt_cur_node (note_row i c p t) = (tt_cur_node t)[nat i := 1]" "tt_rands (note_row i c p t) = tt_rands t"
  "tt_info_arr (note_row i c p t) = (tt_info_arr t)[tt_node_count t := (i, c, p)]"
  by (simp_all add: note_row_def)

lemma noted_insert:
  assumes "noted t" and "tt_node_count t < MAXNODE" and "test_row_ok (i, c, p)" and "i \<notin> fst ` set (rows_of t)"
  defines "t' \<equiv> node_count_incr (insert_at_root i c p (note_row i c p t))"
  shows "noted t'" and "rows_of t' = rows_of t @ [(i, c, p)]"
proof -
  let ?n = "tt_node_count t"
  from assms(1,2) have n: "?n < length (tt_info_arr t)" by (simp add: noted_def)
  then show rows: "rows_of t' = rows_of t @ [(i, c, p)]"
    by (simp add: t'_def rows_of_def node_count_incr_def insert_at_root_def take_Suc_conv_app_nth)
  have T: "table_of (tt_root t) = map_of (rows_of t)" using assms(1) by (simp add: noted_def)
  with assms(4) have none: "table_of (tt_root t) i = None" by (simp add: map_of_eq_None_iff)
  have new: "table_of (tt_root t') = map_of (rows_of t @ [(i, c, p)])"
  proof
    fix j
    show "table_of (tt_root t') j = map_of (rows_of t @ [(i, c, p)]) j"
      using none by (auto simp: t'_def node_count_incr_def insert_at_root_def table_of_insert map_add_def T split: option.splits)
  qed
  have marks: "(tt_cur_node t' ! nat j \<noteq> 0) = (j = i \<or> j \<in> fst ` set (rows_of t))" if "0 \<le> j" "j < int MAXNODE" for j
    using that assms(1,3) by (cases "j = i") (auto simp: t'_def node_count_incr_def insert_at_root_def noted_def nth_list_update test_row_ok_def nat_eq_iff)
  show "noted t'"
    using assms(1-4) rows new marks
    by (auto simp: noted_def t'_def node_count_incr_def insert_at_root_def)
qed

lemma draw_id_some:
  assumes "cur ! nat (c_mod (int (rnd j)) (int MAXNODE)) = 0" and "k \<le> j"
  shows "\<exists>i k'. draw_id rnd cur k = Some (i, k') \<and> cur ! nat i = 0 \<and> 0 \<le> i \<and> i < int MAXNODE"
proof -
  have range: "0 \<le> c_mod (int x) (int MAXNODE) \<and> c_mod (int x) (int MAXNODE) < int MAXNODE" for x
    unfolding c_mod_nat by (simp add: MAXNODE_def)
  show ?thesis
    using assms(2)
  proof (induction "j - k" arbitrary: k)
    case 0
    then show ?case using assms(1) range by (subst draw_id.simps) (auto simp: Let_def)
  next
    case (Suc d)
    show ?case
    proof (cases "cur ! nat (c_mod (int (rnd k)) (int MAXNODE)) = 0")
      case True
      then show ?thesis using range by (subst draw_id.simps) (auto simp: Let_def)
    next
      case False
      with Suc.hyps(1) [of "k + 1"] Suc.hyps(2) show ?thesis by (subst draw_id.simps) (auto simp: Let_def)
    qed
qed
qed

text \<open>A generator that comes back to every residue.\<close>

definition fair :: "(nat \<Rightarrow> nat) \<Rightarrow> bool" where
  "fair rnd \<longleftrightarrow> (\<forall>v < MAXNODE. \<forall>k. \<exists>j \<ge> k. rnd j mod MAXNODE = v)"

lemma unused_id:
  assumes "noted t" and "tt_node_count t < MAXNODE"
  obtains v where "v < MAXNODE" "int v \<notin> fst ` set (rows_of t)"
proof -
  have "card (fst ` set (rows_of t)) \<le> tt_node_count t"
    by (rule order.trans [OF card_image_le order.trans [OF card_length]]) (simp_all add: rows_of_def)
  moreover have "card (int ` {..<MAXNODE}) = MAXNODE" by (simp add: card_image)
  ultimately have "\<not> int ` {..<MAXNODE} \<subseteq> fst ` set (rows_of t)"
    using assms(2) card_mono [of "fst ` set (rows_of t)" "int ` {..<MAXNODE}"] by auto
  then show thesis using that by auto
qed

lemma random_row_noted:
  assumes "noted t" and "tt_node_count t < MAXNODE" and "fair rnd" and "tt_root t \<noteq> NullStock"
  shows "\<exists>t'. random_row rnd t = Some t' \<and> noted t' \<and> tt_node_count t' = Suc (tt_node_count t) \<and> tt_root t' \<noteq> NullStock"
proof -
  obtain v where v: "v < MAXNODE" "int v \<notin> fst ` set (rows_of t)" by (rule unused_id [OF assms(1,2)])
  obtain j where j: "tt_rands t \<le> j" "rnd j mod MAXNODE = v" using assms(3) v(1) by (auto simp: fair_def)
  have marks: "(tt_cur_node t ! nat i \<noteq> 0) = (i \<in> fst ` set (rows_of t))" if "0 \<le> i" "i < int MAXNODE" for i
    using assms(1) that by (simp add: noted_def)
  have "tt_cur_node t ! nat (c_mod (int (rnd j)) (int MAXNODE)) = 0"
    using marks [of "int v"] v j(2) by (simp add: c_mod_nat)
  from draw_id_some [where rnd = rnd and j = j, OF this j(1)] obtain i k where d: "draw_id rnd (tt_cur_node t) (tt_rands t) = Some (i, k)"
    "tt_cur_node t ! nat i = 0" "0 \<le> i" "i < int MAXNODE" by blast
  define c p t1 where "c = c_mod (int (rnd k)) 100" and "p = c_mod (int (rnd (k + 1))) 1000000" and "t1 = t\<lparr>tt_rands := k + 2\<rparr>"
  have c: "0 \<le> c" "c < 100" using c_mod_nat [of "rnd k" 100] by (simp_all add: c_def)
  have t1: "noted t1" "tt_node_count t1 < MAXNODE" "rows_of t1 = rows_of t"
    using assms(1,2) by (simp_all add: t1_def noted_def rows_of_def)
  have ni: "i \<notin> fst ` set (rows_of t1)" and ok: "test_row_ok (i, c, p)" using marks d c t1(3) by (auto simp: test_row_ok_def)
  have ins: "insert_drop i c p (note_row i c p t1) = insert_at_root i c p (note_row i c p t1)"
    using assms(4) by (simp add: insert_drop_def t1_def)
  have "random_row rnd t = Some (node_count_incr (insert_at_root i c p (note_row i c p t1)))"
    using ins by (simp add: random_row_def d(1) c_def p_def t1_def Let_def)
  moreover have "tt_root (insert_at_root i c p (note_row i c p t1)) \<noteq> NullStock"
    by (cases "tt_root t1") (auto simp: insert_at_root_def)
  ultimately show ?thesis using noted_insert(1) [OF t1(1,2) ok ni]
    by (auto simp: node_count_incr_def insert_at_root_def t1_def)
qed

lemma fill_loop_noted:
  assumes "noted t" and "tt_node_count t + n = MAXNODE" and "fair rnd" and "tt_root t \<noteq> NullStock"
  shows "\<exists>t'. fill_loop n rnd t = Some t' \<and> noted t' \<and> tt_node_count t' = MAXNODE"
  using assms
proof (induction n arbitrary: t)
  case (Suc n)
  obtain t1 where t1: "random_row rnd t = Some t1" "noted t1" "tt_node_count t1 = Suc (tt_node_count t)" "tt_root t1 \<noteq> NullStock"
    using random_row_noted [of t rnd] Suc.prems by auto
  then show ?case using Suc.IH [OF t1(2)] Suc.prems by auto
qed simp


lemma table_of_Some: "table_of t i = Some (c, p) \<Longrightarrow> \<exists>l r ni. stock_find i t = Stock ni p c l r"
  by (auto simp: table_of_def split: stock.splits)

text \<open>From here on every row of the array is in the tree.\<close>

definition recorded :: "nat set \<Rightarrow> tree_test \<Rightarrow> bool" where
  "recorded N t \<longleftrightarrow> length (tt_info_arr t) = MAXNODE \<and> distinct (map fst (tt_info_arr t))
     \<and> dom (table_of (tt_root t)) \<subseteq> {0..<int MAXNODE}
     \<and> (\<forall>n < MAXNODE. case tt_info_arr t ! n of (i, c, p) \<Rightarrow> 0 \<le> i \<and> i < int MAXNODE \<and> 0 \<le> c \<and> c < 300
          \<and> (n \<in> N \<longrightarrow> c < 100) \<and> table_of (tt_root t) i = Some (c, p))"

lemma noted_recorded:
  assumes "noted t" and "tt_node_count t = MAXNODE"
  shows "recorded {..<MAXNODE} t"
proof -
  have len: "length (tt_info_arr t) = MAXNODE" and rows: "rows_of t = tt_info_arr t"
    using assms by (simp_all add: noted_def rows_of_def)
  have "case tt_info_arr t ! n of (i, c, p) \<Rightarrow> test_row_ok (i, c, p) \<and> table_of (tt_root t) i = Some (c, p)" if "n < MAXNODE" for n
  proof -
    have "tt_info_arr t ! n \<in> set (tt_info_arr t)" using that len by simp
    then show ?thesis using assms(1) by (auto simp: noted_def rows list_all_iff split: prod.splits)
  qed
  moreover have "dom (table_of (tt_root t)) \<subseteq> {0..<int MAXNODE}"
    using assms(1) by (fastforce simp: noted_def rows dom_map_of_conv_image_fst list_all_iff test_row_ok_def)
  ultimately show ?thesis using assms(1) len by (fastforce simp: recorded_def noted_def rows test_row_ok_def split: prod.splits)
qed

lemma recordedD:
  assumes "recorded N t" and "n < MAXNODE" and "tt_info_arr t ! n = (i, c, p)"
  shows "table_of (tt_root t) i = Some (c, p)" "0 \<le> i" "i < int MAXNODE" "0 \<le> c" "c < 300" "n \<in> N \<Longrightarrow> c < 100"
  using assms by (auto simp: recorded_def dest: spec [where x = n])

lemma find_loop_passes: "recorded N t \<Longrightarrow> \<forall>n \<in> set ns. n < MAXNODE \<Longrightarrow> find_loop ns t = Inr t"
proof (induction ns)
  case (Cons n ns)
  obtain i c p where row: "tt_info_arr t ! n = (i, c, p)" by (metis prod_cases3)
  with Cons.prems recordedD(1) [of N t n i c p] table_of_Some obtain l r ni where "stock_find i (tt_root t) = Stock ni p c l r"
    by (metis list.set_intros(1))
  with Cons row show ?case by simp
qed simp

lemma int32_between: "-(2 ^ 31) \<le> x \<Longrightarrow> x < 2 ^ 31 \<Longrightarrow> int32 x = x"
  by (rule C_Strings.int32_id) (simp add: in_int32_def)

text \<open>What the test plans for a row: a change between -199 and 199, and the count it gives.\<close>

definition plan_ok :: "tree_test \<Rightarrow> nat \<Rightarrow> int \<times> int \<Rightarrow> bool" where
  "plan_ok t n = (\<lambda>(dx, result). \<bar>dx\<bar> < 200 \<and> result = fst (snd (tt_info_arr t ! n)) + dx)"

lemma plan_loop_planned:
  assumes "recorded {..<MAXNODE} t" and "\<forall>n \<in> set ns. n < MAXNODE"
  shows "\<exists>plan k. plan_loop rnd ns acc t = Inr (acc @ plan, t\<lparr>tt_rands := k\<rparr>) \<and> list_all2 (plan_ok t) ns plan"
  using assms
proof (induction ns arbitrary: acc t)
  case Nil
  then show ?case by (intro exI [of _ "[]"] exI [of _ "tt_rands t"]) simp
next
  case (Cons n ns)
  obtain i c p where row: "tt_info_arr t ! n = (i, c, p)" by (metis prod_cases3)
  have n: "n < MAXNODE" using Cons.prems by simp
  note D = recordedD [OF Cons.prems(1) n row]
  obtain l r ni where f: "stock_find i (tt_root t) = Stock ni p c l r" using table_of_Some [OF D(1)] by blast
  define k dx t' where "k = tt_rands t" and "dx = c_mod (int (rnd k)) 200 - c_mod (int (rnd (k + 1))) 200"
    and "t' = t\<lparr>tt_rands := k + 2\<rparr>"
  have m: "int (x mod 200) < 200" "0 \<le> int (x mod 200)" for x by simp_all
  have dx: "\<bar>dx\<bar> < 200" using c_mod_nat [of _ 200] m [of "rnd k"] m [of "rnd (k + 1)"] by (auto simp: dx_def abs_less_iff)
  have res: "int32 (c + dx) = c + dx" using dx D(4,5) by (intro int32_between) auto
  have "recorded {..<MAXNODE} t'" using Cons.prems(1) by (simp add: recorded_def t'_def)
  from Cons.IH [OF this] Cons.prems(2) obtain plan k' where
    p: "plan_loop rnd ns (acc @ [(dx, int32 (c + dx))]) t' = Inr ((acc @ [(dx, int32 (c + dx))]) @ plan, t'\<lparr>tt_rands := k'\<rparr>)"
       "list_all2 (plan_ok t') ns plan" by fastforce
  have "plan_loop rnd (n # ns) acc t = Inr (acc @ (dx, c + dx) # plan, t\<lparr>tt_rands := k'\<rparr>)"
    using p(1) res unfolding t'_def k_def dx_def by (simp add: row f Let_def)
  moreover have "list_all2 (plan_ok t) (n # ns) ((dx, c + dx) # plan)"
  proof -
    have "plan_ok t' = plan_ok t" by (simp add: fun_eq_iff plan_ok_def t'_def)
    then show ?thesis using p(2) dx row by (simp add: plan_ok_def)
  qed
  ultimately show ?case by blast
qed


lemma verify_one_passes:
  assumes R: "recorded N t" and n: "n < MAXNODE" "n \<in> N" and "plan_ok t n plan"
  shows "\<exists>t'. verify_one n plan t = Inr t' \<and> recorded (N - {n}) t' \<and> (\<forall>m. m \<noteq> n \<longrightarrow> tt_info_arr t' ! m = tt_info_arr t ! m)"
proof -
  obtain i c p where row: "tt_info_arr t ! n = (i, c, p)" by (metis prod_cases3)
  obtain dx where plan: "plan = (dx, c + dx)" "\<bar>dx\<bar> < 200" using assms(4) row by (cases plan) (auto simp: plan_ok_def)
  note D = recordedD [OF R n(1) row]
  have c: "int32 (c + dx) = c + dx" "c + dx < 300" using D(4) D(6) [OF n(2)] plan(2) by (auto intro: int32_between)
  obtain st rt where m: "modify i dx (tt_root t) = (st, rt)" by fastforce
  have A: "abs_modify i dx (table_of (tt_root t)) = (st, table_of rt)" using modify_table [of i dx "tt_root t"] m by simp
  have len: "length (tt_info_arr t) = MAXNODE" and dist: "distinct (map fst (tt_info_arr t))"
    and dom: "dom (table_of (tt_root t)) \<subseteq> {0..<int MAXNODE}" using R by (simp_all add: recorded_def)
  have other: "fst (tt_info_arr t ! m) \<noteq> i" if "m < MAXNODE" "m \<noteq> n" for m
    using nth_eq_iff_index_eq [OF dist, of m n] that n(1) row len by simp
  show ?thesis
  proof (cases "c + dx < 0")
    case True
    with A D(1) c(1) have st: "st = NOTENOUGHERR" "table_of rt = table_of (tt_root t)" by (auto simp: abs_modify_def)
    with D(1) obtain l r ni where f: "stock_find i rt = Stock ni p c l r" using table_of_Some by metis
    have "verify_one n plan t = Inr (t\<lparr>tt_root := rt\<rparr>)"
      using True D(4) by (simp add: verify_one_def plan(1) row m f st(1))
    moreover have "recorded (N - {n}) (t\<lparr>tt_root := rt\<rparr>)" using R st(2) by (fastforce simp: recorded_def)
    ultimately show ?thesis by simp
  next
    case False
    with A D(1) c(1) have st: "st = SUCCESS" "table_of rt = (table_of (tt_root t))(i \<mapsto> (c + dx, p))" by (auto simp: abs_modify_def)
    then obtain l r ni where f: "stock_find i rt = Stock ni p (c + dx) l r" using table_of_Some [of rt i] by auto
    define t' where "t' = t\<lparr>tt_root := rt, tt_info_arr := (tt_info_arr t)[n := (i, c + dx, p)]\<rparr>"
    have "verify_one n plan t = Inr t'"
      using False by (simp add: verify_one_def plan(1) row m f st(1) t'_def)
    moreover have "recorded (N - {n}) t'"
      unfolding recorded_def
    proof (intro conjI allI impI)
      show "length (tt_info_arr t') = MAXNODE" using len by (simp add: t'_def)
      show "dom (table_of (tt_root t')) \<subseteq> {0..<int MAXNODE}" using dom st(2) D(2,3) by (simp add: t'_def)
      have "map fst (tt_info_arr t') = map fst (tt_info_arr t)" using row n(1) len
        by (simp add: t'_def map_update) (metis fst_conv list_update_id nth_map)
      then show "distinct (map fst (tt_info_arr t'))" using dist by simp
      fix k
      assume k: "k < MAXNODE"
      obtain i' c' p' where row': "tt_info_arr t ! k = (i', c', p')" by (metis prod_cases3)
      show "case tt_info_arr t' ! k of (i, c, p) \<Rightarrow> 0 \<le> i \<and> i < int MAXNODE \<and> 0 \<le> c \<and> c < 300
          \<and> (k \<in> N - {n} \<longrightarrow> c < 100) \<and> table_of (tt_root t') i = Some (c, p)"
        using recordedD [OF R k row'] other [OF k] row' False c(2) D(2,3) n(1) len st(2)
        by (cases "k = n") (auto simp: t'_def)
    qed
    ultimately show ?thesis by (auto simp: t'_def)
  qed
qed

lemma verify_loop_passes:
  assumes "recorded N t" and "distinct ns" and "set ns \<subseteq> N \<inter> {..<MAXNODE}" and "\<forall>n \<in> set ns. plan_ok t n (plan ! n)"
  shows "\<exists>t'. verify_loop ns plan t = Inr t' \<and> recorded (N - set ns) t'"
  using assms
proof (induction ns arbitrary: t N)
  case (Cons n ns)
  obtain t1 where t1: "verify_one n (plan ! n) t = Inr t1" "recorded (N - {n}) t1"
    "\<forall>m. m \<noteq> n \<longrightarrow> tt_info_arr t1 ! m = tt_info_arr t ! m"
    using verify_one_passes [OF Cons.prems(1), of n "plan ! n"] Cons.prems by auto
  have "tt_info_arr t1 ! m = tt_info_arr t ! m" if "m \<in> set ns" for m using t1(3) Cons.prems(2) that by auto
  then have "\<forall>m \<in> set ns. plan_ok t1 m (plan ! m)" using Cons.prems(4) by (simp add: plan_ok_def)
  then obtain t' where "verify_loop ns plan t1 = Inr t'" "recorded (N - {n} - set ns) t'"
    using Cons.IH [OF t1(2)] Cons.prems(2,3) by auto
  moreover have "N - {n} - set ns = N - set (n # ns)" by auto
  ultimately show ?case using t1(1) by simp
qed simp

lemma phase_modify_passes:
  assumes "recorded {..<MAXNODE} t"
  shows "\<exists>t'. phase_modify rnd t = Inr t' \<and> recorded {} t'"
proof -
  obtain plan k where p: "plan_loop rnd [0..<MAXNODE] [] t = Inr (plan, t\<lparr>tt_rands := k\<rparr>)" "list_all2 (plan_ok t) [0..<MAXNODE] plan"
    using plan_loop_planned [OF assms, of "[0..<MAXNODE]" rnd "[]"] by auto
  have "recorded {..<MAXNODE} (t\<lparr>tt_rands := k\<rparr>)" using assms by (simp add: recorded_def)
  moreover have "\<forall>n \<in> set [0..<MAXNODE]. plan_ok (t\<lparr>tt_rands := k\<rparr>) n (plan ! n)"
    using p(2) by (auto simp: list_all2_conv_all_nth plan_ok_def)
  ultimately obtain t' where "verify_loop [0..<MAXNODE] plan (t\<lparr>tt_rands := k\<rparr>) = Inr t'" "recorded ({..<MAXNODE} - set [0..<MAXNODE]) t'"
    using verify_loop_passes [of "{..<MAXNODE}" "t\<lparr>tt_rands := k\<rparr>" "[0..<MAXNODE]" plan] by fastforce
  then show ?thesis using p(1) by (auto simp: phase_modify_def atLeast0LessThan)
qed

lemma recorded_table:
  assumes "recorded N t"
  shows "dom (table_of (tt_root t)) = {0..<int MAXNODE}" "counts_ok (table_of (tt_root t))"
    "\<forall>(i, c, p) \<in> set (tt_info_arr t). table_of (tt_root t) i = Some (c, p)"
proof -
  have len: "length (tt_info_arr t) = MAXNODE" and dist: "distinct (map fst (tt_info_arr t))"
    and dom: "dom (table_of (tt_root t)) \<subseteq> {0..<int MAXNODE}" using assms by (simp_all add: recorded_def)
  have row: "table_of (tt_root t) i = Some (c, p) \<and> 0 \<le> c \<and> c < 300" if "(i, c, p) \<in> set (tt_info_arr t)" for i c p
    using that len recordedD [OF assms] by (auto simp: in_set_conv_nth)
  then show "\<forall>(i, c, p) \<in> set (tt_info_arr t). table_of (tt_root t) i = Some (c, p)" by auto
  have sub: "fst ` set (tt_info_arr t) \<subseteq> dom (table_of (tt_root t))" using row by force
  have "card (fst ` set (tt_info_arr t)) = MAXNODE" using distinct_card [OF dist] len by simp
  then have eq: "fst ` set (tt_info_arr t) = {0..<int MAXNODE}" using sub dom
    by (intro card_subset_eq) (auto intro: order.trans)
  with sub dom show d: "dom (table_of (tt_root t)) = {0..<int MAXNODE}" by blast
  have "0 \<le> c \<and> in_int32 c" if "table_of (tt_root t) i = Some (c, p)" for i c p
  proof -
    from that d eq have "i \<in> fst ` set (tt_info_arr t)" by blast
    then obtain c' p' where "(i, c', p') \<in> set (tt_info_arr t)" by auto
    from row [OF this] that show ?thesis by (simp add: in_int32_def)
  qed
  then show "counts_ok (table_of (tt_root t))" by (auto simp: counts_ok_def ran_def)
qed

lemma noted_start: "\<exists>t. check_then (phase_root tree_test0) phase_left_right = Inr t \<and> noted t \<and> tt_node_count t = 3 \<and> tt_root t \<noteq> NullStock"
proof -
  have 0: "noted tree_test0" "tt_node_count tree_test0 = 0" "rows_of tree_test0 = []"
    by (auto simp: noted_def tree_test0_def rows_of_def MAXNODE_def nth_replicate nat_less_iff)
  define add where "add i c p t = node_count_incr (insert_at_root i c p (note_row i c p t))" for i c p t
  define t1 t2 t3 where "t1 = add 53 44 3000 tree_test0" and "t2 = add 78 31 50000 t1" and "t3 = add 35 87 300 t2"
  have 1: "noted t1" "rows_of t1 = [(53, 44, 3000)]" "tt_node_count t1 = 1"
    using noted_insert [OF 0(1), of 53 44 3000] 0 by (simp_all add: t1_def add_def MAXNODE_def test_row_ok_def node_count_incr_def insert_at_root_def)
  have 2: "noted t2" "rows_of t2 = [(53, 44, 3000), (78, 31, 50000)]" "tt_node_count t2 = 2"
    using noted_insert [OF 1(1), of 78 31 50000] 1 by (simp_all add: t2_def add_def MAXNODE_def test_row_ok_def node_count_incr_def insert_at_root_def)
  have 3: "noted t3" "tt_node_count t3 = 3"
    using noted_insert [OF 2(1), of 35 87 300] 2 by (simp_all add: t3_def add_def MAXNODE_def test_row_ok_def node_count_incr_def insert_at_root_def)
  have swap: "node_count_incr (note_row i c p (insert_at_root i c p t)) = add i c p t" for i c p t
    by (simp add: add_def node_count_incr_def note_row_def insert_at_root_def)
  have r1: "tt_root t1 = Stock 53 3000 44 NullStock NullStock"
    by (simp add: t1_def add_def node_count_incr_def note_row_def insert_at_root_def tree_test0_def)
  then have r2: "tt_root t2 = Stock 53 3000 44 NullStock (Stock 78 50000 31 NullStock NullStock)"
    by (simp add: t2_def add_def node_count_incr_def note_row_def insert_at_root_def)
  then have r3: "tt_root t3 = Stock 53 3000 44 (Stock 35 300 87 NullStock NullStock) (Stock 78 50000 31 NullStock NullStock)"
    by (simp add: t3_def add_def node_count_incr_def note_row_def insert_at_root_def)
  have "phase_root tree_test0 = Inr t1"
    by (simp add: phase_root_def swap flip: t1_def) (simp add: r1 check_node_def)
  moreover have "phase_left_right t1 = Inr t3"
    by (simp add: phase_left_right_def swap flip: t2_def) (simp add: r2 check_node_def swap r3 flip: t3_def)
  ultimately show ?thesis using 3 r3 by simp
qed

text \<open>The copy of the address is one character longer than its block.\<close>

lemma getserveripaddr_short: "getserveripaddr ifs = Some (ip, k) \<Longrightarrow> k < length (ip @ [NUL])"
  by (induction ifs rule: getserveripaddr.induct) (auto split: if_splits)

section \<open>What the benchmark runs\<close>

fun runs_of :: "bench_act list \<Rightarrow> string list list" where
  "runs_of [] = []"
| "runs_of (Run v # as) = v # runs_of as"
| "runs_of (_ # as) = runs_of as"

lemma runs_of_append [simp]: "runs_of (as @ bs) = runs_of as @ runs_of bs"
  by (induction as rule: runs_of.induct) simp_all

lemma reaper_runs: "runs_of (fst (child_reaper pc ws)) = []"
  by (induction pc ws rule: child_reaper.induct) (auto simp: Let_def split: prod.splits)

lemma handle_runs: "handle pc sg = (a, ended) \<Longrightarrow> runs_of a = []"
  using reaper_runs [of pc] by (cases sg) (auto simp: handle_def, metis fst_conv)

lemma fork_and_exec_runs: "0 \<le> pid \<Longrightarrow> runs_of (fork_and_exec pid argv) = [exec_argv argv]"
  by (simp add: fork_and_exec_def)

definition quiet_phase :: "string option list \<times> int \<times> int \<times> int \<times> bench_signal \<Rightarrow> bool" where
  "quiet_phase = (\<lambda>(argv, pid, pc, n, sg). 0 \<le> pid \<and> \<not> snd (handle pc sg))"

lemma run_phases_runs:
  "list_all quiet_phase ps \<Longrightarrow> \<exists>acts. bench_phases ps = (acts, False) \<and> runs_of acts = map (\<lambda>(argv, _). exec_argv argv) ps"
proof (induction ps rule: bench_phases.induct)
  case (2 argv pid pc n sg ps)
  obtain a where a: "handle pc sg = (a, False)" using "2.prems" by (cases "handle pc sg") (simp add: quiet_phase_def)
  then obtain b where b: "bench_phases ps = (b, False)" "runs_of b = map (\<lambda>(argv, _). exec_argv argv) ps"
    using "2.IH" [of a False] "2.prems" by auto
  show ?case using a b handle_runs [OF a] "2.prems" by (simp add: fork_and_exec_runs quiet_phase_def)
qed simp

section \<open>The series\<close>

lemma int32_step: "int32 (int32 x * 4) = int32 (x * 4)" "int32 (int32 x + 1) = int32 (x + 1)"
proof -
  have m: "int32 x mod 2 ^ 32 = x mod 2 ^ 32"
    unfolding int32_def by (simp add: mod_diff_left_eq)
  have eq: "int32 a = int32 b" if "a mod 2 ^ 32 = b mod 2 ^ 32" for a b
    using that unfolding int32_def by (metis mod_add_left_eq)
  show "int32 (int32 x * 4) = int32 (x * 4)" by (rule eq) (metis m mod_mult_left_eq)
  show "int32 (int32 x + 1) = int32 (x + 1)" by (rule eq) (metis m mod_add_left_eq)
qed

lemma int32_round: "int32 (1024 * 4 ^ k) = (if k \<le> 10 then 1024 * 4 ^ k else 0)"
proof (cases "k \<le> 10")
  case True
  then have "(4::int) ^ k \<le> 4 ^ 10" by (intro power_increasing) auto
  moreover have "- (2 ^ 31) \<le> (1024::int) * 4 ^ k" by (rule order.trans [of _ 0]) simp_all
  ultimately have "in_int32 (1024 * 4 ^ k)" by (simp add: in_int32_def)
  then show ?thesis using True by simp
next
  case False
  then obtain d where "k = 11 + d" using nat_le_iff_add [of 11 k] by auto
  then have "(1024::int) * 4 ^ k = 2 ^ 32 * 4 ^ d" by (simp add: power_add)
  then show ?thesis using False by (simp add: int32_def)
qed

lemma macro_loop_rounds:
  "macro_loop n 1024 (int32 (1024 * 4 ^ k)) (int32 (int k))
     = (concat (map (\<lambda>k. macro_round (int32 (1024 * 4 ^ k)) (int32 (int k))) [k..<k + n]), False)"
proof (induction n arbitrary: k)
  case (Suc n)
  have "int32 (int32 (1024 * 4 ^ k) * 4) = int32 (1024 * 4 ^ Suc k)" "int32 (int32 (int k) + 1) = int32 (int (Suc k))"
    using int32_step(1) [of "1024 * 4 ^ k"] int32_step(2) [of "int k"] by (simp_all add: ac_simps)
  with Suc [of "Suc k"] show ?case by (simp add: upt_conv_Cons del: upt_Suc)
qed simp

lemma macro_never_ends:
  "macro_main n = (concat (map (\<lambda>k. macro_round (if k \<le> 10 then 1024 * 4 ^ k else 0) (int32 (int k))) [0..<n]), False)"
  using macro_loop_rounds [of n 0] unfolding macro_main_def int32_round by (simp add: Let_def int32_def)

text \<open>What a round's two benchmarks ask of their clients.\<close>

lemma macro_queries:
  assumes "cmd \<in> set (macro_round q j)" and "in_int32 q" and "0 \<le> q"
  shows "\<exists>server client. bench_vectors cmd ip = Some (server, client) \<and> length cmd = 5
    \<and> benchmark_main fork (exec_argv client) = (fork_loop fork 64 [], RAND, q div 64)"
proof -
  have 64: "atoi ''64'' = 64" by code_simp
  have div: "c_div q 64 = q div 64" using assms(3) by (cases "q = 0") (simp_all add: c_div_def)
  show ?thesis using assms(1)
    by (auto simp: macro_round_def bench_vectors_def exec_argv_def benchmark_main_def 64 query_type_def
        atoi_show_int [OF assms(2)] div Let_def)
qed

section \<open>Properties\<close>

text \<open>
  When no child reports an error, the benchmark starts the server of the option and then, in
  each of its three phases, the same client with the same five arguments: the words \<^verbatim>\<open>show\<close> and \<^verbatim>\<open>modify\<close> go into
  the server's vector, which is not used again, and all three phases measure the random queries.
\<close>

theorem benchmark_phases_same:
  assumes "5 \<le> length argv" and "argv ! 4 = ''-e'' \<or> take 2 (argv ! 4) = ''-t''" and "getserveripaddr ifs = Some (ip, k)"
    and "list_all (\<lambda>n. 0 \<le> fork n \<and> \<not> snd (handle (if n = 0 then 0 else fork n) (sg n))) [0..<4]"
  shows "\<exists>acts server. benchmark_run fork ifs sg argv = Bench (acts @ [KillServer (fork 0)])
    \<and> runs_of acts = server # replicate 3 [''../../client/multiclient_benchmark'', ip, argv ! 1, argv ! 2, argv ! 3]
    \<and> query_type [''../../client/multiclient_benchmark'', ip, argv ! 1, argv ! 2, argv ! 3] = RAND"
proof -
  define client0 where "client0 = map Some [''../../client/multiclient_benchmark'', ip, argv ! 1, argv ! 2, argv ! 3] @ [None, None]"
  obtain server0 where v: "bench_vectors argv ip = Some (server0, client0)"
    using assms(2) unfolding bench_vectors_def client0_def Let_def by (metis (full_types))
  have c: "exec_argv client0 = [''../../client/multiclient_benchmark'', ip, argv ! 1, argv ! 2, argv ! 3]"
    by (simp add: client0_def exec_argv_def)
  let ?n = "atoi (argv ! 3)"
  have "list_all quiet_phase [(server0, fork 0, 0, 0, sg 0), (client0, fork 1, fork 1, ?n, sg 1),
      (client0, fork 2, fork 2, ?n, sg 2), (client0, fork 3, fork 3, ?n, sg 3)]"
    using assms(4) by (simp add: quiet_phase_def upt_rec numeral_2_eq_2 numeral_3_eq_3)
  from run_phases_runs [OF this] obtain acts where
    "bench_phases [(server0, fork 0, 0, 0, sg 0), (client0, fork 1, fork 1, ?n, sg 1),
      (client0, fork 2, fork 2, ?n, sg 2), (client0, fork 3, fork 3, ?n, sg 3)] = (acts, False)"
    "runs_of acts = exec_argv server0 # replicate 3 (exec_argv client0)" by (auto simp: numeral_3_eq_3)
  then show ?thesis using assms(1,3) v c by (simp add: benchmark_run_def Let_def query_type_def)
qed

text \<open>The theorem on a run against the event-driven server in which every child ends well.\<close>

lemma benchmark_phases_same_witness:
  "\<exists>acts server. benchmark_run (\<lambda>n. 100 + int n) [(None, []), (Some 2, ''127.0.0.1'')]
      (\<lambda>n. if n = 0 then Sigendclock else Sigchld [(100 + int n, 0)]) [''./benchmark'', ''1024'', ''64'', ''1024'', ''-e'']
        = Bench (acts @ [KillServer 100])
    \<and> runs_of acts = server # replicate 3 [''../../client/multiclient_benchmark'', ''127.0.0.1'', ''1024'', ''64'', ''1024'']
    \<and> query_type [''../../client/multiclient_benchmark'', ''127.0.0.1'', ''1024'', ''64'', ''1024''] = RAND"
  using benchmark_phases_same [of "[''./benchmark'', ''1024'', ''64'', ''1024'', ''-e'']" "[(None, []), (Some 2, ''127.0.0.1'')]" "''127.0.0.1''" 9
    "\<lambda>n. 100 + int n" "\<lambda>n. if n = 0 then Sigendclock else Sigchld [(100 + int n, 0)]"]
  by (simp add: AF_INET_def handle_def WEXITSTATUS_def upt_rec)

text \<open>
  (C37) The test of the binary tree passes: whatever numbers a generator gives that comes back to
  every residue of 100, the run ends, no check, assertion or null node stops it, and at its end the tree has
  exactly the identifiers 0 to 99, each with the count and the price that the test has on record for it, and
  no count is negative.
\<close>

theorem binary_tree_test_passes:
  assumes "fair rnd"
  shows "\<exists>t. binary_tree_test rnd = Some (Inr t) \<and> dom (table_of (tt_root t)) = {0..<100} \<and> counts_ok (table_of (tt_root t))
    \<and> (\<forall>(i, c, p) \<in> set (tt_info_arr t). table_of (tt_root t) i = Some (c, p))"
proof -
  obtain t where t: "check_then (phase_root tree_test0) phase_left_right = Inr t" "noted t" "tt_node_count t = 3" "tt_root t \<noteq> NullStock"
    using noted_start by blast
  obtain t1 where t1: "fill_loop (MAXNODE - 3) rnd t = Some t1" "noted t1" "tt_node_count t1 = MAXNODE"
    using fill_loop_noted [OF t(2) _ assms t(4), of "MAXNODE - 3"] t(3) by (auto simp: MAXNODE_def)
  note R = noted_recorded [OF t1(2,3)]
  obtain t2 where t2: "phase_modify rnd t1 = Inr t2" "recorded {} t2" using phase_modify_passes [OF R] by blast
  have "find_loop [0..<33] t1 = Inr t1" by (rule find_loop_passes [OF R]) (simp add: MAXNODE_def)
  then have "binary_tree_test rnd = Some (Inr t2)" by (simp add: binary_tree_test_def t(1,3) t1(1) t2(1))
  then show ?thesis using recorded_table [OF t2(2)] by (auto simp: MAXNODE_def)
qed

text \<open>The hypothesis of the theorem on a generator that counts.\<close>

lemma binary_tree_test_passes_witness:
  "fair (\<lambda>n. n) \<and> (\<exists>t. binary_tree_test (\<lambda>n. n) = Some (Inr t) \<and> dom (table_of (tt_root t)) = {0..<100}
    \<and> counts_ok (table_of (tt_root t)) \<and> (\<forall>(i, c, p) \<in> set (tt_info_arr t). table_of (tt_root t) i = Some (c, p)))"
proof -
  have "fair (\<lambda>n. n)" unfolding fair_def
  proof (intro allI impI)
    fix v k :: nat
    assume "v < MAXNODE"
    then show "\<exists>j \<ge> k. j mod MAXNODE = v" by (intro exI [of _ "v + MAXNODE * k"]) (simp add: MAXNODE_def)
  qed
  then show ?thesis using binary_tree_test_passes [of "\<lambda>n. n"] by blast
qed

end
