(* ===== verification/Calc64_Skeleton.thy ===== *)
theory Calc64_Skeleton
  imports Calc64
begin

text \<open>
  The first version of the calculator, \<^verbatim>\<open>CSE3030/calculator/hw1_skeleton.c\<close>, as it stands in the repository
  next to \<^verbatim>\<open>hw1.c\<close>: its own functions, which compute the carry before the sum, test the
  overflow in two statements, complement in the argument and add the one from the left.  The number
  type and the flag are those of \<open>Calc64\<close>.
\<close>

section \<open>The program\<close>

definition skel_getBit :: "int64 \<Rightarrow> nat \<Rightarrow> byte" where
  "skel_getBit a ind =
     (if ind < 32 then ucast (drop_bit ind (lp a AND push_bit ind 1))
      else ucast (drop_bit (ind - 32) (hp a AND push_bit (ind - 32) 1)))"

definition skel_setBit :: "int64 \<Rightarrow> byte \<Rightarrow> nat \<Rightarrow> int64" where
  "skel_setBit a b i =
     (let bit4 = ucast b :: u32 in
      if i < 32 then a\<lparr>lp := (lp a AND NOT (push_bit i 1)) OR push_bit i bit4\<rparr>
      else let offset = i - 32 in a\<lparr>hp := (hp a AND NOT (push_bit offset 1)) OR push_bit offset bit4\<rparr>)"

fun skel_add_loop :: "nat \<Rightarrow> nat \<Rightarrow> int64 \<Rightarrow> int64 \<Rightarrow> byte \<Rightarrow> int64 \<Rightarrow> int64" where
  "skel_add_loop 0 i x y carry_bit_in result = result"
| "skel_add_loop (Suc n) i x y carry_bit_in result =
     (let a_bit_i = skel_getBit x i;
          b_bit_i = skel_getBit y i;
          carry_bit_out = ((a_bit_i XOR b_bit_i) AND carry_bit_in) OR (a_bit_i AND b_bit_i);
          sum_bit = (a_bit_i XOR b_bit_i) XOR carry_bit_in
      in skel_add_loop n (Suc i) x y carry_bit_out (skel_setBit result sum_bit i))"

definition skel_add64 :: "int64 \<Rightarrow> int64 \<Rightarrow> int64 \<Rightarrow> byte \<Rightarrow> int64 \<times> byte" where
  "skel_add64 junk x y g_overflow =
     (let sign_a = skel_getBit y 63;
          sign_b = skel_getBit x 63;
          result = skel_add_loop 64 0 x y 0 junk;
          sign_c = skel_getBit result 63
      in (result,
          if (sign_a AND sign_b AND c_not sign_c) \<noteq> 0 then 1
          else if (c_not sign_a AND c_not sign_b AND sign_c) \<noteq> 0 then 1
          else g_overflow))"

fun skel_print_loop :: "nat \<Rightarrow> int64 \<Rightarrow> string" where
  "skel_print_loop 0 x = []"
| "skel_print_loop (Suc i) x =
     (if Suc i mod 8 = 0 then '' '' else []) @ (if skel_getBit x i \<noteq> 0 then ''1'' else ''0'') @ skel_print_loop i x"

definition skel_printBinaryRepresentation :: "int64 \<Rightarrow> string" where
  "skel_printBinaryRepresentation x = skel_print_loop 64 x @ [CHR 0x0A]"

definition skel_complement64 :: "int64 \<Rightarrow> int64 \<Rightarrow> byte \<Rightarrow> int64 \<times> byte" where
  "skel_complement64 junk x g_overflow = skel_add64 junk \<lparr>hp = 0, lp = 1\<rparr> \<lparr>hp = NOT (hp x), lp = NOT (lp x)\<rparr> g_overflow"

definition skel_sub64 :: "int64 \<Rightarrow> int64 \<Rightarrow> int64 \<Rightarrow> byte \<Rightarrow> int64 \<times> byte" where
  "skel_sub64 junk x y g_overflow =
     (case skel_complement64 junk y g_overflow of (complement_y, g1) \<Rightarrow> skel_add64 junk x complement_y g1)"

definition skel_line :: "string \<Rightarrow> int64 \<times> byte \<Rightarrow> string" where
  "skel_line tag r = tag @ (if snd r \<noteq> 0 then ''overflow!'' @ [CHR 0x0A] else skel_printBinaryRepresentation (fst r))"

text \<open>The test of the flag after the subtraction is commented out.\<close>

definition skel_main :: "int64 \<Rightarrow> int64 \<Rightarrow> int64 \<Rightarrow> string" where
  "skel_main junk op1 op2 =
     ''A:'' @ [CHR 0x09] @ skel_printBinaryRepresentation op1 @ ''B:'' @ [CHR 0x09] @ skel_printBinaryRepresentation op2
     @ skel_line (''ADD64:'' @ [CHR 0x09]) (skel_add64 junk op1 op2 0)
     @ skel_line (''COMP64:'' @ [CHR 0x09]) (skel_complement64 junk op2 0)
     @ ''SUB64:'' @ [CHR 0x09] @ skel_printBinaryRepresentation (fst (skel_sub64 junk op1 op2 0))"

section \<open>It computes what the finished program computes\<close>

lemma skel_bits [simp]: "skel_getBit = getBit" "skel_setBit = setBit"
  by (simp_all add: fun_eq_iff skel_getBit_def getBit_def skel_setBit_def setBit_def Let_def)

lemma skel_add_loop_eq [simp]: "skel_add_loop n i x y c r = add_loop n i x y c r"
  by (induction n i x y c r rule: add_loop.induct) (simp_all add: Let_def and.commute)

lemma skel_add64_eq [simp]: "skel_add64 = add64"
  by (auto simp: fun_eq_iff skel_add64_def add64_def Let_def and.assoc and.commute and.left_commute)

lemma skel_print_eq [simp]: "skel_print_loop n x = print_loop n x" "skel_printBinaryRepresentation x = printBinaryRepresentation x"
proof -
  show "skel_print_loop n x = print_loop n x" for n by (induction n) simp_all
  then show "skel_printBinaryRepresentation x = printBinaryRepresentation x"
    by (simp add: skel_printBinaryRepresentation_def printBinaryRepresentation_def)
qed

lemma add64_commute: "add64 junk x y g = add64 junk y x g"
proof (rule prod_eqI)
  show "fst (add64 junk x y g) = fst (add64 junk y x g)" by (rule word64_inj) (simp add: add64_result add.commute)
  show "snd (add64 junk x y g) = snd (add64 junk y x g)" by (simp add: add64_result add.commute)
qed

lemma skel_complement64_eq [simp]: "skel_complement64 = complement64"
proof (intro ext)
  fix junk x g
  show "skel_complement64 junk x g = complement64 junk x g"
    unfolding skel_complement64_def complement64_def skel_add64_eq by (rule add64_commute)
qed

lemma skel_sub64_eq [simp]: "skel_sub64 = sub64"
  by (simp add: fun_eq_iff skel_sub64_def sub64_def)

text \<open>
  (C38) The two versions of the calculator agree on every pair of numbers and whatever the uninitialised result
  held: sum, complement and difference with their overflow flags, although the complement adds the
  one on the other side.  Their outputs are the same exactly when the subtraction does not overflow.
\<close>

theorem skeleton_agrees:
  "skel_add64 junk x y g = add64 junk x y g \<and> skel_complement64 junk y g = complement64 junk y g
   \<and> skel_sub64 junk x y g = sub64 junk x y g
   \<and> (skel_main junk x y = calc_main junk x y \<longleftrightarrow> snd (sub64 junk x y 0) = 0)"
proof -
  have "printBinaryRepresentation z \<noteq> ''overflow!'' @ [CHR 0x0A]" for z
  proof -
    have "print_loop (Suc 63) z = '' '' @ (if getBit z 63 \<noteq> 0 then ''1'' else ''0'') @ print_loop 63 z"
      by (subst print_loop.simps(2)) simp
    then have "hd (printBinaryRepresentation z) = CHR '' ''" by (simp add: printBinaryRepresentation_def)
    then show ?thesis by auto
  qed
  then show ?thesis by (auto simp: skel_main_def calc_main_def skel_line_def calc_line_def)
qed

end
