(* ===== verification/Machine_Code.thy ===== *)
theory Machine_Code
  imports C_Strings
begin

text \<open>
  The machine-level exercises (\<^verbatim>\<open>excode/3MachineLevelRepresentation\<close> and \<^verbatim>\<open>CSE3030/HW1_PP/hw3.c\<close>): small C
  functions with the x86-64 code that their comments give for them.  The C side works on words of the
  types' widths; where C leaves a signed overflow or a shift by the width or more undefined the words
  wrap.  The machine side is a register machine with the instructions that occur, a flag for the last
  comparison and a memory of quadwords; pointers to \<^verbatim>\<open>long\<close> are aligned, so two of them are
  equal or do not overlap.
\<close>

unbundle bit_operations_syntax

section \<open>The machine\<close>

datatype reg = RAX | RBX | RCX | RDX | RSI | RDI | RBP | RSP

type_synonym quad = "64 word"

record mach =
  gpr :: "reg \<Rightarrow> quad"
  lt_flag :: bool
  quads :: "quad \<Rightarrow> quad"

datatype instr =
    Movq reg reg | Movl reg reg | MovqStore reg reg | Leaq quad reg | LeaqIdx reg reg quad reg
  | Xorq reg reg | Orq reg reg | Addq reg reg | Subq reg reg | AddqI quad reg | SubqI quad reg
  | AndlI "32 word" reg | SalqI nat reg | SarqI nat reg | SarqCl reg | Notq reg
  | Cmpq reg reg | Jl string | Label string
  | Pushq reg | PushqI quad | Popq reg | Callq string | Endbr64 | Ret

definition setr :: "reg \<Rightarrow> quad \<Rightarrow> mach \<Rightarrow> mach" where
  "setr r v s = s\<lparr>gpr := (gpr s)(r := v)\<rparr>"

definition push :: "quad \<Rightarrow> mach \<Rightarrow> mach" where
  "push v s = (let sp = gpr s RSP - 8 in setr RSP sp (s\<lparr>quads := (quads s)(sp := v)\<rparr>))"

text \<open>In the order of the assembler, source first.  An operation on a 32-bit register clears the upper half; a
  shift by \<^verbatim>\<open>%cl\<close> takes its count modulo 64.  A call pushes the return address, which the procedure's
  \<^verbatim>\<open>ret\<close> takes off again, and the procedure itself is a function on states.\<close>

fun instr_step :: "(string \<Rightarrow> mach \<Rightarrow> mach) \<Rightarrow> nat \<Rightarrow> instr \<Rightarrow> mach \<Rightarrow> mach" where
  "instr_step procs pc (Movq a d) s = setr d (gpr s a) s"
| "instr_step procs pc (Movl a d) s = setr d (ucast (ucast (gpr s a) :: 32 word)) s"
| "instr_step procs pc (MovqStore a d) s = s\<lparr>quads := (quads s)(gpr s d := gpr s a)\<rparr>"
| "instr_step procs pc (Leaq disp d) s = setr d (gpr s RBP + disp) s"
| "instr_step procs pc (LeaqIdx b i k d) s = setr d (gpr s b + gpr s i * k) s"
| "instr_step procs pc (Xorq a d) s = setr d (gpr s d XOR gpr s a) s"
| "instr_step procs pc (Orq a d) s = setr d (gpr s d OR gpr s a) s"
| "instr_step procs pc (Addq a d) s = setr d (gpr s d + gpr s a) s"
| "instr_step procs pc (Subq a d) s = setr d (gpr s d - gpr s a) s"
| "instr_step procs pc (AddqI v d) s = setr d (gpr s d + v) s"
| "instr_step procs pc (SubqI v d) s = setr d (gpr s d - v) s"
| "instr_step procs pc (AndlI v d) s = setr d (ucast ((ucast (gpr s d) :: 32 word) AND v)) s"
| "instr_step procs pc (SalqI k d) s = setr d (push_bit k (gpr s d)) s"
| "instr_step procs pc (SarqI k d) s = setr d (signed_drop_bit k (gpr s d)) s"
| "instr_step procs pc (SarqCl d) s = setr d (signed_drop_bit (unat (gpr s RCX AND 63)) (gpr s d)) s"
| "instr_step procs pc (Notq d) s = setr d (NOT (gpr s d)) s"
| "instr_step procs pc (Cmpq a d) s = s\<lparr>lt_flag := gpr s d <s gpr s a\<rparr>"
| "instr_step procs pc (Jl l) s = s"
| "instr_step procs pc (Label l) s = s"
| "instr_step procs pc Endbr64 s = s"
| "instr_step procs pc (Pushq a) s = push (gpr s a) s"
| "instr_step procs pc (PushqI v) s = push v s"
| "instr_step procs pc (Popq d) s = setr d (quads s (gpr s RSP)) (setr RSP (gpr s RSP + 8) s)"
| "instr_step procs pc (Callq f) s = (let s1 = procs f (push (word_of_nat (pc + 1)) s) in setr RSP (gpr s1 RSP + 8) s1)"
| "instr_step procs pc Ret s = setr RSP (gpr s RSP + 8) s"

fun label_at :: "instr list \<Rightarrow> string \<Rightarrow> nat" where
  "label_at [] l = 0"
| "label_at (i # is) l = (if i = Label l then 0 else Suc (label_at is l))"

definition next_pc :: "instr list \<Rightarrow> nat \<Rightarrow> instr \<Rightarrow> mach \<Rightarrow> nat" where
  "next_pc code pc i s = (case i of Jl l \<Rightarrow> if lt_flag s then label_at code l else pc + 1 | _ \<Rightarrow> pc + 1)"

text \<open>Execution from an instruction to the return, with a bound on the steps; a jump goes back or forth.\<close>

fun run_code :: "(string \<Rightarrow> mach \<Rightarrow> mach) \<Rightarrow> instr list \<Rightarrow> nat \<Rightarrow> nat \<Rightarrow> mach \<Rightarrow> mach option" where
  "run_code procs code 0 pc s = None"
| "run_code procs code (Suc n) pc s =
     (if length code \<le> pc then None
      else if code ! pc = Ret then Some (instr_step procs pc Ret s)
      else run_code procs code n (next_pc code pc (code ! pc) s) (instr_step procs pc (code ! pc) s))"

definition no_procs :: "string \<Rightarrow> mach \<Rightarrow> mach" where
  "no_procs f s = s"

section \<open>The C functions and their listings\<close>

text \<open>The listing of \<open>arith\<close> stops before its \<^verbatim>\<open>ret\<close>, which is added here.\<close>

definition arith :: "quad \<Rightarrow> quad \<Rightarrow> quad \<Rightarrow> quad" where
  "arith x y z =
     (let t1 = x XOR y; t2 = z * 48; t3 = t1 AND 0x0F0F0F0F; t4 = t2 - t3 in t4)"

definition arith_code :: "instr list" where
  "arith_code = [Xorq RSI RDI, LeaqIdx RDX RDX 2 RAX, SalqI 4 RAX, AndlI 252645135 RDI, Subq RDI RAX, Ret]"

definition arith3 :: "16 word \<Rightarrow> 16 word \<Rightarrow> 16 word \<Rightarrow> 16 word" where
  "arith3 x y z =
     (let p1 = z OR y; p2 = signed_drop_bit 9 p1; p3 = NOT p2; p4 = y - p3 in p4)"

definition arith3_code :: "instr list" where
  "arith3_code = [Orq RSI RDX, SarqI 9 RDX, Notq RDX, Movq RDX RBX, Subq RSI RBX, Ret]"

definition shift_left4_rightn :: "quad \<Rightarrow> quad \<Rightarrow> quad" where
  "shift_left4_rightn x n = (let x1 = push_bit 4 x; x2 = signed_drop_bit (unat n) x1 in x2)"

definition shift_code :: "instr list" where
  "shift_code = [Movq RDI RAX, SalqI 4 RAX, Movl RSI RCX, SarqCl RAX, Ret]"

definition mult2 :: "quad \<Rightarrow> quad \<Rightarrow> quad" where
  "mult2 a b = (let s = a * b in s)"

definition mulstore :: "quad \<Rightarrow> quad \<Rightarrow> quad \<Rightarrow> (quad \<Rightarrow> quad) \<Rightarrow> quad \<Rightarrow> quad" where
  "mulstore x y dest m = (let t = mult2 x y in m(dest := t))"

definition mulstore_code :: "instr list" where
  "mulstore_code = [Endbr64, Pushq RBX, Movq RDX RBX, Callq ''mult2'', MovqStore RAX RBX, Popq RBX, Ret]"

text \<open>\<^verbatim>\<open>main\<close> passes \<open>d\<close> before it has a value; what it holds is the argument.\<close>

definition mulstore_main :: "quad \<Rightarrow> string" where
  "mulstore_main d =
     (let m = mulstore d 3 0x100 ((\<lambda>_. 0)(0x100 := d)) in ''2*3-->'' @ show_int (sint (m 0x100)) @ [NEWLINE])"

definition scale :: "quad \<Rightarrow> quad \<Rightarrow> quad \<Rightarrow> quad" where
  "scale x y z = (let t = x + 4 * y + 12 * z in t)"

definition scale3 :: "16 word \<Rightarrow> 16 word \<Rightarrow> 16 word \<Rightarrow> 16 word" where
  "scale3 x y z = (let t = 10 * (scast y :: 32 word) + scast z + scast x * scast y in ucast t)"

definition store_uprod :: "quad \<Rightarrow> quad \<Rightarrow> 128 word" where
  "store_uprod x y = ucast x * ucast y"

definition exchange_quad :: "quad \<Rightarrow> quad \<Rightarrow> (quad \<Rightarrow> quad) \<Rightarrow> quad \<times> (quad \<Rightarrow> quad)" where
  "exchange_quad xp y m = (let x = m xp in (x, m(xp := y)))"

text \<open>A \<^verbatim>\<open>long\<close> assigned to an \<^verbatim>\<open>int\<close> and back.\<close>

definition as_int :: "quad \<Rightarrow> quad" where
  "as_int v = scast (ucast v :: 32 word)"

definition decode1 :: "quad \<Rightarrow> quad \<Rightarrow> quad \<Rightarrow> (quad \<Rightarrow> quad) \<Rightarrow> quad \<Rightarrow> quad" where
  "decode1 xp yp zp m =
     (let x = as_int (m xp); y = as_int (m yp); z = as_int (m zp) in m(yp := x, zp := y, xp := z))"

text \<open>The case 103 falls through.\<close>

definition switch_eg :: "quad \<Rightarrow> quad \<Rightarrow> quad" where
  "switch_eg x n =
     (let val = x in
      if n = 100 then val * 13
      else if n = 102 then val + 10
      else if n = 103 then (let val = val + 11 in val * val)
      else if n = 104 \<or> n = 106 then val * val
      else 0)"

section \<open>The exercise sheet\<close>

definition my_func :: "32 word \<Rightarrow> 32 word \<Rightarrow> 32 word" where
  "my_func x y =
     (if x <s y then (if 2 * x <s y then y - 2 * x else y - x) else y + x)"

definition my_func_code :: "instr list" where
  "my_func_code =
     [Movq RSI RAX, Cmpq RDI RSI, Jl ''.L4'', Subq RDI RAX, Cmpq RDI RAX, Jl ''.L5'', Ret,
      Label ''.L4'', Addq RDI RAX, Ret, Label ''.L5'', Subq RDI RAX, Ret]"

fun func_for :: "nat \<Rightarrow> 16 word \<Rightarrow> 32 word \<Rightarrow> 32 word \<Rightarrow> 32 word option" where
  "func_for 0 i a result = None"
| "func_for (Suc n) i a result =
     (if i < 10 then func_for n (i + 1) a (result + a * (ucast i + 1)) else Some result)"

fun func_goto :: "nat \<Rightarrow> 16 word \<Rightarrow> 32 word \<Rightarrow> 32 word \<Rightarrow> 32 word option" where
  "func_goto 0 i a result = None"
| "func_goto (Suc n) i a result =
     (if \<not> i < 10 then Some result
      else let result = result + a * (ucast i + 1); i = i + 1 in func_goto n i a result)"

definition proc_code :: "instr list" where
  "proc_code =
     [Pushq RBP, Movq RSP RBP, SubqI 16 RSP, AddqI (- 24) RSP, Leaq (- 8) RAX, Pushq RAX, Leaq (- 16) RAX, Pushq RAX,
      Leaq (- 24) RAX, Pushq RAX, PushqI 3, Callq ''subproc'', Movq RBP RSP, Popq RBP, Ret]"


section \<open>Running the listings\<close>

lemma setr_simps [simp]:
  "gpr (setr r v s) = (gpr s)(r := v)" "quads (setr r v s) = quads s" "lt_flag (setr r v s) = lt_flag s"
  by (simp_all add: setr_def)

lemma push_simps [simp]:
  "gpr (push v s) = (gpr s)(RSP := gpr s RSP - 8)" "quads (push v s) = (quads s)(gpr s RSP - 8 := v)" "lt_flag (push v s) = lt_flag s"
  by (simp_all add: push_def Let_def)

lemma run_code_numeral [simp]:
  "run_code procs code (numeral k) pc s =
     (if length code \<le> pc then None
      else if code ! pc = Ret then Some (instr_step procs pc Ret s)
      else run_code procs code (pred_numeral k) (next_pc code pc (code ! pc) s) (instr_step procs pc (code ! pc) s))"
  by (simp add: numeral_eq_Suc)

text \<open>A result in a register; the return takes the return address off the stack.\<close>

definition returns :: "mach option \<Rightarrow> reg \<Rightarrow> quad \<Rightarrow> bool" where
  "returns r reg v = (case r of None \<Rightarrow> False | Some s \<Rightarrow> gpr s reg = v)"

lemma and_mask32: "ucast ((ucast (w :: quad) :: 32 word) AND v) = w AND ucast v"
  by (rule bit_word_eqI) (auto simp: bit_and_iff bit_ucast_iff dest: bit_imp_le_length)

lemma shift_count: "unat (ucast (ucast (n :: quad) :: 32 word) AND (63 :: quad)) = unat n mod 64"
proof -
  have m: "(63 :: quad) = mask 6" by (simp add: mask_eq_exp_minus_1)
  have "ucast (ucast n :: 32 word) AND (63 :: quad) = take_bit 6 n"
    unfolding m by (rule bit_word_eqI) (auto simp: bit_and_iff bit_ucast_iff bit_take_bit_iff bit_mask_iff dest: bit_imp_le_length)
  then have "unat (ucast (ucast n :: 32 word) AND (63 :: quad)) = take_bit 6 (unat n)" by (simp only: unsigned_take_bit_eq)
  then show ?thesis by (simp add: take_bit_eq_mod)
qed

lemma shift_listing:
  "returns (run_code no_procs shift_code 5 0 s) RAX (signed_drop_bit (unat (gpr s RSI) mod 64) (push_bit 4 (gpr s RDI)))"
  by (simp add: next_pc_def shift_code_def returns_def shift_count)


lemma shift_listing_defined:
  "unat (gpr s RSI) < 64 \<Longrightarrow> returns (run_code no_procs shift_code 5 0 s) RAX (shift_left4_rightn (gpr s RDI) (gpr s RSI))"
  using shift_listing [of s] by (simp add: shift_left4_rightn_def)

text \<open>A listing for \<^verbatim>\<open>short\<close>s works on registers that hold the sign-extended arguments; the result is the low half-word.\<close>

lemma ucast_or: "ucast (a OR b :: quad) = (ucast a OR ucast b :: 16 word)"
  by (rule bit_word_eqI) (simp add: bit_or_iff bit_ucast_iff)

lemma ucast_sar_scast: "ucast (signed_drop_bit 9 (scast a OR scast b :: quad)) = (signed_drop_bit 9 (a OR b) :: 16 word)"
  for a b :: "16 word"
proof (rule bit_word_eqI)
  fix n
  assume "n < LENGTH(16)"
  then show "bit (ucast (signed_drop_bit 9 (scast a OR scast b :: quad)) :: 16 word) n = bit (signed_drop_bit 9 (a OR b)) n"
    by (cases "n = 6") (auto simp: bit_ucast_iff bit_signed_drop_bit_iff bit_or_iff bit_signed_iff min_def)
qed

lemma ucast16_ring: "ucast (a - b :: quad) = (ucast a - ucast b :: 16 word)" "ucast (NOT a :: quad) = (NOT (ucast a) :: 16 word)"
proof -
  show "ucast (NOT a :: quad) = (NOT (ucast a) :: 16 word)" by (rule bit_word_eqI) (auto simp: bit_not_iff bit_ucast_iff)
  show "ucast (a - b :: quad) = (ucast a - ucast b :: 16 word)"
    by (simp add: word_uint_eq_iff uint_word_ariths unsigned_ucast_eq take_bit_eq_mod mod_mod_cancel mod_simps)
qed

lemma arith3_listing:
  assumes "gpr s RDI = scast x" and "gpr s RSI = scast y" and "gpr s RDX = scast z"
  shows "\<exists>s'. run_code no_procs arith3_code 6 0 s = Some s' \<and> ucast (gpr s' RBX) = - arith3 x y z"
proof -
  have y: "ucast (scast y :: quad) = y"
  proof (rule bit_word_eqI)
    fix n
    assume "n < LENGTH(16)"
    then show "bit (ucast (scast y :: quad) :: 16 word) n = bit y n" by (cases "n = 15") (auto simp: bit_ucast_iff bit_signed_iff min_def)
  qed
  show ?thesis
    using assms by (simp add: next_pc_def arith3_code_def arith3_def ucast16_ring ucast_sar_scast y)
qed

text \<open>The System V convention, as far as it is used: the result is in \<^verbatim>\<open>%rax\<close>, the registers below are saved by the
  callee, and what is at the stack pointer and above is kept.\<close>

definition keeps_frame :: "(mach \<Rightarrow> mach) \<Rightarrow> bool" where
  "keeps_frame f \<longleftrightarrow> (\<forall>s. gpr (f s) RBX = gpr s RBX \<and> gpr (f s) RBP = gpr s RBP \<and> gpr (f s) RSP = gpr s RSP)"

definition computes :: "(mach \<Rightarrow> mach) \<Rightarrow> (quad \<Rightarrow> quad \<Rightarrow> quad) \<Rightarrow> bool" where
  "computes f g \<longleftrightarrow> keeps_frame f \<and> (\<forall>s. gpr (f s) RAX = g (gpr s RDI) (gpr s RSI) \<and> quads (f s) = quads s)"

lemma my_func_loops: "func_for n i a r = func_goto n i a r"
  by (induction n i a r rule: func_for.induct) (simp_all add: Let_def)

lemma func_for_numeral [simp]:
  "func_for (numeral k) i a r = (if i < 10 then func_for (pred_numeral k) (i + 1) a (r + a * (ucast i + 1)) else Some r)"
  by (simp add: numeral_eq_Suc)

lemma func_value: "func_for 11 0 a a = Some (56 * a)"
proof -
  have "func_for 11 0 a a = Some (a + a * 1 + a * 2 + a * 3 + a * 4 + a * 5 + a * 6 + a * 7 + a * 8 + a * 9 + a * 10)"
    by simp
  then show ?thesis by (simp add: algebra_simps)
qed


text \<open>A claim in the sheet's comment: that \<^verbatim>\<open>func(1)\<close> is 3628800.\<close>

lemma func_claim: "func_for 11 0 1 1 = Some 56"
  using func_value [of 1] by simp

lemma sint_int_bounds: "- (2 ^ 31) \<le> sint (x :: 32 word)" "sint x < 2 ^ 31"
  using sint_ge [of x] sint_lt [of x] by simp_all

lemma sint_quad: "- (2 ^ 63) \<le> k \<Longrightarrow> k < 2 ^ 63 \<Longrightarrow> sint (word_of_int k :: quad) = k"
  by (simp add: signed_of_int signed_take_bit_int_eq_self)

lemma scast_quad: "(scast (x :: 32 word) :: quad) = word_of_int (sint x)"
  by (rule scast_eq)

text \<open>What the listing of \<open>my_func\<close> computes on sign-extended arguments.\<close>

definition my_func_asm :: "int \<Rightarrow> int \<Rightarrow> int" where
  "my_func_asm x y = (if y < x then y + x else if y - x < x then y - x - x else y - x)"

lemma my_func_listing:
  assumes "gpr s RDI = scast (x :: 32 word)" and "gpr s RSI = scast (y :: 32 word)"
  shows "returns (run_code no_procs my_func_code 9 0 s) RAX (word_of_int (my_func_asm (sint x) (sint y)))"
proof -
  note b = sint_int_bounds [of x] sint_int_bounds [of y]
  have X: "sint (scast x :: quad) = sint x" unfolding scast_quad by (rule sint_quad) (use b in simp_all)
  have Y: "sint (scast y :: quad) = sint y" unfolding scast_quad by (rule sint_quad) (use b in simp_all)
  have "sint (word_of_int (sint y - sint x) :: quad) = sint y - sint x" by (rule sint_quad) (use b in simp_all)
  then have d: "sint (scast y - scast x :: quad) = sint y - sint x" by simp
  show ?thesis
    using assms by (simp add: next_pc_def my_func_code_def returns_def my_func_asm_def word_sless_alt X Y d)
qed

text \<open>It is not the C function above it: at 1 and 3 that gives 1, and the listing 2.\<close>

lemma my_func_differs: "my_func 1 3 = 1 \<and> my_func_asm 1 3 = 2"
  by (simp add: my_func_def my_func_asm_def word_sless_alt)

text \<open>What \<open>decode1\<close> does to three different places: it passes the values round through an \<^verbatim>\<open>int\<close>.\<close>

lemma decode1_rotates:
  "distinct [xp, yp, zp] \<Longrightarrow> decode1 xp yp zp m yp = as_int (m xp) \<and> decode1 xp yp zp m zp = as_int (m yp)
    \<and> decode1 xp yp zp m xp = as_int (m zp)"
  by (auto simp: decode1_def Let_def)

lemma decode1_truncates: "decode1 0 8 16 ((\<lambda>_. 0)(0 := 0x100000005)) 8 = 5"
  by (simp add: decode1_def Let_def as_int_def)

lemma mulstore_main_prints: "mulstore_main d = ''2*3-->'' @ show_int (sint (d * 3)) @ [NEWLINE]"
  by (simp add: mulstore_main_def Let_def mulstore_def mult2_def)

lemma store_uprod_exact: "uint (store_uprod x y) = uint x * uint y"
proof -
  have "uint x * uint y < 2 ^ 64 * 2 ^ 64" using unsigned_less [of x] unsigned_less [of y] by (intro mult_strict_mono) simp_all
  moreover have "take_bit 128 (uint w) = uint w" for w :: quad
  proof -
    have "uint w < 2 ^ 64" using unsigned_less [of w] by simp
    then show ?thesis by (intro take_bit_int_eq_self) simp_all
  qed
  ultimately show ?thesis by (simp add: store_uprod_def uint_word_ariths unsigned_ucast_eq)
qed

text \<open>The comments of \<open>scale3\<close> build the value up as \<open>10y\<close>, \<open>+z\<close>, \<open>+x*y\<close>: in half-words that is the same.\<close>

lemma ucast_int_ring:
  "ucast (a + b :: 32 word) = (ucast a + ucast b :: 16 word)" "ucast (a * b :: 32 word) = (ucast a * ucast b :: 16 word)"
  by (simp_all add: word_uint_eq_iff uint_word_ariths unsigned_ucast_eq take_bit_eq_mod mod_mod_cancel mod_simps)

lemma scale3_halfwords: "scale3 x y z = 10 * y + z + x * y"
proof -
  have u: "ucast (scast w :: 32 word) = w" for w :: "16 word"
  proof (rule bit_word_eqI)
    fix n
    assume "n < LENGTH(16)"
    then show "bit (ucast (scast w :: 32 word) :: 16 word) n = bit w n" by (cases "n = 15") (auto simp: bit_ucast_iff bit_signed_iff min_def)
  qed
  show ?thesis by (simp add: scale3_def Let_def ucast_int_ring u)
qed

section \<open>Properties\<close>

text \<open>
  The listing of \<open>arith\<close> computes what the C function computes, from any state of the machine: the three
  times sixteen of \<^verbatim>\<open>leaq\<close> and \<^verbatim>\<open>salq\<close> is the multiplication by 48, and the 32-bit \<^verbatim>\<open>andl\<close>, which clears the upper half,
  is the conjunction with the mask.
\<close>

theorem arith_compiled:
  "returns (run_code no_procs arith_code 6 0 s) RAX (arith (gpr s RDI) (gpr s RSI) (gpr s RDX))"
proof -
  have "push_bit 4 (w + w * 2) = w * 48" for w :: quad by (simp add: push_bit_eq_mult)
  then show ?thesis
    by (simp add: next_pc_def arith_code_def arith_def returns_def and_mask32)
qed

text \<open>
  The disassembled \<open>mulstore\<close> stores the product at the destination and leaves every other place as it was
  above the stack pointer's two slots, and it gives \<^verbatim>\<open>%rbx\<close>, \<^verbatim>\<open>%rbp\<close> and the stack back, whatever procedure \<^verbatim>\<open>mult2\<close> is
  that computes the C function and follows the calling convention.
\<close>

theorem mulstore_compiled:
  assumes "computes (procs ''mult2'') mult2" and "gpr s RDX \<noteq> gpr s RSP - 8"
  shows "\<exists>s'. run_code procs mulstore_code 7 0 s = Some s' \<and> gpr s' RBX = gpr s RBX \<and> gpr s' RBP = gpr s RBP \<and> gpr s' RSP = gpr s RSP + 8
    \<and> (\<forall>a. a \<noteq> gpr s RSP - 8 \<and> a \<noteq> gpr s RSP - 16 \<longrightarrow> quads s' a = mulstore (gpr s RDI) (gpr s RSI) (gpr s RDX) (quads s) a)"
proof -
  have f: "gpr (procs ''mult2'' t) RAX = mult2 (gpr t RDI) (gpr t RSI)" "quads (procs ''mult2'' t) = quads t"
    "gpr (procs ''mult2'' t) RBX = gpr t RBX" "gpr (procs ''mult2'' t) RBP = gpr t RBP" "gpr (procs ''mult2'' t) RSP = gpr t RSP" for t
    using assms(1) by (simp_all add: computes_def keeps_frame_def)
  show ?thesis
    using assms(2) by (simp add: next_pc_def mulstore_code_def mulstore_def Let_def f)
qed

lemma mulstore_compiled_witness:
  "\<exists>s'. run_code (\<lambda>_ s. setr RAX (gpr s RDI * gpr s RSI) s) mulstore_code 7 0
      \<lparr>gpr = (\<lambda>_. 0x7000)(RDI := 6, RSI := 7, RDX := 0x100), lt_flag = False, quads = (\<lambda>_. 0)\<rparr> = Some s' \<and> quads s' 0x100 = 42"
proof -
  let ?s = "\<lparr>gpr = (\<lambda>_. 0x7000)(RDI := 6, RSI := 7, RDX := 0x100), lt_flag = False, quads = (\<lambda>_. 0)\<rparr> :: mach"
  have "computes (\<lambda>s. setr RAX (gpr s RDI * gpr s RSI) s) mult2"
    by (simp add: computes_def keeps_frame_def mult2_def)
  moreover have "gpr ?s RDX \<noteq> gpr ?s RSP - 8" by simp
  ultimately obtain s' where s': "run_code (\<lambda>_ s. setr RAX (gpr s RDI * gpr s RSI) s) mulstore_code 7 0 ?s = Some s'"
    "\<forall>a. a \<noteq> gpr ?s RSP - 8 \<and> a \<noteq> gpr ?s RSP - 16 \<longrightarrow> quads s' a = mulstore (gpr ?s RDI) (gpr ?s RSI) (gpr ?s RDX) (quads ?s) a"
    using mulstore_compiled [of "\<lambda>_ s. setr RAX (gpr s RDI * gpr s RSI) s" ?s] by blast
  have "quads s' 0x100 = mulstore (gpr ?s RDI) (gpr ?s RSI) (gpr ?s RDX) (quads ?s) 0x100" by (rule s'(2) [rule_format]) simp
  then have "quads s' 0x100 = 42" by (simp add: mulstore_def mult2_def)
  with s'(1) show ?thesis by blast
qed

section \<open>The frame of the last exercise\<close>

text \<open>At the mark \<^verbatim>\<open>(t)\<close>, before the call, with the stack pointer and the base pointer that the sheet gives.\<close>

definition upto_call :: "mach \<Rightarrow> mach" where
  "upto_call s = foldl (\<lambda>s i. instr_step no_procs 0 i s) s (take 11 proc_code)"

lemma proc_frame:
  assumes "gpr s RSP = 0x800070" and "gpr s RBP = 0x8000F0"
  shows "gpr (upto_call s) RSP = 0x800020" "gpr (upto_call s) RBP = 0x800068"
    "map (quads (upto_call s)) [0x800020, 0x800028, 0x800030, 0x800038, 0x800068] = [3, 0x800050, 0x800058, 0x800060, 0x8000F0]"
  using assms by (simp_all add: upto_call_def proc_code_def)

lemma proc_returns:
  assumes "keeps_frame (procs ''subproc'')" and "\<forall>s. quads (procs ''subproc'' s) (gpr s RBP) = quads s (gpr s RBP)"
  shows "\<exists>s'. run_code procs proc_code 15 0 s = Some s' \<and> gpr s' RBP = gpr s RBP \<and> gpr s' RSP = gpr s RSP + 8"
proof -
  have f: "gpr (procs ''subproc'' t) RBP = gpr t RBP" "a = gpr t RBP \<Longrightarrow> quads (procs ''subproc'' t) a = quads t a" for t a
    using assms by (simp_all add: keeps_frame_def)
  show ?thesis by (simp add: next_pc_def proc_code_def Let_def f)
qed

end
