(* ===== verification/Race_Examples.thy ===== *)
theory Race_Examples
  imports C_Strings
begin

text \<open>
  The race examples of \<^verbatim>\<open>excode/12ConcurrencyProgramming\<close>.  \<^verbatim>\<open>badcnt.c\<close>: two threads increment a shared
  counter without a lock; an increment is a load and a store, and between any two of them the
  other thread may run.  \<^verbatim>\<open>race.c\<close>, \<^verbatim>\<open>norace.c\<close> and \<^verbatim>\<open>sharing.c\<close>: the main thread creates threads and gives
  each a pointer, to its own loop variable or to a cell of the thread's own.
\<close>

section \<open>The unprotected counter\<close>

text \<open>At the head of the loop, or with the counter's value in a register, or returned.\<close>

datatype bc_pc = LoopHead | Loaded int | Returned

record badcnt =
  bc_cnt :: int
  bc_threads :: "(int \<times> bc_pc) list"

text \<open>One step of a thread with loop variable \<open>i\<close>; nothing moves it once it has returned.\<close>

fun bc_move :: "int \<Rightarrow> int \<Rightarrow> int \<times> bc_pc \<Rightarrow> (int \<times> int \<times> bc_pc) option" where
  "bc_move niters cnt (i, LoopHead) = (if i < niters then Some (cnt, i, Loaded cnt) else Some (cnt, i, Returned))"
| "bc_move niters cnt (i, Loaded r) = Some (r + 1, i + 1, LoopHead)"
| "bc_move niters cnt (i, Returned) = None"

inductive bc_step :: "int \<Rightarrow> badcnt \<Rightarrow> badcnt \<Rightarrow> bool" for niters where
  "\<lbrakk>k < length (bc_threads s); bc_move niters (bc_cnt s) (bc_threads s ! k) = Some (c, t)\<rbrakk>
     \<Longrightarrow> bc_step niters s (s\<lparr>bc_cnt := c, bc_threads := (bc_threads s)[k := t]\<rparr>)"

definition bc_start :: badcnt where
  "bc_start = \<lparr>bc_cnt = 0, bc_threads = [(0, LoopHead), (0, LoopHead)]\<rparr>"

definition joined :: "badcnt \<Rightarrow> bool" where
  "joined s \<longleftrightarrow> list_all (\<lambda>(i, pc). pc = Returned) (bc_threads s)"

text \<open>What \<^verbatim>\<open>main\<close> prints after the joins.\<close>

definition badcnt_report :: "int \<Rightarrow> badcnt \<Rightarrow> string" where
  "badcnt_report niters s =
     (if bc_cnt s \<noteq> 2 * niters then ''BOOM! cnt='' @ show_int (bc_cnt s) @ [NEWLINE]
      else ''OK cnt='' @ show_int (bc_cnt s) @ [NEWLINE])"

section \<open>Threads that are handed a pointer\<close>

text \<open>The pointer is to the loop variable of \<^verbatim>\<open>main\<close>, or to a cell of the thread's own with a number in it.\<close>

datatype varg = AddrOfI | Cell int

datatype th_state = Started varg | Printed int

datatype main_pc = Creating | Incrementing | Joining | Exited

record spawner =
  sp_pc :: main_pc
  sp_i :: int
  sp_threads :: "th_state list"

definition hand_i :: "int \<Rightarrow> varg" where "hand_i i = AddrOfI"
definition hand_cell :: "int \<Rightarrow> varg" where "hand_cell i = Cell i"

fun vararg_value :: "spawner \<Rightarrow> varg \<Rightarrow> int" where
  "vararg_value s AddrOfI = sp_i s"
| "vararg_value s (Cell v) = v"

text \<open>\<open>race\<close> and \<open>norace\<close> join their threads with the same variable; \<open>sharing\<close> leaves with \<^verbatim>\<open>pthread_exit\<close>.\<close>

inductive sp_step :: "(int \<Rightarrow> varg) \<Rightarrow> bool \<Rightarrow> int \<Rightarrow> spawner \<Rightarrow> spawner \<Rightarrow> bool" for hand joins N where
  create: "\<lbrakk>sp_pc s = Creating; sp_i s < N\<rbrakk>
     \<Longrightarrow> sp_step hand joins N s (s\<lparr>sp_pc := Incrementing, sp_threads := sp_threads s @ [Started (hand (sp_i s))]\<rparr>)"
| incr: "sp_pc s = Incrementing \<Longrightarrow> sp_step hand joins N s (s\<lparr>sp_pc := Creating, sp_i := sp_i s + 1\<rparr>)"
| created: "\<lbrakk>sp_pc s = Creating; \<not> sp_i s < N\<rbrakk>
     \<Longrightarrow> sp_step hand joins N s (if joins then s\<lparr>sp_pc := Joining, sp_i := 0\<rparr> else s\<lparr>sp_pc := Exited\<rparr>)"
| join: "\<lbrakk>sp_pc s = Joining; sp_i s < N; sp_threads s ! nat (sp_i s) = Printed v\<rbrakk>
     \<Longrightarrow> sp_step hand joins N s (s\<lparr>sp_i := sp_i s + 1\<rparr>)"
| exit: "\<lbrakk>sp_pc s = Joining; \<not> sp_i s < N\<rbrakk> \<Longrightarrow> sp_step hand joins N s (s\<lparr>sp_pc := Exited\<rparr>)"
| thread: "\<lbrakk>k < length (sp_threads s); sp_threads s ! k = Started a\<rbrakk>
     \<Longrightarrow> sp_step hand joins N s (s\<lparr>sp_threads := (sp_threads s)[k := Printed (vararg_value s a)]\<rparr>)"

definition sp_start :: spawner where
  "sp_start = \<lparr>sp_pc = Creating, sp_i = 0, sp_threads = []\<rparr>"

definition hello :: "th_state \<Rightarrow> string" where
  "hello t = (case t of Printed v \<Rightarrow> ''Hello from thread '' @ show_int v @ [NEWLINE] | Started a \<Rightarrow> [])"

text \<open>The message that a thread of \<open>sharing\<close> takes from \<^verbatim>\<open>ptr[myid]\<close>, if there is one.\<close>

definition shared_msg :: "int \<Rightarrow> string option" where
  "shared_msg myid = (if myid = 0 then Some ''Hello from foo'' else if myid = 1 then Some ''Hello from bar'' else None)"

section \<open>The counter's range\<close>

text \<open>Every value in sight is at most the number of finished increments; once one is finished the counter is not 0, so
  a thread that loads after its own first increment has at least 1, and the last store is at least 2.\<close>

definition thread_ok :: "int \<Rightarrow> int \<Rightarrow> int \<times> bc_pc \<Rightarrow> bool" where
  "thread_ok n bound = (\<lambda>(i, p). 0 \<le> i \<and> i \<le> n \<and>
     (case p of LoopHead \<Rightarrow> True | Loaded r \<Rightarrow> i < n \<and> 0 \<le> r \<and> r \<le> bound \<and> (0 < i \<longrightarrow> 1 \<le> r) | Returned \<Rightarrow> i = n))"

definition pair_ok :: "int \<Rightarrow> int \<Rightarrow> int \<times> bc_pc \<Rightarrow> int \<times> bc_pc \<Rightarrow> bool" where
  "pair_ok n c x y \<longleftrightarrow> (let sum = fst x + fst y in
     thread_ok n sum x \<and> thread_ok n sum y \<and> 0 \<le> c \<and> c \<le> sum \<and> (0 < sum \<longrightarrow> 1 \<le> c) \<and> (sum = 2 * n \<longrightarrow> 2 \<le> c))"

definition bc_inv :: "int \<Rightarrow> badcnt \<Rightarrow> bool" where
  "bc_inv n s \<longleftrightarrow> (case bc_threads s of [x, y] \<Rightarrow> pair_ok n (bc_cnt s) x y | _ \<Rightarrow> False)"

lemma pair_ok_sym: "pair_ok n c x y \<Longrightarrow> pair_ok n c y x"
  by (simp add: pair_ok_def add.commute Let_def)

lemma pair_ok_move:
  assumes "pair_ok n c x y" and "bc_move n c x = Some (c', x')" and "2 \<le> n"
  shows "pair_ok n c' x' y"
proof -
  obtain i p j q where x: "x = (i, p)" and y: "y = (j, q)" by fastforce
  have yok: "thread_ok n b y \<Longrightarrow> b \<le> b' \<Longrightarrow> thread_ok n b' y" for b b'
    by (auto simp: thread_ok_def split: bc_pc.splits)
  show ?thesis
  proof (cases p)
    case (Loaded r)
    then have x': "c' = r + 1" "x' = (i + 1, LoopHead)" using assms(2) x by auto
    then show ?thesis
      using assms(1,3) x y Loaded yok [of "i + j" "i + 1 + j"] by (auto simp: pair_ok_def thread_ok_def Let_def split: bc_pc.splits)
  qed (use assms x y in \<open>cases q; auto simp: pair_ok_def thread_ok_def Let_def split: if_splits\<close>)+
qed

lemma bc_inv_step:
  assumes "bc_step n s s'" and "2 \<le> n" and "bc_inv n s"
  shows "bc_inv n s'"
  using assms(1)
proof cases
  case (1 k c t)
  obtain x y where T: "bc_threads s = [x, y]" "pair_ok n (bc_cnt s) x y"
    using assms(3) by (auto simp: bc_inv_def split: list.splits)
  have "k = 0 \<or> k = 1" using 1(2) T(1) by auto
  then show ?thesis
  proof
    assume "k = 0"
    then show ?thesis using 1 T pair_ok_move [OF T(2) _ assms(2)] by (simp add: bc_inv_def)
  next
    assume "k = 1"
    then show ?thesis using 1 T pair_ok_sym [OF pair_ok_move [OF pair_ok_sym [OF T(2)] _ assms(2)]] by (simp add: bc_inv_def)
  qed
qed

lemma bc_inv_reach: "(bc_step n)\<^sup>*\<^sup>* bc_start s \<Longrightarrow> 2 \<le> n \<Longrightarrow> bc_inv n s"
proof (induction rule: rtranclp_induct)
  case base
  then show ?case by (simp add: bc_inv_def bc_start_def pair_ok_def thread_ok_def)
next
  case (step s s')
  then show ?case using bc_inv_step by blast
qed

lemma bc_step_at:
  "\<lbrakk>k < length ths; bc_move n c (ths ! k) = Some (c', t)\<rbrakk>
    \<Longrightarrow> bc_step n \<lparr>bc_cnt = c, bc_threads = ths\<rparr> \<lparr>bc_cnt = c', bc_threads = ths[k := t]\<rparr>"
  using bc_step.intros [of k "\<lparr>bc_cnt = c, bc_threads = ths\<rparr>" n c' t] by simp

text \<open>A thread that runs alone counts right.\<close>

lemma bc_alone:
  assumes "k < length ths" and "ths ! k = (i, LoopHead)" and "i + int m \<le> n"
  shows "(bc_step n)\<^sup>*\<^sup>* \<lparr>bc_cnt = c, bc_threads = ths\<rparr> \<lparr>bc_cnt = c + int m, bc_threads = ths[k := (i + int m, LoopHead)]\<rparr>"
  using assms
proof (induction m arbitrary: i c ths)
  case 0
  then have "ths[k := (i, LoopHead)] = ths" by (metis list_update_id)
  then show ?case by simp
next
  case (Suc m)
  let ?a = "\<lparr>bc_cnt = c, bc_threads = ths[k := (i, Loaded c)]\<rparr>" and ?b = "\<lparr>bc_cnt = c + 1, bc_threads = ths[k := (i + 1, LoopHead)]\<rparr>"
  have 1: "bc_step n \<lparr>bc_cnt = c, bc_threads = ths\<rparr> ?a" using Suc.prems by (intro bc_step_at) auto
  have 2: "bc_step n ?a ?b" using bc_step_at [of k "ths[k := (i, Loaded c)]" n c] Suc.prems(1) by simp
  have 3: "(bc_step n)\<^sup>*\<^sup>* ?b \<lparr>bc_cnt = c + 1 + int m, bc_threads = ths[k := (i + 1 + int m, LoopHead)]\<rparr>"
    using Suc.IH [of "ths[k := (i + 1, LoopHead)]" "i + 1" "c + 1"] Suc.prems by simp
  have "c + 1 + int m = c + int (Suc m)" "i + 1 + int m = i + int (Suc m)" by simp_all
  with 3 have "(bc_step n)\<^sup>*\<^sup>* ?b \<lparr>bc_cnt = c + int (Suc m), bc_threads = ths[k := (i + int (Suc m), LoopHead)]\<rparr>" by (simp only:)
  then show ?case by (rule converse_rtranclp_into_rtranclp [of "bc_step n", OF 1 converse_rtranclp_into_rtranclp [of "bc_step n", OF 2]])
qed


text \<open>Both threads at the end of their loops return.\<close>

lemma bc_return:
  "\<exists>s. (bc_step n)\<^sup>*\<^sup>* \<lparr>bc_cnt = c, bc_threads = [(n, LoopHead), (n, LoopHead)]\<rparr> s \<and> joined s \<and> bc_cnt s = c"
proof -
  have 1: "bc_step n \<lparr>bc_cnt = c, bc_threads = [(n, LoopHead), (n, LoopHead)]\<rparr> \<lparr>bc_cnt = c, bc_threads = [(n, Returned), (n, LoopHead)]\<rparr>"
    using bc_step_at [of 0 "[(n, LoopHead), (n, LoopHead)]" n c] by simp
  have 2: "bc_step n \<lparr>bc_cnt = c, bc_threads = [(n, Returned), (n, LoopHead)]\<rparr> \<lparr>bc_cnt = c, bc_threads = [(n, Returned), (n, Returned)]\<rparr>"
    using bc_step_at [of 1 "[(n, Returned), (n, LoopHead)]" n c] by simp
  show ?thesis
    by (rule exI [of _ "\<lparr>bc_cnt = c, bc_threads = [(n, Returned), (n, Returned)]\<rparr>"])
      (simp add: joined_def converse_rtranclp_into_rtranclp [of "bc_step n", OF 1 r_into_rtranclp [of "bc_step n", OF 2]])
qed

text \<open>One after the other: nothing is lost.\<close>

lemma bc_reach_all:
  assumes "0 \<le> n"
  shows "\<exists>s. (bc_step n)\<^sup>*\<^sup>* bc_start s \<and> joined s \<and> bc_cnt s = 2 * n"
proof -
  have 1: "(bc_step n)\<^sup>*\<^sup>* bc_start \<lparr>bc_cnt = n, bc_threads = [(n, LoopHead), (0, LoopHead)]\<rparr>"
    using bc_alone [of 0 "[(0, LoopHead), (0, LoopHead)]" 0 "nat n" n 0] assms by (simp add: bc_start_def)
  have 2: "(bc_step n)\<^sup>*\<^sup>* \<lparr>bc_cnt = n, bc_threads = [(n, LoopHead), (0, LoopHead)]\<rparr> \<lparr>bc_cnt = n + n, bc_threads = [(n, LoopHead), (n, LoopHead)]\<rparr>"
    using bc_alone [of 1 "[(n, LoopHead), (0, LoopHead)]" 0 "nat n" n n] assms by simp
  show ?thesis using bc_return [of n "n + n"] rtranclp_trans [OF 1 rtranclp_trans [OF 2]] by auto
qed

text \<open>The worst schedule: the first thread loads 0 and waits until the second has one increment to go; the second then
  loads what the first stores, and waits for the rest of the first.\<close>

lemma bc_reach_two:
  assumes "2 \<le> n"
  shows "\<exists>s. (bc_step n)\<^sup>*\<^sup>* bc_start s \<and> joined s \<and> bc_cnt s = 2"
proof -
  have 1: "bc_step n bc_start \<lparr>bc_cnt = 0, bc_threads = [(0, Loaded 0), (0, LoopHead)]\<rparr>"
    using bc_step_at [of 0 "[(0, LoopHead), (0, LoopHead)]" n 0] assms by (simp add: bc_start_def)
  have 2: "(bc_step n)\<^sup>*\<^sup>* \<lparr>bc_cnt = 0, bc_threads = [(0, Loaded 0), (0, LoopHead)]\<rparr> \<lparr>bc_cnt = n - 1, bc_threads = [(0, Loaded 0), (n - 1, LoopHead)]\<rparr>"
    using bc_alone [of 1 "[(0, Loaded 0), (0, LoopHead)]" 0 "nat (n - 1)" n 0] assms by simp
  have 3: "bc_step n \<lparr>bc_cnt = n - 1, bc_threads = [(0, Loaded 0), (n - 1, LoopHead)]\<rparr> \<lparr>bc_cnt = 1, bc_threads = [(1, LoopHead), (n - 1, LoopHead)]\<rparr>"
    using bc_step_at [of 0 "[(0, Loaded 0), (n - 1, LoopHead)]" n "n - 1"] by simp
  have 4: "bc_step n \<lparr>bc_cnt = 1, bc_threads = [(1, LoopHead), (n - 1, LoopHead)]\<rparr> \<lparr>bc_cnt = 1, bc_threads = [(1, LoopHead), (n - 1, Loaded 1)]\<rparr>"
    using bc_step_at [of 1 "[(1, LoopHead), (n - 1, LoopHead)]" n 1] by simp
  have 5: "(bc_step n)\<^sup>*\<^sup>* \<lparr>bc_cnt = 1, bc_threads = [(1, LoopHead), (n - 1, Loaded 1)]\<rparr> \<lparr>bc_cnt = n, bc_threads = [(n, LoopHead), (n - 1, Loaded 1)]\<rparr>"
    using bc_alone [of 0 "[(1, LoopHead), (n - 1, Loaded 1)]" 1 "nat (n - 1)" n 1] assms by simp
  have 6: "bc_step n \<lparr>bc_cnt = n, bc_threads = [(n, LoopHead), (n - 1, Loaded 1)]\<rparr> \<lparr>bc_cnt = 2, bc_threads = [(n, LoopHead), (n, LoopHead)]\<rparr>"
    using bc_step_at [of 1 "[(n, LoopHead), (n - 1, Loaded 1)]" n n] by simp
  have "(bc_step n)\<^sup>*\<^sup>* bc_start \<lparr>bc_cnt = 2, bc_threads = [(n, LoopHead), (n, LoopHead)]\<rparr>"
    by (rule rtranclp_trans [OF converse_rtranclp_into_rtranclp [of "bc_step n", OF 1 2]
        converse_rtranclp_into_rtranclp [of "bc_step n", OF 3 converse_rtranclp_into_rtranclp [of "bc_step n", OF 4
          rtranclp.rtrancl_into_rtrancl [of "bc_step n", OF 5 6]]]])
  then show ?thesis using bc_return [of n 2] by (meson rtranclp_trans)
qed

lemma bc_joined_bounds:
  assumes "(bc_step n)\<^sup>*\<^sup>* bc_start s" and "joined s" and "2 \<le> n"
  shows "2 \<le> bc_cnt s \<and> bc_cnt s \<le> 2 * n"
proof -
  obtain x y where T: "bc_threads s = [x, y]" "pair_ok n (bc_cnt s) x y"
    using bc_inv_reach [OF assms(1,3)] by (auto simp: bc_inv_def split: list.splits)
  then show ?thesis using assms(2) by (auto simp: joined_def pair_ok_def thread_ok_def Let_def)
qed

section \<open>Threads and their arguments\<close>

lemma sp_cells:
  "(sp_step hand_cell joins N)\<^sup>*\<^sup>* sp_start s \<Longrightarrow> 0 \<le> sp_i s
    \<and> (sp_pc s = Creating \<longrightarrow> sp_i s = int (length (sp_threads s))) \<and> (sp_pc s = Incrementing \<longrightarrow> sp_i s + 1 = int (length (sp_threads s)))
    \<and> (\<forall>k < length (sp_threads s). sp_threads s ! k = Started (Cell (int k)) \<or> sp_threads s ! k = Printed (int k))"
proof (induction rule: rtranclp_induct)
  case base
  then show ?case by (simp add: sp_start_def)
next
  case (step s s')
  from step.hyps(2) show ?case
  proof cases
    case (thread k a)
    then have "a = Cell (int k)" using step.IH by auto
    then show ?thesis using step.IH thread by (auto simp: nth_list_update)
  qed (use step.IH in \<open>auto simp: hand_cell_def nth_append less_Suc_eq\<close>)
qed

lemma sp_all_printed:
  "(sp_step hand True N)\<^sup>*\<^sup>* sp_start s \<Longrightarrow> 0 \<le> N \<Longrightarrow> 0 \<le> sp_i s
    \<and> (sp_pc s = Creating \<longrightarrow> sp_i s = int (length (sp_threads s)) \<and> sp_i s \<le> N)
    \<and> (sp_pc s = Incrementing \<longrightarrow> sp_i s + 1 = int (length (sp_threads s)) \<and> sp_i s < N)
    \<and> (sp_pc s = Joining \<or> sp_pc s = Exited \<longrightarrow> int (length (sp_threads s)) = N)
    \<and> (sp_pc s = Joining \<longrightarrow> sp_i s \<le> N \<and> (\<forall>k < nat (sp_i s). \<exists>v. sp_threads s ! k = Printed v))
    \<and> (sp_pc s = Exited \<longrightarrow> (\<forall>k < nat N. \<exists>v. sp_threads s ! k = Printed v))"
proof (induction rule: rtranclp_induct)
  case base
  then show ?case by (simp add: sp_start_def)
next
  case (step s s')
  note I = step.IH [OF step.prems]
  from step.hyps(2) show ?case
  proof cases
    case (join v)
    then have "\<exists>v. sp_threads s ! k = Printed v" if "k < nat (sp_i s + 1)" for k
      using I that by (cases "k = nat (sp_i s)") auto
    then show ?thesis using I join by auto
  next
    case (thread k a)
    then show ?thesis using I by (auto simp: nth_list_update)
  qed (use I in auto)
qed


section \<open>Schedules that can be computed\<close>

datatype sp_act = MainGoes | ThreadGoes nat

definition sp_do :: "(int \<Rightarrow> varg) \<Rightarrow> bool \<Rightarrow> int \<Rightarrow> sp_act \<Rightarrow> spawner \<Rightarrow> spawner option" where
  "sp_do hand joins N act s =
     (case act of
        ThreadGoes k \<Rightarrow>
          if k < length (sp_threads s) then
            (case sp_threads s ! k of Started a \<Rightarrow> Some (s\<lparr>sp_threads := (sp_threads s)[k := Printed (vararg_value s a)]\<rparr>) | _ \<Rightarrow> None)
          else None
      | MainGoes \<Rightarrow>
          (case sp_pc s of
             Creating \<Rightarrow>
               Some (if sp_i s < N then s\<lparr>sp_pc := Incrementing, sp_threads := sp_threads s @ [Started (hand (sp_i s))]\<rparr>
                     else if joins then s\<lparr>sp_pc := Joining, sp_i := 0\<rparr> else s\<lparr>sp_pc := Exited\<rparr>)
           | Incrementing \<Rightarrow> Some (s\<lparr>sp_pc := Creating, sp_i := sp_i s + 1\<rparr>)
           | Joining \<Rightarrow>
               if sp_i s < N then
                 (case sp_threads s ! nat (sp_i s) of Printed v \<Rightarrow> Some (s\<lparr>sp_i := sp_i s + 1\<rparr>) | _ \<Rightarrow> None)
               else Some (s\<lparr>sp_pc := Exited\<rparr>)
           | Exited \<Rightarrow> None))"

lemma sp_do_step: "sp_do hand joins N act s = Some s' \<Longrightarrow> sp_step hand joins N s s'"
  by (auto simp: sp_do_def split: sp_act.splits main_pc.splits th_state.splits if_splits intro: sp_step.intros dest: sp_step.created [where joins = joins])

fun sp_schedule :: "(int \<Rightarrow> varg) \<Rightarrow> bool \<Rightarrow> int \<Rightarrow> sp_act list \<Rightarrow> spawner \<Rightarrow> spawner option" where
  "sp_schedule hand joins N [] s = Some s"
| "sp_schedule hand joins N (a # as) s =
     (case sp_do hand joins N a s of None \<Rightarrow> None | Some s' \<Rightarrow> sp_schedule hand joins N as s')"

lemma sp_schedule_reach: "sp_schedule hand joins N as s = Some s' \<Longrightarrow> (sp_step hand joins N)\<^sup>*\<^sup>* s s'"
proof (induction as arbitrary: s)
  case (Cons a as)
  then obtain s1 where s1: "sp_do hand joins N a s = Some s1" "sp_schedule hand joins N as s1 = Some s'"
    by (auto split: option.splits)
  show ?case by (rule converse_rtranclp_into_rtranclp [of "sp_step hand joins N", OF sp_do_step [OF s1(1)] Cons.IH [OF s1(2)]])
qed simp

lemma race_prints_fours:
  "\<exists>s. (sp_step hand_i True 4)\<^sup>*\<^sup>* sp_start s \<and> sp_pc s = Exited \<and> sp_threads s = replicate 4 (Printed 4)"
proof -
  have "sp_schedule hand_i True 4 (replicate 8 MainGoes @ map ThreadGoes [0, 1, 2, 3] @ replicate 6 MainGoes) sp_start
      = Some \<lparr>sp_pc = Exited, sp_i = 4, sp_threads = replicate 4 (Printed 4)\<rparr>"
    by (simp add: sp_start_def sp_do_def hand_i_def numeral_eq_Suc)
  from sp_schedule_reach [OF this] show ?thesis by auto
qed

lemma sharing_out_of_bounds:
  "\<exists>s. (sp_step hand_i False 2)\<^sup>*\<^sup>* sp_start s \<and> sp_threads s = [Printed 2, Printed 2] \<and> shared_msg 2 = None"
proof -
  have "sp_schedule hand_i False 2 (replicate 4 MainGoes @ map ThreadGoes [0, 1]) sp_start
      = Some \<lparr>sp_pc = Creating, sp_i = 2, sp_threads = [Printed 2, Printed 2]\<rparr>"
    by (simp add: sp_start_def sp_do_def hand_i_def numeral_eq_Suc)
  from sp_schedule_reach [OF this] show ?thesis by (auto simp: shared_msg_def)
qed

section \<open>Properties\<close>



text \<open>A negative argument runs no increment at all, and the test of the count still calls it a failure.\<close>

lemma badcnt_negative: "badcnt_report (- 1) bc_start = ''BOOM! cnt='' @ show_int 0 @ [NEWLINE]"
  by (simp add: badcnt_report_def bc_start_def)

text \<open>
  With a cell for each thread the four threads say the numbers they were created with, in every schedule
  that ends; when they are given the address of the loop variable there is a schedule in which all four say 4.
\<close>

theorem norace_numbers:
  assumes "(sp_step hand_cell True 4)\<^sup>*\<^sup>* sp_start s" and "sp_pc s = Exited"
  shows "map hello (sp_threads s) = map (\<lambda>k. ''Hello from thread '' @ show_int (int k) @ [NEWLINE]) [0..<4]
    \<and> (\<exists>t. (sp_step hand_i True 4)\<^sup>*\<^sup>* sp_start t \<and> sp_pc t = Exited \<and> sp_threads t = replicate 4 (Printed 4))"
proof
  have P: "length (sp_threads s) = 4" "\<And>k. k < 4 \<Longrightarrow> \<exists>v. sp_threads s ! k = Printed v"
    using sp_all_printed [OF assms(1)] assms(2) by auto
  have "sp_threads s ! k = Printed (int k)" if "k < 4" for k
    using sp_cells [OF assms(1)] P(1) P(2) [OF that] that by fastforce
  then have "hello (sp_threads s ! k) = ''Hello from thread '' @ show_int (int k) @ [NEWLINE]" if "k < 4" for k
    using that by (simp add: hello_def)
  then show "map hello (sp_threads s) = map (\<lambda>k. ''Hello from thread '' @ show_int (int k) @ [NEWLINE]) [0..<4]"
    using P(1) by (intro nth_equalityI) simp_all
qed (rule race_prints_fours)

lemma norace_numbers_witness:
  "\<exists>s :: spawner. sp_pc s = Exited \<and> map hello (sp_threads s) = map (\<lambda>k. ''Hello from thread '' @ show_int (int k) @ [NEWLINE]) [0..<4]"
proof -
  let ?s = "\<lparr>sp_pc = Exited, sp_i = 4, sp_threads = map Printed [0, 1, 2, 3]\<rparr>"
  have "sp_schedule hand_cell True 4 (replicate 8 MainGoes @ map ThreadGoes [3, 1, 0, 2] @ replicate 6 MainGoes) sp_start = Some ?s"
    by (simp add: sp_start_def sp_do_def hand_cell_def numeral_eq_Suc)
  then have reach: "(sp_step hand_cell True 4)\<^sup>*\<^sup>* sp_start ?s" by (rule sp_schedule_reach)
  have ended: "sp_pc ?s = Exited" by simp
  show ?thesis
    using ended conjunct1 [OF norace_numbers [OF reach ended]] by blast
qed

end
