(* ===== verification/Process_Examples.thy ===== *)
theory Process_Examples
  imports C_Strings
begin

text \<open>
  Programs on processes and signals (\<^verbatim>\<open>excode/8ExceptionalControFlow\<close>).  First a parent and a child that print
  through \<^verbatim>\<open>stdio\<close>: each process has a buffer of its own, \<^verbatim>\<open>fork\<close> copies it, a newline empties it when
  standard output is a terminal, and \<^verbatim>\<open>exit\<close> always does.  Then the job list of \<^verbatim>\<open>procmask.c\<close> and the
  waiting loop of \<^verbatim>\<open>sigsuspend.c\<close>, with the arrival of the signals left to the scheduler.  The programs do not
  have failing calls of \<^verbatim>\<open>fork\<close> in them.
\<close>

section \<open>Two processes that print\<close>

text \<open>\<open>Poll w\<close> is the loop of \<^verbatim>\<open>waitPid1.c\<close>: as long as \<^verbatim>\<open>waitpid\<close> with \<^verbatim>\<open>WNOHANG\<close> gives 0 it prints \<open>w\<close>, then it prints
  what it gave.\<close>

datatype pact = Printf string | Fflush | Waitpid | Poll string | ExitP

record printer =
  p_buf :: string
  p_todo :: "pact list"

record family =
  f_parent :: printer
  f_child :: printer
  f_reaped :: bool
  f_screen :: string

definition ended :: "printer \<Rightarrow> bool" where
  "ended p \<longleftrightarrow> p_todo p = []"

text \<open>What reaches the screen, and what stays in the buffer.\<close>

definition print_on :: "bool \<Rightarrow> string \<Rightarrow> string \<Rightarrow> string \<times> string" where
  "print_on tty bf s = (if tty \<and> NEWLINE \<in> set s then (bf @ s, []) else ([], bf @ s))"

definition forked_pid :: int where "forked_pid = 2"

fun printer_step :: "bool \<Rightarrow> bool \<Rightarrow> bool \<Rightarrow> printer \<Rightarrow> (string \<times> bool \<times> printer) option" where
  "printer_step tty child_ended reaped p =
     (case p_todo p of
        [] \<Rightarrow> None
      | Printf s # acts \<Rightarrow> (case print_on tty (p_buf p) s of (out, bf) \<Rightarrow> Some (out, reaped, p\<lparr>p_buf := bf, p_todo := acts\<rparr>))
      | Fflush # acts \<Rightarrow> Some (p_buf p, reaped, p\<lparr>p_buf := [], p_todo := acts\<rparr>)
      | Waitpid # acts \<Rightarrow> if child_ended \<or> reaped then Some ([], True, p\<lparr>p_todo := acts\<rparr>) else None
      | Poll w # acts \<Rightarrow>
          if \<not> reaped \<and> \<not> child_ended then
            (case print_on tty (p_buf p) w of (out, bf) \<Rightarrow> Some (out, reaped, p\<lparr>p_buf := bf\<rparr>))
          else let wp = (if reaped then -1 else forked_pid) in
            (case print_on tty (p_buf p) (''wp: '' @ show_int wp @ [NEWLINE]) of
               (out, bf) \<Rightarrow> Some (out, True, p\<lparr>p_buf := bf, p_todo := acts\<rparr>))
      | ExitP # acts \<Rightarrow> Some (p_buf p, reaped, p\<lparr>p_buf := [], p_todo := []\<rparr>))"

declare printer_step.simps [simp del]

inductive fam_step :: "bool \<Rightarrow> family \<Rightarrow> family \<Rightarrow> bool" for tty where
  parent: "printer_step tty (ended (f_child s)) (f_reaped s) (f_parent s) = Some (out, r, p)
     \<Longrightarrow> fam_step tty s (s\<lparr>f_parent := p, f_reaped := r, f_screen := f_screen s @ out\<rparr>)"
| child: "printer_step tty False True (f_child s) = Some (out, r, c)
     \<Longrightarrow> fam_step tty s (s\<lparr>f_child := c, f_screen := f_screen s @ out\<rparr>)"

definition both_ended :: "family \<Rightarrow> bool" where
  "both_ended s \<longleftrightarrow> ended (f_parent s) \<and> ended (f_child s)"

text \<open>The state after \<^verbatim>\<open>fork\<close>: what was printed before it and is still in the buffer is there twice.\<close>

definition forked :: "bool \<Rightarrow> string \<Rightarrow> pact list \<Rightarrow> pact list \<Rightarrow> family" where
  "forked tty before parent child =
     (case print_on tty [] before of (out, bf) \<Rightarrow>
        \<lparr>f_parent = \<lparr>p_buf = bf, p_todo = parent\<rparr>, f_child = \<lparr>p_buf = bf, p_todo = child\<rparr>, f_reaped = False, f_screen = out\<rparr>)"

definition waitPid2 :: "bool \<Rightarrow> family" where
  "waitPid2 tty = forked tty []
     [Printf ''0'', Waitpid, Printf ''3'', Fflush, Printf ''6'', ExitP]
     [Printf ''9'', Fflush, Printf ''3'', Fflush, Printf ''6'', ExitP]"

definition waitprob1 :: "bool \<Rightarrow> family" where
  "waitprob1 tty = forked tty (''Start'' @ [NEWLINE])
     [Printf (''0'' @ [NEWLINE]), Waitpid, Printf (''2'' @ [NEWLINE]), Printf (''Stop'' @ [NEWLINE]), ExitP]
     [Printf (''1'' @ [NEWLINE]), Printf (''child'' @ [NEWLINE]), Printf (''Stop'' @ [NEWLINE]), ExitP]"

text \<open>The lines with the process numbers of \<^verbatim>\<open>fork.c\<close> and \<^verbatim>\<open>waitPid1.c\<close> are arguments.\<close>

definition fork_main :: "string \<Rightarrow> string \<Rightarrow> bool \<Rightarrow> family" where
  "fork_main pline cline tty = forked tty [] [Printf pline, ExitP] [Printf cline, ExitP]"

definition waitPid1 :: "string \<Rightarrow> string \<Rightarrow> string \<Rightarrow> bool \<Rightarrow> family" where
  "waitPid1 pline cline wline tty = forked tty [] [Waitpid, Poll wline, Printf pline, ExitP] [Printf cline, ExitP]"

text \<open>The array of \<^verbatim>\<open>waitPid4.c\<close>: the loop asks for the next process until \<^verbatim>\<open>waitpid\<close> fails.  A status is that of
  an exit; the index is not compared with the length.\<close>

datatype reap_end = ReapedUpTo "string list" | PidsOutOfBounds "string list"

function waitPid4_loop :: "int list \<Rightarrow> (int \<Rightarrow> int option) \<Rightarrow> nat \<Rightarrow> string list \<Rightarrow> reap_end" where
  "waitPid4_loop pid status i out =
     (if i \<ge> length pid then PidsOutOfBounds out
      else case status (pid ! i) of
          None \<Rightarrow> ReapedUpTo out
        | Some code \<Rightarrow>
            waitPid4_loop pid status (i + 1)
              (out @ [''child '' @ show_int (pid ! i) @ '' terminated normally with exit status='' @ show_int code @ [NEWLINE]]))"
  by pat_completeness auto
termination
  by (relation "measure (\<lambda>(pid, _, i, _). length pid - i)") auto

declare waitPid4_loop.simps [simp del]

section \<open>The job list\<close>

text \<open>The calls of \<^verbatim>\<open>addjob\<close> and \<^verbatim>\<open>deletejob\<close>, which are not part of the repository, in order.\<close>

datatype job_call = Addjob int | Deletejob int

datatype pm_pc = AtBlock | AtFork | AtBlockAll | AtAdd | AtRestore

record procmask =
  pm_pc :: pm_pc
  pm_pid :: int
  pm_next :: int
  pm_blocked :: bool
  pm_prev :: bool
  pm_pending :: bool
  pm_handling :: bool
  pm_alive :: "int set"
  pm_zombies :: "int set"
  pm_calls :: "job_call list"

text \<open>While the handler runs \<^verbatim>\<open>main\<close> does not.  The handler's \<^verbatim>\<open>waitpid\<close> blocks until a child has ended, and it returns
  when there is none.  Its own \<^verbatim>\<open>SIG_BLOCK\<close> and \<^verbatim>\<open>SIG_SETMASK\<close> do not matter: \<^verbatim>\<open>SIGCHLD\<close> is blocked in it anyway.\<close>

inductive pm_step :: "procmask \<Rightarrow> procmask \<Rightarrow> bool" where
  block: "\<lbrakk>\<not> pm_handling s; pm_pc s = AtBlock\<rbrakk> \<Longrightarrow> pm_step s (s\<lparr>pm_pc := AtFork, pm_prev := pm_blocked s, pm_blocked := True\<rparr>)"
| fork: "\<lbrakk>\<not> pm_handling s; pm_pc s = AtFork\<rbrakk>
     \<Longrightarrow> pm_step s (s\<lparr>pm_pc := AtBlockAll, pm_pid := pm_next s, pm_next := pm_next s + 1, pm_alive := insert (pm_next s) (pm_alive s)\<rparr>)"
| blockall: "\<lbrakk>\<not> pm_handling s; pm_pc s = AtBlockAll\<rbrakk> \<Longrightarrow> pm_step s (s\<lparr>pm_pc := AtAdd, pm_blocked := True\<rparr>)"
| add: "\<lbrakk>\<not> pm_handling s; pm_pc s = AtAdd\<rbrakk> \<Longrightarrow> pm_step s (s\<lparr>pm_pc := AtRestore, pm_calls := pm_calls s @ [Addjob (pm_pid s)]\<rparr>)"
| restore: "\<lbrakk>\<not> pm_handling s; pm_pc s = AtRestore\<rbrakk> \<Longrightarrow> pm_step s (s\<lparr>pm_pc := AtBlock, pm_blocked := pm_prev s\<rparr>)"
| dies: "p \<in> pm_alive s
     \<Longrightarrow> pm_step s (s\<lparr>pm_alive := pm_alive s - {p}, pm_zombies := insert p (pm_zombies s), pm_pending := True\<rparr>)"
| deliver: "\<lbrakk>\<not> pm_handling s; \<not> pm_blocked s; pm_pending s\<rbrakk> \<Longrightarrow> pm_step s (s\<lparr>pm_handling := True, pm_pending := False\<rparr>)"
| reap: "\<lbrakk>pm_handling s; p \<in> pm_zombies s\<rbrakk>
     \<Longrightarrow> pm_step s (s\<lparr>pm_zombies := pm_zombies s - {p}, pm_calls := pm_calls s @ [Deletejob p]\<rparr>)"
| return: "\<lbrakk>pm_handling s; pm_zombies s = {}; pm_alive s = {}\<rbrakk> \<Longrightarrow> pm_step s (s\<lparr>pm_handling := False\<rparr>)"

definition pm_start :: procmask where
  "pm_start = \<lparr>pm_pc = AtBlock, pm_pid = 0, pm_next = 1, pm_blocked = False, pm_prev = False, pm_pending = False, pm_handling = False,
     pm_alive = {}, pm_zombies = {}, pm_calls = []\<rparr>"

section \<open>Waiting for a signal\<close>

datatype ss_pc = SsBlock | SsFork | SsClear | SsWait | SsDot

record suspender =
  ss_pc :: ss_pc
  ss_blocked :: bool
  ss_prev :: bool
  ss_pid :: int
  ss_next :: int
  ss_alive :: "int set"
  ss_zombies :: "int set"
  ss_pending :: bool
  ss_dots :: nat

text \<open>\<open>ss_blocked\<close> and \<open>ss_prev\<close> tell whether \<^verbatim>\<open>SIGCHLD\<close> is in the mask and in the saved mask.  In \<^verbatim>\<open>sigsuspend\<close> the saved
  mask is in force; its return puts the other one back.  The handler reaps one child.\<close>

inductive ss_step :: "suspender \<Rightarrow> suspender \<Rightarrow> bool" where
  block: "ss_pc s = SsBlock \<Longrightarrow> ss_step s (s\<lparr>ss_pc := SsFork, ss_prev := ss_blocked s, ss_blocked := True\<rparr>)"
| fork: "ss_pc s = SsFork \<Longrightarrow> ss_step s (s\<lparr>ss_pc := SsClear, ss_alive := insert (ss_next s) (ss_alive s), ss_next := ss_next s + 1\<rparr>)"
| clear: "ss_pc s = SsClear \<Longrightarrow> ss_step s (s\<lparr>ss_pc := SsWait, ss_pid := 0\<rparr>)"
| wait_over: "\<lbrakk>ss_pc s = SsWait; ss_pid s \<noteq> 0\<rbrakk> \<Longrightarrow> ss_step s (s\<lparr>ss_pc := SsDot\<rparr>)"
| sigchld: "\<lbrakk>if ss_pc s = SsWait \<and> ss_pid s = 0 then \<not> ss_prev s else \<not> ss_blocked s; ss_pending s; p \<in> ss_zombies s\<rbrakk>
     \<Longrightarrow> ss_step s (s\<lparr>ss_pid := p, ss_zombies := ss_zombies s - {p}, ss_pending := False\<rparr>)"
| sigint: "ss_pc s = SsWait \<Longrightarrow> ss_step s s"
| dot: "ss_pc s = SsDot \<Longrightarrow> ss_step s (s\<lparr>ss_pc := SsBlock, ss_dots := ss_dots s + 1\<rparr>)"
| dies: "p \<in> ss_alive s
     \<Longrightarrow> ss_step s (s\<lparr>ss_alive := ss_alive s - {p}, ss_zombies := insert p (ss_zombies s), ss_pending := True\<rparr>)"

definition ss_start :: suspender where
  "ss_start = \<lparr>ss_pc = SsBlock, ss_blocked = False, ss_prev = False, ss_pid = 0, ss_next = 1, ss_alive = {}, ss_zombies = {},
     ss_pending = False, ss_dots = 0\<rparr>"

section \<open>A jump out of two calls\<close>

text \<open>A function returns, or jumps to the point of the \<^verbatim>\<open>setjmp\<close> with a value, which is 1 when it would be 0.\<close>

definition longjmp :: "int \<Rightarrow> int + unit" where
  "longjmp v = Inl (if v = 0 then 1 else v)"

definition bar :: "bool \<Rightarrow> int + unit" where
  "bar error2 = (if error2 then longjmp 2 else Inr ())"

definition foo :: "bool \<Rightarrow> bool \<Rightarrow> int + unit" where
  "foo error1 error2 = (case (if error1 then longjmp 1 else Inr ()) of Inl v \<Rightarrow> Inl v | Inr _ \<Rightarrow> bar error2)"

definition setjmp_main :: "bool \<Rightarrow> bool \<Rightarrow> string" where
  "setjmp_main error1 error2 =
     (case foo error1 error2 of
        Inr _ \<Rightarrow> []
      | Inl v \<Rightarrow>
          if v = 1 then ''Detected an error1 condition in foo'' @ [NEWLINE]
          else if v = 2 then ''Detected an Error2 condition in foo'' @ [NEWLINE]
          else ''Unknown Error condition in foo'' @ [NEWLINE])"


section \<open>All outputs of two processes\<close>

definition fam_succs :: "bool \<Rightarrow> family \<Rightarrow> family list" where
  "fam_succs tty s =
     (case printer_step tty (ended (f_child s)) (f_reaped s) (f_parent s) of None \<Rightarrow> []
      | Some (out, r, p) \<Rightarrow> [s\<lparr>f_parent := p, f_reaped := r, f_screen := f_screen s @ out\<rparr>])
     @ (case printer_step tty False True (f_child s) of None \<Rightarrow> []
      | Some (out, r, c) \<Rightarrow> [s\<lparr>f_child := c, f_screen := f_screen s @ out\<rparr>])"

lemma fam_succs_step: "t \<in> set (fam_succs tty s) \<longleftrightarrow> fam_step tty s t"
proof
  assume "t \<in> set (fam_succs tty s)"
  then show "fam_step tty s t" by (auto simp: fam_succs_def intro: fam_step.parent [OF sym] fam_step.child [OF sym] split: option.splits)
next
  assume "fam_step tty s t"
  then show "t \<in> set (fam_succs tty s)" by cases (simp_all add: fam_succs_def)
qed

fun screens :: "nat \<Rightarrow> bool \<Rightarrow> family \<Rightarrow> string list" where
  "screens 0 tty s = (if both_ended s then [f_screen s] else [])"
| "screens (Suc n) tty s =
     (if both_ended s then [f_screen s] else concat (map (screens n tty) (fam_succs tty s)))"

text \<open>A poll comes after the child has been waited for, so it does not go round.\<close>

fun no_poll :: "bool \<Rightarrow> pact list \<Rightarrow> bool" where
  "no_poll reaped [] = True"
| "no_poll reaped (Poll w # acts) \<longleftrightarrow> reaped \<and> no_poll True acts"
| "no_poll reaped (Waitpid # acts) = no_poll True acts"
| "no_poll reaped (a # acts) = no_poll reaped acts"

definition straight :: "family \<Rightarrow> bool" where
  "straight s \<longleftrightarrow> no_poll (f_reaped s) (p_todo (f_parent s)) \<and> no_poll True (p_todo (f_child s))"

definition to_do :: "family \<Rightarrow> nat" where
  "to_do s = length (p_todo (f_parent s)) + length (p_todo (f_child s))"

lemma printer_step_shorter:
  assumes "printer_step tty e r p = Some (out, r', p')" and "no_poll r (p_todo p)"
  shows "no_poll r' (p_todo p') \<and> length (p_todo p') < length (p_todo p) \<and> (r \<longrightarrow> r')"
  using assms by (auto simp: printer_step.simps Let_def split: list.splits pact.splits prod.splits if_splits)

lemma fam_step_shorter:
  assumes "fam_step tty s t" and "straight s"
  shows "straight t \<and> to_do t < to_do s"
  using assms(1)
proof cases
  case (parent out r p)
  then show ?thesis using printer_step_shorter [OF parent(2)] assms(2) by (simp add: to_do_def straight_def)
next
  case (child out r c)
  then show ?thesis using printer_step_shorter [OF child(2)] assms(2) by (auto simp: to_do_def straight_def)
qed

lemma both_ended_final: "both_ended s \<Longrightarrow> \<not> fam_step tty s t"
  by (auto simp: printer_step.simps both_ended_def ended_def elim!: fam_step.cases)

definition outputs :: "bool \<Rightarrow> family \<Rightarrow> string set" where
  "outputs tty s = {f_screen t |t. (fam_step tty)\<^sup>*\<^sup>* s t \<and> both_ended t}"

lemma outputs_ended: "both_ended s \<Longrightarrow> outputs tty s = {f_screen s}"
  by (auto simp: outputs_def both_ended_final elim: converse_rtranclpE)

lemma outputs_step: "\<not> both_ended s \<Longrightarrow> outputs tty s = (\<Union>t \<in> set (fam_succs tty s). outputs tty t)"
proof (intro set_eqI iffI)
  fix out
  assume n: "\<not> both_ended s" and "out \<in> outputs tty s"
  then obtain t where t: "(fam_step tty)\<^sup>*\<^sup>* s t" "both_ended t" "out = f_screen t" by (auto simp: outputs_def)
  with n obtain u where "fam_step tty s u" "(fam_step tty)\<^sup>*\<^sup>* u t" by (metis converse_rtranclpE)
  then show "out \<in> (\<Union>t \<in> set (fam_succs tty s). outputs tty t)" using t by (auto simp: outputs_def fam_succs_step)
next
  fix out
  assume "out \<in> (\<Union>t \<in> set (fam_succs tty s). outputs tty t)"
  then obtain u t where "fam_step tty s u" "(fam_step tty)\<^sup>*\<^sup>* u t" "both_ended t" "out = f_screen t"
    by (auto simp: outputs_def fam_succs_step)
  then show "out \<in> outputs tty s" unfolding outputs_def by (blast intro: converse_rtranclp_into_rtranclp [of "fam_step tty"])
qed

lemma screens_outputs:
  "\<lbrakk>straight s; to_do s \<le> n\<rbrakk> \<Longrightarrow> set (screens n tty s) = outputs tty s"
proof (induction n arbitrary: s)
  case 0
  then have "both_ended s" by (simp add: to_do_def both_ended_def ended_def)
  then show ?case by (simp add: outputs_ended)
next
  case (Suc n)
  show ?case
  proof (cases "both_ended s")
    case False
    have "set (screens n tty t) = outputs tty t" if "t \<in> set (fam_succs tty s)" for t
      using that fam_step_shorter [of tty s t] Suc.prems by (intro Suc.IH) (auto simp: fam_succs_step)
    then show ?thesis using False by (simp add: outputs_step)
  qed (simp add: outputs_ended)
qed

lemma forked_straight: "no_poll False pa \<Longrightarrow> no_poll True ca \<Longrightarrow> straight (forked tty before pa ca) \<and> to_do (forked tty before pa ca) = length pa + length ca"
  by (simp add: forked_def straight_def to_do_def split: prod.splits)

lemma waitPid2_screens:
  "set (screens 12 True (waitPid2 True)) = {''936036''}" "set (screens 12 False (waitPid2 False)) = {''936036''}"
  by code_simp+

definition on_lines :: "string list \<Rightarrow> string" where
  "on_lines ls = concat (map (\<lambda>l. l @ [NEWLINE]) ls)"

lemma waitprob1_screens:
  "set (screens 9 True (waitprob1 True)) = on_lines ` {[''Start'', ''0'', ''1'', ''child'', ''Stop'', ''2'', ''Stop''],
     [''Start'', ''1'', ''0'', ''child'', ''Stop'', ''2'', ''Stop''], [''Start'', ''1'', ''child'', ''0'', ''Stop'', ''2'', ''Stop''],
     [''Start'', ''1'', ''child'', ''Stop'', ''0'', ''2'', ''Stop'']}"
  "set (screens 9 False (waitprob1 False)) = on_lines ` {[''Start'', ''1'', ''child'', ''Stop'', ''Start'', ''0'', ''2'', ''Stop'']}"
  by code_simp+

text \<open>The processes of \<^verbatim>\<open>fork.c\<close> print in either order; the parent of \<^verbatim>\<open>waitPid1.c\<close> finds no child left to poll for.\<close>

lemma fork_outputs:
  "outputs tty (fork_main (pl @ [NEWLINE]) (cl @ [NEWLINE]) tty) = {on_lines [pl, cl], on_lines [cl, pl]}"
proof -
  let ?s = "fork_main (pl @ [NEWLINE]) (cl @ [NEWLINE]) tty"
  have "set (screens 4 tty ?s) = outputs tty ?s" by (rule screens_outputs) (simp_all add: fork_main_def forked_straight)
  moreover have "set (screens 4 tty ?s) = {on_lines [pl, cl], on_lines [cl, pl]}"
    by (cases tty) (auto simp: numeral_eq_Suc fork_main_def forked_def print_on_def fam_succs_def printer_step.simps both_ended_def ended_def on_lines_def)
  ultimately show ?thesis by simp
qed

lemma waitPid1_outputs:
  "outputs tty (waitPid1 (pl @ [NEWLINE]) (cl @ [NEWLINE]) w tty) = {on_lines [cl, ''wp: '' @ show_int (- 1), pl]}"
proof -
  let ?s = "waitPid1 (pl @ [NEWLINE]) (cl @ [NEWLINE]) w tty"
  have "set (screens 6 tty ?s) = outputs tty ?s" by (rule screens_outputs) (simp_all add: waitPid1_def forked_straight)
  moreover have "set (screens 6 tty ?s) = {on_lines [cl, ''wp: '' @ show_int (- 1), pl]}"
    by (cases tty) (auto simp: numeral_eq_Suc waitPid1_def forked_def print_on_def fam_succs_def printer_step.simps both_ended_def ended_def on_lines_def)
  ultimately show ?thesis by simp
qed

section \<open>Blocking around the job list\<close>

text \<open>The job list that the calls describe; a second addition and the deletion of a job that is not there are misuse.\<close>

fun jobs_after :: "job_call list \<Rightarrow> int set \<Rightarrow> int set option" where
  "jobs_after [] J = Some J"
| "jobs_after (Addjob p # cs) J = (if p \<in> J then None else jobs_after cs (insert p J))"
| "jobs_after (Deletejob p # cs) J = (if p \<in> J then jobs_after cs (J - {p}) else None)"

lemma jobs_after_append:
  "jobs_after (cs @ ds) J = (case jobs_after cs J of None \<Rightarrow> None | Some K \<Rightarrow> jobs_after ds K)"
  by (induction cs J rule: jobs_after.induct) auto

definition unreaped :: "procmask \<Rightarrow> int set" where
  "unreaped s = pm_alive s \<union> pm_zombies s"

definition unadded :: "procmask \<Rightarrow> int set" where
  "unadded s = (if pm_pc s = AtBlockAll \<or> pm_pc s = AtAdd then {pm_pid s} else {})"

definition pm_inv :: "procmask \<Rightarrow> bool" where
  "pm_inv s \<longleftrightarrow> jobs_after (pm_calls s) {} = Some (unreaped s - unadded s) \<and> unadded s \<subseteq> unreaped s
     \<and> (\<forall>p \<in> unreaped s. p < pm_next s) \<and> pm_alive s \<inter> pm_zombies s = {}
     \<and> (pm_pc s \<noteq> AtBlock \<longrightarrow> pm_blocked s \<and> \<not> pm_prev s \<and> \<not> pm_handling s) \<and> (pm_pc s = AtBlock \<longrightarrow> \<not> pm_blocked s) \<and> (pm_handling s \<longrightarrow> \<not> pm_blocked s)"

lemma pm_inv_step:
  assumes "pm_step s t" and "pm_inv s"
  shows "pm_inv t"
  using assms(1)
proof cases
  case fork
  then have "pm_next s \<notin> unreaped s" "unadded s = {}" using assms(2) by (auto simp: pm_inv_def unadded_def)
  moreover have "\<forall>p \<in> unreaped s. p < pm_next s + 1" using assms(2) by (auto simp: pm_inv_def intro: less_trans [OF _ less_add_one])
  ultimately show ?thesis using fork assms(2) by (auto simp: pm_inv_def unreaped_def unadded_def)
next
  case add
  then show ?thesis using assms(2) by (auto simp: pm_inv_def unreaped_def unadded_def jobs_after_append insert_absorb)
next
  case (dies p)
  then have "unreaped t = unreaped s" "unadded t = unadded s" by (auto simp: unreaped_def unadded_def)
  then show ?thesis using dies assms(2) by (auto simp: pm_inv_def)
next
  case (reap p)
  then have "unadded s = {}" "unadded t = {}" "p \<in> unreaped s" "unreaped t = unreaped s - {p}"
    using assms(2) by (auto simp: pm_inv_def unreaped_def unadded_def)
  then show ?thesis using reap assms(2) by (auto simp: pm_inv_def jobs_after_append)
qed (use assms(2) in \<open>auto simp: pm_inv_def unreaped_def unadded_def\<close>)

lemma pm_inv_reach: "pm_step\<^sup>*\<^sup>* pm_start s \<Longrightarrow> pm_inv s"
proof (induction rule: rtranclp_induct)
  case base
  then show ?case by (simp add: pm_inv_def pm_start_def unreaped_def unadded_def)
next
  case (step s t)
  then show ?case using pm_inv_step by blast
qed

section \<open>The mask that is not put back\<close>

definition ss_inv :: "suspender \<Rightarrow> bool" where
  "ss_inv s \<longleftrightarrow>
     (if ss_dots s = 0 then (if ss_pc s = SsBlock then \<not> ss_blocked s \<and> \<not> ss_pending s else ss_blocked s)
      else ss_dots s = 1 \<and> ss_blocked s \<and> ss_pc s \<noteq> SsDot \<and> (ss_pc s \<noteq> SsBlock \<longrightarrow> ss_prev s) \<and> (ss_pc s = SsWait \<longrightarrow> ss_pid s = 0))
     \<and> (ss_dots s = 0 \<and> ss_pc s = SsBlock \<longrightarrow> ss_alive s = {})"

lemma ss_inv_step:
  assumes "ss_step s t" and "ss_inv s"
  shows "ss_inv t"
  using assms by cases (auto simp: ss_inv_def split: if_splits)

lemma ss_inv_reach: "ss_step\<^sup>*\<^sup>* ss_start s \<Longrightarrow> ss_inv s"
proof (induction rule: rtranclp_induct)
  case base
  then show ?case by (simp add: ss_inv_def ss_start_def)
next
  case (step s t)
  then show ?case using ss_inv_step by blast
qed

lemma ss_one_dot: "\<exists>s. ss_step\<^sup>*\<^sup>* ss_start s \<and> ss_dots s = 1"
proof -
  let ?w = "\<lambda>pc pid al zo pe d. \<lparr>ss_pc = pc, ss_blocked = True, ss_prev = False, ss_pid = pid, ss_next = 2, ss_alive = al, ss_zombies = zo,
     ss_pending = pe, ss_dots = d\<rparr> :: suspender"
  have "ss_step ss_start (ss_start\<lparr>ss_pc := SsFork, ss_prev := False, ss_blocked := True\<rparr>)"
    using ss_step.block [of ss_start] by (simp add: ss_start_def)
  moreover have "ss_step (ss_start\<lparr>ss_pc := SsFork, ss_prev := False, ss_blocked := True\<rparr>) (?w SsClear 0 {1} {} False 0)"
    using ss_step.fork [of "ss_start\<lparr>ss_pc := SsFork, ss_prev := False, ss_blocked := True\<rparr>"] by (simp add: ss_start_def)
  moreover have "ss_step (?w SsClear 0 {1} {} False 0) (?w SsWait 0 {1} {} False 0)" using ss_step.clear [of "?w SsClear 0 {1} {} False 0"] by simp
  moreover have "ss_step (?w SsWait 0 {1} {} False 0) (?w SsWait 0 {} {1} True 0)" using ss_step.dies [of 1 "?w SsWait 0 {1} {} False 0"] by simp
  moreover have "ss_step (?w SsWait 0 {} {1} True 0) (?w SsWait 1 {} {} False 0)" using ss_step.sigchld [of "?w SsWait 0 {} {1} True 0" 1] by simp
  moreover have "ss_step (?w SsWait 1 {} {} False 0) (?w SsDot 1 {} {} False 0)" using ss_step.wait_over [of "?w SsWait 1 {} {} False 0"] by simp
  moreover have "ss_step (?w SsDot 1 {} {} False 0) (?w SsBlock 1 {} {} False 1)" using ss_step.dot [of "?w SsDot 1 {} {} False 0"] by simp
  ultimately have "ss_step\<^sup>*\<^sup>* ss_start (?w SsBlock 1 {} {} False 1)" by (meson rtranclp.rtrancl_refl converse_rtranclp_into_rtranclp)
  then show ?thesis by (intro exI [of _ "?w SsBlock 1 {} {} False 1"]) simp
qed

lemma setjmp_prints: "setjmp_main False True = ''Detected an Error2 condition in foo'' @ [NEWLINE]"
  "setjmp_main True e2 = ''Detected an error1 condition in foo'' @ [NEWLINE]" "setjmp_main False False = []"
  by (simp_all add: setjmp_main_def foo_def bar_def longjmp_def)

text \<open>When both children have been reaped the loop asks for a third.\<close>

lemma waitPid4_overruns:
  "\<lbrakk>status a = Some x; status b = Some y\<rbrakk> \<Longrightarrow> \<exists>out. waitPid4_loop [a, b] status 0 [] = PidsOutOfBounds out \<and> length out = 2"
  by (simp add: waitPid4_loop.simps)

section \<open>Properties\<close>

text \<open>
  What the programs with one child print, over all schedules.  \<^verbatim>\<open>waitPid2.c\<close> always prints 936036, on a
  terminal or not: the parent's 0 waits in its buffer while it waits for the child.  \<^verbatim>\<open>waitprob1.c\<close> has four outputs on a
  terminal, which differ in the place of the 0; into a file or a pipe it has a single one, in which \<^verbatim>\<open>Start\<close>
  appears twice, because \<^verbatim>\<open>fork\<close> copied the buffer.
\<close>

theorem one_child_outputs:
  "outputs tty (waitPid2 tty) = {''936036''}
   \<and> outputs True (waitprob1 True) = on_lines ` {[''Start'', ''0'', ''1'', ''child'', ''Stop'', ''2'', ''Stop''],
     [''Start'', ''1'', ''0'', ''child'', ''Stop'', ''2'', ''Stop''], [''Start'', ''1'', ''child'', ''0'', ''Stop'', ''2'', ''Stop''],
     [''Start'', ''1'', ''child'', ''Stop'', ''0'', ''2'', ''Stop'']}
   \<and> outputs False (waitprob1 False) = on_lines ` {[''Start'', ''1'', ''child'', ''Stop'', ''Start'', ''0'', ''2'', ''Stop'']}"
proof (intro conjI)
  have "set (screens 12 tty (waitPid2 tty)) = outputs tty (waitPid2 tty)"
    by (rule screens_outputs) (simp_all add: waitPid2_def forked_straight)
  then show "outputs tty (waitPid2 tty) = {''936036''}" using waitPid2_screens by (cases tty) simp_all
  have w: "set (screens 9 tty (waitprob1 tty)) = outputs tty (waitprob1 tty)" for tty
    by (rule screens_outputs) (simp_all add: waitprob1_def forked_straight)
  show "outputs True (waitprob1 True) = on_lines ` {[''Start'', ''0'', ''1'', ''child'', ''Stop'', ''2'', ''Stop''],
     [''Start'', ''1'', ''0'', ''child'', ''Stop'', ''2'', ''Stop''], [''Start'', ''1'', ''child'', ''0'', ''Stop'', ''2'', ''Stop''],
     [''Start'', ''1'', ''child'', ''Stop'', ''0'', ''2'', ''Stop'']}"
    by (rule w [of True, symmetric, THEN trans]) (rule waitprob1_screens)
  show "outputs False (waitprob1 False) = on_lines ` {[''Start'', ''1'', ''child'', ''Stop'', ''Start'', ''0'', ''2'', ''Stop'']}"
    by (rule w [of False, symmetric, THEN trans]) (rule waitprob1_screens)
qed

text \<open>
  (C40) The job list of \<^verbatim>\<open>procmask.c\<close>: in every schedule of the program, its children and the signal, no job is added
  twice and none is deleted that has not been added; the jobs are exactly the children that have not been reaped,
  except between a \<^verbatim>\<open>fork\<close> and its \<^verbatim>\<open>addjob\<close>, where only the new child is missing, the signal is
  blocked and the handler does not run.
\<close>

theorem procmask_jobs:
  assumes "pm_step\<^sup>*\<^sup>* pm_start s"
  shows "\<exists>J. jobs_after (pm_calls s) {} = Some J
    \<and> (if pm_pc s = AtBlockAll \<or> pm_pc s = AtAdd
       then J = pm_alive s \<union> pm_zombies s - {pm_pid s} \<and> pm_blocked s \<and> \<not> pm_handling s else J = pm_alive s \<union> pm_zombies s)"
  using pm_inv_reach [OF assms] by (auto simp: pm_inv_def unreaped_def unadded_def)

lemma procmask_jobs_witness:
  "\<exists>s. pm_step\<^sup>*\<^sup>* pm_start s \<and> pm_calls s = [Addjob 1] \<and> (\<exists>J. jobs_after (pm_calls s) {} = Some J \<and> J = pm_alive s \<union> pm_zombies s)"
proof -
  let ?s = "pm_start\<lparr>pm_pc := AtFork, pm_blocked := True\<rparr>"
  let ?t = "?s\<lparr>pm_pc := AtBlockAll, pm_pid := 1, pm_next := 2, pm_alive := {1}\<rparr>"
  let ?u = "?t\<lparr>pm_pc := AtAdd\<rparr>"
  let ?v = "?u\<lparr>pm_pc := AtRestore, pm_calls := [Addjob 1]\<rparr>"
  have "pm_step pm_start ?s" using pm_step.block [of pm_start] by (simp add: pm_start_def)
  moreover have "pm_step ?s ?t" using pm_step.fork [of ?s] by (simp add: pm_start_def)
  moreover have "pm_step ?t ?u" using pm_step.blockall [of ?t] by (simp add: pm_start_def)
  moreover have "pm_step ?u ?v" using pm_step.add [of ?u] by (simp add: pm_start_def)
  ultimately have "pm_step\<^sup>*\<^sup>* pm_start ?v" by (meson rtranclp.rtrancl_refl converse_rtranclp_into_rtranclp)
  from procmask_jobs [OF this] this show ?thesis by (intro exI [of _ ?v]) auto
qed

text \<open>
  The loop of \<^verbatim>\<open>sigsuspend.c\<close> prints its first dot in some schedule and never a second one: \<^verbatim>\<open>SIGCHLD\<close> is
  not taken out of the mask again, so from the second round on the mask that \<^verbatim>\<open>sigsuspend\<close> puts in force blocks it.
\<close>

theorem sigsuspend_one_dot:
  "(\<forall>s. ss_step\<^sup>*\<^sup>* ss_start s \<longrightarrow> ss_dots s \<le> 1) \<and> (\<exists>s. ss_step\<^sup>*\<^sup>* ss_start s \<and> ss_dots s = 1)"
proof (intro conjI allI impI)
  fix s
  assume "ss_step\<^sup>*\<^sup>* ss_start s"
  from ss_inv_reach [OF this] show "ss_dots s \<le> 1" by (simp add: ss_inv_def split: if_splits)
qed (rule ss_one_dot)

lemma sigsuspend_one_dot_witness: "\<exists>s. ss_step\<^sup>*\<^sup>* ss_start s \<and> ss_dots s = 1 \<and> ss_dots s \<le> 1"
  using sigsuspend_one_dot by blast

end
