(* ===== verification/Net_Addresses.thy ===== *)
theory Net_Addresses
  imports C_Strings
begin

text \<open>
  The two converters of \<^verbatim>\<open>excode/11NetworkProgramming\<close>: \<^verbatim>\<open>hex2dd.c\<close> prints a hexadecimal address in dotted
  decimal, \<^verbatim>\<open>dd2hex.c\<close> the other way round.  A number in memory is its four bytes, least first, as the
  x86 target has them; \<^verbatim>\<open>htonl\<close> turns them round, and \<^verbatim>\<open>inet_ntop\<close> and \<^verbatim>\<open>inet_pton\<close> work on the bytes in the
  order of memory.  \<^verbatim>\<open>inet_pton\<close> takes octets without superfluous zeros, as the C library does.
\<close>

section \<open>The library functions\<close>

definition xdigit :: "nat \<Rightarrow> char" where
  "xdigit d = (if d < 10 then digit d else char_of (87 + d))"

definition xdigit_val :: "char \<Rightarrow> nat option" where
  "xdigit_val c =
     (let n = of_char c :: nat in
      if 48 \<le> n \<and> n \<le> 57 then Some (n - 48)
      else if 97 \<le> n \<and> n \<le> 102 then Some (n - 87)
      else if 65 \<le> n \<and> n \<le> 70 then Some (n - 55)
      else None)"

fun show_hex :: "nat \<Rightarrow> string" where
  "show_hex n = (if n < 16 then [xdigit n] else show_hex (n div 16) @ [xdigit (n mod 16)])"

declare show_hex.simps [simp del]

definition hex_val :: "string \<Rightarrow> nat" where
  "hex_val = foldl (\<lambda>v c. 16 * v + the (xdigit_val c)) 0"

definition isxdigit :: "char \<Rightarrow> bool" where
  "isxdigit c \<longleftrightarrow> xdigit_val c \<noteq> None"

text \<open>The conversion \<^verbatim>\<open>%x\<close> of \<^verbatim>\<open>sscanf\<close>: blanks, a sign, a prefix, digits; \<^verbatim>\<open>strtoul\<close> saturates at 64 bits, and the result
  is stored in 32.\<close>

definition scan_x :: "string \<Rightarrow> nat option" where
  "scan_x s =
     (let s1 = dropWhile isspace s;
          s2 = (if at s1 \<in> {CHR ''-'', CHR ''+''} then tl s1 else s1);
          s3 = (if at s2 = CHR ''0'' \<and> at (tl s2) \<in> {CHR ''x'', CHR ''X''} \<and> isxdigit (at (tl (tl s2))) then tl (tl s2) else s2);
          ds = takeWhile isxdigit s3;
          v = min (2 ^ 64 - 1) (hex_val ds)
      in if ds = [] then None else Some ((if at s1 = CHR ''-'' then 2 ^ 64 - v else v) mod 2 ^ 32))"

definition in_memory :: "nat \<Rightarrow> nat list" where
  "in_memory w = [w mod 256, w div 256 mod 256, w div 65536 mod 256, w div 16777216 mod 256]"

fun from_memory :: "nat list \<Rightarrow> nat" where
  "from_memory [] = 0"
| "from_memory (b # bs) = b + 256 * from_memory bs"

definition htonl :: "nat \<Rightarrow> nat" where
  "htonl w = from_memory (rev (in_memory w))"

definition inet_ntop :: "nat \<Rightarrow> string" where
  "inet_ntop s_addr =
     (case map show_nat (in_memory s_addr) of
        [a, b, c, d] \<Rightarrow> a @ ''.'' @ b @ ''.'' @ c @ ''.'' @ d
      | _ \<Rightarrow> [])"

fun split_dots :: "string \<Rightarrow> string list" where
  "split_dots [] = [[]]"
| "split_dots (c # s) =
     (if c = CHR ''.'' then [] # split_dots s
      else case split_dots s of [] \<Rightarrow> [[c]] | w # ws \<Rightarrow> (c # w) # ws)"

definition octet_ok :: "string \<Rightarrow> bool" where
  "octet_ok s \<longleftrightarrow> s \<noteq> [] \<and> list_all isdigit s \<and> (at s = CHR ''0'' \<longrightarrow> length s = 1) \<and> digits_val s \<le> 255"

definition inet_pton :: "string \<Rightarrow> nat option" where
  "inet_pton s =
     (let ws = split_dots s in
      if length ws = 4 \<and> list_all octet_ok ws then Some (from_memory (map digits_val ws)) else None)"

section \<open>The programs\<close>

datatype conv = Quiet | Says string | AppError string

text \<open>The first argument of \<open>hex2dd\<close> is what the variable holds before \<^verbatim>\<open>sscanf\<close>, whose result is not looked at.\<close>

definition hex2dd :: "nat \<Rightarrow> string list \<Rightarrow> conv" where
  "hex2dd junk argv =
     (if length argv \<noteq> 2 then Quiet
      else let addr = (case scan_x (argv ! 1) of None \<Rightarrow> junk | Some v \<Rightarrow> v) in Says (inet_ntop (htonl addr) @ [NEWLINE]))"

definition dd2hex :: "string list \<Rightarrow> conv" where
  "dd2hex argv =
     (if length argv \<noteq> 2 then Quiet
      else case inet_pton (argv ! 1) of
          None \<Rightarrow> AppError ''inet_pton error''
        | Some s_addr \<Rightarrow> Says (''0x'' @ show_hex (htonl s_addr) @ [NEWLINE]))"

section \<open>Hexadecimal digits\<close>

lemma xdigit_val_xdigit [simp]: "d < 16 \<Longrightarrow> xdigit_val (xdigit d) = Some d"
  by (auto simp: xdigit_def xdigit_val_def digit_def of_char_of Let_def)

lemma hex_val_snoc: "hex_val (xs @ [c]) = 16 * hex_val xs + the (xdigit_val c)"
  by (simp add: hex_val_def)

lemma isxdigit_xdigit: "d < 16 \<Longrightarrow> isxdigit (xdigit d)"
  by (simp add: isxdigit_def)

lemma show_hex_digits: "list_all isxdigit (show_hex n)"
  by (induction n rule: show_hex.induct) (subst show_hex.simps, auto simp: isxdigit_xdigit)

lemma show_hex_not_Nil [simp]: "show_hex n \<noteq> []"
  by (subst show_hex.simps) simp

lemma hex_val_show [simp]: "hex_val (show_hex n) = n"
proof (induction n rule: show_hex.induct)
  case (1 n)
  then show ?case
    by (subst show_hex.simps) (auto simp: hex_val_snoc, simp add: hex_val_def)
qed

lemma scan_x_show:
  assumes "n < 2 ^ 32"
  shows "scan_x (''0x'' @ show_hex n) = Some n"
proof -
  have d: "isxdigit (at (show_hex n))" using show_hex_digits [of n] by (cases "show_hex n") (simp_all add: at_def)
  have tw: "takeWhile isxdigit (show_hex n) = show_hex n"
    using show_hex_digits [of n] by (simp add: takeWhile_eq_all_conv list_all_iff)
  have sp: "\<not> isspace (CHR ''0'')" by (simp add: isspace_def)
  have n: "n \<le> 2 ^ 64 - 1" "n mod 2 ^ 32 = n" using assms by simp_all
  show ?thesis
    using d sp n by (simp add: scan_x_def Let_def at_def tw del: takeWhile_eq_all_conv)
qed

section \<open>Bytes in memory\<close>

lemma in_memory_from:
  "\<lbrakk>a < 256; b < 256; c < 256; d < 256\<rbrakk> \<Longrightarrow> in_memory (from_memory [a, b, c, d]) = [a, b, c, d]"
  using digits256 [of a b c d] by (simp add: in_memory_def algebra_simps)

lemma from_memory_in: "w < 2 ^ 32 \<Longrightarrow> from_memory (in_memory w) = w"
  using base256_digits [of w] by (simp add: in_memory_def algebra_simps)

lemma in_memory_htonl: "in_memory (htonl w) = rev (in_memory w)"
  using in_memory_from by (simp add: htonl_def in_memory_def [of w])

lemma htonl_htonl: "w < 2 ^ 32 \<Longrightarrow> htonl (htonl w) = w"
  using from_memory_in [of w] by (simp add: htonl_def [of "htonl w"] in_memory_htonl)

section \<open>Octets\<close>

lemma split_dots_append: "CHR ''.'' \<notin> set w \<Longrightarrow> split_dots (w @ CHR ''.'' # s) = w # split_dots s"
  by (induction w) auto

lemma split_dots_last: "CHR ''.'' \<notin> set w \<Longrightarrow> split_dots w = [w]"
  by (induction w) auto

lemma no_dot_digit: "list_all isdigit w \<Longrightarrow> CHR ''.'' \<notin> set w"
  by (auto simp: list_all_iff isdigit_def)

definition canonical :: "string \<Rightarrow> bool" where
  "canonical s \<longleftrightarrow> s \<noteq> [] \<and> list_all isdigit s \<and> (at s = CHR ''0'' \<longrightarrow> length s = 1)"

lemma digit_zero: "d < 10 \<Longrightarrow> digit d = CHR ''0'' \<longleftrightarrow> d = 0"
proof -
  assume "d < 10"
  then have "(of_char (digit d) :: nat) = 48 + d" by (rule of_char_digit)
  moreover have "digit 0 = CHR ''0''" by code_simp
  ultimately show ?thesis by (metis add_cancel_right_right of_char_digit zero_less_numeral)
qed

lemma show_nat_canonical: "canonical (show_nat n) \<and> (at (show_nat n) = CHR ''0'' \<longrightarrow> n = 0)"
proof (induction n rule: show_nat.induct)
  case (1 n)
  show ?case
  proof (cases "n < 10")
    case True
    then show ?thesis by (subst (1 2) show_nat.simps) (simp add: canonical_def at_def isdigit_digit digit_zero)
  next
    case False
    then have IH: "canonical (show_nat (n div 10))" "at (show_nat (n div 10)) \<noteq> CHR ''0''" using "1.IH" by auto
    then show ?thesis using False
      by (subst (1 2) show_nat.simps) (cases "show_nat (n div 10)"; auto simp: canonical_def at_def isdigit_digit)
  qed
qed

lemma digit_digit_val: "isdigit c \<Longrightarrow> digit (digit_val c) = c \<and> digit_val c < 10"
  by (auto simp: isdigit_def digit_def digit_val_def)

lemma digits_val_pos: "canonical s \<Longrightarrow> at s \<noteq> CHR ''0'' \<Longrightarrow> 0 < digits_val s"
proof (induction s rule: rev_induct)
  case (snoc c s)
  have c: "digit (digit_val c) = c" "digit_val c < 10" using snoc.prems digit_digit_val [of c] by (auto simp: canonical_def)
  show ?case
  proof (cases "s = []")
    case True
    then show ?thesis using snoc.prems c digit_zero [of "digit_val c"] by (simp add: digits_val_def at_def)
  next
    case False
    then have "canonical s" "at s \<noteq> CHR ''0''" using snoc.prems by (cases s; auto simp: canonical_def at_def)+
    then show ?thesis using snoc.IH by (simp add: digits_val_snoc)
  qed
qed (simp add: canonical_def)

lemma show_nat_digits_val: "canonical s \<Longrightarrow> show_nat (digits_val s) = s"
proof (induction s rule: rev_induct)
  case (snoc c s)
  have c: "digit (digit_val c) = c" "digit_val c < 10" using snoc.prems digit_digit_val [of c] by (auto simp: canonical_def)
  show ?case
  proof (cases "s = []")
    case True
    then show ?thesis using c by (subst show_nat.simps) (simp add: digits_val_def)
  next
    case False
    then have s: "canonical s" "at s \<noteq> CHR ''0''" using snoc.prems by (cases s; auto simp: canonical_def at_def)+
    then have "0 < digits_val s" by (rule digits_val_pos)
    then show ?thesis using snoc.IH [OF s(1)] c by (subst show_nat.simps) (simp add: digits_val_snoc)
  qed
qed (simp add: canonical_def)

lemma octet_canonical: "octet_ok s \<longleftrightarrow> canonical s \<and> digits_val s \<le> 255"
  by (auto simp: octet_ok_def canonical_def)

lemma show_nat_octet: "n < 256 \<Longrightarrow> octet_ok (show_nat n)"
  using show_nat_canonical [of n] by (simp add: octet_canonical)

lemma split_four:
  assumes "length (split_dots s) = 4"
  shows "\<exists>a b c d. split_dots s = [a, b, c, d] \<and> s = a @ ''.'' @ b @ ''.'' @ c @ ''.'' @ d"
proof -
  have join: "s = concat (map (\<lambda>w. w @ ''.'') (butlast (split_dots s))) @ last (split_dots s) \<and> split_dots s \<noteq> []"
  proof (induction s)
    case (Cons x s)
    then show ?case by (cases "split_dots s") auto
  qed simp
  obtain a b c d where "split_dots s = [a, b, c, d]" using assms by (auto simp: numeral_eq_Suc length_Suc_conv)
  then show ?thesis using join by auto
qed

lemma inet_ntop_pton: "inet_pton (inet_ntop w) = Some (from_memory (in_memory w))"
proof -
  let ?o = "\<lambda>k. show_nat (w div k mod 256)"
  have ok: "octet_ok (?o k)" for k by (rule show_nat_octet) simp
  have nd: "CHR ''.'' \<notin> set (?o k)" for k using ok by (auto simp: octet_ok_def intro: no_dot_digit [THEN notE])
  have s: "inet_ntop w = ?o 1 @ CHR ''.'' # ?o 256 @ CHR ''.'' # ?o 65536 @ CHR ''.'' # ?o 16777216"
    by (simp add: inet_ntop_def in_memory_def)
  have "split_dots (inet_ntop w) = [?o 1, ?o 256, ?o 65536, ?o 16777216]"
    unfolding s by (simp only: split_dots_append [OF nd] split_dots_last [OF nd])
  then show ?thesis using ok ok [of 1] by (simp add: inet_pton_def in_memory_def)
qed

lemma inet_pton_ntop:
  assumes "inet_pton s = Some w"
  shows "inet_ntop w = s" "w < 2 ^ 32"
proof -
  obtain a b c d where S: "split_dots s = [a, b, c, d]" "s = a @ ''.'' @ b @ ''.'' @ c @ ''.'' @ d"
    using assms split_four [of s] by (auto simp: inet_pton_def Let_def split: if_splits)
  have ok: "octet_ok a" "octet_ok b" "octet_ok c" "octet_ok d"
    and w: "w = from_memory [digits_val a, digits_val b, digits_val c, digits_val d]"
    using assms S(1) by (auto simp: inet_pton_def Let_def split: if_splits)
  have v: "digits_val a < 256" "digits_val b < 256" "digits_val c < 256" "digits_val d < 256"
    using ok by (auto simp: octet_ok_def)
  then show "w < 2 ^ 32" by (simp add: w)
  show "inet_ntop w = s"
    unfolding inet_ntop_def w in_memory_from [OF v] using ok S(2) by (simp add: octet_canonical show_nat_digits_val)
qed

lemma converters_inverse:
  "w < 2 ^ 32 \<Longrightarrow> \<exists>dd. hex2dd junk [p, ''0x'' @ show_hex w] = Says (dd @ [NEWLINE]) \<and> dd2hex [q, dd] = Says (''0x'' @ show_hex w @ [NEWLINE])"
  "dd2hex [q, dd] = Says (hex @ [NEWLINE]) \<Longrightarrow> hex2dd junk [p, hex] = Says (dd @ [NEWLINE])"
proof -
  assume w: "w < 2 ^ 32"
  have "hex2dd junk [p, ''0x'' @ show_hex w] = Says (inet_ntop (htonl w) @ [NEWLINE])"
    unfolding hex2dd_def using scan_x_show [OF w] by simp
  moreover have "htonl w < 2 ^ 32" using in_memory_htonl [of w] by (simp add: htonl_def in_memory_def)
  then have "from_memory (in_memory (htonl w)) = htonl w" by (rule from_memory_in)
  then have "dd2hex [q, inet_ntop (htonl w)] = Says (''0x'' @ show_hex w @ [NEWLINE])"
    by (simp add: dd2hex_def inet_ntop_pton htonl_htonl [OF w])
  ultimately show "\<exists>dd. hex2dd junk [p, ''0x'' @ show_hex w] = Says (dd @ [NEWLINE]) \<and> dd2hex [q, dd] = Says (''0x'' @ show_hex w @ [NEWLINE])"
    by blast
next
  assume "dd2hex [q, dd] = Says (hex @ [NEWLINE])"
  then obtain w where w: "inet_pton dd = Some w" "hex = ''0x'' @ show_hex (htonl w)"
    by (auto simp: dd2hex_def split: option.splits)
  have "htonl w < 2 ^ 32" by (simp add: htonl_def in_memory_def)
  then have "scan_x hex = Some (htonl w)" unfolding w(2) by (rule scan_x_show)
  then show "hex2dd junk [p, hex] = Says (dd @ [NEWLINE])"
    using inet_pton_ntop [OF w(1)] by (simp add: hex2dd_def htonl_htonl)
qed

text \<open>The first example in the comment of \<^verbatim>\<open>hex2dd.c\<close>: 107.212.122.205 is not \<^verbatim>\<open>8f d4 8a cd\<close>.\<close>

lemma comment_example:
  "hex2dd 0 [[], ''0x8fd48acd''] = Says (show_nat 143 @ ''.'' @ show_nat 212 @ ''.'' @ show_nat 138 @ ''.'' @ show_nat 205 @ [NEWLINE])"
  by (simp add: hex2dd_def scan_x_def Let_def at_def isspace_def isxdigit_def xdigit_val_def hex_val_def htonl_def in_memory_def inet_ntop_def)

section \<open>Properties\<close>

text \<open>
  The two converters undo each other.  For every 32-bit address what \<open>hex2dd\<close> prints for the hexadecimal
  number is what \<open>dd2hex\<close> turns back into the same number; and every dotted address that \<open>dd2hex\<close>
  accepts comes back from \<open>hex2dd\<close> as it was typed.
\<close>

theorem address_roundtrip:
  "(w < 2 ^ 32 \<longrightarrow> (\<exists>dd. hex2dd junk [p, ''0x'' @ show_hex w] = Says (dd @ [NEWLINE]) \<and> dd2hex [q, dd] = Says (''0x'' @ show_hex w @ [NEWLINE])))
   \<and> (dd2hex [q, dd] = Says (hex @ [NEWLINE]) \<longrightarrow> hex2dd junk [p, hex] = Says (dd @ [NEWLINE]))"
  using converters_inverse by blast

lemma address_roundtrip_witness:
  "\<exists>dd. hex2dd 0 [[], ''0x'' @ show_hex 0x0A010140] = Says (dd @ [NEWLINE])
    \<and> dd2hex [[], dd] = Says (''0x'' @ show_hex 0x0A010140 @ [NEWLINE])"
  using address_roundtrip [where w = "0x0A010140" and junk = 0 and p = "[]" and q = "[]"] by simp

end
