(* ===== verification/Open_Files.thy ===== *)
theory Open_Files
  imports Wrappers
begin

text \<open>
  Descriptors and open files (\<^verbatim>\<open>excode/10SystemLeveIO\<close>).  A process has a table of descriptors; an entry refers to an
  open file, which has the name of a file and a position and may be shared by several descriptors
  and, after \<^verbatim>\<open>fork\<close>, by several processes.  \<^verbatim>\<open>open\<close> takes the lowest free descriptor.  The programs end in a wrapper's
  error exit (\<open>None\<close>) or with what they have printed.
\<close>

section \<open>The tables\<close>

definition OPEN_MAX :: nat where "OPEN_MAX = 1024"

text \<open>An open file: the name and the position.\<close>

type_synonym ofile = "string \<times> nat"

record kernel =
  k_files :: "string \<rightharpoonup> string"
  k_open :: "ofile list"

type_synonym fdtab = "nat option list"

fun of_lowest_free :: "fdtab \<Rightarrow> nat option" where
  "of_lowest_free [] = None"
| "of_lowest_free (x # xs) = (if x = None then Some 0 else map_option Suc (of_lowest_free xs))"

text \<open>\<^verbatim>\<open>open\<close> for reading; with \<open>creat\<close> a file that does not exist is made.  A failed call leaves everything as it was.\<close>

definition sys_open :: "string \<Rightarrow> bool \<Rightarrow> kernel \<Rightarrow> fdtab \<Rightarrow> (nat \<times> kernel \<times> fdtab) option" where
  "sys_open nm creat k fds =
     (case of_lowest_free fds of None \<Rightarrow> None
      | Some fd \<Rightarrow>
          if k_files k nm = None \<and> \<not> creat then None
          else Some (fd, k\<lparr>k_files := (if k_files k nm = None then (k_files k)(nm \<mapsto> []) else k_files k), k_open := k_open k @ [(nm, 0)]\<rparr>,
                     fds[fd := Some (length (k_open k))]))"

definition of_close :: "nat \<Rightarrow> fdtab \<Rightarrow> fdtab" where
  "of_close fd fds = fds[fd := None]"

definition of_dup2 :: "nat \<Rightarrow> nat \<Rightarrow> fdtab \<Rightarrow> fdtab option" where
  "of_dup2 oldfd newfd fds =
     (if oldfd < length fds \<and> newfd < length fds \<and> fds ! oldfd \<noteq> None then Some (fds[newfd := fds ! oldfd]) else None)"

definition open_file :: "nat \<Rightarrow> fdtab \<Rightarrow> nat option" where
  "open_file fd fds = (if fd < length fds then fds ! fd else None)"

text \<open>Reading one character: at the end of the file nothing is read.\<close>

definition sys_read1 :: "nat \<Rightarrow> kernel \<Rightarrow> fdtab \<Rightarrow> (char option \<times> kernel) option" where
  "sys_read1 fd k fds =
     (case open_file fd fds of None \<Rightarrow> None
      | Some j \<Rightarrow>
          case k_open k ! j of (nm, pos) \<Rightarrow>
          case k_files k nm of None \<Rightarrow> None
          | Some d \<Rightarrow> if pos < length d then Some (Some (d ! pos), k\<lparr>k_open := (k_open k)[j := (nm, pos + 1)]\<rparr>) else Some (None, k))"

text \<open>\<^verbatim>\<open>lseek\<close> from the start, or from the position that is there.\<close>

definition sys_lseek :: "nat \<Rightarrow> nat \<Rightarrow> bool \<Rightarrow> kernel \<Rightarrow> fdtab \<Rightarrow> (nat \<times> kernel) option" where
  "sys_lseek fd off from_cur k fds =
     (case open_file fd fds of None \<Rightarrow> None
      | Some j \<Rightarrow>
          case k_open k ! j of (nm, pos) \<Rightarrow>
          let pos' = (if from_cur then pos + off else off) in Some (pos', k\<lparr>k_open := (k_open k)[j := (nm, pos')]\<rparr>))"

text \<open>Standard input, output and error are open when a program starts.\<close>

definition boot :: "(string \<rightharpoonup> string) \<Rightarrow> kernel \<times> fdtab" where
  "boot fs = (\<lparr>k_files = fs, k_open = [(''stdin'', 0), (''stdout'', 0), (''stderr'', 0)]\<rparr>,
     [Some 0, Some 1, Some 2] @ replicate (OPEN_MAX - 3) None)"

section \<open>The programs\<close>

text \<open>A character that is not read stays what it was.\<close>

definition got :: "char option \<Rightarrow> char \<Rightarrow> char" where
  "got r c = (case r of None \<Rightarrow> c | Some x \<Rightarrow> x)"

definition say_c :: "char \<Rightarrow> string" where
  "say_c c = ''c='' @ [c] @ [NEWLINE]"

definition sharingfile1 :: "(string \<rightharpoonup> string) \<Rightarrow> char \<Rightarrow> string option" where
  "sharingfile1 fs junk =
     (case boot fs of (k0, t0) \<Rightarrow>
      case sys_open ''foobar.txt'' False k0 t0 of None \<Rightarrow> None | Some (fd1, k1, t1) \<Rightarrow>
      case sys_open ''foobar.txt'' False k1 t1 of None \<Rightarrow> None | Some (fd2, k2, t2) \<Rightarrow>
      case sys_read1 fd1 k2 t2 of None \<Rightarrow> None | Some (r, k3) \<Rightarrow>
      case sys_read1 fd2 k3 t2 of None \<Rightarrow> None | Some (r', k4) \<Rightarrow> Some (say_c (got r' (got r junk))))"

text \<open>The child has a copy of the table and a \<open>c\<close> of its own.\<close>

definition sharingfile2 :: "(string \<rightharpoonup> string) \<Rightarrow> char \<Rightarrow> string option" where
  "sharingfile2 fs junk =
     (case boot fs of (k0, t0) \<Rightarrow>
      case sys_open ''foobar.txt'' False k0 t0 of None \<Rightarrow> None | Some (fd, k1, t1) \<Rightarrow>
      let child_t = t1 in
      let k2 = (case sys_read1 fd k1 child_t of None \<Rightarrow> k1 | Some (_, k) \<Rightarrow> k) in
      case sys_read1 fd k2 t1 of None \<Rightarrow> None | Some (r, k3) \<Rightarrow> Some (say_c (got r junk)))"

definition redirect :: "(string \<rightharpoonup> string) \<Rightarrow> char \<Rightarrow> string option" where
  "redirect fs junk =
     (case boot fs of (k0, t0) \<Rightarrow>
      case sys_open ''foobar.txt'' False k0 t0 of None \<Rightarrow> None | Some (fd1, k1, t1) \<Rightarrow>
      case sys_open ''foobar.txt'' False k1 t1 of None \<Rightarrow> None | Some (fd2, k2, t2) \<Rightarrow>
      case sys_read1 fd2 k2 t2 of None \<Rightarrow> None | Some (r, k3) \<Rightarrow>
      case of_dup2 fd2 fd1 t2 of None \<Rightarrow> None | Some t3 \<Rightarrow>
      case sys_read1 fd1 k3 t3 of None \<Rightarrow> None | Some (r', k4) \<Rightarrow> Some (say_c (got r' (got r junk))))"

text \<open>\<open>fdopen\<close> does not use the wrappers; a failed \<^verbatim>\<open>open\<close> is -1 and closing it does nothing.\<close>

definition fdopen_main :: "(string \<rightharpoonup> string) \<Rightarrow> string" where
  "fdopen_main fs =
     (case boot fs of (k0, t0) \<Rightarrow>
      case (case sys_open ''foo.txt'' False k0 t0 of None \<Rightarrow> (k0, t0) | Some (fd1, k1, t1) \<Rightarrow> (k1, of_close fd1 t1)) of (k1, t1) \<Rightarrow>
      let fd2 = (case sys_open ''baz.txt'' False k1 t1 of None \<Rightarrow> -1 | Some (fd, k2, t2) \<Rightarrow> int fd) in
      ''FD2= '' @ show_int fd2 @ [NEWLINE])"

text \<open>\<open>p1\<close> prints the first descriptor under the name of the second; both are in the result.\<close>

definition p1_main :: "(string \<rightharpoonup> string) \<Rightarrow> (string \<times> nat) option" where
  "p1_main fs =
     (case boot fs of (k0, t0) \<Rightarrow>
      case sys_open ''foo.text'' True k0 t0 of None \<Rightarrow> None | Some (fd1, k1, t1) \<Rightarrow>
      let t2 = of_close fd1 t1 in
      case sys_open ''baz.txt'' True k1 t2 of None \<Rightarrow> None | Some (fd2, k2, t3) \<Rightarrow>
      Some (''fd2='' @ show_int (int fd1) @ [NEWLINE], fd2))"

text \<open>\<^verbatim>\<open>sharingfile_ostep.c\<close>: the child's line and the parent's, which waits for it.  A failed \<^verbatim>\<open>open\<close> makes \<^verbatim>\<open>lseek\<close> fail.\<close>

definition sharingfile_ostep :: "(string \<rightharpoonup> string) \<Rightarrow> string \<Rightarrow> string" where
  "sharingfile_ostep fs nm =
     (case boot fs of (k0, t0) \<Rightarrow>
      case sys_open nm False k0 t0 of
        None \<Rightarrow> ''child: offset:-1'' @ [NEWLINE] @ ''parent: offset -1'' @ [NEWLINE]
      | Some (fd, k1, t1) \<Rightarrow>
          case sys_lseek fd 10 False k1 t1 of None \<Rightarrow> [] | Some (rc, k2) \<Rightarrow>
          case sys_lseek fd 0 True k2 t1 of None \<Rightarrow> [] | Some (rp, k3) \<Rightarrow>
          ''child: offset:'' @ show_int (int rc) @ [NEWLINE] @ ''parent: offset '' @ show_int (int rp) @ [NEWLINE])"

text \<open>\<^verbatim>\<open>cpstidn.c\<close>: one character after the other, with a bound on the rounds.\<close>

fun cpstdin :: "nat \<Rightarrow> kernel \<Rightarrow> fdtab \<Rightarrow> string \<Rightarrow> string option" where
  "cpstdin 0 k t out = None"
| "cpstdin (Suc n) k t out =
     (case sys_read1 0 k t of None \<Rightarrow> Some out
      | Some (None, k') \<Rightarrow> Some out
      | Some (Some c, k') \<Rightarrow> cpstdin n k' t (out @ [c]))"

section \<open>Descriptors\<close>

lemma boot_table: "boot fs = (\<lparr>k_files = fs, k_open = [(''stdin'', 0), (''stdout'', 0), (''stderr'', 0)]\<rparr>,
    Some 0 # Some 1 # Some 2 # None # None # replicate (OPEN_MAX - 5) None)"
proof -
  have "OPEN_MAX - 3 = Suc (Suc (OPEN_MAX - 5))" by (simp add: OPEN_MAX_def)
  then have "replicate (OPEN_MAX - 3) (None :: nat option) = None # None # replicate (OPEN_MAX - 5) None" by (metis replicate_Suc)
  then show ?thesis unfolding boot_def by (metis append_Cons append_Nil)
qed

lemma of_lowest_free_Some: "of_lowest_free fds = Some fd \<Longrightarrow> fd < length fds \<and> fds ! fd = None \<and> (\<forall>i < fd. fds ! i \<noteq> None)"
proof (induction fds arbitrary: fd)
  case (Cons x xs)
  then show ?case by (auto simp: nth_Cons split: if_splits nat.splits)
qed simp

text \<open>A descriptor that is closed again is the next one to be given out.\<close>

lemma close_reopen: "of_lowest_free fds = Some fd \<Longrightarrow> of_lowest_free (of_close fd (fds[fd := Some j])) = Some fd"
  by (induction fds arbitrary: fd) (auto simp: of_close_def split: if_splits)

text \<open>Every descriptor in use refers to an open file: the operations keep this.\<close>

definition fds_ok :: "kernel \<Rightarrow> fdtab \<Rightarrow> bool" where
  "fds_ok k fds \<longleftrightarrow> (\<forall>x \<in> set fds. \<forall>j. x = Some j \<longrightarrow> j < length (k_open k))"

lemma fds_ok_update: "\<lbrakk>fds_ok k fds; \<And>j. x = Some j \<Longrightarrow> j < length (k_open k)\<rbrakk> \<Longrightarrow> fds_ok k (fds[fd := x])"
  using set_update_subset_insert [of fds fd x] by (auto simp: fds_ok_def)

lemma fds_ok_mono: "\<lbrakk>fds_ok k fds; length (k_open k) \<le> length (k_open k')\<rbrakk> \<Longrightarrow> fds_ok k' fds"
  by (fastforce simp: fds_ok_def)

lemma fds_ok_nth: "\<lbrakk>fds_ok k fds; i < length fds; fds ! i = Some j\<rbrakk> \<Longrightarrow> j < length (k_open k)"
  by (metis fds_ok_def nth_mem)

lemma fds_ok_ops:
  assumes "fds_ok k fds"
  shows "sys_open nm creat k fds = Some (fd, k', fds') \<Longrightarrow> fds_ok k' fds'"
    and "fds_ok k (of_close fd fds)"
    and "of_dup2 a b fds = Some fds' \<Longrightarrow> fds_ok k fds'"
    and "sys_read1 fd k fds = Some (r, k') \<Longrightarrow> fds_ok k' fds"
    and "sys_lseek fd off cur k fds = Some (p, k') \<Longrightarrow> fds_ok k' fds"
proof -
  show "sys_open nm creat k fds = Some (fd, k', fds') \<Longrightarrow> fds_ok k' fds'"
    by (auto simp: sys_open_def split: option.splits if_splits intro!: fds_ok_update fds_ok_mono [OF assms])
  show "fds_ok k (of_close fd fds)"
    unfolding of_close_def by (rule fds_ok_update [OF assms]) simp
  show "of_dup2 a b fds = Some fds' \<Longrightarrow> fds_ok k fds'"
    by (auto simp: of_dup2_def split: if_splits intro!: fds_ok_update assms fds_ok_nth [OF assms])
  show "sys_read1 fd k fds = Some (r, k') \<Longrightarrow> fds_ok k' fds"
    by (auto simp: sys_read1_def split: option.splits if_splits prod.splits intro: fds_ok_mono [OF assms])
  show "sys_lseek fd off cur k fds = Some (p, k') \<Longrightarrow> fds_ok k' fds"
    by (auto simp: sys_lseek_def Let_def split: option.splits prod.splits intro: fds_ok_mono [OF assms])
qed

lemmas file_ops = boot_table sys_open_def of_close_def of_dup2_def sys_read1_def sys_lseek_def open_file_def got_def

section \<open>What the programs print\<close>

lemma sharing_programs:
  assumes "fs ''foobar.txt'' = Some (a # b # rest)"
  shows "sharingfile1 fs junk = Some (say_c a)" "sharingfile2 fs junk = Some (say_c b)" "redirect fs junk = Some (say_c b)"
  using assms by (simp_all add: sharingfile1_def sharingfile2_def redirect_def file_ops)

lemma descriptors_reused:
  "p1_main fs = Some (''fd2='' @ show_int 3 @ [NEWLINE], 3)"
  "fs ''baz.txt'' = Some d \<Longrightarrow> fdopen_main fs = ''FD2= '' @ show_int 3 @ [NEWLINE]"
  by (simp_all add: p1_main_def fdopen_main_def file_ops split: option.splits)

lemma offset_shared:
  "fs nm = Some d \<Longrightarrow> sharingfile_ostep fs nm = ''child: offset:'' @ show_int 10 @ [NEWLINE] @ ''parent: offset '' @ show_int 10 @ [NEWLINE]"
  by (simp add: sharingfile_ostep_def file_ops Let_def)

lemma cpstdin_copies:
  assumes "k_files k nm = Some d" and "open_file 0 t = Some j" and "k_open k ! j = (nm, pos)" and "j < length (k_open k)"
    and "pos \<le> length d" and "length d - pos < n"
  shows "cpstdin n k t out = Some (out @ drop pos d)"
  using assms
proof (induction n arbitrary: k pos out)
  case (Suc n)
  show ?case
  proof (cases "pos < length d")
    case True
    let ?k = "k\<lparr>k_open := (k_open k)[j := (nm, pos + 1)]\<rparr>"
    have "sys_read1 0 k t = Some (Some (d ! pos), ?k)" using Suc.prems True by (simp add: sys_read1_def)
    moreover have "cpstdin n ?k t (out @ [d ! pos]) = Some ((out @ [d ! pos]) @ drop (pos + 1) d)"
      by (rule Suc.IH) (use Suc.prems True in auto)
    ultimately show ?thesis using True by (simp add: Cons_nth_drop_Suc)
  next
    case False
    then show ?thesis using Suc.prems by (simp add: sys_read1_def)
  qed
qed simp

section \<open>Properties\<close>

text \<open>
  What sharing an open file means: opened twice, a file has two positions, and \<^verbatim>\<open>sharingfile1.c\<close> prints its first
  character; a descriptor inherited by a child, or redirected with \<^verbatim>\<open>dup2\<close>, has one position, and
  \<^verbatim>\<open>sharingfile2.c\<close> and \<^verbatim>\<open>redirect.c\<close> print the second; and what the child of \<^verbatim>\<open>sharingfile_ostep.c\<close> sets with
  \<^verbatim>\<open>lseek\<close> its parent finds.
\<close>

theorem open_file_sharing:
  assumes "fs ''foobar.txt'' = Some (a # b # rest)"
  shows "sharingfile1 fs junk = Some (say_c a) \<and> sharingfile2 fs junk = Some (say_c b) \<and> redirect fs junk = Some (say_c b)
    \<and> sharingfile_ostep fs ''foobar.txt'' = ''child: offset:'' @ show_int 10 @ [NEWLINE] @ ''parent: offset '' @ show_int 10 @ [NEWLINE]"
  using sharing_programs [where fs = fs, OF assms] offset_shared [of fs "''foobar.txt''", OF assms] by simp

lemma open_file_sharing_witness:
  "redirect [''foobar.txt'' \<mapsto> ''foobar''] (CHR ''?'') = Some (say_c (CHR ''o''))"
  using open_file_sharing [of "[''foobar.txt'' \<mapsto> ''foobar'']" "CHR ''f''" "CHR ''o''" "''obar''" "CHR ''?''"] by simp

end
