(* ===== verification/Textbook_Mm.thy ===== *)
theory Textbook_Mm
  imports Memlib
begin

text \<open>
  The beginnings of an allocator in \<^verbatim>\<open>excode/9VirtualMemory\<close>: \<^verbatim>\<open>memlib.c\<close> with its own \<^verbatim>\<open>mem_sbrk\<close>, and \<^verbatim>\<open>mm.c\<close> with
  \<^verbatim>\<open>mm_init\<close> and \<^verbatim>\<open>extend_heap\<close>.  The state is that of \<open>Memlib\<close>; pointers are 32 bits.
\<close>

section \<open>The program\<close>

text \<open>The first component tells that the error message was printed and \<^verbatim>\<open>errno\<close> set.\<close>

definition vm_mem_sbrk :: "int \<Rightarrow> 'a memsys_scheme \<Rightarrow> bool \<times> addr \<times> 'a memsys_scheme" where
  "vm_mem_sbrk incr s =
     (let old_brk = mem_brk s;
          failed = (incr < 0 \<or> int (mem_brk s) + incr > int (mem_max_addr s))
      in (failed, old_brk, s\<lparr>mem_brk := nat ((int (mem_brk s) + incr) mod 2 ^ 32)\<rparr>))"

definition VM_WSIZE :: nat where "VM_WSIZE = 4"
definition VM_DSIZE :: nat where "VM_DSIZE = 8"
definition VM_CHUNKSIZE :: nat where "VM_CHUNKSIZE = 2 ^ 12"

definition vm_GET_SIZE :: "bytes \<Rightarrow> addr \<Rightarrow> nat" where
  "vm_GET_SIZE m p = unat (get32 m p AND NOT 7)"

definition vm_HDRP :: "addr \<Rightarrow> addr" where "vm_HDRP bp = sub32 bp VM_WSIZE"

text \<open>The double word is taken off the header's address, inside the argument of \<^verbatim>\<open>GET_SIZE\<close>.\<close>

definition vm_FTRP :: "bytes \<Rightarrow> addr \<Rightarrow> addr" where
  "vm_FTRP m bp = wrap32 (bp + vm_GET_SIZE m (sub32 (vm_HDRP bp) VM_DSIZE))"

definition vm_NEXT_BLKP :: "bytes \<Rightarrow> addr \<Rightarrow> addr" where
  "vm_NEXT_BLKP m bp = wrap32 (bp + vm_GET_SIZE m (sub32 bp VM_WSIZE))"

text \<open>\<^verbatim>\<open>extend_heap\<close> gives a null pointer when \<^verbatim>\<open>mem_sbrk\<close> gives -1, and otherwise ends without a value (\<open>None\<close>).\<close>

definition vm_extend_heap :: "nat \<Rightarrow> 'a memsys_scheme \<Rightarrow> addr option \<times> 'a memsys_scheme" where
  "vm_extend_heap words s =
     (let size = (if words mod 2 \<noteq> 0 then (words + 1) * VM_WSIZE else words * VM_WSIZE) in
      case vm_mem_sbrk (int size) s of (_, bp, s1) \<Rightarrow>
        if bp = 2 ^ 32 - 1 then (Some NULL, s1)
        else let m1 = put32 (heap s1) (vm_HDRP bp) (word_of_nat size);
                 m2 = put32 m1 (vm_FTRP m1 bp) (word_of_nat size);
                 m3 = put32 m2 (vm_HDRP (vm_NEXT_BLKP m2 bp)) 1
             in (None, s1\<lparr>heap := m3\<rparr>))"

datatype 'a vm_init = InitError "'a memsys_scheme" | WritesAt addr "'a memsys_scheme"

text \<open>\<^verbatim>\<open>mm_init\<close> assigns the result of the comparison to \<^verbatim>\<open>heap_listp\<close>, and \<open>WritesAt\<close> is the first \<^verbatim>\<open>PUT\<close> through it.\<close>

definition vm_mm_init :: "'a memsys_scheme \<Rightarrow> 'a vm_init" where
  "vm_mm_init s =
     (case vm_mem_sbrk (int (4 * VM_WSIZE)) s of (_, p, s1) \<Rightarrow>
        let heap_listp = (if p = 2 ^ 32 - 1 then 1 else 0) in
        if heap_listp \<noteq> 0 then InitError s1 else WritesAt heap_listp s1)"

section \<open>What it does\<close>

text \<open>\<^verbatim>\<open>mem_sbrk\<close> reports the error and moves the break all the same.\<close>

lemma vm_sbrk_past_the_end:
  assumes "mem_wf s" and "mem_brk s + n > mem_max_addr s" and "mem_brk s + n < 2 ^ 32"
  shows "vm_mem_sbrk (int n) s = (True, mem_brk s, s\<lparr>mem_brk := mem_brk s + n\<rparr>) \<and> \<not> mem_wf (s\<lparr>mem_brk := mem_brk s + n\<rparr>)"
proof -
  have "nat ((int (mem_brk s) + int n) mod 2 ^ 32) = mem_brk s + n" using assms(3) by simp
  then show ?thesis using assms(1,2) by (simp add: vm_mem_sbrk_def Let_def mem_wf_def)
qed

lemma vm_sbrk_agrees:
  assumes "mem_wf s" and "mem_sbrk i s = (Some p, s')"
  shows "vm_mem_sbrk i s = (False, p, s')"
proof -
  note S = mem_sbrk_Some [OF assms(2)]
  have "(int (mem_brk s) + i) mod 2 ^ 32 = int (mem_brk s) + i" "nat (int (mem_brk s) + i) = mem_brk s + nat i"
    using S assms(1) by (auto simp: mem_wf_def nat_add_distrib)
  then show ?thesis using S by (auto simp: vm_mem_sbrk_def Let_def)
qed

text \<open>On any heap \<^verbatim>\<open>mm_init\<close> writes through the null pointer.\<close>

lemma vm_mm_init_null:
  assumes "mem_wf s" and "mem_brk s < 2 ^ 32 - 1"
  shows "\<exists>s'. vm_mm_init s = WritesAt NULL s'"
  using assms(2) by (simp add: vm_mm_init_def vm_mem_sbrk_def Let_def)

text \<open>On fresh memory the footer of the block that \<open>extend_heap\<close> makes is in the first word of its own payload.\<close>

lemma vm_footer_misplaced:
  assumes "\<forall>a. m a = 0" and "16 \<le> bp" and "bp < 2 ^ 32"
  shows "vm_FTRP (put32 m (vm_HDRP bp) v) bp = bp"
proof -
  have h: "vm_HDRP bp = bp - 4" "sub32 (bp - 4) VM_DSIZE = bp - 12"
    using assms(2,3) by (simp_all add: vm_HDRP_def VM_WSIZE_def VM_DSIZE_def sub32_id)
  have "get32 (put32 m (bp - 4) v) (bp - 12) = get32 m (bp - 12)" using assms(2) by (intro get32_put32_other disjI2) linarith
  then have "get32 (put32 m (bp - 4) v) (bp - 12) = 0" using assms(1) by (simp add: get32_def)
  then show ?thesis using h assms(3) by (simp add: vm_FTRP_def vm_GET_SIZE_def)
qed

end
