(* ===== verification/Book_Programs.thy ===== *)
theory Book_Programs
  imports Course_Examples Sbuf
begin

text \<open>
  Three more of the book's programs: the first shell (\<^verbatim>\<open>excode/8ExceptionalControFlow/myshell.c\<close>), which forks but does not
  wait; the echo server on \<^verbatim>\<open>select\<close> (\<^verbatim>\<open>excode/12ConcurrencyProgramming/echoservers.c\<close>); and the shared buffer of
  the prethreaded one (\<^verbatim>\<open>sbuf.c\<close>, \<^verbatim>\<open>echoservert-pre.c\<close>).
\<close>

section \<open>The first shell\<close>

definition ms_parseline :: "string \<Rightarrow> sx_fault + string list \<times> bool" where
  "ms_parseline bf =
     (if bf = [] then Inl BeforeBuffer
      else let bf1 = dropWhile (\<lambda>c. c = SPACE) (butlast bf @ [SPACE]) in
        case argv_loop 0 bf1 of
          Inl e \<Rightarrow> Inl e
        | Inr argv \<Rightarrow>
            if argv = [] then Inr ([], True)
            else let bg = (at (last argv) = CHR ''&'') in Inr (if bg then butlast argv else argv, bg))"

text \<open>What one command line does: nothing, the end of the shell, or a child for the arguments, for which the shell does not
  wait.  The environment that \<^verbatim>\<open>execve\<close> gets is an array without values.\<close>

datatype ms_act = Nothing | Quits | Child "string list" | Faults sx_fault

definition ms_builtin :: "string list \<Rightarrow> ms_act option" where
  "ms_builtin argv = (if argv ! 0 = ''quit'' then Some Quits else if argv ! 0 = ''&'' then Some Nothing else None)"

definition ms_eval :: "string \<Rightarrow> ms_act" where
  "ms_eval cmdline =
     (case ms_parseline cmdline of
        Inl e \<Rightarrow> Faults e
      | Inr (argv, bg) \<Rightarrow> if argv = [] then Nothing else (case ms_builtin argv of Some a \<Rightarrow> a | None \<Rightarrow> Child argv))"

lemma rest_shorter: "ln = line_of (MAXLINE - 1) xs \<Longrightarrow> \<not> (ln = [] \<or> Q) \<Longrightarrow> (drop (length ln) xs, xs) \<in> measure length"
proof -
  assume a: "ln = line_of (MAXLINE - 1) xs" and b: "\<not> (ln = [] \<or> Q)"
  have "xs \<noteq> []" using a b unfolding MAXLINE_Suc by auto
  then show ?thesis using b by (cases ln) auto
qed

text \<open>The loop of \<open>main\<close>: the children in order, and what ended it (\<open>Nothing\<close> for the end of the input, with
  which a last line without a newline is lost).\<close>

function ms_main :: "string \<Rightarrow> string list list \<times> ms_act" where
  "ms_main stdin =
     (let ln = line_of (MAXLINE - 1) stdin in
      if ln = [] \<or> last ln \<noteq> NEWLINE \<and> length ln < MAXLINE - 1 then ([], Nothing)
      else case ms_eval (c_str ln) of
          Child argv \<Rightarrow> (case ms_main (drop (length ln) stdin) of (cs, e) \<Rightarrow> (argv # cs, e))
        | Nothing \<Rightarrow> ms_main (drop (length ln) stdin)
        | a \<Rightarrow> ([], a))"
  by pat_completeness auto
termination
proof (relation "measure length", goal_cases)
  case 1
  show ?case by simp
next
  case 2
  then show ?case using rest_shorter by blast
next
  case 3
  then show ?case using rest_shorter by blast
qed

declare ms_main.simps [simp del]

section \<open>The echo server on select\<close>

definition BOOK_FD_SETSIZE :: nat where "BOOK_FD_SETSIZE = 1024"

record echo_pool =
  ep_maxfd :: int
  ep_read_set :: "int set"
  ep_ready_set :: "int set"
  ep_nready :: int
  ep_maxi :: int
  ep_clientfd :: "int list"
  ep_clientrio :: "rio list"

definition ep_init_pool :: "int \<Rightarrow> rio list \<Rightarrow> echo_pool" where
  "ep_init_pool listenfd rios =
     \<lparr>ep_maxfd = listenfd, ep_read_set = {listenfd}, ep_ready_set = {}, ep_nready = 0, ep_maxi = -1,
      ep_clientfd = replicate BOOK_FD_SETSIZE (-1), ep_clientrio = rios\<rparr>"

fun ep_free :: "int list \<Rightarrow> nat option" where
  "ep_free [] = None"
| "ep_free (fd # fds) = (if fd < 0 then Some 0 else map_option Suc (ep_free fds))"

text \<open>\<open>None\<close> is the exit in \<^verbatim>\<open>app_error\<close>.\<close>

definition ep_add_client :: "int \<Rightarrow> echo_pool \<Rightarrow> echo_pool option" where
  "ep_add_client connfd p0 =
     (let p = p0\<lparr>ep_nready := ep_nready p0 - 1\<rparr> in
      case ep_free (ep_clientfd p) of None \<Rightarrow> None
      | Some i \<Rightarrow>
          Some (p\<lparr>ep_clientfd := (ep_clientfd p)[i := connfd],
                  ep_clientrio := (ep_clientrio p)[i := rio_readinitb (ep_clientrio p ! i) connfd],
                  ep_read_set := insert connfd (ep_read_set p),
                  ep_maxfd := (if connfd > ep_maxfd p then connfd else ep_maxfd p),
                  ep_maxi := (if int i > ep_maxi p then int i else ep_maxi p)\<rparr>))"

text \<open>The turn of a client: it goes on, with the bytes counted; the process exits in a wrapper; or it appends to a
  string that begins two characters before the array.\<close>

datatype ep_end = EpOn echo_pool nat | EpExit | EpBeforeBuffer nat

definition ep_check_slot :: "(int \<Rightarrow> rd list) \<Rightarrow> nat \<Rightarrow> echo_pool \<Rightarrow> nat \<Rightarrow> ep_end" where
  "ep_check_slot inp i p byte_cnt =
     (let connfd = ep_clientfd p ! i; rp = ep_clientrio p ! i in
      if connfd > 0 \<and> connfd \<in> ep_ready_set p then
        let p1 = p\<lparr>ep_nready := ep_nready p - 1\<rparr> in
        case Rio_readlineb rp MAXLINE (inp connfd) of
          None \<Rightarrow> EpExit
        | Some (n, line, rp', rs') \<Rightarrow>
            if n \<noteq> 0 then EpBeforeBuffer (byte_cnt + nat n)
            else EpOn (p1\<lparr>ep_read_set := ep_read_set p1 - {connfd}, ep_clientfd := (ep_clientfd p1)[i := -1]\<rparr>) byte_cnt
      else EpOn p byte_cnt)"

fun ep_check_loop :: "(int \<Rightarrow> rd list) \<Rightarrow> nat list \<Rightarrow> echo_pool \<Rightarrow> nat \<Rightarrow> ep_end" where
  "ep_check_loop inp [] p byte_cnt = EpOn p byte_cnt"
| "ep_check_loop inp (i # is) p byte_cnt =
     (if ep_nready p > 0 then
        (case ep_check_slot inp i p byte_cnt of EpOn p' b \<Rightarrow> ep_check_loop inp is p' b | e \<Rightarrow> e)
      else EpOn p byte_cnt)"

definition ep_check_client :: "(int \<Rightarrow> rd list) \<Rightarrow> echo_pool \<Rightarrow> nat \<Rightarrow> ep_end" where
  "ep_check_client inp p byte_cnt = ep_check_loop inp [0..<nat (ep_maxi p + 1)] p byte_cnt"

text \<open>One turn of the loop of \<open>main\<close>, with what \<^verbatim>\<open>select\<close> and \<^verbatim>\<open>accept\<close> give.\<close>

definition ep_turn :: "int \<Rightarrow> int set \<Rightarrow> int \<Rightarrow> int \<Rightarrow> (int \<Rightarrow> rd list) \<Rightarrow> echo_pool \<Rightarrow> nat \<Rightarrow> ep_end" where
  "ep_turn listenfd ready n connfd inp p byte_cnt =
     (let p1 = p\<lparr>ep_ready_set := ready, ep_nready := n\<rparr> in
      case (if listenfd \<in> ready then ep_add_client connfd p1 else Some p1) of
        None \<Rightarrow> EpExit
      | Some p2 \<Rightarrow> ep_check_client inp p2 byte_cnt)"

section \<open>The shared buffer\<close>

record book_sbuf =
  bs_buf :: "int list"
  bs_n :: int
  bs_front :: int
  bs_rear :: int
  bs_mutex :: nat
  bs_slots :: nat
  bs_items :: nat

definition book_sbuf_init :: "nat \<Rightarrow> book_sbuf" where
  "book_sbuf_init n = \<lparr>bs_buf = replicate n 0, bs_n = int n, bs_front = 0, bs_rear = 0, bs_mutex = 1, bs_slots = n, bs_items = 0\<rparr>"

definition book_sbuf_insert :: "book_sbuf \<Rightarrow> int \<Rightarrow> book_sbuf option" where
  "book_sbuf_insert s item =
     (if bs_slots s = 0 then None
      else if bs_mutex s = 0 then None
      else let s1 = s\<lparr>bs_slots := bs_slots s - 1, bs_mutex := bs_mutex s - 1\<rparr>;
               r = int32 (bs_rear s1 + 1);
               s2 = s1\<lparr>bs_rear := r, bs_buf := (bs_buf s1)[nat (c_mod r (bs_n s1)) := item]\<rparr>
           in Some (s2\<lparr>bs_mutex := bs_mutex s2 + 1, bs_items := bs_items s2 + 1\<rparr>))"

definition book_sbuf_remove :: "book_sbuf \<Rightarrow> (int \<times> book_sbuf) option" where
  "book_sbuf_remove s =
     (if bs_items s = 0 then None
      else if bs_mutex s = 0 then None
      else let s1 = s\<lparr>bs_items := bs_items s - 1, bs_mutex := bs_mutex s - 1\<rparr>;
               f = int32 (bs_front s1 + 1);
               item = bs_buf s1 ! nat (c_mod f (bs_n s1));
               s2 = s1\<lparr>bs_front := f\<rparr>
           in Some (item, s2\<lparr>bs_mutex := bs_mutex s2 + 1, bs_slots := bs_slots s2 + 1\<rparr>))"

section \<open>The shell starts every command\<close>

lemma ms_parseline_eq: "ms_parseline = parseline"
  by (simp add: fun_eq_iff ms_parseline_def parseline_def Let_def split: sum.splits)

lemma ms_line:
  assumes "list_all (plain \<circ> fst) ws" and "ws \<noteq> []" and "length ws < SX_MAXARGS" and "at (last (map fst ws)) \<noteq> CHR ''&''"
    and "NEWLINE \<notin> set (spread ws)" and "NUL \<notin> set (spread ws)" and "length (spread ws) < MAXLINE - 1"
  defines "l \<equiv> butlast (spread ws) @ [NEWLINE]"
  shows "line_of (MAXLINE - 1) (l @ rest) = l" and "c_str l = l" and "ms_parseline l = Inr (map fst ws, False)" and "l \<noteq> []" "last l = NEWLINE"
proof -
  have nn: "NEWLINE \<notin> set (butlast (spread ws))" "NUL \<notin> set (butlast (spread ws))" using assms(5,6) by (auto dest: in_set_butlastD)
  have "line_of (MAXLINE - 1) (butlast (spread ws) @ NEWLINE # rest) = butlast (spread ws) @ [NEWLINE]"
    by (rule line_of_exact) (use nn assms(7) in auto)
  then show "line_of (MAXLINE - 1) (l @ rest) = l" by (simp add: l_def)
  show "c_str l = l" unfolding l_def using nn by (intro c_str_no_NUL) auto
  show "ms_parseline l = Inr (map fst ws, False)"
    unfolding l_def ms_parseline_eq using parseline_words [OF assms(1,2,3), of 0] assms(4) by simp
  show "l \<noteq> []" "last l = NEWLINE" by (simp_all add: l_def)
qed

definition ms_command :: "(string \<times> nat) list \<Rightarrow> bool" where
  "ms_command ws \<longleftrightarrow> list_all (plain \<circ> fst) ws \<and> ws \<noteq> [] \<and> length ws < SX_MAXARGS \<and> at (last (map fst ws)) \<noteq> CHR ''&''
     \<and> NEWLINE \<notin> set (spread ws) \<and> NUL \<notin> set (spread ws) \<and> length (spread ws) < MAXLINE - 1"

definition ms_text :: "(string \<times> nat) list \<Rightarrow> string" where
  "ms_text ws = butlast (spread ws) @ [NEWLINE]"

lemma ms_main_child:
  assumes "ms_command ws" and "fst (hd ws) \<notin> {''quit'', ''&''}"
  shows "ms_main (ms_text ws @ rest) = (map fst ws # fst (ms_main rest), snd (ms_main rest))"
proof -
  note L = ms_line [of ws, folded ms_text_def]
  have c: "line_of (MAXLINE - 1) (ms_text ws @ rest) = ms_text ws" "c_str (ms_text ws) = ms_text ws"
    "ms_parseline (ms_text ws) = Inr (map fst ws, False)" "ms_text ws \<noteq> []" "last (ms_text ws) = NEWLINE"
    using L assms(1) by (auto simp: ms_command_def)
  have "map fst ws ! 0 \<notin> {''quit'', ''&''}" "map fst ws \<noteq> []" using assms by (cases ws; auto simp: ms_command_def)+
  then have "ms_eval (ms_text ws) = Child (map fst ws)" using c(3) by (simp add: ms_eval_def ms_builtin_def)
  then show ?thesis using c by (subst ms_main.simps) (simp add: Let_def split: prod.splits)
qed

lemma ms_main_quit:
  assumes "ms_command ws" and "fst (hd ws) = ''quit''"
  shows "ms_main (ms_text ws @ rest) = ([], Quits)"
proof -
  note L = ms_line [of ws, folded ms_text_def]
  have c: "line_of (MAXLINE - 1) (ms_text ws @ rest) = ms_text ws" "c_str (ms_text ws) = ms_text ws"
    "ms_parseline (ms_text ws) = Inr (map fst ws, False)" "ms_text ws \<noteq> []" "last (ms_text ws) = NEWLINE"
    using L assms(1) by (auto simp: ms_command_def)
  have "map fst ws ! 0 = ''quit''" "map fst ws \<noteq> []" using assms by (cases ws; auto simp: ms_command_def)+
  then have "ms_eval (ms_text ws) = Quits" using c(3) by (simp add: ms_eval_def ms_builtin_def)
  then show ?thesis using c by (subst ms_main.simps) (simp add: Let_def)
qed

text \<open>Each line starts its program, in order, until \<^verbatim>\<open>quit\<close>.\<close>

lemma ms_main_runs:
  assumes "list_all (\<lambda>ws. ms_command ws \<and> fst (hd ws) \<notin> {''quit'', ''&''}) cmds"
  shows "ms_main (concat (map ms_text cmds) @ ms_text [(''quit'', 0)] @ rest) = (map (map fst) cmds, Quits)"
  using assms
proof (induction cmds)
  case Nil
  have "ms_command [(''quit'', 0)]" by (simp add: ms_command_def plain_def SX_MAXARGS_def at_def spread_def MAXLINE_def)
  then show ?case using ms_main_quit [of "[(''quit'', 0)]" rest] by simp
next
  case (Cons ws cmds)
  then show ?case using ms_main_child [of ws "concat (map ms_text cmds) @ ms_text [(''quit'', 0)] @ rest"] by simp
qed

section \<open>The pool and the string before the buffer\<close>

definition ep_inv :: "int \<Rightarrow> echo_pool \<Rightarrow> bool" where
  "ep_inv L p \<longleftrightarrow> length (ep_clientfd p) = BOOK_FD_SETSIZE \<and> length (ep_clientrio p) = BOOK_FD_SETSIZE
     \<and> ep_read_set p = insert L {fd \<in> set (ep_clientfd p). 0 \<le> fd} \<and> (\<forall>fd \<in> ep_read_set p. fd \<le> ep_maxfd p)
     \<and> (\<forall>i < BOOK_FD_SETSIZE. 0 \<le> ep_clientfd p ! i \<longrightarrow> int i \<le> ep_maxi p)"

lemma ep_init_inv: "length rios = BOOK_FD_SETSIZE \<Longrightarrow> ep_inv L (ep_init_pool L rios)"
  by (auto simp: ep_inv_def ep_init_pool_def)

lemma ep_free_Some: "ep_free fds = Some i \<Longrightarrow> i < length fds \<and> fds ! i < 0"
  by (induction fds arbitrary: i) (auto split: if_splits)

lemma ep_add_inv:
  assumes "ep_inv L p" and "0 \<le> fd" and "ep_add_client fd p = Some p'"
  shows "ep_inv L p' \<and> ep_read_set p' = insert fd (ep_read_set p)"
proof -
  obtain i where i: "ep_free (ep_clientfd p) = Some i" using assms(3) by (auto simp: ep_add_client_def Let_def split: option.splits)
  have I: "i < length (ep_clientfd p)" "ep_clientfd p ! i < 0" using ep_free_Some [OF i] by auto
  let ?t = "take i (ep_clientfd p)" and ?d = "drop (Suc i) (ep_clientfd p)"
  have "ep_clientfd p = ?t @ ep_clientfd p ! i # ?d" by (rule id_take_nth_drop [OF I(1)])
  then have old: "set (ep_clientfd p) = set ?t \<union> {ep_clientfd p ! i} \<union> set ?d" by (metis Un_insert_right list.simps(15) set_append sup_bot.right_neutral Un_assoc insert_is_Un)
  have new: "set ((ep_clientfd p)[i := fd]) = set ?t \<union> {fd} \<union> set ?d" using I(1) by (simp add: upd_conv_take_nth_drop)
  have sets: "{x \<in> set ((ep_clientfd p)[i := fd]). 0 \<le> x} = insert fd {x \<in> set (ep_clientfd p). 0 \<le> x}"
    using I(2) assms(2) unfolding old new by auto
  have m: "ep_maxi p \<le> ep_maxi p'" "int i \<le> ep_maxi p'" "ep_maxfd p \<le> ep_maxfd p'" "fd \<le> ep_maxfd p'"
    and f: "ep_clientfd p' = (ep_clientfd p)[i := fd]" "length (ep_clientrio p') = length (ep_clientrio p)"
      "ep_read_set p' = insert fd (ep_read_set p)"
    using assms(3) i by (auto simp: ep_add_client_def Let_def)
  have "int j \<le> ep_maxi p'" if "j < BOOK_FD_SETSIZE" "0 \<le> (ep_clientfd p)[i := fd] ! j" for j
    using that m(1,2) assms(1) I(1) by (cases "j = i") (force simp: ep_inv_def)+
  moreover have "\<forall>x \<in> insert fd (ep_read_set p). x \<le> ep_maxfd p'"
  proof -
    have "\<forall>x \<in> ep_read_set p. x \<le> ep_maxfd p" using assms(1) unfolding ep_inv_def by blast
    then show ?thesis using m(3,4) by fastforce
  qed
  moreover have "insert fd (ep_read_set p) = insert L {x \<in> set ((ep_clientfd p)[i := fd]). 0 \<le> x}"
    using assms(1) sets by (simp add: ep_inv_def insert_commute)
  ultimately show ?thesis using assms(1) by (simp add: ep_inv_def f)
qed

text \<open>A line from any client makes the server append to a string before its array.\<close>

lemma ep_line_faults:
  assumes "0 < ep_clientfd p ! i" and "ep_clientfd p ! i \<in> ep_ready_set p"
    and "Rio_readlineb (ep_clientrio p ! i) MAXLINE (inp (ep_clientfd p ! i)) = Some (n, line, rp', rs')" and "n \<noteq> 0"
  shows "ep_check_slot inp i p cnt = EpBeforeBuffer (cnt + nat n)"
  using assms by (simp add: ep_check_slot_def Let_def)

section \<open>The book's buffer is the server's\<close>

definition as_sbuf :: "book_sbuf \<Rightarrow> int sbuf" where
  "as_sbuf s = \<lparr>buf = bs_buf s, bn = bs_n s, front = bs_front s, rear = bs_rear s, mutex = bs_mutex s, empty_slots = bs_slots s, items = bs_items s\<rparr>"

lemma as_sbuf_ops:
  "map_option as_sbuf (book_sbuf_insert s x) = sbuf_insert (as_sbuf s) x"
  "map_option (map_prod id as_sbuf) (book_sbuf_remove s) = sbuf_remove (as_sbuf s)"
  "as_sbuf (book_sbuf_init n) = mutex_init 0 n"
  by (simp_all add: book_sbuf_insert_def sbuf_insert_def book_sbuf_remove_def sbuf_remove_def as_sbuf_def sbuf_put_def sbuf_get_def
      book_sbuf_init_def mutex_init_def Let_def)

lemma book_insert: "sbuf_insert (as_sbuf s) x = Some t \<Longrightarrow> \<exists>s'. book_sbuf_insert s x = Some s' \<and> as_sbuf s' = t"
  using as_sbuf_ops(1) [of s x] by (cases "book_sbuf_insert s x") auto

lemma book_remove: "sbuf_remove (as_sbuf s) = Some (x, t) \<Longrightarrow> \<exists>s'. book_sbuf_remove s = Some (x, s') \<and> as_sbuf s' = t"
  using as_sbuf_ops(2) [of s] by (cases "book_sbuf_remove s") auto

interpretation bk: bounded_fifo "\<lambda>s. sbuf_ok (as_sbuf s)" "\<lambda>s. queue_of (as_sbuf s)" "\<lambda>s. nat (bs_n s)" "\<lambda>s. sbuf_room (as_sbuf s)"
  book_sbuf_insert book_sbuf_remove
proof
  fix s :: book_sbuf and x xs
  assume ok: "sbuf_ok (as_sbuf s)"
  have n: "bn (as_sbuf t) = bs_n t" for t by (simp add: as_sbuf_def)
  show "\<exists>s'. book_sbuf_insert s x = Some s' \<and> sbuf_ok (as_sbuf s') \<and> queue_of (as_sbuf s') = queue_of (as_sbuf s) @ [x]
      \<and> nat (bs_n s') = nat (bs_n s) \<and> sbuf_room (as_sbuf s') = sbuf_room (as_sbuf s) - 1"
    if "length (queue_of (as_sbuf s)) < nat (bs_n s)" "0 < sbuf_room (as_sbuf s)"
    using sb.put_ok [OF ok, of x] that book_insert [of s x] by (fastforce simp: n)
  show "book_sbuf_insert s x = None" if "length (queue_of (as_sbuf s)) = nat (bs_n s)"
    using sb.put_full [OF ok, of x] that as_sbuf_ops(1) [of s x] by (simp add: n)
  show "\<exists>s'. book_sbuf_remove s = Some (x, s') \<and> sbuf_ok (as_sbuf s') \<and> queue_of (as_sbuf s') = xs
      \<and> nat (bs_n s') = nat (bs_n s) \<and> sbuf_room (as_sbuf s') = sbuf_room (as_sbuf s)" if "queue_of (as_sbuf s) = x # xs"
    using sb.get_ok [OF ok that] book_remove [of s x] by (fastforce simp: n)
  show "book_sbuf_remove s = None" if "queue_of (as_sbuf s) = []"
    using sb.get_empty [OF ok that] as_sbuf_ops(2) [of s] by simp
qed

end
