(* ===== verification/Client_Csapp.thy ===== *)
theory Client_Csapp
  imports Sockets Rio
begin

text \<open>
  Where the library of the stock clients, \<^verbatim>\<open>concurrent_stockserver/client/csapp.c\<close>, is older than \<^verbatim>\<open>csapp.c\<close>: the
  printing of numbers in handlers, which has no case for negative ones, and the opening of sockets,
  which calls the wrappers and so ends the process where the newer functions return an error.
\<close>

section \<open>The program\<close>

definition cl_sio_ltoa :: "int \<Rightarrow> int \<Rightarrow> string" where
  "cl_sio_ltoa v b = sio_reverse (ltoa_loop v b)"

text \<open>\<open>None\<close> is the end of the process in a wrapper.\<close>

fun cl_client_walk :: "addrinfo list \<Rightarrow> net \<Rightarrow> (int \<times> net) option" where
  "cl_client_walk [] s = Some (-1, s)"
| "cl_client_walk (p # ps) s =
     (if ai_socket p < 0 then cl_client_walk ps s
      else let s1 = set_sock (ai_socket p) Fresh s in
        if ai_attach p \<noteq> -1 then Some (ai_socket p, set_sock (ai_socket p) (Connected (ai_addr p)) s1)
        else if ai_close p < 0 then None else cl_client_walk ps (close_sock (ai_socket p) s1))"

definition cl_open_clientfd :: "int \<Rightarrow> addrinfo list \<Rightarrow> net \<Rightarrow> (int \<times> net) option" where
  "cl_open_clientfd rc ps s =
     (if rc \<noteq> 0 then None
      else case cl_client_walk ps (take_list s) of None \<Rightarrow> None | Some (fd, s1) \<Rightarrow> Some (fd, freeaddrinfo s1))"

text \<open>\<open>opt\<close> gives the results of \<^verbatim>\<open>setsockopt\<close>.\<close>

fun cl_listen_walk :: "(addrinfo \<Rightarrow> int) \<Rightarrow> addrinfo list \<Rightarrow> net \<Rightarrow> (int \<times> net) option" where
  "cl_listen_walk opt [] s = Some (-1, s)"
| "cl_listen_walk opt (p # ps) s =
     (if ai_socket p < 0 then cl_listen_walk opt ps s
      else if opt p < 0 then None
      else let s1 = set_sock (ai_socket p) Reuse (set_sock (ai_socket p) Fresh s) in
        if ai_attach p = 0 then Some (ai_socket p, set_sock (ai_socket p) (Bound (ai_addr p)) s1)
        else if ai_close p < 0 then None else cl_listen_walk opt ps (close_sock (ai_socket p) s1))"

text \<open>\<open>lrc\<close> and \<open>crc\<close> are the results of \<^verbatim>\<open>listen\<close> and of the \<^verbatim>\<open>close\<close> after a failed one.\<close>

definition cl_open_listenfd :: "(addrinfo \<Rightarrow> int) \<Rightarrow> int \<Rightarrow> addrinfo list \<Rightarrow> int \<Rightarrow> int \<Rightarrow> net \<Rightarrow> (int \<times> net) option" where
  "cl_open_listenfd opt rc ps lrc crc s =
     (if rc \<noteq> 0 then None
      else case cl_listen_walk opt ps (take_list s) of None \<Rightarrow> None
      | Some (listenfd, s1) \<Rightarrow>
          let s2 = freeaddrinfo s1 in
          if listenfd < 0 then Some (-1, s2)
          else if lrc < 0 then (if crc < 0 then None else Some (-1, close_sock listenfd s2))
          else Some (listenfd, case socks s2 listenfd of Some (Bound a) \<Rightarrow> set_sock listenfd (Listening a) s2 | _ \<Rightarrow> s2))"

definition cl_Open_clientfd :: "int \<Rightarrow> addrinfo list \<Rightarrow> net \<Rightarrow> (int \<times> net) option" where
  "cl_Open_clientfd rc ps s =
     (case cl_open_clientfd rc ps s of None \<Rightarrow> None | Some (r, s') \<Rightarrow> if r < 0 then None else Some (r, s'))"

definition cl_Open_listenfd :: "(addrinfo \<Rightarrow> int) \<Rightarrow> int \<Rightarrow> addrinfo list \<Rightarrow> int \<Rightarrow> int \<Rightarrow> net \<Rightarrow> (int \<times> net) option" where
  "cl_Open_listenfd opt rc ps lrc crc s =
     (case cl_open_listenfd opt rc ps lrc crc s of None \<Rightarrow> None | Some (r, s') \<Rightarrow> if r < 0 then None else Some (r, s'))"

section \<open>Numbers\<close>

lemma cl_ltoa_nonneg: "0 \<le> v \<Longrightarrow> cl_sio_ltoa v b = sio_ltoa v b"
  by (simp add: cl_sio_ltoa_def sio_ltoa_def)

text \<open>A negative number becomes one character from the range below the digits, whatever its size.\<close>

lemma cl_ltoa_negative:
  assumes "v < 0"
  shows "cl_sio_ltoa v 10 = [char_of (nat (48 + c_mod v 10))]"
proof -
  have d: "c_div v 10 \<le> 0" using assms by (simp add: c_div_def sgn_if pos_imp_zdiv_nonneg_iff)
  then have "c_mod v 10 < 10" unfolding c_mod_def c_div_def using assms by (simp add: sgn_if)
  with d have "\<not> 0 < c_div v 10" "c_mod v 10 < 10" by auto
  then show ?thesis by (simp add: cl_sio_ltoa_def ltoa_loop.simps [of v] Let_def sio_reverse_rev add.commute)
qed

section \<open>Sockets\<close>

lemma cl_client_walk_eq:
  "cl_client_walk ps s =
     (case client_walk ps s of Return r s1 \<Rightarrow> None | AtEnd s1 \<Rightarrow> Some (-1, s1) | Break fd s1 \<Rightarrow> Some (fd, s1))"
  by (induction ps s rule: client_walk.induct) (simp_all add: Let_def)

lemma client_walk_return: "client_walk ps s = Return r s1 \<Longrightarrow> r = -1"
  by (induction ps s rule: client_walk.induct) (auto simp: Let_def split: if_splits)

lemma listen_walk_cases:
  "list_all (\<lambda>p. 0 \<le> opt p) ps \<Longrightarrow> cl_listen_walk opt ps s =
     (case listen_walk True ps s of Return r s1 \<Rightarrow> None | AtEnd s1 \<Rightarrow> Some (-1, s1) | Break fd s1 \<Rightarrow> Some (fd, s1))"
  by (induction opt ps s rule: cl_listen_walk.induct) (simp_all add: Let_def not_less)

lemma listen_walk_fd:
  "listen_walk chk ps s = Return r s1 \<Longrightarrow> r = -1" "listen_walk chk ps s = Break fd s1 \<Longrightarrow> 0 \<le> fd"
  by (induction chk ps s rule: listen_walk.induct) (auto simp: Let_def split: if_splits)

text \<open>
  Behind the wrappers the two versions are the same: the client's \<^verbatim>\<open>Open_clientfd\<close> ends the process in exactly the
  cases in which that of \<^verbatim>\<open>csapp.c\<close> does, and otherwise connects the same socket; so does \<^verbatim>\<open>Open_listenfd\<close> when
  \<^verbatim>\<open>setsockopt\<close> does not fail.
\<close>

theorem client_sockets_agree:
  "cl_Open_clientfd rc ps s = Open_clientfd rc ps s"
  "list_all (\<lambda>p. 0 \<le> opt p) ps \<Longrightarrow> cl_Open_listenfd opt rc ps lrc crc s = Open_listenfd rc ps lrc s"
proof -
  show "cl_Open_clientfd rc ps s = Open_clientfd rc ps s"
    by (auto simp: cl_Open_clientfd_def Open_clientfd_def cl_open_clientfd_def open_clientfd_def cl_client_walk_eq
        split: walk.splits dest: client_walk_return)
  assume "list_all (\<lambda>p. 0 \<le> opt p) ps"
  note W = listen_walk_cases [OF this, where s = "take_list s"]
  show "cl_Open_listenfd opt rc ps lrc crc s = Open_listenfd rc ps lrc s"
    unfolding cl_Open_listenfd_def Open_listenfd_def cl_open_listenfd_def open_listenfd_def start_listening_def
    by (auto simp: W Let_def split: walk.splits dest: listen_walk_fd)
qed

end
