(* ===== verification/Signal_Examples.thy ===== *)
theory Signal_Examples
  imports C_Strings
begin

text \<open>
  Two more programs of \<^verbatim>\<open>excode/8ExceptionalControFlow\<close> with a handler for ended children.  \<^verbatim>\<open>waitforsignal.c\<close> unblocks the
  signal, tests a variable and calls \<^verbatim>\<open>pause\<close>, and the signal may arrive between the last two.  \<^verbatim>\<open>signal1.c\<close> has two
  handlers: one reaps a child per signal, the other, which is installed, all there are; signals do not queue.
\<close>

section \<open>Waiting with pause\<close>

datatype wf_pc = WfBlock | WfFork | WfClear | WfUnblock | WfTest | WfCall | WfPaused | WfDot

record pauser =
  wf_pc :: wf_pc
  wf_blocked :: bool
  wf_prev :: bool
  wf_pid :: int
  wf_next :: int
  wf_alive :: "int set"
  wf_zombies :: "int set"
  wf_pending :: bool
  wf_dots :: nat

text \<open>A handler that runs in \<^verbatim>\<open>pause\<close> ends the call.\<close>

definition woken :: "pauser \<Rightarrow> pauser" where
  "woken s = (if wf_pc s = WfPaused then s\<lparr>wf_pc := WfTest\<rparr> else s)"

inductive wf_step :: "pauser \<Rightarrow> pauser \<Rightarrow> bool" where
  block: "wf_pc s = WfBlock \<Longrightarrow> wf_step s (s\<lparr>wf_pc := WfFork, wf_prev := wf_blocked s, wf_blocked := True\<rparr>)"
| fork: "wf_pc s = WfFork \<Longrightarrow> wf_step s (s\<lparr>wf_pc := WfClear, wf_alive := insert (wf_next s) (wf_alive s), wf_next := wf_next s + 1\<rparr>)"
| clear: "wf_pc s = WfClear \<Longrightarrow> wf_step s (s\<lparr>wf_pc := WfUnblock, wf_pid := 0\<rparr>)"
| unblock: "wf_pc s = WfUnblock \<Longrightarrow> wf_step s (s\<lparr>wf_pc := WfTest, wf_blocked := wf_prev s\<rparr>)"
| test: "wf_pc s = WfTest \<Longrightarrow> wf_step s (s\<lparr>wf_pc := (if wf_pid s = 0 then WfCall else WfDot)\<rparr>)"
| pause: "wf_pc s = WfCall \<Longrightarrow> wf_step s (s\<lparr>wf_pc := WfPaused\<rparr>)"
| dot: "wf_pc s = WfDot \<Longrightarrow> wf_step s (s\<lparr>wf_pc := WfBlock, wf_dots := wf_dots s + 1\<rparr>)"
| sigchld: "\<lbrakk>\<not> wf_blocked s; wf_pending s; p \<in> wf_zombies s\<rbrakk>
     \<Longrightarrow> wf_step s (woken (s\<lparr>wf_pid := p, wf_zombies := wf_zombies s - {p}, wf_pending := False\<rparr>))"
| sigint: "wf_step s (woken s)"
| dies: "p \<in> wf_alive s
     \<Longrightarrow> wf_step s (s\<lparr>wf_alive := wf_alive s - {p}, wf_zombies := insert p (wf_zombies s), wf_pending := True\<rparr>)"

definition wf_start :: pauser where
  "wf_start = \<lparr>wf_pc = WfBlock, wf_blocked = False, wf_prev = False, wf_pid = 0, wf_next = 1, wf_alive = {}, wf_zombies = {},
     wf_pending = False, wf_dots = 0\<rparr>"

section \<open>Reaping\<close>

record reaper =
  sg_forked :: nat
  sg_alive :: nat
  sg_zombies :: nat
  sg_pending :: bool
  sg_handling :: bool
  sg_reaped :: nat

text \<open>\<open>once\<close> tells the handlers apart: \<^verbatim>\<open>handler1\<close> reaps one child and returns, \<^verbatim>\<open>handler2\<close> returns when there is no
  child left to wait for.  While a handler runs \<open>main\<close> does not.\<close>

inductive sg_step :: "bool \<Rightarrow> reaper \<Rightarrow> reaper \<Rightarrow> bool" for once where
  fork: "\<lbrakk>\<not> sg_handling s; sg_forked s < 3\<rbrakk> \<Longrightarrow> sg_step once s (s\<lparr>sg_forked := sg_forked s + 1, sg_alive := sg_alive s + 1\<rparr>)"
| dies: "0 < sg_alive s \<Longrightarrow> sg_step once s (s\<lparr>sg_alive := sg_alive s - 1, sg_zombies := sg_zombies s + 1, sg_pending := True\<rparr>)"
| deliver: "\<lbrakk>\<not> sg_handling s; sg_pending s\<rbrakk> \<Longrightarrow> sg_step once s (s\<lparr>sg_handling := True, sg_pending := False\<rparr>)"
| reap: "\<lbrakk>sg_handling s; 0 < sg_zombies s\<rbrakk>
     \<Longrightarrow> sg_step once s (s\<lparr>sg_zombies := sg_zombies s - 1, sg_reaped := sg_reaped s + 1, sg_handling := \<not> once\<rparr>)"
| no_child: "\<lbrakk>sg_handling s; sg_zombies s = 0; sg_alive s = 0; \<not> once\<rbrakk> \<Longrightarrow> sg_step once s (s\<lparr>sg_handling := False\<rparr>)"

definition sg_start :: reaper where
  "sg_start = \<lparr>sg_forked = 0, sg_alive = 0, sg_zombies = 0, sg_pending = False, sg_handling = False, sg_reaped = 0\<rparr>"

definition at_rest :: "reaper \<Rightarrow> bool" where
  "at_rest s \<longleftrightarrow> sg_forked s = 3 \<and> sg_alive s = 0 \<and> \<not> sg_pending s \<and> \<not> sg_handling s"

section \<open>The signal that comes too early\<close>

text \<open>The state in \<^verbatim>\<open>pause\<close> with the child reaped and nothing that could still happen but an interrupt from the keyboard.\<close>

definition lost :: pauser where
  "lost = \<lparr>wf_pc = WfPaused, wf_blocked = False, wf_prev = False, wf_pid = 1, wf_next = 2, wf_alive = {}, wf_zombies = {},
     wf_pending = False, wf_dots = 0\<rparr>"

lemma lost_reached: "wf_step\<^sup>*\<^sup>* wf_start lost"
proof -
  let ?w = "\<lambda>pc b pid al zo pe. \<lparr>wf_pc = pc, wf_blocked = b, wf_prev = False, wf_pid = pid, wf_next = 2, wf_alive = al, wf_zombies = zo,
     wf_pending = pe, wf_dots = 0\<rparr> :: pauser"
  have "wf_step wf_start (wf_start\<lparr>wf_pc := WfFork, wf_blocked := True\<rparr>)" using wf_step.block [of wf_start] by (simp add: wf_start_def)
  moreover have "wf_step (wf_start\<lparr>wf_pc := WfFork, wf_blocked := True\<rparr>) (?w WfClear True 0 {1} {} False)"
    using wf_step.fork [of "wf_start\<lparr>wf_pc := WfFork, wf_blocked := True\<rparr>"] by (simp add: wf_start_def)
  moreover have "wf_step (?w WfClear True 0 {1} {} False) (?w WfUnblock True 0 {1} {} False)" using wf_step.clear [of "?w WfClear True 0 {1} {} False"] by simp
  moreover have "wf_step (?w WfUnblock True 0 {1} {} False) (?w WfTest False 0 {1} {} False)" using wf_step.unblock [of "?w WfUnblock True 0 {1} {} False"] by simp
  moreover have "wf_step (?w WfTest False 0 {1} {} False) (?w WfCall False 0 {1} {} False)" using wf_step.test [of "?w WfTest False 0 {1} {} False"] by simp
  moreover have "wf_step (?w WfCall False 0 {1} {} False) (?w WfCall False 0 {} {1} True)" using wf_step.dies [of 1 "?w WfCall False 0 {1} {} False"] by simp
  moreover have "wf_step (?w WfCall False 0 {} {1} True) (?w WfCall False 1 {} {} False)"
    using wf_step.sigchld [of "?w WfCall False 0 {} {1} True" 1] by (simp add: woken_def)
  moreover have "wf_step (?w WfCall False 1 {} {} False) lost" using wf_step.pause [of "?w WfCall False 1 {} {} False"] by (simp add: lost_def)
  ultimately show ?thesis by (meson rtranclp.rtrancl_refl converse_rtranclp_into_rtranclp)
qed

text \<open>The child has been reaped, the variable is set, and the loop sleeps: only \<^verbatim>\<open>SIGINT\<close> moves it.\<close>

theorem wakeup_lost:
  "\<exists>s. wf_step\<^sup>*\<^sup>* wf_start s \<and> wf_pc s = WfPaused \<and> wf_pid s \<noteq> 0 \<and> (\<forall>t. wf_step s t \<longleftrightarrow> t = woken s)"
proof (intro exI conjI allI)
  show "wf_step\<^sup>*\<^sup>* wf_start lost" by (rule lost_reached)
  show "wf_step lost t \<longleftrightarrow> t = woken lost" for t
    by (auto simp: lost_def elim: wf_step.cases intro: wf_step.sigint)
qed (simp_all add: lost_def)

section \<open>Signals do not queue\<close>

definition sg_inv :: "reaper \<Rightarrow> bool" where
  "sg_inv s \<longleftrightarrow> sg_forked s \<le> 3 \<and> sg_forked s = sg_alive s + sg_zombies s + sg_reaped s \<and> (0 < sg_zombies s \<longrightarrow> sg_pending s \<or> sg_handling s)"

lemma sg_inv_reach: "(sg_step False)\<^sup>*\<^sup>* sg_start s \<Longrightarrow> sg_inv s"
proof (induction rule: rtranclp_induct)
  case base
  then show ?case by (simp add: sg_inv_def sg_start_def)
next
  case (step s t)
  from step(2,3) show ?case by cases (auto simp: sg_inv_def)
qed

lemma sg_once_leaves:
  "(sg_step True)\<^sup>*\<^sup>* sg_start \<lparr>sg_forked = 3, sg_alive = 0, sg_zombies = 1, sg_pending = False, sg_handling = False, sg_reaped = 2\<rparr>"
proof -
  let ?w = "\<lambda>f al zo pe ha re. \<lparr>sg_forked = f, sg_alive = al, sg_zombies = zo, sg_pending = pe, sg_handling = ha, sg_reaped = re\<rparr> :: reaper"
  have forks: "sg_step True sg_start (?w 1 1 0 False False 0)" "sg_step True (?w 1 1 0 False False 0) (?w 2 2 0 False False 0)"
    "sg_step True (?w 2 2 0 False False 0) (?w 3 3 0 False False 0)"
    using sg_step.fork [of sg_start True] sg_step.fork [of "?w 1 1 0 False False 0" True] sg_step.fork [of "?w 2 2 0 False False 0" True]
    by (simp_all add: sg_start_def numeral_eq_Suc)
  have first: "sg_step True (?w 3 3 0 False False 0) (?w 3 2 1 True False 0)" "sg_step True (?w 3 2 1 True False 0) (?w 3 2 1 False True 0)"
    "sg_step True (?w 3 2 1 False True 0) (?w 3 1 2 True True 0)" "sg_step True (?w 3 1 2 True True 0) (?w 3 0 3 True True 0)"
    using sg_step.dies [of "?w 3 3 0 False False 0" True] sg_step.deliver [of "?w 3 2 1 True False 0" True]
      sg_step.dies [of "?w 3 2 1 False True 0" True] sg_step.dies [of "?w 3 1 2 True True 0" True]
    by (simp_all add: numeral_eq_Suc)
  have rest: "sg_step True (?w 3 0 3 True True 0) (?w 3 0 2 True False 1)" "sg_step True (?w 3 0 2 True False 1) (?w 3 0 2 False True 1)"
    "sg_step True (?w 3 0 2 False True 1) (?w 3 0 1 False False 2)"
    using sg_step.reap [of "?w 3 0 3 True True 0" True] sg_step.deliver [of "?w 3 0 2 True False 1" True] sg_step.reap [of "?w 3 0 2 False True 1" True]
    by (simp_all add: numeral_eq_Suc)
  show ?thesis using forks first rest by (meson rtranclp.rtrancl_refl converse_rtranclp_into_rtranclp)
qed

text \<open>
  With the installed handler all three children have been reaped whenever the program has come to rest; with the
  other one a zombie can be left, because two of three signals were one.
\<close>

theorem handlers_reap:
  "((sg_step False)\<^sup>*\<^sup>* sg_start s \<and> at_rest s \<longrightarrow> sg_reaped s = 3 \<and> sg_zombies s = 0)
   \<and> (\<exists>t. (sg_step True)\<^sup>*\<^sup>* sg_start t \<and> at_rest t \<and> sg_zombies t = 1)"
proof (intro conjI impI)
  assume a: "(sg_step False)\<^sup>*\<^sup>* sg_start s \<and> at_rest s"
  then have "sg_inv s" using sg_inv_reach by blast
  then show "sg_reaped s = 3" "sg_zombies s = 0" using a by (auto simp: sg_inv_def at_rest_def)
qed (use sg_once_leaves in \<open>fastforce simp: at_rest_def\<close>)

end
