(* ===== verification/Echo_Threads.thy ===== *)
theory Echo_Threads
  imports C_Strings
begin

text \<open>
  The counting echo threads of \<^verbatim>\<open>excode/12ConcurrencyProgramming/echoservert-pre.c\<close>: every thread reads the lines of its
  connections and adds their lengths to a common counter, with a mutex around the addition and the
  message.  An access to the counter is a step; the lengths of the lines a thread will read are given.
\<close>

section \<open>The threads\<close>

datatype ec_pc = EcRead | EcHolds int | EcLoaded int int | EcStored int

record echo_cnt =
  ec_byte_cnt :: int
  ec_mutex :: nat
  ec_said :: "(int \<times> int) list"
  ec_threads :: "(ec_pc \<times> int list) list"

text \<open>The line that is read next and the wait for the mutex; load; addition and store; message and release.  A thread
  without lines has finished.\<close>

fun ec_move :: "echo_cnt \<Rightarrow> ec_pc \<times> int list \<Rightarrow> (echo_cnt \<times> ec_pc \<times> int list) option" where
  "ec_move s (EcRead, []) = None"
| "ec_move s (EcRead, n # ns) = (if ec_mutex s = 0 then None else Some (s\<lparr>ec_mutex := ec_mutex s - 1\<rparr>, EcHolds n, ns))"
| "ec_move s (EcHolds n, ns) = Some (s, EcLoaded n (ec_byte_cnt s), ns)"
| "ec_move s (EcLoaded n r, ns) = Some (s\<lparr>ec_byte_cnt := int32 (r + n)\<rparr>, EcStored n, ns)"
| "ec_move s (EcStored n, ns) = Some (s\<lparr>ec_said := ec_said s @ [(n, ec_byte_cnt s)], ec_mutex := ec_mutex s + 1\<rparr>, EcRead, ns)"

inductive ec_step :: "echo_cnt \<Rightarrow> echo_cnt \<Rightarrow> bool" where
  "\<lbrakk>k < length (ec_threads s); ec_move s (ec_threads s ! k) = Some (s', t)\<rbrakk>
     \<Longrightarrow> ec_step s (s'\<lparr>ec_threads := (ec_threads s)[k := t]\<rparr>)"

definition ec_start :: "int list list \<Rightarrow> echo_cnt" where
  "ec_start lens = \<lparr>ec_byte_cnt = 0, ec_mutex = 1, ec_said = [], ec_threads = map (Pair EcRead) lens\<rparr>"

definition ec_done :: "echo_cnt \<Rightarrow> bool" where
  "ec_done s \<longleftrightarrow> list_all (\<lambda>t. t = (EcRead, [])) (ec_threads s)"

definition ec_message :: "int \<times> int \<Rightarrow> int \<Rightarrow> string" where
  "ec_message m connfd = ''server received '' @ show_int (fst m) @ '' ('' @ show_int (snd m) @ '' total) bytes on fd '' @ show_int connfd @ [NEWLINE]"

section \<open>The invariant\<close>

definition inside :: "ec_pc \<times> int list \<Rightarrow> nat" where
  "inside t = (if fst t = EcRead then 0 else 1)"

lemma inside_simps [simp]:
  "inside (EcRead, ns) = 0" "inside (EcHolds n, ns) = 1" "inside (EcLoaded n r, ns) = 1" "inside (EcStored n, ns) = 1"
  by (simp_all add: inside_def)

text \<open>Bytes that are still to be announced, and bytes that are in the counter but not yet announced.\<close>

fun unsaid :: "ec_pc \<times> int list \<Rightarrow> int" where
  "unsaid (EcRead, ns) = sum_list ns"
| "unsaid (EcHolds n, ns) = n + sum_list ns"
| "unsaid (EcLoaded n r, ns) = n + sum_list ns"
| "unsaid (EcStored n, ns) = n + sum_list ns"

fun stored :: "ec_pc \<times> int list \<Rightarrow> int" where
  "stored (EcStored n, ns) = n"
| "stored t = 0"

fun loaded_ok :: "int \<Rightarrow> ec_pc \<times> int list \<Rightarrow> bool" where
  "loaded_ok c (EcLoaded n r, ns) \<longleftrightarrow> r = c"
| "loaded_ok c t \<longleftrightarrow> True"

definition partial_sums :: "(int \<times> int) list \<Rightarrow> bool" where
  "partial_sums ms \<longleftrightarrow> (\<forall>k < length ms. snd (ms ! k) = int32 (sum_list (map fst (take (k + 1) ms))))"

definition ec_inv :: "int \<Rightarrow> echo_cnt \<Rightarrow> bool" where
  "ec_inv bytes s \<longleftrightarrow>
     sum_list (map inside (ec_threads s)) + ec_mutex s = 1
     \<and> ec_byte_cnt s = int32 (sum_list (map fst (ec_said s)) + sum_list (map stored (ec_threads s)))
     \<and> sum_list (map fst (ec_said s)) + sum_list (map unsaid (ec_threads s)) = bytes
     \<and> list_all (loaded_ok (ec_byte_cnt s)) (ec_threads s)
     \<and> partial_sums (ec_said s)"

lemma sum_list_at: "k < length xs \<Longrightarrow> sum_list (map f (xs[k := y])) + f (xs ! k) = sum_list (map f xs) + (f y :: 'a :: comm_monoid_add)"
proof (induction xs arbitrary: k)
  case (Cons x xs)
  then show ?case by (cases k) (simp_all add: ac_simps)
qed simp

lemma sum_list_ge: "k < length xs \<Longrightarrow> (f (xs ! k) :: nat) \<le> sum_list (map f xs)"
  by (induction xs arbitrary: k) (auto simp: nth_Cons' add_increasing)

lemma int32_add: "int32 (int32 x + y) = int32 (x + y)"
proof -
  have "((x + 2 ^ 31) mod 2 ^ 32 + y) mod 2 ^ 32 = (x + 2 ^ 31 + y) mod 2 ^ 32" by (rule mod_add_left_eq)
  then show ?thesis by (simp add: int32_def ac_simps)
qed

lemma partial_sums_snoc:
  "partial_sums ms \<Longrightarrow> c = int32 (sum_list (map fst ms) + n) \<Longrightarrow> partial_sums (ms @ [(n, c)])"
  by (auto simp: partial_sums_def nth_append less_Suc_eq)

text \<open>When one thread is inside, no other has loaded a value.\<close>

lemma alone:
  assumes "sum_list (map inside ts) \<le> 1" and "k < length ts" and "inside (ts ! k) = 1"
  shows "list_all (loaded_ok c) (ts[k := t]) \<longleftrightarrow> loaded_ok c t" and "sum_list (map stored ts) = stored (ts ! k)"
proof -
  have out: "inside (ts ! j) = 0" if "j < length ts" "j \<noteq> k" for j
  proof -
    have "sum_list (map inside (ts[k := (EcRead, [])])) + 1 = sum_list (map inside ts)"
      using sum_list_at [OF assms(2), of inside "(EcRead, [])"] assms(3) by (simp add: inside_def)
    then have z: "sum_list (map inside (ts[k := (EcRead, [])])) \<le> 0" using assms(1) by linarith
    have "inside (ts[k := (EcRead, [])] ! j) \<le> sum_list (map inside (ts[k := (EcRead, [])]))" by (rule sum_list_ge) (use that in simp)
    with z have "inside (ts[k := (EcRead, [])] ! j) \<le> 0" by (rule order_trans [rotated])
    then show ?thesis using that by simp
  qed
  have idle: "loaded_ok c u \<and> stored u = 0" if "inside u = 0" for u
    using that by (cases u) (auto simp: inside_def split: if_splits)
  have "loaded_ok c (ts[k := t] ! j) \<longleftrightarrow> (j = k \<longrightarrow> loaded_ok c t)" if "j < length ts" for j
    using that out [OF that] idle [of "ts ! j"] by (cases "j = k") simp_all
  then show "list_all (loaded_ok c) (ts[k := t]) \<longleftrightarrow> loaded_ok c t" using assms(2) by (auto simp: list_all_length)
  have "map stored (ts[k := (EcRead, [])]) = map (\<lambda>_. 0) ts"
  proof (rule nth_equalityI)
    fix j
    assume "j < length (map stored (ts[k := (EcRead, [])]))"
    then show "map stored (ts[k := (EcRead, [])]) ! j = map (\<lambda>_. 0) ts ! j"
      using out [of j] idle [of "ts ! j"] by (cases "j = k") simp_all
  qed simp
  then have "sum_list (map stored (ts[k := (EcRead, [])])) = 0" by simp
  then show "sum_list (map stored ts) = stored (ts ! k)" using sum_list_at [OF assms(2), of stored "(EcRead, [])"] by simp
qed

lemma ec_inv_step:
  assumes "ec_step s u" and "ec_inv bytes s"
  shows "ec_inv bytes u"
  using assms(1)
proof cases
  case (1 k s' t)
  note I = assms(2) [unfolded ec_inv_def]
  let ?ts = "ec_threads s"
  note at = sum_list_at [OF 1(2), of inside t] sum_list_at [OF 1(2), of unsaid t] sum_list_at [OF 1(2), of stored t]
  have one: "sum_list (map inside ?ts) \<le> 1" using I by linarith
  obtain p ns where p: "?ts ! k = (p, ns)" by fastforce
  show ?thesis
  proof (cases p)
    case EcRead
    with 1(3) p obtain n ns' where c: "ns = n # ns'" "ec_mutex s \<noteq> 0" "s' = s\<lparr>ec_mutex := ec_mutex s - 1\<rparr>" "t = (EcHolds n, ns')"
      by (cases ns) (auto split: if_splits)
    have "list_all (loaded_ok (ec_byte_cnt s)) (?ts[k := t])"
    proof -
      have "list_all (loaded_ok (ec_byte_cnt s)) ?ts" using I by blast
      then have "loaded_ok (ec_byte_cnt s) (?ts[k := t] ! j)" if "j < length ?ts" for j
        using c(4) that by (cases "j = k") (simp_all add: list_all_length)
      then show ?thesis by (simp add: list_all_length)
    qed
    moreover have "sum_list (map inside (?ts[k := t])) = sum_list (map inside ?ts) + 1" using at(1) c(4) p EcRead by simp
    then have "sum_list (map inside (?ts[k := t])) + (ec_mutex s - 1) = 1" using conjunct1 [OF I] c(2) by linarith
    ultimately show ?thesis using at(2,3) I c p EcRead 1(1) by (simp add: ec_inv_def)
  next
    case (EcHolds n)
    note A = alone [OF one 1(2)]
    have c: "s' = s" "t = (EcLoaded n (ec_byte_cnt s), ns)" "inside (?ts ! k) = 1" using 1(3) p EcHolds by auto
    then show ?thesis using at I p EcHolds 1(1) A(1) [OF c(3), of "ec_byte_cnt s" t] by (simp add: ec_inv_def)
  next
    case (EcLoaded n r)
    note A = alone [OF one 1(2)]
    have c: "s' = s\<lparr>ec_byte_cnt := int32 (r + n)\<rparr>" "t = (EcStored n, ns)" "inside (?ts ! k) = 1" using 1(3) p EcLoaded by auto
    have "list_all (loaded_ok (ec_byte_cnt s)) ?ts" using I by blast
    then have "loaded_ok (ec_byte_cnt s) (?ts ! k)" using 1(2) by (simp add: list_all_length)
    then have r: "r = int32 (sum_list (map fst (ec_said s)))" using I p EcLoaded A(2) [OF c(3)] by simp
    show ?thesis using at I p EcLoaded 1(1) c r A(2) [OF c(3)] A(1) [OF c(3), of "int32 (r + n)" t] by (simp add: ec_inv_def int32_add)
  next
    case (EcStored n)
    note A = alone [OF one 1(2)]
    have c: "s' = s\<lparr>ec_said := ec_said s @ [(n, ec_byte_cnt s)], ec_mutex := ec_mutex s + 1\<rparr>" "t = (EcRead, ns)" "inside (?ts ! k) = 1"
      using 1(3) p EcStored by auto
    have "ec_byte_cnt s = int32 (sum_list (map fst (ec_said s)) + n)" using I p EcStored A(2) [OF c(3)] by simp
    with I have "partial_sums (ec_said s @ [(n, ec_byte_cnt s)])" by (simp add: partial_sums_snoc)
    moreover have "sum_list (map inside (?ts[k := t])) + 1 = sum_list (map inside ?ts)" using at(1) c(2,3) by simp
    then have "sum_list (map inside (?ts[k := t])) + (ec_mutex s + 1) = 1" using conjunct1 [OF I] by linarith
    ultimately show ?thesis using at(2,3) I p EcStored 1(1) c A(2) [OF c(3)] A(1) [OF c(3), of "ec_byte_cnt s" t] by (simp add: ec_inv_def)
  qed
qed

lemma ec_inv_reach: "ec_step\<^sup>*\<^sup>* (ec_start lens) s \<Longrightarrow> ec_inv (sum_list (map sum_list lens)) s"
proof (induction rule: rtranclp_induct)
  case base
  have "sum_list (map inside (map (Pair EcRead) lens)) = 0" "sum_list (map stored (map (Pair EcRead) lens)) = 0"
    "sum_list (map unsaid (map (Pair EcRead) lens)) = sum_list (map sum_list lens)" by (induction lens) simp_all
  then show ?case unfolding ec_inv_def ec_start_def by (auto simp: partial_sums_def list_all_length int32_def)
next
  case (step s t)
  then show ?case using ec_inv_step by blast
qed

section \<open>Properties\<close>

text \<open>
  The counting threads, with any number of them and whatever lines they read: in every schedule the totals that are
  printed are the sums, in the order of the messages, of the lengths printed so far, in C's 32-bit arithmetic,
  and when all lines have been served the counter is the sum of all lengths.
\<close>

theorem echo_totals_exact:
  assumes "ec_step\<^sup>*\<^sup>* (ec_start lens) s"
  shows "(\<forall>k < length (ec_said s). snd (ec_said s ! k) = int32 (sum_list (map fst (take (k + 1) (ec_said s)))))
    \<and> (ec_done s \<longrightarrow> ec_byte_cnt s = int32 (sum_list (map sum_list lens)))"
proof -
  note I = ec_inv_reach [OF assms, unfolded ec_inv_def partial_sums_def]
  have "ec_byte_cnt s = int32 (sum_list (map sum_list lens))" if "ec_done s"
  proof -
    have e: "ec_threads s = replicate (length (ec_threads s)) (EcRead, [])"
      using that by (intro replicate_length_same [symmetric]) (auto simp: ec_done_def list_all_iff)
    have "sum_list (map stored (ec_threads s)) = 0" "sum_list (map unsaid (ec_threads s)) = 0"
      by (subst e, simp add: sum_list_replicate)+
    then show ?thesis using I by simp
  qed
  then show ?thesis using I by blast
qed

lemma echo_totals_exact_witness:
  "\<exists>s. ec_step\<^sup>*\<^sup>* (ec_start [[5], [7]]) s \<and> length (ec_said s) = 1 \<and> snd (ec_said s ! 0) = 7"
proof -
  let ?s = "\<lambda>c m sd t. \<lparr>ec_byte_cnt = c, ec_mutex = m, ec_said = sd, ec_threads = [(EcRead, [5]), t]\<rparr>"
  have "ec_step (ec_start [[5], [7]]) (?s 0 0 [] (EcHolds 7, []))"
    using ec_step.intros [of 1 "ec_start [[5], [7]]"] by (simp add: ec_start_def)
  moreover have "ec_step (?s 0 0 [] (EcHolds 7, [])) (?s 0 0 [] (EcLoaded 7 0, []))" using ec_step.intros [of 1 "?s 0 0 [] (EcHolds 7, [])"] by simp
  moreover have "ec_step (?s 0 0 [] (EcLoaded 7 0, [])) (?s 7 0 [] (EcStored 7, []))"
    using ec_step.intros [of 1 "?s 0 0 [] (EcLoaded 7 0, [])"] by (simp add: int32_def)
  moreover have "ec_step (?s 7 0 [] (EcStored 7, [])) (?s 7 1 [(7, 7)] (EcRead, []))" using ec_step.intros [of 1 "?s 7 0 [] (EcStored 7, [])"] by simp
  ultimately have "ec_step\<^sup>*\<^sup>* (ec_start [[5], [7]]) (?s 7 1 [(7, 7)] (EcRead, []))"
    by (meson rtranclp.rtrancl_refl converse_rtranclp_into_rtranclp)
  from echo_totals_exact [OF this] this show ?thesis by (intro exI [of _ "?s 7 1 [(7, 7)] (EcRead, [])"]) (simp add: int32_def)
qed

end
