(* ===== verification/Spec2Isabelle.thy ===== *)
theory Spec2Isabelle
  imports Driver_Main Clock Stock_Client Command_Types Thread_Snapshot Event_Turn Course_Examples Event_Correct Sbuf_Threads Thread_Progress Thread_Server Buddy_Correct Calc64 Shell_Jobs_Correct Sockets Tiny
    Stock_Tests Calc64_Skeleton Machine_Code Race_Examples Process_Examples Net_Addresses Open_Files Textbook_Mm Book_Programs
    Client_Csapp Signal_Examples Echo_Threads
begin

text \<open>
  The repository holds three systems-programming projects in C and some exercises: memory allocators with
  the driver that tests and scores them (\<^verbatim>\<open>mymalloc_nextfit\<close>, \<^verbatim>\<open>mymalloc_buddy\<close>, \<^verbatim>\<open>CSE4100/vm/malloc\<close>), a stock
  server in an event-driven and a thread-based version (\<^verbatim>\<open>concurrent_stockserver\<close>), a shell with pipelines and
  job control (\<^verbatim>\<open>myshell\<close>), the robust I/O library they share (\<^verbatim>\<open>csapp.c\<close>), and a 64-bit calculator
  (\<^verbatim>\<open>CSE3030/calculator\<close>).  This development models their code as HOL functions and step relations and proves
  what makes each of them correct; where the code does not do what it means to, a theorem shows that too.

  \<^bold>\<open>Shared material.\<close>  \<^verbatim>\<open>Prelude\<close>: bytes, 32-bit words, byte-addressed memory with little-endian loads and
  stores, counting over lists.  \<^verbatim>\<open>C_Strings\<close>: C strings as lists of characters, \<^verbatim>\<open>atoi\<close>, \<^verbatim>\<open>%d\<close> printing, scanning,
  \<^verbatim>\<open>strncmp\<close>.

  \<^bold>\<open>Allocators.\<close>  \<^verbatim>\<open>Memlib\<close> is \<^verbatim>\<open>memlib.c\<close> (the simulated \<^verbatim>\<open>sbrk\<close>).  \<^verbatim>\<open>Boundary_Tags\<close> holds the macros over block headers
  and footers and the theory of a heap as a list of blocks with sizes and allocation bits.  \<^verbatim>\<open>Alloc_Spec\<close> states the
  contract of an allocator, with its live payloads, as the locales \<^verbatim>\<open>allocator\<close> and \<^verbatim>\<open>reallocator\<close>.  \<^verbatim>\<open>NextFit\<close> and
  \<^verbatim>\<open>NextFit_Correct\<close> model \<^verbatim>\<open>mymalloc_nextfit/mm.c\<close>, \<^verbatim>\<open>FirstFit\<close> and \<^verbatim>\<open>FirstFit_Correct\<close> the textbook allocator
  \<^verbatim>\<open>CSE4100/vm/malloc/mm.c\<close>; both are interpretations of the contract, and the second is proved by a simulation into
  the first.  The search loops are partial functions into \<open>option\<close>; that they return is part of the theorems.
  \<^verbatim>\<open>Buddy\<close> and \<^verbatim>\<open>Buddy_Correct\<close> model \<^verbatim>\<open>mymalloc_buddy/mm.c\<close>: intrusive lists, bitmaps in byte memory, every \<^verbatim>\<open>assert\<close>
  as a fault.  The invariant is that free and used blocks tile the pages; allocation is correct in every reachable
  state, while releasing the first block always runs into an assertion.

  \<^bold>\<open>Driver.\<close>  \<^verbatim>\<open>MDriver\<close> is the checking part of \<^verbatim>\<open>mdriver.c\<close> over any allocator (locales \<^verbatim>\<open>driven\<close> and
  \<^verbatim>\<open>driven_realloc\<close>, interpreted on the next-fit and the first-fit allocator): the driver accepts both on every
  well-formed trace, up to lack of memory.  \<^verbatim>\<open>Trace_File\<close> is \<open>read_trace\<close>, with a round trip; \<^verbatim>\<open>Fcyc\<close> is the K-best
  measurement of \<^verbatim>\<open>fcyc.c\<close>, which returns the fastest run, \<^verbatim>\<open>Clock\<close> the cycle counter of \<^verbatim>\<open>clock.c\<close> and the timers of
  \<^verbatim>\<open>ftimer.c\<close>, whose readings are arguments; \<^verbatim>\<open>Driver_Score\<close> is the scoring in \<open>main\<close> and the runs over the C library, whose
  allocator is an argument; \<^verbatim>\<open>Driver_Runs\<close> shows that the utilisation and speed runs end (locale \<^verbatim>\<open>growing\<close>), and
  \<^verbatim>\<open>Driver_Main\<close> is \<open>main\<close> with its options, its loops over the trace files and its report.

  \<^bold>\<open>Stock servers.\<close>  \<^verbatim>\<open>Stock_Spec\<close> is the abstract table (locale \<^verbatim>\<open>stock_store\<close>), \<^verbatim>\<open>Stock_Tree\<close> its implementation by
  \<^verbatim>\<open>binary_tree.c\<close>, \<^verbatim>\<open>Stock_File\<close> the stock file, \<^verbatim>\<open>Stock_Parser\<close> the command parser (both servers have the same code),
  \<^verbatim>\<open>Rio\<close> the robust I/O functions of \<^verbatim>\<open>csapp.c\<close> over a stream that the kernel delivers in arbitrary pieces, and
  \<^verbatim>\<open>Trade_Lines\<close> the path of a trade line through reader and parser.  \<^verbatim>\<open>Event_Server\<close> and \<^verbatim>\<open>Event_Correct\<close> are the
  event-driven server: pool, commands, service of a ready set, main loop, with the invariant of all reachable states
  and the end-to-end theorem for a trade; \<^verbatim>\<open>Event_Turn\<close> shows that a turn serves every ready client.  \<^verbatim>\<open>Sbuf\<close> and \<^verbatim>\<open>Sbuf_Threads\<close> are the queue of waiting connections
  (locale \<^verbatim>\<open>bounded_fifo\<close>) under every interleaving of its semaphore operations.  \<^verbatim>\<open>Thread_Sync\<close> is a step relation
  with one step per access to shared memory for the commands of the thread-based server; \<^verbatim>\<open>Thread_Progress\<close> shows that the
  pending commands can always be finished.  \<^verbatim>\<open>Thread_Snapshot\<close> is the writing of the stock file by a signal handler while
  workers may serve: the file catches up whenever the server is quiet.
  \<^verbatim>\<open>Thread_Server\<close> is the service of one connection and the worker; the locale
  \<^verbatim>\<open>line_service\<close> is what its loop needs of the lines a client sends.  \<^verbatim>\<open>Command_Types\<close> is the typing of commands: what the parser
  delivers fits the table of commands, and typed commands run.  \<^verbatim>\<open>Stock_Client\<close> models the clients of
  \<^verbatim>\<open>concurrent_stockserver/client\<close> (locale \<^verbatim>\<open>ordering_client\<close>, interpreted on each kind of query) and puts a client and a worker
  together: all orders are served, and the client prints the answers.
  \<^verbatim>\<open>Stock_Tests\<close> is the test of the binary tree (\<^verbatim>\<open>test/e_test/binary_tree_test.c\<close>), which passes with every generator that
  comes back to each identifier, and the benchmark with the programs it starts (\<^verbatim>\<open>test/common_test\<close>).

  \<^bold>\<open>Shell.\<close>  \<^verbatim>\<open>Shell_Parser\<close> is the command line (\<^verbatim>\<open>interpreter.c\<close>, \<^verbatim>\<open>builtin.c\<close>), \<^verbatim>\<open>Shell_Exec\<close> the pipes and descriptor
  tables of \<^verbatim>\<open>execute.c\<close>, \<^verbatim>\<open>Shell_Jobs\<close> the table of jobs, the builtins, the signal handlers and the turn of the shell;
  \<^verbatim>\<open>Shell_Jobs_Correct\<close> has the theorems, with the commands on jobs behind the locale \<^verbatim>\<open>job_command\<close>.

  \<^bold>\<open>Calculator.\<close>  \<^verbatim>\<open>Calc64\<close> is the bit-serial arithmetic of \<^verbatim>\<open>hw1.c\<close>, against 64-bit words;
  \<^verbatim>\<open>Calc64_Skeleton\<close> is the first version of the program and agrees with it but for one line of output.

  \<^bold>\<open>Network helpers and web server.\<close>  \<^verbatim>\<open>Sockets\<close> is the opening of client and listening sockets (\<^verbatim>\<open>csapp.c\<close> and the
  servers' \<^verbatim>\<open>util.c\<close>): the first address that works is taken, and no descriptor is left open on an error; \<^verbatim>\<open>Client_Csapp\<close> is
  the clients' older copy, which behaves the same behind its wrappers.  \<^verbatim>\<open>Tiny\<close> is
  the web server of \<^verbatim>\<open>excode/11NetworkProgramming\<close>: every complete request is answered whatever pieces it arrives in,
  and one that is cut off is never answered.

  \<^bold>\<open>Wrappers and course programs.\<close>  \<^verbatim>\<open>Wrappers\<close> has the error-checking wrappers of \<^verbatim>\<open>csapp.c\<close> (locale \<^verbatim>\<open>wrapper\<close>); \<^verbatim>\<open>Course_Examples\<close> the
  parallel sum, the echo server and client, a small shell and the driver of the bomb.

  \<^bold>\<open>Textbook programs and exercises\<close> (\<^verbatim>\<open>excode\<close>, \<^verbatim>\<open>CSE3030/HW1_PP\<close>).  \<^verbatim>\<open>Machine_Code\<close>: C functions and the listings in their
  files, run on a small machine.  \<^verbatim>\<open>Race_Examples\<close>: threads with a shared counter or a shared loop variable, one step
  per access.  \<^verbatim>\<open>Process_Examples\<close>: what a parent and a child print under every schedule, the job list under a blocked signal,
  the loop on \<^verbatim>\<open>sigsuspend\<close>, the jump with \<^verbatim>\<open>longjmp\<close>.  \<^verbatim>\<open>Open_Files\<close>: descriptors that share an open file.
  \<^verbatim>\<open>Net_Addresses\<close>: the two address converters, which undo each other.  \<^verbatim>\<open>Textbook_Mm\<close>: the beginnings of an allocator.
  \<^verbatim>\<open>Signal_Examples\<close>: the signal that arrives before \<^verbatim>\<open>pause\<close>, and why a handler must reap in a loop.  \<^verbatim>\<open>Echo_Threads\<close>: the
  counter of the echo threads, whose printed totals are exact under every interleaving.
  \<^verbatim>\<open>Book_Programs\<close>: the book's shell, its echo server on \<^verbatim>\<open>select\<close> and its shared buffer, a second interpretation of
  \<^verbatim>\<open>bounded_fifo\<close>.

  \<^bold>\<open>Conventions.\<close>  A struct is a record, an enum a datatype, a failing assertion, a wild or freed pointer and an index
  outside an array are values of a fault type.  What is uninitialised in C is an argument.  Answers of the kernel and of
  the C library are arguments of the operations that use them.  Loops that may not end are partial functions or have fuel; the
  theorems give the fuel that is enough: one turn per request line and one for the end of the input in \<open>service_loop\<close>, the
  maximal number of samples in \<open>fcyc_loop\<close>, the size of the table in the loops over the jobs.  C integers are 32-bit
  words or integers with the wrap-around written out where the code depends on it.

  \<^bold>\<open>Not modelled.\<close>  The cycle counter of the Alpha; the wording of messages and help texts; the copies of \<^verbatim>\<open>csapp.c\<close>, of
  the driver and of an allocator under other directories, which are the same code; \<^verbatim>\<open>stockfile_handle_test.c\<close>, which does not compile;
  the textbook examples that show a single system call without a state or a decision of their own; and the phases
  of the bomb, whose source is not here.  Doubles are read as real numbers in \<^verbatim>\<open>Fcyc\<close>, \<^verbatim>\<open>Clock\<close> and \<^verbatim>\<open>Driver_Score\<close>; the repeated runs of a
  timed function are one run in \<^verbatim>\<open>Driver_Main\<close>.  Signal handlers of the shell run while it waits, not between any two
  instructions.
\<close>

end
